(* ===== verification/Prelude.thy ===== *)
theory Prelude
  imports Main "HOL-Library.Word"
begin

unbundle bit_operations_syntax

text \<open>
  Shared ground of the development: the machine-integer types of the C sources, the
  \<^verbatim>\<open>for\<close> loop over an array that the headers call \<^verbatim>\<open>LOOP\<close>, reachability of a
  step relation with its invariant rule, runs of an interleaving (a schedule is a list of
  actions), and the few list, map and word lemmas that several components need.
\<close>

section \<open>Types of the C sources\<close>

type_synonym u16 = "16 word"
type_synonym u32 = "32 word"
type_synonym u64 = "64 word"

text \<open>
  \<^verbatim>\<open>Object\<close>, \<^verbatim>\<open>RetVal\<close> and \<^verbatim>\<open>ArgVal\<close> of config.h are all \<^verbatim>\<open>int64_t\<close>.
  Their bit pattern is a \<open>u64\<close>; \<open>sint\<close> reads it as the signed value.
\<close>

type_synonym val64 = "64 word"

text \<open>Thread identifiers (\<^verbatim>\<open>pid\<close>) and node addresses; \<open>None\<close> is \<^verbatim>\<open>NULL\<close>.\<close>

type_synonym tid = nat
type_synonym ptr = "nat option"

named_theorems machine_simps "unfolding rules of step functions and their helpers"

section \<open>Arrays updated by a counting loop\<close>

text \<open>
  \<^verbatim>\<open>for (i = 0; i < n; i++) a[i] = f(i, a);\<close> The body may read the array it
  writes, as it does when source and destination are the same vector.
\<close>

definition loop_upd :: "nat \<Rightarrow> (nat \<Rightarrow> 'a list \<Rightarrow> 'a) \<Rightarrow> 'a list \<Rightarrow> 'a list" where
  "loop_upd n f a = fold (\<lambda>i xs. xs[i := f i xs]) [0..<n] a"

lemma loop_upd_0 [simp]: "loop_upd 0 f a = a"
  by (simp add: loop_upd_def)

lemma loop_upd_Suc: "loop_upd (Suc n) f a = (loop_upd n f a)[n := f n (loop_upd n f a)]"
  by (simp add: loop_upd_def)

lemma length_loop_upd [simp]: "length (loop_upd n f a) = length a"
  by (induction n) (simp_all add: loop_upd_Suc)

lemma loop_upd_beyond: "n \<le> j \<Longrightarrow> loop_upd n f a ! j = a ! j"
  by (induction n) (simp_all add: loop_upd_Suc)

text \<open>If the body reads only the cell it is about to write, each cell is computed from the
  original array.\<close>

lemma nth_loop_upd:
  assumes "\<And>xs ys. xs ! j = ys ! j \<Longrightarrow> f j xs = f j ys" and "j < n" and "j < length a"
  shows "loop_upd n f a ! j = f j a"
  using assms(2)
proof (induction n)
  case (Suc n)
  show ?case
  proof (cases "j = n")
    case True
    have "loop_upd n f a ! j = a ! j" using True by (simp add: loop_upd_beyond)
    then have "f j (loop_upd n f a) = f j a" by (rule assms(1))
    with True assms(3) show ?thesis by (simp add: loop_upd_Suc)
  qed (use Suc in \<open>simp add: loop_upd_Suc\<close>)
qed simp

lemma loop_upd_const:
  assumes "n = length a"
  shows "loop_upd n (\<lambda>_ _. c) a = replicate n c"
  by (rule nth_equalityI) (use assms in \<open>simp_all add: nth_loop_upd\<close>)

section \<open>Reachable states\<close>

text \<open>
  A machine is a start state and a step relation. The concurrent components use an
  interleaving semantics: an action names the thread that moves, a step runs one access to
  shared memory of that thread.
\<close>

inductive reach :: "'s \<Rightarrow> ('s \<Rightarrow> 's \<Rightarrow> bool) \<Rightarrow> 's \<Rightarrow> bool" for init step where
  reach_init: "reach init step init"
| reach_step: "reach init step s \<Longrightarrow> step s t \<Longrightarrow> reach init step t"

lemma reach_invariant:
  assumes "reach init step s" and "P init"
    and "\<And>s t. reach init step s \<Longrightarrow> P s \<Longrightarrow> step s t \<Longrightarrow> P t"
  shows "P s"
  using assms(1) by (induction rule: reach.induct) (auto intro: assms(2,3))

text \<open>The step relation of a machine whose moves are a function of an enabled action.\<close>

definition act_step :: "('s \<Rightarrow> 'a \<Rightarrow> bool) \<Rightarrow> ('a \<Rightarrow> 's \<Rightarrow> 's) \<Rightarrow> 's \<Rightarrow> 's \<Rightarrow> bool" where
  "act_step ok exec s t \<longleftrightarrow> (\<exists>a. ok s a \<and> t = exec a s)"

text \<open>A schedule, run action by action; \<open>None\<close> when an action is not enabled.\<close>

fun run_acts :: "('s \<Rightarrow> 'a \<Rightarrow> bool) \<Rightarrow> ('a \<Rightarrow> 's \<Rightarrow> 's) \<Rightarrow> 'a list \<Rightarrow> 's \<Rightarrow> 's option" where
  "run_acts ok exec [] s = Some s"
| "run_acts ok exec (a # as) s = (if ok s a then run_acts ok exec as (exec a s) else None)"

lemma run_acts_reach:
  "run_acts ok exec as s = Some t \<Longrightarrow> reach i (act_step ok exec) s \<Longrightarrow> reach i (act_step ok exec) t"
proof (induction as arbitrary: s)
  case (Cons a as)
  then have "act_step ok exec s (exec a s)" by (auto simp: act_step_def split: if_splits)
  with Cons show ?case by (auto split: if_splits intro: reach.reach_step)
qed simp

lemma run_acts_reachable: "run_acts ok exec as i = Some t \<Longrightarrow> reach i (act_step ok exec) t"
  by (rule run_acts_reach) (auto intro: reach.reach_init)

lemma act_reach_invariant:
  assumes "reach init (act_step ok exec) s" and "P init"
    and "\<And>s a. P s \<Longrightarrow> ok s a \<Longrightarrow> P (exec a s)"
  shows "P s"
  using assms(1) by (rule reach_invariant) (auto simp: act_step_def assms(2,3))

text \<open>For evaluating concrete schedules.\<close>

lemma replicate_num: "replicate (numeral k) x = x # replicate (pred_numeral k) x"
  by (simp add: numeral_eq_Suc)

section \<open>Words\<close>

lemma bit_one_push_iff [simp]:
  "bit (push_bit k (1 :: 'a::len word)) j \<longleftrightarrow> j = k \<and> k < LENGTH('a)"
  by (auto simp: bit_simps)

lemma bit_two_power_iff [simp]:
  "bit (2 ^ k :: 'a::len word) j \<longleftrightarrow> j = k \<and> k < LENGTH('a)"
  by (auto simp: bit_exp_iff)

lemma word_bits_eqI:
  fixes a b :: "'a::len word"
  assumes "\<And>j. j < LENGTH('a) \<Longrightarrow> bit a j = bit b j"
  shows "a = b"
  using assms by (auto intro: bit_word_eqI)

lemma len64: "LENGTH(64) = 64" by simp

lemma unat_u32_less: "unat (x :: u32) < 2 ^ 32"
  using unsigned_less [of x] by simp

lemma unat_u64_less: "unat (x :: u64) < 2 ^ 64"
  using unsigned_less [of x] by simp

lemma unat_ucast_u32_u64 [simp]: "unat (ucast (x :: u32) :: u64) = unat x"
proof -
  have "unat x < 2 ^ 64" using unat_u32_less [of x] by simp
  then show ?thesis by (simp only: unsigned_ucast_eq len64 take_bit_nat_eq_self)
qed

lemma unat_two_power:
  assumes "k < LENGTH('a)"
  shows "unat (2 ^ k :: 'a::len word) = 2 ^ k"
proof -
  have "(2 ^ k :: 'a word) = of_nat (2 ^ k)" by simp
  moreover have "(2 :: nat) ^ k < 2 ^ LENGTH('a)" using assms by simp
  ultimately show ?thesis
    by (simp only: unat_of_nat mod_less)
qed

text \<open>Adding a power of two whose bit is clear sets that bit and no other; subtracting it
  when the bit is set clears it.\<close>

lemma word_add_clear_bit:
  fixes a :: "'a::len word"
  assumes "\<not> bit a k"
  shows "a + push_bit k 1 = a XOR push_bit k 1"
proof -
  have "a AND push_bit k 1 = 0"
    using assms by (auto intro!: word_bits_eqI simp: bit_simps)
  then have "a + push_bit k 1 = a OR push_bit k 1" by (simp add: disjunctive_add_eq_or)
  also have "\<dots> = a XOR push_bit k 1"
    using assms by (auto intro!: word_bits_eqI simp: bit_simps)
  finally show ?thesis .
qed

lemma word_sub_set_bit:
  fixes a :: "'a::len word"
  assumes "bit a k"
  shows "a - push_bit k 1 = a XOR push_bit k 1"
proof -
  let ?b = "a XOR push_bit k 1"
  have "k < LENGTH('a)" using assms by (rule bit_imp_le_length)
  then have "\<not> bit ?b k" using assms by (simp add: bit_simps)
  then have "?b + push_bit k 1 = ?b XOR push_bit k 1" by (rule word_add_clear_bit)
  also have "\<dots> = a" by (simp add: xor.assoc)
  finally show ?thesis by (simp add: algebra_simps)
qed

lemma inj_on_exchange:
  assumes "inj_on g A" and "t \<notin> g ` A" and "p \<in> A"
  shows "inj_on (g(p := t)) A" and "g p \<notin> (g(p := t)) ` A"
  using assms by (auto simp: inj_on_def)

section \<open>Linked lists\<close>

text \<open>The nodes from the pointer \<open>h\<close> on, along the links \<open>n\<close>, up to the null pointer.\<close>

fun path :: "(nat \<Rightarrow> ptr) \<Rightarrow> ptr \<Rightarrow> nat list \<Rightarrow> bool" where
  "path n h [] \<longleftrightarrow> h = None"
| "path n h (x # xs) \<longleftrightarrow> h = Some x \<and> path n (n x) xs"

lemma path_cong: "(\<And>x. x \<in> set xs \<Longrightarrow> n' x = n x) \<Longrightarrow> path n' h xs = path n h xs"
  by (induction xs arbitrary: h) auto

lemma sint_u32: "unat (w :: u32) < 2 ^ 31 \<Longrightarrow> sint w = int (unat w)"
proof -
  assume "unat w < 2 ^ 31"
  then have "int (unat w) < int (2 ^ 31)" by (simp only: of_nat_less_iff)
  then have "uint w < 2 ^ 31" by (simp only: uint_nat of_nat_power of_nat_numeral)
  then have "signed_take_bit 31 (uint w) = uint w" using uint_ge_0 [of w]
    by (intro signed_take_bit_int_eq_self) (simp_all add: order_trans [of _ 0])
  then show ?thesis by (simp add: sint_uint)
qed

end
