(* ===== verification/Primitives.thy ===== *)
theory Primitives
  imports Prelude
begin

unbundle bit_operations_syntax

text \<open>
  The atomic instructions and the arithmetic helpers of libconcurrent/primitives/primitives.c.
  A memory maps addresses to 64-bit cells; an atomic instruction is a function from the memory
  to its result and the new memory. The \<^verbatim>\<open>DEBUG\<close> build counts executed and failed
  instructions in thread-local counters, which are threaded through; the flag \<open>debug\<close>
  says whether that build is meant. Fences have no effect in the interleaving semantics used
  here and are not modelled.
\<close>

section \<open>Counters of the DEBUG build\<close>

record counters =
  failed_cas :: u64
  executed_cas :: u64
  executed_swap :: u64
  executed_faa :: u64

definition zero_counters :: counters where
  "zero_counters = \<lparr>failed_cas = 0, executed_cas = 0, executed_swap = 0, executed_faa = 0\<rparr>"

definition count_cas :: "bool \<Rightarrow> bool \<Rightarrow> counters \<Rightarrow> counters" where
  "count_cas debug res k =
     (if debug
      then k\<lparr>executed_cas := executed_cas k + 1,
             failed_cas := failed_cas k + (1 - of_bool res)\<rparr>
      else k)"

section \<open>Atomic instructions\<close>

definition CASPTR :: "bool \<Rightarrow> ('a \<Rightarrow> u64) \<Rightarrow> counters \<Rightarrow> 'a \<Rightarrow> u64 \<Rightarrow> u64 \<Rightarrow> bool \<times> ('a \<Rightarrow> u64) \<times> counters" where
  "CASPTR debug m k A B C =
     (let res = (m A = B); m' = (if res then m(A := C) else m)
      in (res, m', count_cas debug res k))"

definition CAS64 :: "bool \<Rightarrow> ('a \<Rightarrow> u64) \<Rightarrow> counters \<Rightarrow> 'a \<Rightarrow> u64 \<Rightarrow> u64 \<Rightarrow> bool \<times> ('a \<Rightarrow> u64) \<times> counters" where
  "CAS64 debug m k A B C =
     (let res = (m A = B); m' = (if res then m(A := C) else m)
      in (res, m', count_cas debug res k))"

definition CAS32 :: "bool \<Rightarrow> ('a \<Rightarrow> u32) \<Rightarrow> counters \<Rightarrow> 'a \<Rightarrow> u32 \<Rightarrow> u32 \<Rightarrow> bool \<times> ('a \<Rightarrow> u32) \<times> counters" where
  "CAS32 debug m k A B C =
     (let res = (m A = B); m' = (if res then m(A := C) else m)
      in (res, m', count_cas debug res k))"

text \<open>A 128-bit cell is its low and its high half, compared and replaced together.\<close>

definition CAS128 :: "bool \<Rightarrow> ('a \<Rightarrow> u64 \<times> u64) \<Rightarrow> counters \<Rightarrow> 'a \<Rightarrow> u64 \<Rightarrow> u64 \<Rightarrow> u64 \<Rightarrow> u64 \<Rightarrow>
    bool \<times> ('a \<Rightarrow> u64 \<times> u64) \<times> counters" where
  "CAS128 debug m k A B0 B1 C0 C1 =
     (let res = (m A = (B0, B1)); m' = (if res then m(A := (C0, C1)) else m)
      in (res, m', count_cas debug res k))"

definition SWAP :: "bool \<Rightarrow> ('a \<Rightarrow> u64) \<Rightarrow> counters \<Rightarrow> 'a \<Rightarrow> u64 \<Rightarrow> u64 \<times> ('a \<Rightarrow> u64) \<times> counters" where
  "SWAP debug m k A B =
     (m A, m(A := B), if debug then k\<lparr>executed_swap := executed_swap k + 1\<rparr> else k)"

definition FAA32 :: "bool \<Rightarrow> ('a \<Rightarrow> u32) \<Rightarrow> counters \<Rightarrow> 'a \<Rightarrow> u32 \<Rightarrow> u32 \<times> ('a \<Rightarrow> u32) \<times> counters" where
  "FAA32 debug m k A B =
     (m A, m(A := m A + B), if debug then k\<lparr>executed_faa := executed_faa k + 1\<rparr> else k)"

definition FAA64 :: "bool \<Rightarrow> ('a \<Rightarrow> u64) \<Rightarrow> counters \<Rightarrow> 'a \<Rightarrow> u64 \<Rightarrow> u64 \<times> ('a \<Rightarrow> u64) \<times> counters" where
  "FAA64 debug m k A B =
     (m A, m(A := m A + B), if debug then k\<lparr>executed_faa := executed_faa k + 1\<rparr> else k)"

text \<open>\<^verbatim>\<open>__sync_fetch_and_or(A, 1ULL << B)\<close>: the result is the whole old word.\<close>

definition BitTAS64 :: "('a \<Rightarrow> u64) \<Rightarrow> 'a \<Rightarrow> nat \<Rightarrow> u64 \<times> ('a \<Rightarrow> u64)" where
  "BitTAS64 m A B = (m A, m(A := m A OR push_bit B 1))"

section \<open>Counting and finding bits\<close>

text \<open>The fallback for old compilers: \<^verbatim>\<open>for (c = 0; v; v >>= 1) c += v & 1;\<close>\<close>

function nonzero_loop :: "u64 \<Rightarrow> u64 \<Rightarrow> u64" where
  "nonzero_loop c v = (if v \<noteq> 0 then nonzero_loop (c + (v AND 1)) (drop_bit 1 v) else c)"
  by pat_completeness auto
termination
proof (relation "measure (\<lambda>(c, v). unat v)")
  fix c v :: u64
  assume "v \<noteq> 0"
  then have "0 < unat v" by (simp add: unat_gt_0)
  then have "unat v div 2 < unat v" by simp
  then show "((c + (v AND 1), drop_bit 1 v), c, v) \<in> measure (\<lambda>(c, v). unat v)"
    by (simp add: unat_div drop_bit_eq_div)
qed simp

declare nonzero_loop.simps [simp del]

definition synchNonZeroBits :: "u64 \<Rightarrow> u64" where
  "synchNonZeroBits v = nonzero_loop 0 v"

text \<open>\<^verbatim>\<open>__builtin_ctzll\<close>: the number of the least set bit (undefined on 0, where this
  function gives 64).\<close>

fun ctz_from :: "nat \<Rightarrow> nat \<Rightarrow> u64 \<Rightarrow> nat" where
  "ctz_from 0 i v = i"
| "ctz_from (Suc n) i v = (if bit v i then i else ctz_from n (Suc i) v)"

definition synchBitSearchFirst :: "u64 \<Rightarrow> nat" where
  "synchBitSearchFirst v = ctz_from 64 0 v"

section \<open>Aligned allocation\<close>

text \<open>
  The NUMA branch of \<^verbatim>\<open>synchGetAlignedMemory\<close>: \<open>p\<close> is what
  \<^verbatim>\<open>numa_alloc_local(size + align)\<close> returned. \<open>None\<close> is the branch that prints
  the error and exits.
\<close>

definition align_block :: "u64 \<Rightarrow> u64 \<Rightarrow> u64" where
  "align_block align p = (p + align) AND NOT (align - 1)"

definition synchGetAlignedMemory :: "(u64 \<Rightarrow> u64) \<Rightarrow> u64 \<Rightarrow> u64 \<Rightarrow> u64 option" where
  "synchGetAlignedMemory numa_alloc_local align sz =
     (let p = align_block align (numa_alloc_local (sz + align))
      in if p = 0 then None else Some p)"

definition synchGetMemory :: "(u64 \<Rightarrow> u64) \<Rightarrow> u64 \<Rightarrow> u64 option" where
  "synchGetMemory numa_alloc_local sz =
     (let p = numa_alloc_local sz in if p = 0 then None else Some p)"

section \<open>Lemmas\<close>

lemma count_cas_executed:
  "executed_cas (count_cas debug res k) - failed_cas (count_cas debug res k) =
   executed_cas k - failed_cas k + of_bool (debug \<and> res)"
  by (cases res) (simp_all add: count_cas_def algebra_simps)

definition set_bits :: "u64 \<Rightarrow> nat set" where
  "set_bits v = {i. i < 64 \<and> bit v i}"

lemma finite_set_bits [simp]: "finite (set_bits v)"
  by (simp add: set_bits_def)

lemma set_bits_0 [simp]: "set_bits 0 = {}"
  by (simp add: set_bits_def)

lemma set_bits_shift:
  "set_bits v = (if bit v 0 then {0} else {}) \<union> Suc ` set_bits (drop_bit 1 v)"
proof -
  have "i \<in> set_bits v \<longleftrightarrow> (bit v 0 \<and> i = 0) \<or> i \<in> Suc ` set_bits (drop_bit 1 v)" for i
    using bit_imp_le_length [of v "i"]
    by (cases i) (auto simp: set_bits_def image_iff bit_drop_bit_eq)
  then show ?thesis by auto
qed

lemma card_set_bits_shift:
  "card (set_bits v) = of_bool (bit v 0) + card (set_bits (drop_bit 1 v))"
proof -
  have "card (Suc ` set_bits (drop_bit 1 v)) = card (set_bits (drop_bit 1 v))"
    by (simp add: card_image)
  then show ?thesis
    by (subst set_bits_shift) (simp add: card_insert_if)
qed

lemma and_1_of_bool: "v AND 1 = of_bool (bit v 0)" for v :: u64
  by (simp add: and_one_eq mod_2_eq_odd bit_0)

lemma nonzero_loop_card: "nonzero_loop c v = c + of_nat (card (set_bits v))"
proof (induction c v rule: nonzero_loop.induct)
  case (1 c v)
  show ?case
  proof (cases "v = 0")
    case False
    with 1 have "nonzero_loop c v = c + (v AND 1) + of_nat (card (set_bits (drop_bit 1 v)))"
      by (subst nonzero_loop.simps) simp
    then show ?thesis
      by (simp add: and_1_of_bool card_set_bits_shift [of v] add.assoc)
  qed (simp add: nonzero_loop.simps)
qed

lemma synchNonZeroBits_card: "synchNonZeroBits v = of_nat (card (set_bits v))"
  by (simp add: synchNonZeroBits_def nonzero_loop_card)

lemma card_set_bits_le: "card (set_bits v) \<le> 64"
  using card_mono [of "{..<64}" "set_bits v"] by (auto simp: set_bits_def)

lemma unat_synchNonZeroBits: "unat (synchNonZeroBits v) = card (set_bits v)"
  using card_set_bits_le [of v]
  by (simp add: synchNonZeroBits_card unat_of_nat take_bit_nat_eq_self_iff)

lemma ctz_from_least:
  assumes "bit v k" and "i \<le> k" and "k < i + n"
  shows "bit v (ctz_from n i v) \<and> i \<le> ctz_from n i v \<and> ctz_from n i v \<le> k"
  using assms
proof (induction n i v rule: ctz_from.induct)
  case (2 n i v)
  show ?case
  proof (cases "bit v i")
    case False
    with 2 have "i \<noteq> k" by auto
    with 2 have "Suc i \<le> k" by simp
    with 2 False show ?thesis by simp
  qed (use 2 in simp)
qed simp

lemma ctz_bit: "v \<noteq> 0 \<Longrightarrow> bit v (synchBitSearchFirst v)"
proof -
  assume "v \<noteq> 0"
  then obtain k where "bit v k" by (auto simp: bit_eq_iff)
  then show ?thesis using ctz_from_least [of v k 0 64] bit_imp_le_length [of v k]
    by (simp add: synchBitSearchFirst_def)
qed

lemma ctz_least: "bit v k \<Longrightarrow> synchBitSearchFirst v \<le> k"
  using ctz_from_least [of v k 0 64] bit_imp_le_length [of v k]
  by (simp add: synchBitSearchFirst_def)

lemma ctz_less_64: "v \<noteq> 0 \<Longrightarrow> synchBitSearchFirst v < 64"
  using bit_imp_le_length [OF ctz_bit] by simp

lemma align_block_eq: "align_block (2 ^ k) p = push_bit k (drop_bit k (p + 2 ^ k))"
proof -
  have "(2 ^ k :: u64) - 1 = mask k" by (simp add: mask_eq_exp_minus_1)
  then show ?thesis
    by (simp add: align_block_def) (rule word_bits_eqI, auto simp: bit_simps)
qed

lemma unat_align_block:
  assumes "k < 64" and "unat p + 2 ^ k < 2 ^ 64"
  shows "unat (align_block (2 ^ k) p) = (unat p + 2 ^ k) div 2 ^ k * 2 ^ k"
proof -
  have u: "unat (p + 2 ^ k) = unat p + 2 ^ k"
    using assms by (simp add: unat_word_ariths unat_two_power)
  let ?q = "(unat p + 2 ^ k) div 2 ^ k"
  have "?q * 2 ^ k \<le> unat p + 2 ^ k" by (metis div_times_less_eq_dividend)
  then have "?q * 2 ^ k < 2 ^ 64" using assms(2) by (rule le_less_trans)
  moreover have "unat ((p + 2 ^ k) div 2 ^ k) = ?q"
    using assms(1) by (simp only: unat_div u unat_two_power len64)
  then have "unat (align_block (2 ^ k) p) = ?q * 2 ^ k mod 2 ^ 64"
    unfolding align_block_eq push_bit_eq_mult drop_bit_eq_div
    using assms(1) by (simp only: unat_word_ariths(2) unat_two_power len64)
  ultimately show ?thesis by (simp only: mod_less)
qed

text \<open>The aligned block handed out by the NUMA branch starts at a multiple of the alignment
  (a power of two) and lies inside the \<^verbatim>\<open>size + align\<close> bytes that were allocated,
  provided the allocation itself does not wrap around the address space.
\<close>

lemma aligned_block_inside:
  assumes "k < 64" and "unat p + unat sz + 2 ^ k < 2 ^ 64"
  shows "2 ^ k dvd unat (align_block (2 ^ k) p)
       \<and> unat p < unat (align_block (2 ^ k) p)
       \<and> unat (align_block (2 ^ k) p) + unat sz \<le> unat p + (unat sz + 2 ^ k)"
proof -
  let ?q = "(unat p + 2 ^ k) div 2 ^ k"
  have e: "unat (align_block (2 ^ k) p) = ?q * 2 ^ k"
    using assms by (intro unat_align_block) simp_all
  have "unat p + 2 ^ k = ?q * 2 ^ k + (unat p + 2 ^ k) mod 2 ^ k"
    by (rule div_mult_mod_eq [symmetric])
  moreover have "(unat p + 2 ^ k) mod 2 ^ k < 2 ^ k" by simp
  ultimately show ?thesis unfolding e by (intro conjI dvd_triv_right; linarith)
qed

lemma aligned_block_inside_witness:
  "64 dvd unat (align_block 64 (1000 :: u64)) \<and> 1000 < unat (align_block 64 (1000 :: u64))"
  using aligned_block_inside [of 6 1000 "100 :: u64"] by simp

text \<open>An allocation failure of the NUMA allocator (it returns \<^verbatim>\<open>NULL\<close>, here 0) is not
  detected: the alignment arithmetic turns it into a non-null pointer, so the check that
  follows never prints the error and never exits.
\<close>

lemma aligned_memory_misses_failure:
  assumes "k < 64"
  shows "synchGetAlignedMemory (\<lambda>_. 0) (2 ^ k) sz = Some (2 ^ k)
       \<and> synchGetMemory (\<lambda>_. 0) sz = None"
proof -
  have n: "(2 ^ k :: u64) \<noteq> 0" using assms by simp
  have "align_block (2 ^ k) 0 = 2 ^ k"
    unfolding align_block_eq using assms
    by (intro word_bits_eqI) (auto simp: bit_simps bit_exp_iff)
  with n show ?thesis
    by (simp add: synchGetAlignedMemory_def synchGetMemory_def)
qed

lemma aligned_memory_misses_failure_witness:
  "synchGetAlignedMemory (\<lambda>_. 0) 64 4096 = Some 64"
  using aligned_memory_misses_failure [of 6 4096] by simp

end
