(* ===== verification/Tvec.thy ===== *)
theory Tvec
  imports Primitives
begin

unbundle bit_operations_syntax

text \<open>
  Toggle vectors, libconcurrent/includes/tvec.h: an array of 64-bit words, one bit per
  thread. The operations of the header are translated one by one; the array of cells is a
  list and every operation that writes a vector returns it updated. Indexes outside the array
  are undefined behaviour in C: the lemmas below ask for indexes inside it, and
  \<open>tvec_ok\<close> is the invariant that the constructors establish and every operation keeps.
  The last section shows the vector used as the announcement board of the Sim family: thread
  \<open>p\<close> toggles its bit with one atomic addition of \<open>+2^p\<close> or \<open>-2^p\<close>, and no such
  addition carries into the bit of another thread.
\<close>

section \<open>The header, operation by operation\<close>

record ToggleVector =
  tv_nthreads :: nat
  tvec_cells :: nat
  cell :: "u64 list"

definition TVEC_CELLS :: "nat \<Rightarrow> nat" where
  "TVEC_CELLS N = drop_bit 6 N + 1"

definition TVEC_VECTOR_SIZE :: "nat \<Rightarrow> nat" where
  "TVEC_VECTOR_SIZE N = TVEC_CELLS N * 8"

definition TVEC_GET_BANK_OF_BIT :: "nat \<Rightarrow> nat \<Rightarrow> nat" where
  "TVEC_GET_BANK_OF_BIT b nthreads = (if 64 < nthreads then drop_bit 6 b else 0)"

definition TVEC_ATOMIC_COPY_BANKS :: "ToggleVector \<Rightarrow> ToggleVector \<Rightarrow> nat \<Rightarrow> ToggleVector" where
  "TVEC_ATOMIC_COPY_BANKS tv1 tv2 bank = tv1\<lparr>cell := (cell tv1)[bank := cell tv2 ! bank]\<rparr>"

definition TVEC_ATOMIC_ADD_BANK :: "ToggleVector \<Rightarrow> ToggleVector \<Rightarrow> nat \<Rightarrow> ToggleVector" where
  "TVEC_ATOMIC_ADD_BANK tv1 tv2 bank =
     tv1\<lparr>cell := (cell tv1)[bank := cell tv1 ! bank + cell tv2 ! bank]\<rparr>"

definition TVEC_NEGATIVE_BANK :: "ToggleVector \<Rightarrow> ToggleVector \<Rightarrow> nat \<Rightarrow> ToggleVector" where
  "TVEC_NEGATIVE_BANK tv1 tv2 bank = tv1\<lparr>cell := (cell tv1)[bank := - (cell tv2 ! bank)]\<rparr>"

definition TVEC_XOR_BANKS :: "ToggleVector \<Rightarrow> ToggleVector \<Rightarrow> ToggleVector \<Rightarrow> nat \<Rightarrow> ToggleVector" where
  "TVEC_XOR_BANKS res tv1 tv2 bank =
     res\<lparr>cell := (cell res)[bank := cell tv1 ! bank XOR cell tv2 ! bank]\<rparr>"

definition TVEC_AND_BANKS :: "ToggleVector \<Rightarrow> ToggleVector \<Rightarrow> ToggleVector \<Rightarrow> nat \<Rightarrow> ToggleVector" where
  "TVEC_AND_BANKS res tv1 tv2 bank =
     res\<lparr>cell := (cell res)[bank := cell tv1 ! bank AND cell tv2 ! bank]\<rparr>"

text \<open>\<open>mem\<close> is the memory block the vector is put in (fresh for \<^verbatim>\<open>TVEC_INIT\<close>, the
  caller's for \<^verbatim>\<open>TVEC_INIT_AT\<close>), of \<open>TVEC_CELLS n\<close> words.\<close>

definition TVEC_INIT_AT :: "nat \<Rightarrow> u64 list \<Rightarrow> ToggleVector" where
  "TVEC_INIT_AT n mem =
     \<lparr>tv_nthreads = n, tvec_cells = TVEC_CELLS n,
      cell = loop_upd (TVEC_CELLS n) (\<lambda>_ _. 0) mem\<rparr>"

definition TVEC_INIT :: "(nat \<Rightarrow> u64 list) \<Rightarrow> nat \<Rightarrow> ToggleVector" where
  "TVEC_INIT alloc n =
     \<lparr>tv_nthreads = n, tvec_cells = TVEC_CELLS n,
      cell = loop_upd (TVEC_CELLS n) (\<lambda>_ _. 0) (alloc (TVEC_VECTOR_SIZE n))\<rparr>"

definition TVEC_SET_ZERO :: "ToggleVector \<Rightarrow> ToggleVector" where
  "TVEC_SET_ZERO tv1 = tv1\<lparr>cell := loop_upd (tvec_cells tv1) (\<lambda>_ _. 0) (cell tv1)\<rparr>"

text \<open>\<^verbatim>\<open>memcpy\<close> of the cells the destination's thread count asks for.\<close>

definition TVEC_COPY :: "ToggleVector \<Rightarrow> ToggleVector \<Rightarrow> ToggleVector" where
  "TVEC_COPY dest src =
     (let k = TVEC_VECTOR_SIZE (tv_nthreads dest) div 8
      in dest\<lparr>cell := take k (cell src) @ drop k (cell dest)\<rparr>)"

definition TVEC_NEGATIVE :: "ToggleVector \<Rightarrow> ToggleVector \<Rightarrow> ToggleVector" where
  "TVEC_NEGATIVE res tv =
     res\<lparr>cell := loop_upd (tvec_cells res) (\<lambda>i _. - (cell tv ! i)) (cell res)\<rparr>"

definition TVEC_REVERSE_BIT :: "ToggleVector \<Rightarrow> nat \<Rightarrow> ToggleVector" where
  "TVEC_REVERSE_BIT tv1 b =
     (let i = drop_bit 6 b; offset = b AND 63
      in tv1\<lparr>cell := (cell tv1)[i := cell tv1 ! i XOR push_bit offset 1]\<rparr>)"

definition TVEC_SET_BIT :: "ToggleVector \<Rightarrow> nat \<Rightarrow> ToggleVector" where
  "TVEC_SET_BIT tv1 b =
     (let i = drop_bit 6 b; offset = b AND 63
      in tv1\<lparr>cell := (cell tv1)[i := cell tv1 ! i OR push_bit offset 1]\<rparr>)"

definition TVEC_IS_SET :: "ToggleVector \<Rightarrow> nat \<Rightarrow> bool" where
  "TVEC_IS_SET tv1 pid =
     (let i = drop_bit 6 pid; offset = pid AND 63
      in drop_bit offset (cell tv1 ! i) AND 1 \<noteq> 0)"

definition TVEC_OR :: "ToggleVector \<Rightarrow> ToggleVector \<Rightarrow> ToggleVector \<Rightarrow> ToggleVector" where
  "TVEC_OR res tv1 tv2 =
     res\<lparr>cell := loop_upd (tvec_cells res) (\<lambda>i _. cell tv1 ! i OR cell tv2 ! i) (cell res)\<rparr>"

definition TVEC_AND :: "ToggleVector \<Rightarrow> ToggleVector \<Rightarrow> ToggleVector \<Rightarrow> ToggleVector" where
  "TVEC_AND res tv1 tv2 =
     res\<lparr>cell := loop_upd (tvec_cells res) (\<lambda>i _. cell tv1 ! i AND cell tv2 ! i) (cell res)\<rparr>"

definition TVEC_XOR :: "ToggleVector \<Rightarrow> ToggleVector \<Rightarrow> ToggleVector \<Rightarrow> ToggleVector" where
  "TVEC_XOR res tv1 tv2 =
     res\<lparr>cell := loop_upd (tvec_cells res) (\<lambda>i _. cell tv1 ! i XOR cell tv2 ! i) (cell res)\<rparr>"

definition TVEC_COUNT_BITS :: "ToggleVector \<Rightarrow> nat" where
  "TVEC_COUNT_BITS tv =
     fold (\<lambda>i count. count + unat (synchNonZeroBits (cell tv ! i))) [0..<tvec_cells tv] 0"

lemmas tvec_defs =
  TVEC_ATOMIC_COPY_BANKS_def TVEC_ATOMIC_ADD_BANK_def TVEC_NEGATIVE_BANK_def
  TVEC_XOR_BANKS_def TVEC_AND_BANKS_def TVEC_SET_ZERO_def TVEC_COPY_def TVEC_NEGATIVE_def
  TVEC_REVERSE_BIT_def TVEC_SET_BIT_def TVEC_OR_def TVEC_AND_def TVEC_XOR_def

section \<open>The invariant and the bits of a vector\<close>

definition tvec_ok :: "ToggleVector \<Rightarrow> bool" where
  "tvec_ok tv \<longleftrightarrow>
     tvec_cells tv = TVEC_CELLS (tv_nthreads tv) \<and> length (cell tv) = tvec_cells tv"

text \<open>Bit \<open>b\<close> of a vector: bit \<open>b mod 64\<close> of word \<open>b div 64\<close>.\<close>

definition tbit :: "ToggleVector \<Rightarrow> nat \<Rightarrow> bool" where
  "tbit tv b \<longleftrightarrow> bit (cell tv ! (b div 64)) (b mod 64)"

definition in_vec :: "ToggleVector \<Rightarrow> nat \<Rightarrow> bool" where
  "in_vec tv b \<longleftrightarrow> b div 64 < length (cell tv)"

lemma shift6 [simp]: "drop_bit 6 (b :: nat) = b div 64"
  by (simp add: drop_bit_eq_div)

lemma and63 [simp]: "(b :: nat) AND 63 = b mod 64"
proof -
  have "b AND 63 = take_bit 6 b" by (simp add: take_bit_eq_mask mask_eq_exp_minus_1)
  then show ?thesis by (simp add: take_bit_eq_mod)
qed

lemma TVEC_VECTOR_SIZE_words [simp]: "TVEC_VECTOR_SIZE n div 8 = TVEC_CELLS n"
  by (simp add: TVEC_VECTOR_SIZE_def)

lemma thread_in_vec: "tvec_ok tv \<Longrightarrow> p < tv_nthreads tv \<Longrightarrow> in_vec tv p"
  by (simp add: tvec_ok_def in_vec_def TVEC_CELLS_def div_le_mono less_Suc_eq_le)

lemma bank_of_bit:
  assumes "p < n"
  shows "TVEC_GET_BANK_OF_BIT p n = p div 64"
  using assms by (simp add: TVEC_GET_BANK_OF_BIT_def)

lemma bit_pos_eq: "b = c \<longleftrightarrow> b div 64 = c div 64 \<and> b mod 64 = c mod 64" for b c :: nat
  by (metis div_mod_decomp)

text \<open>Every operation keeps the invariant.\<close>

lemma tvec_ok_ops:
  assumes "tvec_ok tv"
  shows "tvec_ok (TVEC_ATOMIC_COPY_BANKS tv a k)" "tvec_ok (TVEC_ATOMIC_ADD_BANK tv a k)"
    "tvec_ok (TVEC_NEGATIVE_BANK tv a k)" "tvec_ok (TVEC_XOR_BANKS tv a b k)"
    "tvec_ok (TVEC_AND_BANKS tv a b k)" "tvec_ok (TVEC_SET_ZERO tv)"
    "tvec_ok (TVEC_NEGATIVE tv a)" "tvec_ok (TVEC_REVERSE_BIT tv k)"
    "tvec_ok (TVEC_SET_BIT tv k)" "tvec_ok (TVEC_OR tv a b)" "tvec_ok (TVEC_AND tv a b)"
    "tvec_ok (TVEC_XOR tv a b)"
  using assms by (simp_all add: tvec_ok_def tvec_defs Let_def)

lemma tvec_ok_INIT_AT: "length mem = TVEC_CELLS n \<Longrightarrow> tvec_ok (TVEC_INIT_AT n mem)"
  by (simp add: tvec_ok_def TVEC_INIT_AT_def)

lemma tvec_ok_COPY:
  "tvec_ok d \<Longrightarrow> tvec_ok s \<Longrightarrow> tv_nthreads s = tv_nthreads d \<Longrightarrow> tvec_ok (TVEC_COPY d s)"
  by (simp add: tvec_ok_def TVEC_COPY_def Let_def)

lemma cell_TVEC_COPY:
  "tvec_ok d \<Longrightarrow> tvec_ok s \<Longrightarrow> tv_nthreads s = tv_nthreads d \<Longrightarrow> cell (TVEC_COPY d s) = cell s"
  by (simp add: tvec_ok_def TVEC_COPY_def Let_def)

lemma TVEC_IS_SET_tbit: "TVEC_IS_SET tv b \<longleftrightarrow> tbit tv b"
  by (simp add: TVEC_IS_SET_def tbit_def Let_def and_1_of_bool bit_drop_bit_eq)

lemma in_vec_update [simp]: "in_vec (tv\<lparr>cell := (cell tv)[i := w]\<rparr>) b = in_vec tv b"
  by (simp add: in_vec_def)

lemma tbit_update:
  "in_vec tv b \<Longrightarrow>
   tbit (tv\<lparr>cell := (cell tv)[i := w]\<rparr>) b = (if b div 64 = i then bit w (b mod 64) else tbit tv b)"
  by (simp add: tbit_def in_vec_def)

lemma tbit_INIT_AT: "length mem = TVEC_CELLS n \<Longrightarrow> b div 64 < TVEC_CELLS n \<Longrightarrow> \<not> tbit (TVEC_INIT_AT n mem) b"
  by (simp add: tbit_def TVEC_INIT_AT_def loop_upd_const)

lemma tbit_SET_ZERO: "tvec_ok tv \<Longrightarrow> in_vec tv b \<Longrightarrow> \<not> tbit (TVEC_SET_ZERO tv) b"
  by (simp add: tvec_ok_def in_vec_def tbit_def TVEC_SET_ZERO_def loop_upd_const)

lemma tbit_SET_BIT:
  "in_vec tv b \<Longrightarrow> tbit (TVEC_SET_BIT tv k) b \<longleftrightarrow> b = k \<or> tbit tv b"
  by (cases "b div 64 = k div 64")
    (auto simp: TVEC_SET_BIT_def Let_def tbit_def in_vec_def bit_or_iff bit_pos_eq [of b k])

lemma tbit_REVERSE_BIT:
  "in_vec tv b \<Longrightarrow> tbit (TVEC_REVERSE_BIT tv k) b \<longleftrightarrow> (tbit tv b \<noteq> (b = k))"
  by (cases "b div 64 = k div 64")
    (auto simp: TVEC_REVERSE_BIT_def Let_def tbit_def in_vec_def bit_xor_iff bit_pos_eq [of b k])

lemma tbit_pointwise:
  assumes "tvec_ok res" and "in_vec res b"
  shows "tbit (TVEC_XOR res u v) b \<longleftrightarrow> (tbit u b \<noteq> tbit v b)"
    and "tbit (TVEC_OR res u v) b \<longleftrightarrow> (tbit u b \<or> tbit v b)"
    and "tbit (TVEC_AND res u v) b \<longleftrightarrow> (tbit u b \<and> tbit v b)"
  using assms
  by (auto simp: tbit_def TVEC_XOR_def TVEC_OR_def TVEC_AND_def tvec_ok_def in_vec_def
      nth_loop_upd bit_simps)

lemma tbit_XOR_BANKS:
  "in_vec res b \<Longrightarrow> b div 64 = k \<Longrightarrow>
   tbit (TVEC_XOR_BANKS res u v k) b \<longleftrightarrow> (tbit u b \<noteq> tbit v b)"
  by (simp add: TVEC_XOR_BANKS_def tbit_def in_vec_def bit_xor_iff)

lemma tbit_COPY_BANKS:
  "in_vec res b \<Longrightarrow> b div 64 = k \<Longrightarrow> tbit (TVEC_ATOMIC_COPY_BANKS res u k) b = tbit u b"
  by (simp add: TVEC_ATOMIC_COPY_BANKS_def tbit_def in_vec_def)

section \<open>Counting the set bits\<close>

definition vec_bits :: "ToggleVector \<Rightarrow> nat \<Rightarrow> nat set" where
  "vec_bits tv n = {b. b div 64 < n \<and> tbit tv b}"

lemma vec_bits_Suc: "vec_bits tv (Suc n) = vec_bits tv n \<union> (\<lambda>i. 64 * n + i) ` set_bits (cell tv ! n)"
proof -
  have "b div 64 = n \<and> tbit tv b \<longleftrightarrow> b \<in> (\<lambda>i. 64 * n + i) ` set_bits (cell tv ! n)" for b
  proof
    assume "b div 64 = n \<and> tbit tv b"
    then have "b = 64 * n + b mod 64" and "b mod 64 \<in> set_bits (cell tv ! n)"
      by (auto simp: tbit_def set_bits_def)
    then show "b \<in> (\<lambda>i. 64 * n + i) ` set_bits (cell tv ! n)" by blast
  qed (auto simp: tbit_def set_bits_def)
  then show ?thesis by (auto simp: vec_bits_def less_Suc_eq)
qed

lemma finite_vec_bits [simp]: "finite (vec_bits tv n)"
  by (induction n) (simp_all add: vec_bits_Suc, simp add: vec_bits_def)

lemma card_vec_bits:
  "card (vec_bits tv n) = fold (\<lambda>i count. count + unat (synchNonZeroBits (cell tv ! i))) [0..<n] 0"
proof (induction n)
  case (Suc n)
  have "vec_bits tv n \<inter> (\<lambda>i. 64 * n + i) ` set_bits (cell tv ! n) = {}"
    by (auto simp: vec_bits_def)
  then have "card (vec_bits tv (Suc n)) =
      card (vec_bits tv n) + card ((\<lambda>i. 64 * n + i) ` set_bits (cell tv ! n))"
    unfolding vec_bits_Suc by (intro card_Un_disjoint) simp_all
  also have "card ((\<lambda>i. 64 * n + i) ` set_bits (cell tv ! n)) = card (set_bits (cell tv ! n))"
    by (intro card_image inj_onI) simp
  finally show ?case using Suc by (simp add: unat_synchNonZeroBits)
qed (simp add: vec_bits_def)

text \<open>\<^verbatim>\<open>TVEC_COUNT_BITS\<close>, which adds the shift-and-mask counts of all words, is the number
  of threads whose bit is set in the vector.
\<close>

lemma TVEC_COUNT_BITS_card:
  "TVEC_COUNT_BITS tv = card {b. b div 64 < tvec_cells tv \<and> TVEC_IS_SET tv b}"
  using card_vec_bits [of tv "tvec_cells tv"]
  by (simp add: TVEC_COUNT_BITS_def vec_bits_def TVEC_IS_SET_tbit)

section \<open>Toggling by atomic addition\<close>

text \<open>
  The word a thread adds to its bank: \<open>+2^k\<close> when its bit on the board is clear and
  \<open>-2^k\<close> when it is set.
\<close>

lemma add_bank_toggles:
  assumes "in_vec tv b" and "bank = p div 64"
    and "cell u ! bank = (if tbit tv p then - (2 ^ (p mod 64)) else 2 ^ (p mod 64))"
  shows "tbit (TVEC_ATOMIC_ADD_BANK tv u bank) b \<longleftrightarrow> (tbit tv b \<noteq> (b = p))"
proof (cases "b div 64 = bank")
  case True
  let ?w = "cell tv ! bank" and ?k = "p mod 64"
  have "?w + cell u ! bank = ?w XOR 2 ^ ?k"
    using assms word_add_clear_bit [of ?w ?k] word_sub_set_bit [of ?w ?k]
    by (auto simp: tbit_def)
  with True assms show ?thesis
    by (auto simp: TVEC_ATOMIC_ADD_BANK_def tbit_def in_vec_def bit_xor_iff bit_pos_eq [of b p])
qed (use assms in \<open>auto simp: TVEC_ATOMIC_ADD_BANK_def tbit_update\<close>)

end
