(* ===== verification/Backoff.thy ===== *)
theory Backoff
  imports Prelude
begin

unbundle bit_operations_syntax

text \<open>
  The exponential backoff of libconcurrent/primitives/backoff.c. All fields are C
  \<^verbatim>\<open>unsigned\<close>, 32-bit words whose shifts and sums wrap around. The delay loop itself
  only burns time; \<open>synchBackoffDelay\<close> returns how many iterations it runs together with
  the updated structure. The lemmas give the closed form of the backoff value after any number
  of delays and the bounds the other two adjustments keep.
\<close>

section \<open>The operations\<close>

record SynchBackoffStruct =
  backoff :: u32
  backoff_base_bits :: nat
  backoff_cap_bits :: nat
  backoff_shift_bits :: nat
  backoff_base :: u32
  backoff_cap :: u32
  backoff_addend :: u32

definition synchInitBackoff :: "nat \<Rightarrow> nat \<Rightarrow> nat \<Rightarrow> SynchBackoffStruct" where
  "synchInitBackoff base_bits cap_bits shift_bits =
     \<lparr>backoff = push_bit base_bits 1 - 1,
      backoff_base_bits = base_bits, backoff_cap_bits = cap_bits,
      backoff_shift_bits = shift_bits,
      backoff_base = push_bit base_bits 1 - 1, backoff_cap = push_bit cap_bits 1 - 1,
      backoff_addend = push_bit shift_bits 1 - 1\<rparr>"

definition synchResetBackoff :: "SynchBackoffStruct \<Rightarrow> SynchBackoffStruct" where
  "synchResetBackoff b = b\<lparr>backoff := backoff_base b\<rparr>"

text \<open>\<open>oversubscribed\<close> is \<^verbatim>\<open>synchIsSystemOversubscribed()\<close>, \<open>disabled\<close> the build
  option \<^verbatim>\<open>SYNCH_DISABLE_BACKOFF\<close>.\<close>

definition synchBackoffDelay :: "bool \<Rightarrow> bool \<Rightarrow> SynchBackoffStruct \<Rightarrow> nat \<times> SynchBackoffStruct" where
  "synchBackoffDelay oversubscribed disabled b =
     (if oversubscribed then (0, b)
      else if \<not> disabled then
        (unat (backoff b),
         let v1 = push_bit (backoff_shift_bits b) (backoff b);
             v2 = v1 + backoff_addend b
         in b\<lparr>backoff := v2 AND backoff_cap b\<rparr>)
      else (0, b))"

definition synchBackoffReduce :: "SynchBackoffStruct \<Rightarrow> SynchBackoffStruct" where
  "synchBackoffReduce b =
     (let v = drop_bit (backoff_shift_bits b) (backoff b)
      in b\<lparr>backoff := (if v < backoff_base b then backoff_base b else v)\<rparr>)"

definition synchBackoffIncrease :: "SynchBackoffStruct \<Rightarrow> SynchBackoffStruct" where
  "synchBackoffIncrease b =
     (let v = push_bit (backoff_shift_bits b) (backoff b) + backoff_addend b
      in b\<lparr>backoff := (if backoff_cap b < v then backoff_cap b else v)\<rparr>)"

text \<open>A run of consecutive delays.\<close>

fun delays :: "nat \<Rightarrow> SynchBackoffStruct \<Rightarrow> SynchBackoffStruct" where
  "delays 0 b = b"
| "delays (Suc k) b = delays k (snd (synchBackoffDelay False False b))"

section \<open>Masks\<close>

lemma push_one_minus_mask: "push_bit k 1 - 1 = (mask k :: u32)"
  by (simp add: mask_eq_exp_minus_1)

lemma mask_shift_fill: "push_bit s (mask m) + mask s = (mask (m + s) :: 'a::len word)"
proof -
  have "push_bit s (mask m) AND mask s = (0 :: 'a word)"
    by (rule word_bits_eqI) (auto simp: bit_simps)
  then have "push_bit s (mask m) + mask s = push_bit s (mask m) OR (mask s :: 'a word)"
    by (rule disjunctive_add_eq_or)
  also have "\<dots> = mask (m + s)"
    by (rule word_bits_eqI) (auto simp: bit_simps)
  finally show ?thesis .
qed

lemma mask_and_mask: "mask m AND mask n = (mask (min m n) :: 'a::len word)"
  by (rule word_bits_eqI) (auto simp: bit_simps)

lemma mask_word_mono: "m \<le> n \<Longrightarrow> mask m \<le> (mask n :: 'a::len word)"
proof -
  assume "m \<le> n"
  then have "mask m = mask m AND (mask n :: 'a word)" by (simp add: mask_and_mask min_def)
  then show ?thesis by (metis word_and_le1)
qed

text \<open>What every structure set up by \<^verbatim>\<open>synchInitBackoff\<close> keeps.\<close>

definition backoff_ok :: "SynchBackoffStruct \<Rightarrow> bool" where
  "backoff_ok b \<longleftrightarrow> backoff_base b = mask (backoff_base_bits b)
     \<and> backoff_cap b = mask (backoff_cap_bits b) \<and> backoff_addend b = mask (backoff_shift_bits b)"

lemma backoff_ok_init [simp]: "backoff_ok (synchInitBackoff bb cb sb)"
  by (simp add: backoff_ok_def synchInitBackoff_def mask_eq_exp_minus_1)

lemma backoff_ok_ops [simp]:
  "backoff_ok b \<Longrightarrow> backoff_ok (synchResetBackoff b)"
  "backoff_ok b \<Longrightarrow> backoff_ok (snd (synchBackoffDelay v d b))"
  "backoff_ok b \<Longrightarrow> backoff_ok (synchBackoffReduce b)"
  "backoff_ok b \<Longrightarrow> backoff_ok (synchBackoffIncrease b)"
  by (simp_all add: backoff_ok_def synchResetBackoff_def synchBackoffDelay_def
      synchBackoffReduce_def synchBackoffIncrease_def Let_def)

lemma delay_mask:
  assumes "backoff_ok b" and "backoff b = mask m"
  shows "backoff (snd (synchBackoffDelay False False b)) =
         mask (min (m + backoff_shift_bits b) (backoff_cap_bits b))"
  using assms by (simp add: backoff_ok_def synchBackoffDelay_def Let_def mask_shift_fill mask_and_mask)

lemma delay_fields:
  "backoff_cap_bits (snd (synchBackoffDelay v d b)) = backoff_cap_bits b"
  "backoff_shift_bits (snd (synchBackoffDelay v d b)) = backoff_shift_bits b"
  by (simp_all add: synchBackoffDelay_def Let_def)

lemma delays_mask:
  "\<lbrakk>backoff_ok b; backoff b = mask m; m \<le> backoff_cap_bits b\<rbrakk> \<Longrightarrow>
   backoff (delays k b) = mask (min (m + k * backoff_shift_bits b) (backoff_cap_bits b))"
proof (induction k arbitrary: b m)
  case (Suc k)
  let ?b = "snd (synchBackoffDelay False False b)"
  have "backoff (delays k ?b) =
      mask (min (min (m + backoff_shift_bits b) (backoff_cap_bits b) + k * backoff_shift_bits ?b)
        (backoff_cap_bits ?b))"
    using Suc.prems by (intro Suc.IH) (simp_all add: delay_mask delay_fields)
  then show ?case
    by (simp add: delay_fields min_def ac_simps)
qed simp

section \<open>Properties\<close>

text \<open>Starting from \<^verbatim>\<open>synchInitBackoff\<close> or after any reset, the delay after \<open>k\<close>
  failed attempts is \<open>2^(base + k * shift) - 1\<close> iterations, cut off at
  \<open>2^cap - 1\<close>: the wrap-around of the 32-bit shift and sum never shows.
\<close>

lemma backoff_closed_form:
  assumes "base_bits \<le> cap_bits"
  shows "backoff (delays k (synchResetBackoff (synchInitBackoff base_bits cap_bits shift_bits))) =
         mask (min (base_bits + k * shift_bits) cap_bits)"
proof -
  let ?b = "synchResetBackoff (synchInitBackoff base_bits cap_bits shift_bits)"
  have "backoff ?b = mask base_bits" "backoff_cap_bits ?b = cap_bits"
    "backoff_shift_bits ?b = shift_bits"
    by (simp_all add: synchResetBackoff_def synchInitBackoff_def mask_eq_exp_minus_1)
  with delays_mask [of ?b base_bits k] assms show ?thesis by simp
qed

lemma backoff_closed_form_witness:
  "backoff (delays 3 (synchResetBackoff (synchInitBackoff 4 6 1))) = 63"
  using backoff_closed_form [of 4 6 3 1] by (simp add: mask_eq_exp_minus_1)

text \<open>\<^verbatim>\<open>synchBackoffIncrease\<close> and \<^verbatim>\<open>synchBackoffReduce\<close> keep the backoff value
  between the base and the cap, whatever the shift (a shift that overflows 32 bits included).
\<close>

lemma backoff_adjust_bounds:
  assumes "backoff_ok b" and "backoff_base_bits b \<le> backoff_cap_bits b"
    and "backoff_base b \<le> backoff b" and "backoff b \<le> backoff_cap b"
  shows "backoff_base b \<le> backoff (synchBackoffReduce b) \<and> backoff (synchBackoffReduce b) \<le> backoff_cap b
       \<and> backoff (synchBackoffIncrease b) \<le> backoff_cap b"
proof -
  have "backoff_base b \<le> backoff_cap b"
    using assms(1,2) by (simp add: backoff_ok_def mask_word_mono)
  moreover have "drop_bit (backoff_shift_bits b) (backoff b) \<le> backoff b"
    by (simp add: word_le_nat_alt drop_bit_eq_div unat_div)
  ultimately show ?thesis
    using assms(4) by (auto simp: synchBackoffReduce_def synchBackoffIncrease_def Let_def
        not_less split: if_splits intro: order_trans)
qed

lemma backoff_adjust_bounds_witness:
  "backoff (synchBackoffIncrease (synchInitBackoff 2 5 1)) \<le> 31"
  using backoff_adjust_bounds [of "synchInitBackoff 2 5 1"]
  by (simp add: synchInitBackoff_def backoff_ok_def mask_eq_exp_minus_1)

end
