(* ===== verification/Fastrand.thy ===== *)
theory Fastrand
  imports Prelude "HOL-Library.Signed_Division"
begin

unbundle bit_operations_syntax

text \<open>
  The pseudo-random generators of libconcurrent/primitives/fastrand.c. The three thread-local
  variables are a record; \<^verbatim>\<open>long\<close> is a 64-bit word read as signed, whose multiplication
  wraps (the compiler's behaviour the code relies on). The two range functions go through
  \<^verbatim>\<open>double\<close> arithmetic and are not modelled. What is shown: the range of the POSIX
  generator, and that the two multiply-with-carry streams, from every seed, never enter one
  of their absorbing states (0, and multiplier times \<open>2^16\<close> minus 1).
\<close>

record rand_state =
  fast_random_next :: u64
  fast_random_next_z :: u32
  fast_random_next_w :: u32

definition synchFastRandom :: "rand_state \<Rightarrow> u64 \<times> rand_state" where
  "synchFastRandom st =
     (let n = fast_random_next st * 1103515245 + 12345
      in (ucast ((word_of_int (sint n sdiv 65536) :: u32) mod 32768), st\<lparr>fast_random_next := n\<rparr>))"

definition synchFastRandom32 :: "rand_state \<Rightarrow> u32 \<times> rand_state" where
  "synchFastRandom32 st =
     (let z = 36969 * (fast_random_next_z st AND 65535) + drop_bit 16 (fast_random_next_z st);
          w = 18000 * (fast_random_next_w st AND 65535) + drop_bit 16 (fast_random_next_w st)
      in (push_bit 16 z + w, st\<lparr>fast_random_next_z := z, fast_random_next_w := w\<rparr>))"

definition synchFastRandomSetSeed :: "u32 \<Rightarrow> rand_state" where
  "synchFastRandomSetSeed seed =
     (let z = seed; w = seed div 2
      in \<lparr>fast_random_next = ucast seed,
          fast_random_next_z = (if z = 0 \<or> z = 0x9068ffff then z + 1 else z),
          fast_random_next_w = (if w = 0 \<or> w = 0x464fffff then w + 1 else w)\<rparr>)"

definition rand32_after :: "nat \<Rightarrow> rand_state \<Rightarrow> rand_state" where
  "rand32_after n st = ((\<lambda>s. snd (synchFastRandom32 s)) ^^ n) st"

section \<open>One multiply-with-carry step over the naturals\<close>

definition mwc :: "nat \<Rightarrow> nat \<Rightarrow> nat" where
  "mwc a x = a * (x mod 65536) + x div 65536"

lemma mwc_word:
  fixes x :: u32
  assumes "a \<le> 65000"
  shows "unat (of_nat a * (x AND 65535) + drop_bit 16 x) = mwc a (unat x)"
proof -
  have m: "x AND 65535 = take_bit 16 x" by (simp add: take_bit_eq_mask mask_eq_exp_minus_1)
  have lo: "unat (x AND 65535) = unat x mod 65536"
    unfolding m by (simp add: take_bit_eq_mod unat_mod)
  have hi: "unat (drop_bit 16 x) = unat x div 65536"
    by (simp add: drop_bit_eq_div unat_div)
  have "unat x < 2 ^ 32" using unat_u32_less [of x] by simp
  then have "unat x div 65536 \<le> 65535" by auto
  moreover have "a * (unat x mod 65536) \<le> 65000 * 65535"
    using assms by (intro mult_le_mono) auto
  ultimately have "mwc a (unat x) < 2 ^ 32" by (simp add: mwc_def)
  moreover have "unat (of_nat a :: u32) = a" using assms by (simp add: unat_of_nat take_bit_nat_eq_self_iff)
  ultimately show ?thesis
    by (simp add: unat_word_ariths lo hi mwc_def mod_simps)
qed

text \<open>The two absorbing states are reached from a state with a large carry only.\<close>

lemma mwc_avoids:
  assumes "x \<noteq> 0" and "x \<noteq> a * 65536 - 1" and "0 < a" and "x div 65536 < 2 * a - 1"
  shows "mwc a x \<noteq> 0" and "mwc a x \<noteq> a * 65536 - 1"
proof -
  define lo hi where "lo = x mod 65536" and "hi = x div 65536"
  have x: "x = hi * 65536 + lo" and lo: "lo < 65536" by (simp_all add: lo_def hi_def)
  show "mwc a x \<noteq> 0"
    using assms(1,3) x by (auto simp: mwc_def lo_def [symmetric] hi_def [symmetric])
  show "mwc a x \<noteq> a * 65536 - 1"
  proof
    assume eq: "mwc a x = a * 65536 - 1"
    then have e: "a * lo + hi + 1 = a * 65536"
      using assms(3) by (simp add: mwc_def lo_def hi_def)
    have "lo = 65535"
    proof (rule ccontr)
      assume "lo \<noteq> 65535"
      with lo have "lo + 2 \<le> 65536" by simp
      then have "a * (lo + 2) \<le> a * 65536" by (rule mult_le_mono2)
      then have "a * lo + a * 2 \<le> a * 65536" by (simp only: distrib_left)
      with e have "2 * a \<le> hi + 1" by linarith
      with assms(4) show False by (simp add: hi_def)
    qed
    with e have "hi + 1 = a" by (simp add: algebra_simps)
    then have "(hi + 1) * 65536 = a * 65536" by simp
    with x \<open>lo = 65535\<close> assms(2) show False by simp
  qed
qed

lemma mwc_carry: "x < 2 ^ 32 \<Longrightarrow> a \<le> 65000 \<Longrightarrow> mwc a x div 65536 \<le> a"
proof -
  assume "x < 2 ^ 32" "a \<le> 65000"
  then have "x div 65536 \<le> 65535" by auto
  moreover have "a * (x mod 65536) \<le> a * 65535" by (intro mult_le_mono2) auto
  ultimately have "mwc a x \<le> a * 65535 + 65535" unfolding mwc_def by linarith
  then have "mwc a x < Suc a * 65536" by simp
  then show ?thesis by (simp only: less_mult_imp_div_less less_Suc_eq_le [symmetric])
qed

section \<open>Properties\<close>

definition mwc_ok :: "nat \<Rightarrow> nat \<Rightarrow> bool" where
  "mwc_ok a x \<longleftrightarrow> x \<noteq> 0 \<and> x \<noteq> a * 65536 - 1 \<and> x div 65536 < 2 * a - 1"

lemma mwc_ok_step: "\<lbrakk>mwc_ok a x; 1 < a; a \<le> 65000; x < 2 ^ 32\<rbrakk> \<Longrightarrow> mwc_ok a (mwc a x)"
  using mwc_avoids [of x a] mwc_carry [of x a] by (auto simp: mwc_ok_def)

definition rand_ok :: "rand_state \<Rightarrow> bool" where
  "rand_ok st \<longleftrightarrow> mwc_ok 36969 (unat (fast_random_next_z st)) \<and> mwc_ok 18000 (unat (fast_random_next_w st))"

lemma rand_ok_step: "rand_ok st \<Longrightarrow> rand_ok (snd (synchFastRandom32 st))"
  using mwc_word [of 36969 "fast_random_next_z st"] mwc_word [of 18000 "fast_random_next_w st"]
    unat_u32_less [of "fast_random_next_z st"] unat_u32_less [of "fast_random_next_w st"]
  by (simp add: rand_ok_def synchFastRandom32_def Let_def mwc_ok_step)

lemma mwc_ok_seed:
  fixes x :: u32
  assumes "a = 36969 \<or> a = 18000 \<and> unat x < 2 ^ 31"
  shows "mwc_ok a (unat (if x = 0 \<or> x = of_nat (a * 65536 - 1) then x + 1 else x))"
proof (cases "x = 0 \<or> x = of_nat (a * 65536 - 1)")
  case True
  with assms show ?thesis by (auto simp: mwc_ok_def)
next
  case False
  with assms unat_u32_less [of x] show ?thesis by (auto simp: mwc_ok_def word_unat_eq_iff)
qed

lemma rand_ok_seed: "rand_ok (synchFastRandomSetSeed seed)"
proof -
  have "unat (seed div 2) < 2 ^ 31" using unat_u32_less [of seed] by (simp add: unat_div)
  then show ?thesis
    using mwc_ok_seed [of 36969 seed] mwc_ok_seed [of 18000 "seed div 2"]
    by (simp add: rand_ok_def synchFastRandomSetSeed_def Let_def)
qed

lemma rand32_after_Suc: "rand32_after (Suc n) st = snd (synchFastRandom32 (rand32_after n st))"
  by (simp add: rand32_after_def)

text \<open>C39. From every seed, after any number of calls of \<^verbatim>\<open>synchFastRandom32\<close>, neither of the two
  multiply-with-carry streams is in an absorbing state: the two corrections made by
  \<^verbatim>\<open>synchFastRandomSetSeed\<close> are enough.
\<close>

theorem fast_random32_never_stuck:
  "let st = rand32_after n (synchFastRandomSetSeed seed)
   in fast_random_next_z st \<noteq> 0 \<and> fast_random_next_z st \<noteq> 0x9068ffff
    \<and> fast_random_next_w st \<noteq> 0 \<and> fast_random_next_w st \<noteq> 0x464fffff"
proof -
  have "rand_ok (rand32_after n (synchFastRandomSetSeed seed))"
    by (induction n) (simp_all add: rand32_after_Suc rand_ok_step, simp add: rand32_after_def rand_ok_seed)
  then show ?thesis by (auto simp: rand_ok_def mwc_ok_def Let_def)
qed

text \<open>\<^verbatim>\<open>synchFastRandom\<close> returns a value below \<^verbatim>\<open>SYNCH_RAND_MAX\<close> (32768), whatever the
  signed 64-bit state has wrapped around to.
\<close>

lemma fast_random_range: "unat (fst (synchFastRandom st)) < 32768"
proof -
  let ?r = "(word_of_int (sint (fast_random_next st * 1103515245 + 12345) sdiv 65536) :: u32) mod 32768"
  have "unat ?r < 32768" by (simp add: unat_mod)
  moreover have "unat (ucast ?r :: u64) = unat ?r" by (rule unat_ucast_u32_u64)
  ultimately show ?thesis by (simp only: synchFastRandom_def Let_def fst_conv)
qed

end
