(* ===== verification/Pool.thy ===== *)
theory Pool
  imports Prelude
begin

text \<open>
  The object pool of libconcurrent/primitives/pool.c. A block is named by a number (the
  allocator never hands out the same block twice: \<open>fresh\<close> is the next one); an object is a
  block and a byte offset into its \<^verbatim>\<open>heap\<close>. The free list is threaded through the recycled
  objects themselves, as in the code: \<open>links\<close> holds their \<^verbatim>\<open>next\<close> fields. Dereferencing
  \<^verbatim>\<open>NULL\<close> is the fault \<open>Null_deref\<close>; the loops that follow block pointers take fuel, and
  the lemmas show how much is enough.

  The abstraction is \<open>bump p\<close>, the objects cut from the current chain of blocks, newest
  first: an allocation that finds the free list empty conses one object to it, a rollback drops
  a prefix, and everything else leaves it alone. \<open>pool_inv p L\<close> says that the objects handed
  out and not given back are \<open>L\<close>.
\<close>

section \<open>State\<close>

type_synonym obj = "nat \<times> nat"

record SynchPoolBlockMetadata =
  object_size :: nat
  entries :: nat
  free_entries :: nat
  cur_entry :: nat
  next_blk :: "nat option"
  back_blk :: "nat option"

record SynchPoolStruct =
  obj_size :: nat
  entries_per_block :: nat
  recycle_list :: "obj option"
  head_block :: "nat option"
  cur_block :: "nat option"
  blocks :: "nat \<Rightarrow> SynchPoolBlockMetadata option"
  links :: "obj \<Rightarrow> obj option"
  fresh :: nat

datatype pool_fault = Null_deref | No_fuel

definition BLOCK_SIZE :: nat where
  "BLOCK_SIZE = 4096 * 8192"

definition POOL_BLOCK_METADATA_SIZE :: nat where
  "POOL_BLOCK_METADATA_SIZE = 32"

section \<open>Operations\<close>

definition get_new_block :: "nat \<Rightarrow> SynchPoolStruct \<Rightarrow> nat \<times> SynchPoolStruct" where
  "get_new_block sz p =
     (let b = fresh p;
          m = \<lparr>object_size = sz,
               entries = (BLOCK_SIZE - POOL_BLOCK_METADATA_SIZE) div sz,
               free_entries = (BLOCK_SIZE - POOL_BLOCK_METADATA_SIZE) div sz,
               cur_entry = 0, next_blk = None, back_blk = None\<rparr>
      in (b, p\<lparr>blocks := (blocks p)(b \<mapsto> m), fresh := b + 1\<rparr>))"

text \<open>\<open>None\<close> is \<^verbatim>\<open>SYNCH_POOL_INIT_ERROR\<close>.\<close>

definition synchInitPool :: "SynchPoolStruct \<Rightarrow> nat \<Rightarrow> SynchPoolStruct option" where
  "synchInitPool p sz =
     (if BLOCK_SIZE - POOL_BLOCK_METADATA_SIZE < sz then None
      else
        (let sz' = (if sz < 8 then 8 else sz);
             (b, p1) = get_new_block sz' p
         in Some (p1\<lparr>entries_per_block := (BLOCK_SIZE - POOL_BLOCK_METADATA_SIZE) div sz',
                     obj_size := sz', recycle_list := None,
                     head_block := Some b, cur_block := Some b\<rparr>)))"

definition cur_meta :: "SynchPoolStruct \<Rightarrow> (nat \<times> SynchPoolBlockMetadata) option" where
  "cur_meta p = (case cur_block p of None \<Rightarrow> None | Some b \<Rightarrow> map_option (Pair b) (blocks p b))"

definition set_meta :: "nat \<Rightarrow> SynchPoolBlockMetadata \<Rightarrow> SynchPoolStruct \<Rightarrow> SynchPoolStruct" where
  "set_meta b m p = p\<lparr>blocks := (blocks p)(b \<mapsto> m)\<rparr>"

fun synchAllocObj :: "nat \<Rightarrow> SynchPoolStruct \<Rightarrow> pool_fault + (obj \<times> SynchPoolStruct)" where
  "synchAllocObj 0 p = Inl No_fuel"
| "synchAllocObj (Suc fuel) p =
     (case recycle_list p of
        None \<Rightarrow>
          (case cur_meta p of
             None \<Rightarrow> Inl Null_deref
           | Some (b, m) \<Rightarrow>
               if 0 < free_entries m then
                 Inr ((b, cur_entry m * obj_size p),
                      set_meta b (m\<lparr>free_entries := free_entries m - 1,
                                    cur_entry := cur_entry m + 1\<rparr>) p)
               else
                 (case next_blk m of
                    Some nb \<Rightarrow> synchAllocObj fuel (p\<lparr>cur_block := Some nb\<rparr>)
                  | None \<Rightarrow>
                      let (nb, p1) = get_new_block (obj_size p) p;
                          m1 = (the (blocks p1 nb))\<lparr>back_blk := cur_block p\<rparr>
                      in synchAllocObj fuel ((set_meta nb m1 p1)\<lparr>cur_block := Some nb\<rparr>)))
      | Some r \<Rightarrow> Inr (r, p\<lparr>recycle_list := links p r\<rparr>))"

text \<open>\<open>disabled\<close> is the build option \<^verbatim>\<open>SYNCH_POOL_NODE_RECYCLING_DISABLE\<close>.\<close>

definition synchRecycleObj :: "bool \<Rightarrow> SynchPoolStruct \<Rightarrow> obj option \<Rightarrow> SynchPoolStruct" where
  "synchRecycleObj disabled p ob =
     (if disabled then p
      else (case ob of
              None \<Rightarrow> p
            | Some x \<Rightarrow> p\<lparr>links := (links p)(x := recycle_list p), recycle_list := Some x\<rparr>))"

fun synchRollback :: "nat \<Rightarrow> SynchPoolStruct \<Rightarrow> nat \<Rightarrow> pool_fault + SynchPoolStruct" where
  "synchRollback 0 p num_objs = Inl No_fuel"
| "synchRollback (Suc fuel) p num_objs =
     (if 0 < num_objs then
        (case cur_meta p of
           None \<Rightarrow> Inl Null_deref
         | Some (b, m) \<Rightarrow>
             if cur_entry m < num_objs then
               let n = num_objs - cur_entry m;
                   p1 = set_meta b (m\<lparr>cur_entry := 0, free_entries := entries m\<rparr>) p
               in (case back_blk m of
                     Some k \<Rightarrow> synchRollback fuel (p1\<lparr>cur_block := Some k\<rparr>) n
                   | None \<Rightarrow> Inr p1)
             else
               synchRollback fuel
                 (set_meta b (m\<lparr>cur_entry := cur_entry m - num_objs,
                                free_entries := free_entries m + num_objs\<rparr>) p) 0)
      else Inr p)"

text \<open>The result also lists the blocks given back to the allocator.\<close>

fun synchDestroyPool :: "nat \<Rightarrow> SynchPoolStruct \<Rightarrow> pool_fault + (nat list \<times> SynchPoolStruct)" where
  "synchDestroyPool 0 p = Inl No_fuel"
| "synchDestroyPool (Suc fuel) p =
     (case head_block p of
        None \<Rightarrow> Inr ([], p\<lparr>head_block := None, cur_block := None\<rparr>)
      | Some b \<Rightarrow>
          (case blocks p b of
             None \<Rightarrow> Inl Null_deref
           | Some m \<Rightarrow>
               (case synchDestroyPool fuel
                       (p\<lparr>head_block := next_blk m, blocks := (blocks p)(b := None)\<rparr>) of
                  Inl e \<Rightarrow> Inl e
                | Inr (freed, p') \<Rightarrow> Inr (b # freed, p'))))"

section \<open>Abstraction and invariant\<close>

text \<open>The objects cut from block \<open>b\<close>, newest first, and from the blocks behind it.\<close>

definition cut :: "nat \<Rightarrow> nat \<Rightarrow> nat \<Rightarrow> obj list" where
  "cut sz b n = rev (map (\<lambda>e. (b, e * sz)) [0..<n])"

fun bump_from :: "nat \<Rightarrow> (nat \<Rightarrow> SynchPoolBlockMetadata option) \<Rightarrow> nat \<Rightarrow> nat option \<Rightarrow> obj list" where
  "bump_from sz B 0 c = []"
| "bump_from sz B (Suc fuel) c =
     (case c of None \<Rightarrow> []
      | Some b \<Rightarrow> (case B b of None \<Rightarrow> []
                 | Some m \<Rightarrow> cut sz b (cur_entry m) @ bump_from sz B fuel (back_blk m)))"

definition bump :: "SynchPoolStruct \<Rightarrow> obj list" where
  "bump p = bump_from (obj_size p) (blocks p) (fresh p) (cur_block p)"

fun free_path :: "(obj \<Rightarrow> obj option) \<Rightarrow> obj option \<Rightarrow> obj list \<Rightarrow> bool" where
  "free_path l c [] \<longleftrightarrow> c = None"
| "free_path l c (x # xs) \<longleftrightarrow> c = Some x \<and> free_path l (l x) xs"

definition pool_wf :: "SynchPoolStruct \<Rightarrow> bool" where
  "pool_wf p \<longleftrightarrow> 0 < obj_size p \<and> obj_size p \<le> BLOCK_SIZE - POOL_BLOCK_METADATA_SIZE
     \<and> (\<exists>c. cur_block p = Some c \<and> c \<in> dom (blocks p))
     \<and> (\<forall>b m. blocks p b = Some m \<longrightarrow>
          b < fresh p \<and> next_blk m = None
        \<and> entries m = (BLOCK_SIZE - POOL_BLOCK_METADATA_SIZE) div obj_size p
        \<and> free_entries m + cur_entry m = entries m
        \<and> (\<forall>k. back_blk m = Some k \<longrightarrow> k < b \<and> k \<in> dom (blocks p)))"

definition pool_inv :: "SynchPoolStruct \<Rightarrow> obj set \<Rightarrow> bool" where
  "pool_inv p L \<longleftrightarrow> pool_wf p
     \<and> (\<exists>fl. free_path (links p) (recycle_list p) fl \<and> distinct fl
            \<and> set fl \<subseteq> set (bump p) \<and> L \<subseteq> set (bump p) \<and> L \<inter> set fl = {})"

section \<open>The chain of blocks\<close>

lemma cut_0 [simp]: "cut sz b 0 = []"
  by (simp add: cut_def)

lemma cut_Suc: "cut sz b (Suc n) = (b, n * sz) # cut sz b n"
  by (simp add: cut_def)

lemma length_cut [simp]: "length (cut sz b n) = n"
  by (simp add: cut_def)

lemma drop_cut: "n \<le> k \<Longrightarrow> drop n (cut sz b k) = cut sz b (k - n)"
  by (simp add: cut_def rev_map [symmetric] drop_rev take_map)

lemma in_cut: "x \<in> set (cut sz b n) \<Longrightarrow> fst x = b"
  by (auto simp: cut_def)

lemma in_cut_offset: "0 < sz \<Longrightarrow> (b, n * sz) \<notin> set (cut sz b n)"
  by (auto simp: cut_def)

text \<open>Below a block only smaller blocks occur, so a fuel above the block's number is enough and
  the entries above it do not matter.\<close>

definition back_ok :: "(nat \<Rightarrow> SynchPoolBlockMetadata option) \<Rightarrow> bool" where
  "back_ok B \<longleftrightarrow> (\<forall>b m k. B b = Some m \<longrightarrow> back_blk m = Some k \<longrightarrow> k < b)"

lemma bump_from_fuel:
  "\<lbrakk>back_ok B; \<forall>b. c = Some b \<longrightarrow> b < f; f \<le> g\<rbrakk> \<Longrightarrow> bump_from sz B g c = bump_from sz B f c"
proof (induction f arbitrary: c g)
  case 0
  then show ?case by (cases g; cases c) auto
next
  case (Suc f)
  then obtain g' where g: "g = Suc g'" "f \<le> g'" by (cases g) auto
  show ?case
  proof (cases c)
    case (Some b)
    show ?thesis
    proof (cases "B b")
      case (Some m)
      with \<open>c = Some b\<close> Suc.prems have "\<forall>k. back_blk m = Some k \<longrightarrow> k < f"
        by (auto simp: back_ok_def dest!: spec)
      with Suc.prems(1) g(2) have "bump_from sz B g' (back_blk m) = bump_from sz B f (back_blk m)"
        by (intro Suc.IH)
      with \<open>c = Some b\<close> Some g show ?thesis by simp
    qed (use \<open>c = Some b\<close> g in simp)
  qed (use g in simp)
qed

lemma bump_from_cong:
  "\<lbrakk>back_ok B; \<And>k. k < f \<Longrightarrow> B' k = B k; \<forall>b. c = Some b \<longrightarrow> b < f\<rbrakk> \<Longrightarrow>
   bump_from sz B' f c = bump_from sz B f c"
proof (induction f arbitrary: c)
  case (Suc f)
  show ?case
  proof (cases c)
    case (Some b)
    then have b: "B' b = B b" using Suc.prems by simp
    show ?thesis
    proof (cases "B b")
      case m: (Some m)
      with \<open>c = Some b\<close> Suc.prems have "\<forall>k. back_blk m = Some k \<longrightarrow> k < f"
        by (auto simp: back_ok_def dest!: spec)
      then have "bump_from sz B' f (back_blk m) = bump_from sz B f (back_blk m)"
        using Suc.prems by (intro Suc.IH) auto
      with \<open>c = Some b\<close> m b show ?thesis by simp
    qed (use \<open>c = Some b\<close> b in simp)
  qed simp
qed simp

lemma bump_from_below: "\<lbrakk>back_ok B; \<forall>b. c = Some b \<longrightarrow> b < f; x \<in> set (bump_from sz B g c)\<rbrakk> \<Longrightarrow> fst x < f"
proof (induction g arbitrary: c)
  case (Suc g)
  from Suc.prems(3) obtain b m where bm: "c = Some b" "B b = Some m"
    by (cases c; cases "B (the c)") auto
  with Suc.prems have "fst x = b \<or> x \<in> set (bump_from sz B g (back_blk m))"
    by (auto dest: in_cut)
  moreover have "\<forall>k. back_blk m = Some k \<longrightarrow> k < f"
    using bm Suc.prems by (fastforce simp: back_ok_def)
  ultimately show ?case using Suc bm by auto
qed simp

lemma pool_wf_back_ok: "pool_wf p \<Longrightarrow> back_ok (blocks p)"
  unfolding pool_wf_def back_ok_def by blast

lemma pool_wf_cur:
  assumes "pool_wf p"
  obtains b m where "cur_block p = Some b" "blocks p b = Some m" "cur_meta p = Some (b, m)" "b < fresh p"
    "next_blk m = None" "free_entries m + cur_entry m = entries m"
    "entries m = (BLOCK_SIZE - POOL_BLOCK_METADATA_SIZE) div obj_size p"
    "\<And>k. back_blk m = Some k \<Longrightarrow> k < b \<and> k \<in> dom (blocks p)"
proof -
  from assms obtain b m where "cur_block p = Some b" "blocks p b = Some m"
    unfolding pool_wf_def by blast
  with assms show ?thesis
    by (intro that [of b m]) (simp_all add: pool_wf_def cur_meta_def)
qed

lemma bump_unfold:
  assumes "back_ok (blocks p)" and "cur_block p = Some b" and "blocks p b = Some m" and "b < fresh p"
  shows "bump p = cut (obj_size p) b (cur_entry m) @ bump_from (obj_size p) (blocks p) b (back_blk m)"
proof -
  obtain f where f: "fresh p = Suc f" "b \<le> f" using assms(4) by (cases "fresh p") auto
  have "bump_from (obj_size p) (blocks p) f (back_blk m) = bump_from (obj_size p) (blocks p) b (back_blk m)"
    using assms f by (intro bump_from_fuel) (auto simp: back_ok_def)
  with assms f show ?thesis by (simp add: bump_def)
qed

lemma bump_set_meta:
  assumes "back_ok (blocks p)" and "cur_block p = Some b" and "blocks p b = Some m" and "b < fresh p"
    and "back_blk m1 = back_blk m"
  shows "bump (set_meta b m1 p)
           = cut (obj_size p) b (cur_entry m1) @ bump_from (obj_size p) (blocks p) b (back_blk m)"
proof -
  let ?q = "set_meta b m1 p"
  have ok: "back_ok (blocks ?q)" using assms(1,3,5) by (auto simp: back_ok_def set_meta_def)
  have "bump ?q = cut (obj_size p) b (cur_entry m1) @ bump_from (obj_size p) (blocks ?q) b (back_blk m)"
    using bump_unfold [OF ok, of b m1] assms by (simp add: set_meta_def)
  also have "bump_from (obj_size p) (blocks ?q) b (back_blk m) = bump_from (obj_size p) (blocks p) b (back_blk m)"
    using assms by (intro bump_from_cong) (auto simp: set_meta_def back_ok_def)
  finally show ?thesis .
qed

lemma pool_wf_set_meta:
  assumes "pool_wf p" and "cur_block p = Some b" and "blocks p b = Some m"
    and "back_blk m1 = back_blk m" and "next_blk m1 = next_blk m" and "entries m1 = entries m"
    and "free_entries m1 + cur_entry m1 = entries m"
  shows "pool_wf (set_meta b m1 p)"
proof -
  have "\<forall>k. back_blk m = Some k \<longrightarrow> k < b \<and> k \<in> dom (blocks p)"
    and "b < fresh p" "next_blk m = None" "entries m = (BLOCK_SIZE - POOL_BLOCK_METADATA_SIZE) div obj_size p"
    using assms(1,3) by (simp_all add: pool_wf_def)
  then show ?thesis using assms
    unfolding pool_wf_def set_meta_def by (auto split: if_splits)
qed

text \<open>Objects of \<open>bump\<close> are distinct and lie inside their block.\<close>

lemma distinct_cut: "0 < sz \<Longrightarrow> distinct (cut sz b n)"
  by (auto simp: cut_def distinct_map inj_on_def)

lemma distinct_bump_from: "\<lbrakk>0 < sz; back_ok B\<rbrakk> \<Longrightarrow> distinct (bump_from sz B g c)"
proof (induction g arbitrary: c)
  case (Suc g)
  show ?case
  proof (cases c)
    case (Some b)
    show ?thesis
    proof (cases "B b")
      case m: (Some m)
      have "set (cut sz b (cur_entry m)) \<inter> set (bump_from sz B g (back_blk m)) = {}"
      proof (intro equals0I, elim IntE)
        fix x assume "x \<in> set (cut sz b (cur_entry m))" "x \<in> set (bump_from sz B g (back_blk m))"
        moreover have "\<forall>k. back_blk m = Some k \<longrightarrow> k < b" using m Suc.prems(2) by (simp add: back_ok_def)
        ultimately show False
          using bump_from_below [OF Suc.prems(2), of "back_blk m" b x sz g] by (auto dest: in_cut)
      qed
      then show ?thesis using Suc Some m by (simp add: distinct_cut)
    qed (use Some in simp)
  qed simp
qed simp

definition inside_block :: "SynchPoolStruct \<Rightarrow> obj \<Rightarrow> bool" where
  "inside_block p x \<longleftrightarrow> (\<exists>e. snd x = e * obj_size p) \<and>
     POOL_BLOCK_METADATA_SIZE + snd x + obj_size p \<le> BLOCK_SIZE"

lemma in_bump_from: "x \<in> set (bump_from sz B g c) \<Longrightarrow> \<exists>b m e. B b = Some m \<and> x = (b, e * sz) \<and> e < cur_entry m"
proof (induction g arbitrary: c)
  case (Suc g)
  then obtain b m where bm: "c = Some b" "B b = Some m"
    by (cases c; cases "B (the c)") auto
  show ?case
  proof (cases "x \<in> set (cut sz b (cur_entry m))")
    case True
    then show ?thesis using bm(2) by (auto simp: cut_def)
  next
    case False
    then have "x \<in> set (bump_from sz B g (back_blk m))" using Suc.prems bm by simp
    then show ?thesis by (rule Suc.IH)
  qed
qed simp

lemma bump_inside:
  assumes "pool_wf p" and "x \<in> set (bump p)"
  shows "inside_block p x"
proof -
  from assms(2) obtain b m e where bm: "blocks p b = Some m" "x = (b, e * obj_size p)" "e < cur_entry m"
    unfolding bump_def by (blast dest: in_bump_from)
  with assms(1) have "free_entries m + cur_entry m = (BLOCK_SIZE - POOL_BLOCK_METADATA_SIZE) div obj_size p"
    by (simp add: pool_wf_def)
  with bm(3) have "Suc e \<le> (BLOCK_SIZE - POOL_BLOCK_METADATA_SIZE) div obj_size p" by linarith
  then have "Suc e * obj_size p \<le> (BLOCK_SIZE - POOL_BLOCK_METADATA_SIZE) div obj_size p * obj_size p"
    by (rule mult_le_mono1)
  also have "\<dots> \<le> BLOCK_SIZE - POOL_BLOCK_METADATA_SIZE" by simp
  finally show ?thesis using bm(2) by (auto simp: inside_block_def BLOCK_SIZE_def POOL_BLOCK_METADATA_SIZE_def)
qed

section \<open>Allocation\<close>

lemma alloc_recycled:
  assumes "pool_inv p L" and "recycle_list p = Some r"
  shows "r \<notin> L \<and> r \<in> set (bump p) \<and> pool_inv (p\<lparr>recycle_list := links p r\<rparr>) (insert r L)"
proof -
  let ?p = "p\<lparr>recycle_list := links p r\<rparr>"
  from assms obtain fl where fl: "free_path (links p) (Some r) fl" "distinct fl"
      "set fl \<subseteq> set (bump p)" "L \<subseteq> set (bump p)" "L \<inter> set fl = {}" and wf: "pool_wf p"
    by (auto simp: pool_inv_def)
  then obtain fl' where "fl = r # fl'" "free_path (links p) (links p r) fl'" by (cases fl) auto
  moreover have "bump ?p = bump p" "pool_wf ?p" using wf by (simp_all add: bump_def pool_wf_def)
  ultimately show ?thesis using fl by (auto simp: pool_inv_def)
qed

lemma pool_inv_grow:
  assumes "pool_inv p L" and "recycle_list p = None" and "bump q = x # bump p"
    and "pool_wf q" and "recycle_list q = None"
  shows "x \<notin> L \<and> pool_inv q (insert x L)"
proof -
  have "distinct (bump q)" using assms(4) unfolding bump_def
    by (intro distinct_bump_from pool_wf_back_ok) (simp_all add: pool_wf_def)
  then have "x \<notin> set (bump p)" using assms(3) by simp
  moreover have "L \<subseteq> set (bump p)" using assms(1) by (auto simp: pool_inv_def)
  ultimately show ?thesis using assms(3-5) by (auto simp: pool_inv_def intro: exI [of _ "[]"])
qed

text \<open>Cutting the next object out of the current block.\<close>

lemma alloc_bump:
  assumes "pool_wf p" and "recycle_list p = None" and "cur_meta p = Some (b, m)" and "0 < free_entries m"
  shows "\<exists>q. synchAllocObj (Suc f) p = Inr ((b, cur_entry m * obj_size p), q) \<and> pool_wf q
           \<and> recycle_list q = None \<and> obj_size q = obj_size p \<and> bump q = (b, cur_entry m * obj_size p) # bump p"
proof -
  let ?m = "m\<lparr>free_entries := free_entries m - 1, cur_entry := cur_entry m + 1\<rparr>"
  obtain b' m' where c: "cur_block p = Some b'" "blocks p b' = Some m'" "cur_meta p = Some (b', m')" "b' < fresh p"
      "free_entries m' + cur_entry m' = entries m'"
    by (rule pool_wf_cur [OF assms(1)])
  then have [simp]: "b' = b" "m' = m" using assms(3) by simp_all
  have "pool_wf (set_meta b ?m p)"
    using c assms(4) by (intro pool_wf_set_meta [OF assms(1)]) auto
  moreover have "bump (set_meta b ?m p) = (b, cur_entry m * obj_size p) # bump p"
    using bump_set_meta [OF pool_wf_back_ok [OF assms(1)], of b m ?m] bump_unfold [OF pool_wf_back_ok [OF assms(1)], of b m] c
    by (simp add: cut_Suc)
  ultimately show ?thesis using assms by (simp add: set_meta_def)
qed

text \<open>Adding a block behind which the old one stands.\<close>

definition push_block :: "SynchPoolStruct \<Rightarrow> SynchPoolStruct" where
  "push_block p =
     (let (nb, p1) = get_new_block (obj_size p) p
      in (set_meta nb ((the (blocks p1 nb))\<lparr>back_blk := cur_block p\<rparr>) p1)\<lparr>cur_block := Some nb\<rparr>)"

lemma push_block_wf: 
  assumes "pool_wf p"
  shows "pool_wf (push_block p)" "bump (push_block p) = bump p" "recycle_list (push_block p) = recycle_list p"
    "obj_size (push_block p) = obj_size p"
    "\<exists>m. cur_meta (push_block p) = Some (fresh p, m) \<and> cur_entry m = 0
         \<and> free_entries m = (BLOCK_SIZE - POOL_BLOCK_METADATA_SIZE) div obj_size p"
proof -
  let ?q = "push_block p"
  obtain b m where c: "cur_block p = Some b" "blocks p b = Some m" "b < fresh p"
    by (rule pool_wf_cur [OF assms])
  then show wf: "pool_wf ?q"
    using assms unfolding pool_wf_def push_block_def get_new_block_def set_meta_def
    by (auto simp: Let_def less_Suc_eq split: if_splits)
  show "recycle_list ?q = recycle_list p" "obj_size ?q = obj_size p"
    and "\<exists>m. cur_meta ?q = Some (fresh p, m) \<and> cur_entry m = 0
         \<and> free_entries m = (BLOCK_SIZE - POOL_BLOCK_METADATA_SIZE) div obj_size p"
    by (simp_all add: push_block_def get_new_block_def set_meta_def Let_def cur_meta_def)
  have "bump ?q = bump_from (obj_size p) (blocks ?q) (fresh p) (Some b)"
    using c by (simp add: bump_def push_block_def get_new_block_def set_meta_def Let_def)
  also have "\<dots> = bump_from (obj_size p) (blocks p) (fresh p) (Some b)"
    using c pool_wf_back_ok [OF assms]
    by (intro bump_from_cong) (auto simp: push_block_def get_new_block_def set_meta_def Let_def)
  finally show "bump ?q = bump p" using c by (simp add: bump_def)
qed

lemma capacity_positive: "pool_wf p \<Longrightarrow> 0 < (BLOCK_SIZE - POOL_BLOCK_METADATA_SIZE) div obj_size p"
  unfolding pool_wf_def by (simp only: div_greater_zero_iff simp_thms)

lemma alloc_new:
  assumes "pool_wf p" and "recycle_list p = None"
  shows "\<exists>x q. synchAllocObj (Suc (Suc f)) p = Inr (x, q) \<and> pool_wf q \<and> recycle_list q = None
           \<and> obj_size q = obj_size p \<and> bump q = x # bump p"
proof -
  obtain b m where c: "cur_block p = Some b" "cur_meta p = Some (b, m)" "next_blk m = None"
    by (rule pool_wf_cur [OF assms(1)])
  show ?thesis
  proof (cases "0 < free_entries m")
    case True
    from alloc_bump [OF assms c(2) this, of "Suc f"] show ?thesis by blast
  next
    case False
    have step: "synchAllocObj (Suc (Suc f)) p = synchAllocObj (Suc f) (push_block p)"
      using False assms(2) c by (simp add: push_block_def Let_def split: prod.splits)
    note pb = push_block_wf [OF assms(1)]
    from pb(5) obtain m' where m': "cur_meta (push_block p) = Some (fresh p, m')" "0 < free_entries m'"
      using capacity_positive [OF assms(1)] by auto
    from alloc_bump [OF pb(1) _ m', of f] pb assms(2)
    show ?thesis unfolding step by auto
  qed
qed

lemma alloc_fresh_inv:
  assumes "pool_inv p L"
  shows "\<exists>x q. synchAllocObj 2 p = Inr (x, q) \<and> x \<notin> L \<and> inside_block q x \<and> pool_inv q (insert x L)"
proof (cases "recycle_list p")
  case None
  obtain x q where q: "synchAllocObj (Suc (Suc 0)) p = Inr (x, q)" "pool_wf q" "recycle_list q = None" "bump q = x # bump p"
    using alloc_new [of p 0] None assms by (auto simp: pool_inv_def)
  then have "inside_block q x" by (intro bump_inside) simp_all
  with q pool_inv_grow [OF assms None q(4) q(2,3)] show ?thesis by (simp only: numeral_2_eq_2) blast
next
  case (Some r)
  note r = alloc_recycled [OF assms Some]
  have "inside_block (p\<lparr>recycle_list := links p r\<rparr>) r"
    using r bump_inside [of p r] assms by (simp add: pool_inv_def inside_block_def)
  with r Some show ?thesis by (simp only: numeral_2_eq_2) simp
qed

text \<open>C36. An allocation always returns an object, after at most one recursive call (so two
  units of fuel are enough): an object nobody holds, inside its block, at a multiple of the object
  size; the pool invariant is kept with that object added to the ones in use.\<close>

theorem alloc_fresh:
  assumes "pool_inv p L"
  shows "\<exists>x q. synchAllocObj 2 p = Inr (x, q) \<and> x \<notin> L \<and> inside_block q x \<and> pool_inv q (insert x L)"
  using assms by (rule alloc_fresh_inv)

section \<open>Initialisation\<close>

text \<open>A pool with nothing in it, the argument of \<^verbatim>\<open>synchInitPool\<close>.\<close>

definition raw_pool :: SynchPoolStruct where
  "raw_pool = \<lparr>obj_size = 0, entries_per_block = 0, recycle_list = None, head_block = None, cur_block = None,
               blocks = (\<lambda>_. None), links = (\<lambda>_. None), fresh = 0\<rparr>"

text \<open>Initialisation reports the error exactly when one object would not fit into a block;
  otherwise the pool is empty, well formed and its objects can hold the pointer of the free list.\<close>

lemma init_pool:
  "synchInitPool raw_pool sz = None \<and> BLOCK_SIZE < POOL_BLOCK_METADATA_SIZE + sz
   \<or> (\<exists>p. synchInitPool raw_pool sz = Some p \<and> POOL_BLOCK_METADATA_SIZE + sz \<le> BLOCK_SIZE
        \<and> obj_size p = max sz 8 \<and> bump p = [] \<and> pool_inv p {})"
proof (cases "BLOCK_SIZE - POOL_BLOCK_METADATA_SIZE < sz")
  case True
  then show ?thesis by (auto simp: synchInitPool_def BLOCK_SIZE_def POOL_BLOCK_METADATA_SIZE_def)
next
  case False
  let ?p = "the (synchInitPool raw_pool sz)"
  have "synchInitPool raw_pool sz = Some ?p" and os: "obj_size ?p = max sz 8" "recycle_list ?p = None"
    and b: "bump ?p = []"
    using False by (auto simp: synchInitPool_def get_new_block_def raw_pool_def Let_def bump_def max_def)
  moreover have "pool_wf ?p"
    using False by (auto simp: pool_wf_def synchInitPool_def get_new_block_def raw_pool_def Let_def
      BLOCK_SIZE_def POOL_BLOCK_METADATA_SIZE_def split: if_splits)
  moreover have "POOL_BLOCK_METADATA_SIZE + sz \<le> BLOCK_SIZE"
    using False by (auto simp: BLOCK_SIZE_def POOL_BLOCK_METADATA_SIZE_def)
  ultimately show ?thesis by (auto simp: pool_inv_def intro: exI [of _ "[]"])
qed

section \<open>Recycling\<close>

text \<open>Recycling an object that is in use takes it out of the objects in use and keeps the
  invariant; it is what the next allocation returns, which restores the pool's free list.\<close>

lemma recycle_then_alloc:
  assumes "pool_inv p L" and "x \<in> L"
  shows "pool_inv (synchRecycleObj False p (Some x)) (L - {x})
     \<and> (\<exists>q. synchAllocObj 2 (synchRecycleObj False p (Some x)) = Inr (x, q)
          \<and> recycle_list q = recycle_list p \<and> blocks q = blocks p)"
proof -
  let ?q = "synchRecycleObj False p (Some x)"
  from assms obtain fl where fl: "free_path (links p) (recycle_list p) fl" "distinct fl"
      "set fl \<subseteq> set (bump p)" "L \<subseteq> set (bump p)" "L \<inter> set fl = {}" "pool_wf p"
    by (auto simp: pool_inv_def)
  have cong: "x \<notin> set xs \<Longrightarrow> free_path (l(x := y)) c xs = free_path l c xs" for l y c xs
    by (induction xs arbitrary: c) auto
  have "x \<notin> set fl" using fl assms(2) by blast
  then have "free_path (links ?q) (recycle_list ?q) (x # fl)"
    using fl(1) by (simp add: synchRecycleObj_def cong)
  moreover have "bump ?q = bump p" "pool_wf ?q"
    using fl(6) by (simp_all add: synchRecycleObj_def bump_def pool_wf_def)
  ultimately have "pool_inv ?q (L - {x})"
    using fl assms(2) by (auto simp: pool_inv_def intro!: exI [of _ "x # fl"])
  then show ?thesis by (simp add: synchRecycleObj_def numeral_2_eq_2)
qed

section \<open>Rollback\<close>

lemma rollback_step:
  assumes "pool_wf p" and "cur_block p = Some b" and "blocks p b = Some m" and "n \<le> cur_entry m"
  shows "\<exists>q. synchRollback (Suc (Suc f)) p n = Inr q \<and> pool_wf q
           \<and> bump q = drop n (bump p) \<and> recycle_list q = recycle_list p \<and> links q = links p"
proof (cases "n = 0")
  case False
  let ?q = "set_meta b (m\<lparr>cur_entry := cur_entry m - n, free_entries := free_entries m + n\<rparr>) p"
  have b: "b < fresh p" and sum: "free_entries m + cur_entry m = entries m"
    using assms(1,3) by (simp_all add: pool_wf_def)
  have "synchRollback (Suc (Suc f)) p n = Inr ?q"
    using False assms(2-4) by (simp add: cur_meta_def)
  moreover have "pool_wf ?q"
    using assms sum by (intro pool_wf_set_meta [OF assms(1-3)]) auto
  moreover have "bump ?q = drop n (bump p)"
    using bump_set_meta [OF pool_wf_back_ok [OF assms(1)] assms(2,3) b]
      bump_unfold [OF pool_wf_back_ok [OF assms(1)] assms(2,3) b] assms(4)
    by (simp add: drop_cut)
  ultimately show ?thesis by (simp add: set_meta_def)
qed (use assms(1) in simp)

lemma pool_wf_move: "\<lbrakk>pool_wf p; k \<in> dom (blocks p)\<rbrakk> \<Longrightarrow> pool_wf (p\<lparr>cur_block := Some k\<rparr>)"
  unfolding pool_wf_def by (simp add: domIff)

lemma rollback_total:
  "\<lbrakk>pool_wf p; cur_block p = Some b; b + 2 \<le> f\<rbrakk> \<Longrightarrow>
   \<exists>q. synchRollback f p n = Inr q \<and> pool_wf q \<and> bump q = drop n (bump p)
     \<and> recycle_list q = recycle_list p \<and> links q = links p"
proof (induction b arbitrary: p n f rule: less_induct)
  case (less b)
  from less.prems(3) obtain f' where f': "f = Suc (Suc f')" by (metis add_2_eq_Suc' le_Suc_ex add_Suc)
  obtain m where m: "blocks p b = Some m" "b < fresh p" "free_entries m + cur_entry m = entries m"
      "\<And>k. back_blk m = Some k \<Longrightarrow> k < b \<and> k \<in> dom (blocks p)"
    using pool_wf_cur [OF less.prems(1)] less.prems(2) by (metis option.inject)
  note bo = pool_wf_back_ok [OF less.prems(1)]
  show ?case
  proof (cases "n \<le> cur_entry m")
    case True
    from rollback_step [OF less.prems(1,2) m(1) this, of f'] show ?thesis unfolding f' .
  next
    case False
    let ?p1 = "set_meta b (m\<lparr>cur_entry := 0, free_entries := entries m\<rparr>) p"
    have wf1: "pool_wf ?p1" using m(3) by (intro pool_wf_set_meta [OF less.prems(1,2) m(1)]) auto
    have bump1: "bump ?p1 = drop (cur_entry m) (bump p)"
      using bump_set_meta [OF bo less.prems(2) m(1,2)] bump_unfold [OF bo less.prems(2) m(1,2)] by simp
    show ?thesis
    proof (cases "back_blk m")
      case None
      then have "bump ?p1 = drop n (bump p)"
        using bump_unfold [OF bo less.prems(2) m(1,2)] bump1 False
        by (cases b) simp_all
      moreover have "synchRollback f p n = Inr ?p1"
        using None False less.prems(2) m(1) by (simp add: f' cur_meta_def Let_def)
      moreover have "recycle_list ?p1 = recycle_list p" "links ?p1 = links p" by (simp_all add: set_meta_def)
      ultimately show ?thesis using wf1 by blast
    next
      case (Some k)
      let ?p2 = "?p1\<lparr>cur_block := Some k\<rparr>"
      have k: "k < b" "k \<in> dom (blocks p)" using m(4) [OF Some] by simp_all
      have "k \<in> dom (blocks ?p1)" using k by (simp add: set_meta_def)
      with wf1 have wf2: "pool_wf ?p2" by (rule pool_wf_move)
      have "bump ?p2 = bump ?p1"
      proof -
        obtain g where g: "fresh p = Suc g" "b \<le> g" using m(2) by (cases "fresh p") auto
        have "bump ?p1 = bump_from (obj_size p) (blocks ?p1) g (Some k)"
          using less.prems(2) m(1) Some g by (simp add: bump_def set_meta_def)
        moreover have "bump ?p2 = bump_from (obj_size p) (blocks ?p1) (Suc g) (Some k)"
          using g by (simp add: bump_def set_meta_def)
        ultimately show ?thesis
          using bump_from_fuel [OF pool_wf_back_ok [OF wf1], of "Some k" g "Suc g" "obj_size p"] k g by simp
      qed
      with bump1 have b2: "bump ?p2 = drop (cur_entry m) (bump p)" by simp
      have "k + 2 \<le> Suc f'" using k less.prems(3) f' by simp
      from less.IH [OF k(1) wf2 _ this, of "n - cur_entry m"] obtain q where
        q: "synchRollback (Suc f') ?p2 (n - cur_entry m) = Inr q" "pool_wf q"
           "bump q = drop (n - cur_entry m) (bump ?p2)" "recycle_list q = recycle_list ?p2" "links q = links ?p2"
        by auto
      have "synchRollback f p n = Inr q"
        using q(1) False Some less.prems(2) m(1) by (simp add: f' cur_meta_def Let_def)
      with q b2 False show ?thesis by (simp add: set_meta_def)
    qed
  qed
qed

text \<open>Several allocations in a row; what they leave while the free list is empty.\<close>

fun alloc_many :: "nat \<Rightarrow> SynchPoolStruct \<Rightarrow> pool_fault + (obj list \<times> SynchPoolStruct)" where
  "alloc_many 0 p = Inr ([], p)"
| "alloc_many (Suc k) p =
     (case synchAllocObj 2 p of
        Inl e \<Rightarrow> Inl e
      | Inr (x, q) \<Rightarrow> (case alloc_many k q of Inl e \<Rightarrow> Inl e | Inr (xs, q') \<Rightarrow> Inr (x # xs, q')))"

lemma alloc_many_new:
  "\<lbrakk>pool_inv p L; recycle_list p = None\<rbrakk> \<Longrightarrow>
   \<exists>xs q. alloc_many k p = Inr (xs, q) \<and> length xs = k \<and> distinct xs \<and> set xs \<inter> L = {} \<and> recycle_list q = None
     \<and> pool_inv q (set xs \<union> L) \<and> bump q = rev xs @ bump p"
proof (induction k arbitrary: p L)
  case (Suc k)
  obtain x q where q: "synchAllocObj 2 p = Inr (x, q)" "pool_wf q" "recycle_list q = None" "bump q = x # bump p"
    using alloc_new [of p 0] Suc.prems by (auto simp: pool_inv_def numeral_2_eq_2)
  note x = pool_inv_grow [OF Suc.prems q(4,2,3)]
  from Suc.IH [OF conjunct2 [OF x] q(3)] obtain xs q' where
    "alloc_many k q = Inr (xs, q')" "length xs = k" "distinct xs" "set xs \<inter> insert x L = {}" "recycle_list q' = None"
    "pool_inv q' (set xs \<union> insert x L)" "bump q' = rev xs @ bump q" by blast
  with q x show ?case by auto
qed simp

text \<open>C37. A rollback of \<open>n\<close> undoes the last \<open>n\<close> allocations, across block borders: when the free list
  is empty, \<open>n\<close> allocations give \<open>n\<close> new objects, and \<^verbatim>\<open>synchRollback\<close> of \<open>n\<close> after them ends (one loop turn per
  block is enough) and leaves the objects that were in use before, with the same objects cut from the
  blocks. Nothing is promised when an object comes from the free list, see below.\<close>

theorem rollback_cancels_last:
  assumes "pool_inv p L" and "recycle_list p = None"
  shows "\<exists>xs q q'. alloc_many n p = Inr (xs, q) \<and> length xs = n \<and> distinct xs \<and> set xs \<inter> L = {} \<and> pool_inv q (set xs \<union> L)
     \<and> synchRollback (fresh q + 2) q n = Inr q' \<and> pool_inv q' L \<and> bump q' = bump p \<and> recycle_list q' = None"
proof -
  obtain xs q where a: "alloc_many n p = Inr (xs, q)" "length xs = n" "distinct xs" "set xs \<inter> L = {}" "recycle_list q = None"
      "pool_inv q (set xs \<union> L)" "bump q = rev xs @ bump p"
    using alloc_many_new [OF assms] by blast
  have wf: "pool_wf q" using a(6) by (simp add: pool_inv_def)
  then obtain b where b: "cur_block q = Some b" "b < fresh q" by (rule pool_wf_cur)
  obtain q' where q': "synchRollback (fresh q + 2) q n = Inr q'" "pool_wf q'" "bump q' = drop n (bump q)"
      "recycle_list q' = recycle_list q"
    using rollback_total [OF wf b(1), of "fresh q + 2" n] b(2) by auto
  have d: "bump q' = bump p" using q'(3) a(2,7) by simp
  have "L \<subseteq> set (bump p)" using assms(1) by (auto simp: pool_inv_def)
  then have "pool_inv q' L" using q'(2,4) a(5) d by (auto simp: pool_inv_def intro!: exI [of _ "[]"])
  with a q' d show ?thesis by auto
qed

section \<open>Destruction\<close>

text \<open>\<^verbatim>\<open>synchDestroyPool\<close> follows the \<^verbatim>\<open>next\<close> pointers, which no
  operation ever sets: it gives back the first block only, and every other block stays
  allocated.\<close>

lemma destroy_frees_head_only:
  assumes "pool_wf p" and "head_block p = Some h" and "h \<in> dom (blocks p)"
  shows "\<exists>q. synchDestroyPool 2 p = Inr ([h], q) \<and> dom (blocks q) = dom (blocks p) - {h}
           \<and> head_block q = None \<and> cur_block q = None"
proof -
  from assms(3) obtain m where m: "blocks p h = Some m" by blast
  with assms(1) have "next_blk m = None" by (simp add: pool_wf_def)
  with m assms(2) show ?thesis by (auto simp: numeral_2_eq_2)
qed

section \<open>The properties at work\<close>

text \<open>A pool of two objects of half a block each, filled, and one more.\<close>

definition demo_pool :: SynchPoolStruct where
  "demo_pool = the (synchInitPool raw_pool (4096 * 8192 - 32))"

definition demo_pool2 :: SynchPoolStruct where
  "demo_pool2 = snd (projr (synchAllocObj 2 (snd (projr (synchAllocObj 2 demo_pool)))))"

lemma demo_pool_simps:
  "demo_pool = \<lparr>obj_size = 33554400, entries_per_block = 1, recycle_list = None, head_block = Some 0,
     cur_block = Some 0,
     blocks = [0 \<mapsto> \<lparr>object_size = 33554400, entries = 1, free_entries = 1, cur_entry = 0,
                       next_blk = None, back_blk = None\<rparr>],
     links = (\<lambda>_. None), fresh = 1\<rparr>"
  by (simp add: demo_pool_def synchInitPool_def raw_pool_def get_new_block_def
    BLOCK_SIZE_def POOL_BLOCK_METADATA_SIZE_def Let_def)

lemma demo_pool2_simps:
  "demo_pool2 = \<lparr>obj_size = 33554400, entries_per_block = 1, recycle_list = None, head_block = Some 0,
     cur_block = Some 1,
     blocks = [0 \<mapsto> \<lparr>object_size = 33554400, entries = 1, free_entries = 0, cur_entry = 1,
                       next_blk = None, back_blk = None\<rparr>,
               1 \<mapsto> \<lparr>object_size = 33554400, entries = 1, free_entries = 0, cur_entry = 1,
                       next_blk = None, back_blk = Some 0\<rparr>],
     links = (\<lambda>_. None), fresh = 2\<rparr>"
  by (simp add: demo_pool2_def demo_pool_simps numeral_2_eq_2 cur_meta_def set_meta_def get_new_block_def
    BLOCK_SIZE_def POOL_BLOCK_METADATA_SIZE_def Let_def)

lemma demo_inv: "pool_inv demo_pool {}"
  by (auto simp: pool_inv_def pool_wf_def demo_pool_simps BLOCK_SIZE_def POOL_BLOCK_METADATA_SIZE_def
    intro!: exI [of _ "[]"] split: if_splits)

lemma demo_bump2: "bump demo_pool2 = [(1, 0), (0, 0)]"
  by (simp add: bump_def demo_pool2_simps numeral_2_eq_2 cut_def)

lemma demo_wf2: "pool_wf demo_pool2"
  by (auto simp: pool_wf_def demo_pool2_simps BLOCK_SIZE_def POOL_BLOCK_METADATA_SIZE_def split: if_splits)

lemma demo_inv2: "pool_inv demo_pool2 {(1, 0), (0, 0)}"
  unfolding pool_inv_def using demo_wf2
  by (intro conjI exI [of _ "[]"]) (simp_all add: demo_bump2, simp add: demo_pool2_simps)

theorem alloc_fresh_witness:
  "\<exists>x q. synchAllocObj 2 demo_pool2 = Inr (x, q) \<and> x \<notin> {(1, 0), (0, 0)} \<and> inside_block q x
     \<and> pool_inv q {x, (1, 0), (0, 0)}"
  using alloc_fresh [OF demo_inv2] .

lemma recycle_then_alloc_witness:
  "pool_inv (synchRecycleObj False demo_pool2 (Some (0, 0))) ({(1, 0), (0, 0)} - {(0, 0)})
   \<and> (\<exists>q. synchAllocObj 2 (synchRecycleObj False demo_pool2 (Some (0, 0))) = Inr ((0, 0), q)
          \<and> recycle_list q = recycle_list demo_pool2 \<and> blocks q = blocks demo_pool2)"
  using recycle_then_alloc [OF demo_inv2, of "(0, 0)"] by simp

theorem rollback_cancels_last_witness:
  "\<exists>xs q q'. alloc_many 3 demo_pool = Inr (xs, q) \<and> length xs = 3 \<and> pool_inv q (set xs)
     \<and> synchRollback (fresh q + 2) q 3 = Inr q' \<and> pool_inv q' {} \<and> bump q' = []"
proof -
  have "recycle_list demo_pool = None" "bump demo_pool = []"
    by (simp_all add: demo_pool_simps bump_def)
  with rollback_cancels_last [OF demo_inv, of 3] show ?thesis
    by (simp del: synchRollback.simps alloc_many.simps) blast
qed

text \<open>An allocation that reuses an object is not undone: after the allocations \<open>a\<close> and \<open>b\<close>, the return of
  \<open>a\<close> and the allocation of \<open>a\<close>, a rollback of the last allocation takes \<open>b\<close> away, which is in use, and
  the next allocation hands \<open>b\<close>'s memory out again.\<close>

lemma rollback_after_recycle:
  "\<exists>p1 p2 p3. synchAllocObj 2 (synchRecycleObj False demo_pool2 (Some (0, 0))) = Inr ((0, 0), p1)
     \<and> pool_inv p1 {(0, 0), (1, 0)}
     \<and> synchRollback 3 p1 1 = Inr p2 \<and> synchAllocObj 2 p2 = Inr ((1, 0), p3)"
proof -
  have "pool_inv p1 {(0, 0), (1, 0)}" if "synchAllocObj 2 (synchRecycleObj False demo_pool2 (Some (0, 0))) = Inr ((0, 0), p1)" for p1
  proof -
    have "pool_inv (synchRecycleObj False demo_pool2 (Some (0, 0))) ({(1, 0), (0, 0)} - {(0, 0)})"
      using recycle_then_alloc [OF demo_inv2, of "(0, 0)"] by simp
    from alloc_fresh_inv [OF this] that show ?thesis by (auto simp: insert_commute)
  qed
  then show ?thesis
    by (simp add: synchRecycleObj_def demo_pool2_simps numeral_2_eq_2 numeral_3_eq_3 cur_meta_def set_meta_def)
qed

lemma destroy_frees_head_only_witness:
  "\<exists>q. synchDestroyPool 2 demo_pool2 = Inr ([0], q) \<and> dom (blocks q) = dom (blocks demo_pool2) - {0}
     \<and> 1 \<in> dom (blocks q)"
proof -
  have "head_block demo_pool2 = Some 0" "0 \<in> dom (blocks demo_pool2)" "1 \<in> dom (blocks demo_pool2)"
    by (simp_all add: demo_pool2_simps)
  with destroy_frees_head_only [OF demo_wf2] show ?thesis by fastforce
qed

end
