(* ===== verification/Barrier.thy ===== *)
theory Barrier
  imports Prelude
begin

text \<open>
  The two-phase re-entrant barrier of libconcurrent/primitives/barrier.c. A step is one access
  to the shared structure; a thread may call \<^verbatim>\<open>synchBarrierWait\<close> again and again. The
  auxiliary counters \<open>started\<close> and \<open>finished\<close> record how many calls a thread has begun and
  returned from: the barrier works when no thread has returned from more calls than any other
  thread has begun. The counts of arriving threads never exceed \<open>n\<close>, which fits the
  \<^verbatim>\<open>int32_t\<close> fields, so they are integers here.
\<close>

section \<open>State and steps\<close>

datatype bar_pc =
    B_out
  | B_arrive  \<comment> \<open>\<^verbatim>\<open>FAA32(&arrive, -1) > 1\<close>\<close>
  | B_aspin   \<comment> \<open>\<^verbatim>\<open>while (arrive_flag)\<close>\<close>
  | B_a1      \<comment> \<open>\<^verbatim>\<open>arrive = val_at_set\<close>\<close>
  | B_a2      \<comment> \<open>\<^verbatim>\<open>leave_flag = true\<close>\<close>
  | B_a3      \<comment> \<open>\<^verbatim>\<open>arrive_flag = false\<close>\<close>
  | B_leave   \<comment> \<open>\<^verbatim>\<open>FAA32(&leave, -1) > 1\<close>\<close>
  | B_lspin   \<comment> \<open>\<^verbatim>\<open>while (leave_flag)\<close>\<close>
  | B_l1      \<comment> \<open>\<^verbatim>\<open>leave = val_at_set\<close>\<close>
  | B_l2      \<comment> \<open>\<^verbatim>\<open>arrive_flag = true\<close>\<close>
  | B_l3      \<comment> \<open>\<^verbatim>\<open>leave_flag = false\<close>\<close>

record SynchBarrier =
  arrive :: int
  leave :: int
  arrive_flag :: bool
  leave_flag :: bool
  val_at_set :: int

record barrier = SynchBarrier +
  pc :: "tid \<Rightarrow> bar_pc"
  started :: "tid \<Rightarrow> nat"
  finished :: "tid \<Rightarrow> nat"

definition synchBarrierSet :: "nat \<Rightarrow> barrier" where
  "synchBarrierSet n = \<lparr>arrive = int n, leave = int n, arrive_flag = True, leave_flag = True,
     val_at_set = int n, pc = (\<lambda>_. B_out), started = (\<lambda>_. 0), finished = (\<lambda>_. 0)\<rparr>"

abbreviation goto :: "tid \<Rightarrow> bar_pc \<Rightarrow> barrier \<Rightarrow> barrier" where
  "goto p c b \<equiv> b\<lparr>pc := (pc b)(p := c)\<rparr>"

fun synchBarrierWait :: "tid \<Rightarrow> barrier \<Rightarrow> barrier" where
  "synchBarrierWait p b =
     (case pc b p of
        B_out \<Rightarrow> b
      | B_arrive \<Rightarrow> goto p (if 1 < arrive b then B_aspin else B_a1) (b\<lparr>arrive := arrive b - 1\<rparr>)
      | B_aspin \<Rightarrow> if arrive_flag b then b else goto p B_leave b
      | B_a1 \<Rightarrow> goto p B_a2 (b\<lparr>arrive := val_at_set b\<rparr>)
      | B_a2 \<Rightarrow> goto p B_a3 (b\<lparr>leave_flag := True\<rparr>)
      | B_a3 \<Rightarrow> goto p B_leave (b\<lparr>arrive_flag := False\<rparr>)
      | B_leave \<Rightarrow> goto p (if 1 < leave b then B_lspin else B_l1) (b\<lparr>leave := leave b - 1\<rparr>)
      | B_lspin \<Rightarrow> if leave_flag b then b
                   else goto p B_out (b\<lparr>finished := (finished b)(p := finished b p + 1)\<rparr>)
      | B_l1 \<Rightarrow> goto p B_l2 (b\<lparr>leave := val_at_set b\<rparr>)
      | B_l2 \<Rightarrow> goto p B_l3 (b\<lparr>arrive_flag := True\<rparr>)
      | B_l3 \<Rightarrow> goto p B_out (b\<lparr>leave_flag := False, finished := (finished b)(p := finished b p + 1)\<rparr>))"

datatype bar_act = Wait tid | Step tid

fun bar_ok :: "nat \<Rightarrow> barrier \<Rightarrow> bar_act \<Rightarrow> bool" where
  "bar_ok n b (Wait p) \<longleftrightarrow> p < n \<and> pc b p = B_out"
| "bar_ok n b (Step p) \<longleftrightarrow> p < n \<and> pc b p \<noteq> B_out"

fun bar_exec :: "bar_act \<Rightarrow> barrier \<Rightarrow> barrier" where
  "bar_exec (Wait p) b = goto p B_arrive (b\<lparr>started := (started b)(p := started b p + 1)\<rparr>)"
| "bar_exec (Step p) b = synchBarrierWait p b"

text \<open>A thread that will not come back takes itself out of both counts;
  \<^verbatim>\<open>synchBarrierLastLeave\<close> then looks until one of the counts is zero (\<open>None\<close>: still
  waiting).\<close>

definition synchBarrierLeave :: "barrier \<Rightarrow> barrier" where
  "synchBarrierLeave b = b\<lparr>arrive := arrive b - 1, leave := leave b - 1\<rparr>"

definition synchBarrierLastLeave_done :: "barrier \<Rightarrow> bool" where
  "synchBarrierLastLeave_done b \<longleftrightarrow> \<not> (arrive b \<noteq> 0 \<and> leave b \<noteq> 0)"

section \<open>Invariant\<close>

text \<open>The four phases of a round: threads arrive; the last one to arrive opens the door; threads
  leave; the last one to leave closes it behind them. \<open>r\<close> is the number of completed rounds.\<close>

definition at :: "nat \<Rightarrow> barrier \<Rightarrow> bar_pc \<Rightarrow> tid set" where
  "at n b c = {p. p < n \<and> pc b p = c}"

definition ph_arriving :: "nat \<Rightarrow> nat \<Rightarrow> barrier \<Rightarrow> bool" where
  "ph_arriving n r b \<longleftrightarrow> arrive_flag b \<and> leave b = int n
     \<and> arrive b = int n - int (card (at n b B_aspin)) \<and> 1 \<le> arrive b
     \<and> (\<forall>p<n. pc b p = B_out \<and> started b p = r \<and> finished b p = r
            \<or> pc b p \<in> {B_arrive, B_aspin} \<and> started b p = r + 1 \<and> finished b p = r
            \<or> pc b p = B_lspin \<and> \<not> leave_flag b \<and> started b p = r \<and> finished b p + 1 = r)"

definition ph_opening :: "nat \<Rightarrow> nat \<Rightarrow> barrier \<Rightarrow> bool" where
  "ph_opening n r b \<longleftrightarrow> arrive_flag b \<and> leave b = int n
     \<and> (\<exists>q<n. (pc b q = B_a1 \<or> pc b q = B_a2 \<and> arrive b = int n \<or> pc b q = B_a3 \<and> arrive b = int n \<and> leave_flag b)
          \<and> (\<forall>p<n. p \<noteq> q \<longrightarrow> pc b p = B_aspin))
     \<and> (\<forall>p<n. started b p = r + 1 \<and> finished b p = r)"

definition ph_leaving :: "nat \<Rightarrow> nat \<Rightarrow> barrier \<Rightarrow> bool" where
  "ph_leaving n r b \<longleftrightarrow> \<not> arrive_flag b \<and> leave_flag b \<and> arrive b = int n
     \<and> leave b = int n - int (card (at n b B_lspin)) \<and> 1 \<le> leave b
     \<and> (\<forall>p<n. pc b p \<in> {B_aspin, B_leave, B_lspin} \<and> started b p = r + 1 \<and> finished b p = r)"

definition ph_closing :: "nat \<Rightarrow> nat \<Rightarrow> barrier \<Rightarrow> bool" where
  "ph_closing n r b \<longleftrightarrow> leave_flag b \<and> arrive b = int n
     \<and> (\<exists>q<n. (pc b q = B_l1 \<and> \<not> arrive_flag b \<or> pc b q = B_l2 \<and> leave b = int n \<and> \<not> arrive_flag b
               \<or> pc b q = B_l3 \<and> leave b = int n \<and> arrive_flag b)
          \<and> (\<forall>p<n. p \<noteq> q \<longrightarrow> pc b p = B_lspin))
     \<and> (\<forall>p<n. started b p = r + 1 \<and> finished b p = r)"

definition bar_inv :: "nat \<Rightarrow> barrier \<Rightarrow> bool" where
  "bar_inv n b \<longleftrightarrow> val_at_set b = int n
     \<and> (\<exists>r. ph_arriving n r b \<or> ph_opening n r b \<or> ph_leaving n r b \<or> ph_closing n r b)"

lemma finite_at [simp]: "finite (at n b c)"
  by (simp add: at_def)

lemma at_goto:
  "p < n \<Longrightarrow> at n (b'\<lparr>pc := (pc b)(p := c')\<rparr>) c = (if c = c' then insert p (at n b c) else at n b c - {p})"
  by (auto simp: at_def)

lemma at_other: "pc b p \<noteq> c \<Longrightarrow> at n b c - {p} = at n b c"
  by (auto simp: at_def)

lemma at_all_but:
  assumes "q < n" "pc b q \<noteq> c" "card (at n b c) = n - 1"
  shows "\<forall>p<n. p \<noteq> q \<longrightarrow> pc b p = c"
proof -
  have "at n b c \<subseteq> {..<n} - {q}" using assms(2) by (auto simp: at_def)
  moreover have "card ({..<n} - {q}) = n - 1" using assms(1) by simp
  ultimately have "at n b c = {..<n} - {q}" using assms(3) by (intro card_subset_eq) auto
  then show ?thesis by (auto simp: at_def)
qed

lemma at_cong: "(\<And>p. p < n \<Longrightarrow> pc b p = pc b' p) \<Longrightarrow> at n b c = at n b' c"
  by (auto simp: at_def)

lemma at_upd [simp]:
  "at n (b\<lparr>arrive := x\<rparr>) c = at n b c" "at n (b\<lparr>leave := x\<rparr>) c = at n b c"
  "at n (b\<lparr>arrive_flag := f\<rparr>) c = at n b c" "at n (b\<lparr>leave_flag := f\<rparr>) c = at n b c"
  "at n (b\<lparr>started := s\<rparr>) c = at n b c" "at n (b\<lparr>finished := s\<rparr>) c = at n b c"
  by (simp_all add: at_def)

lemma bar_inv_init: "0 < n \<Longrightarrow> bar_inv n (synchBarrierSet n)"
  by (auto simp: bar_inv_def ph_arriving_def synchBarrierSet_def at_def intro!: exI [of _ 0])

lemma arriving_wait:
  assumes "ph_arriving n r b" and "p < n" and "pc b p = B_out"
  shows "ph_arriving n r (bar_exec (Wait p) b)"
  using assms by (auto simp: ph_arriving_def at_goto at_other)

lemma arriving_arrive:
  assumes "ph_arriving n r b" and "p < n" and "pc b p = B_arrive"
  shows "ph_arriving n r (synchBarrierWait p b) \<or> ph_opening n r (synchBarrierWait p b)"
proof (cases "1 < arrive b")
  case True
  have "p \<notin> at n b B_aspin" using assms(3) by (simp add: at_def)
  then have "ph_arriving n r (synchBarrierWait p b)"
    using True assms by (auto simp: ph_arriving_def at_goto)
  then show ?thesis ..
next
  case False
  with assms(1) have "card (at n b B_aspin) = n - 1" by (auto simp: ph_arriving_def)
  from at_all_but [OF assms(2) _ this] assms(3) have o: "\<forall>q<n. q \<noteq> p \<longrightarrow> pc b q = B_aspin" by simp
  have "\<forall>q<n. started b q = r + 1 \<and> finished b q = r"
    using assms o unfolding ph_arriving_def by (metis bar_pc.distinct)
  then have "ph_opening n r (synchBarrierWait p b)"
    using False assms o by (auto simp: ph_arriving_def ph_opening_def intro!: exI [of _ p])
  then show ?thesis ..
qed

lemma arriving_lspin:
  assumes "ph_arriving n r b" and "p < n" and "pc b p = B_lspin"
  shows "ph_arriving n r (synchBarrierWait p b)"
  using assms by (auto simp: ph_arriving_def at_goto at_other)

lemma opening_step:
  assumes "ph_opening n r b" and "p < n" and "pc b p \<noteq> B_out" and "val_at_set b = int n"
  shows "ph_opening n r (synchBarrierWait p b) \<or> ph_leaving n r (synchBarrierWait p b)"
proof -
  from assms(1) obtain q where q: "q < n" "\<forall>p<n. p \<noteq> q \<longrightarrow> pc b p = B_aspin"
      "pc b q = B_a1 \<or> pc b q = B_a2 \<and> arrive b = int n \<or> pc b q = B_a3 \<and> arrive b = int n \<and> leave_flag b"
      "arrive_flag b" "leave b = int n" "\<forall>p<n. started b p = r + 1 \<and> finished b p = r"
    unfolding ph_opening_def by blast
  show ?thesis
  proof (cases "p = q")
    case False
    with q assms(2) have "synchBarrierWait p b = b" by simp
    with assms(1) show ?thesis by simp
  next
    case True
    show ?thesis
    proof (cases "pc b q = B_a3")
      case a3: True
      have "at n b B_lspin = {}" using q a3 by (auto simp: at_def)
      then have "ph_leaving n r (synchBarrierWait p b)"
        using True a3 q by (auto simp: ph_leaving_def at_goto)
      then show ?thesis ..
    next
      case False
      then have "ph_opening n r (synchBarrierWait p b)"
        using True q assms(4) by (auto simp: ph_opening_def intro!: exI [of _ q])
      then show ?thesis ..
    qed
  qed
qed

lemma leaving_leave:
  assumes "ph_leaving n r b" and "p < n" and "pc b p = B_leave"
  shows "ph_leaving n r (synchBarrierWait p b) \<or> ph_closing n r (synchBarrierWait p b)"
proof (cases "1 < leave b")
  case True
  have "p \<notin> at n b B_lspin" using assms(3) by (simp add: at_def)
  then have "ph_leaving n r (synchBarrierWait p b)"
    using True assms by (auto simp: ph_leaving_def at_goto)
  then show ?thesis ..
next
  case False
  with assms(1) have "card (at n b B_lspin) = n - 1" by (auto simp: ph_leaving_def)
  from at_all_but [OF assms(2) _ this] assms(3) have "\<forall>q<n. q \<noteq> p \<longrightarrow> pc b q = B_lspin" by simp
  then have "ph_closing n r (synchBarrierWait p b)"
    using False assms by (auto simp: ph_leaving_def ph_closing_def intro!: exI [of _ p])
  then show ?thesis ..
qed

lemma leaving_aspin:
  assumes "ph_leaving n r b" and "p < n" and "pc b p = B_aspin"
  shows "ph_leaving n r (synchBarrierWait p b)"
  using assms by (auto simp: ph_leaving_def at_goto at_other)

lemma closing_step:
  assumes "ph_closing n r b" and "p < n" and "val_at_set b = int n"
  shows "ph_closing n r (synchBarrierWait p b) \<or> ph_arriving n (r + 1) (synchBarrierWait p b)"
proof -
  from assms(1) obtain q where q: "q < n" "\<forall>p<n. p \<noteq> q \<longrightarrow> pc b p = B_lspin"
      "pc b q = B_l1 \<and> \<not> arrive_flag b \<or> pc b q = B_l2 \<and> leave b = int n \<and> \<not> arrive_flag b
               \<or> pc b q = B_l3 \<and> leave b = int n \<and> arrive_flag b"
      "leave_flag b" "arrive b = int n" "\<forall>p<n. started b p = r + 1 \<and> finished b p = r"
    unfolding ph_closing_def by blast
  show ?thesis
  proof (cases "p = q")
    case False
    with q assms(2) have "synchBarrierWait p b = b" by simp
    with assms(1) show ?thesis by simp
  next
    case True
    show ?thesis
    proof (cases "pc b q = B_l3")
      case l3: True
      have "at n b B_aspin = {}" using q l3 by (auto simp: at_def)
      then have "ph_arriving n (r + 1) (synchBarrierWait p b)"
        using True l3 q by (auto simp: ph_arriving_def at_goto)
      then show ?thesis ..
    next
      case False
      then have "ph_closing n r (synchBarrierWait p b)"
        using True q assms(3) by (auto simp: ph_closing_def intro!: exI [of _ q])
      then show ?thesis ..
    qed
  qed
qed

lemma val_at_set_wait [simp]: "val_at_set (synchBarrierWait p b) = val_at_set b"
  by (cases "pc b p") simp_all

lemma bar_inv_exec:
  assumes "bar_inv n b" and "bar_ok n b a"
  shows "bar_inv n (bar_exec a b)"
proof -
  from assms(1) obtain r where v: "val_at_set b = int n"
    and r: "ph_arriving n r b \<or> ph_opening n r b \<or> ph_leaving n r b \<or> ph_closing n r b"
    unfolding bar_inv_def by blast
  show ?thesis
  proof (cases a)
    case (Wait p)
    then have p: "p < n" "pc b p = B_out" using assms(2) by simp_all
    then have "ph_arriving n r b" using r
      by (auto simp: ph_opening_def ph_leaving_def ph_closing_def)
    from arriving_wait [OF this p] Wait v show ?thesis by (auto simp: bar_inv_def)
  next
    case (Step p)
    then have p: "p < n" "pc b p \<noteq> B_out" using assms(2) by simp_all
    let ?b = "synchBarrierWait p b"
    have "\<exists>r. ph_arriving n r ?b \<or> ph_opening n r ?b \<or> ph_leaving n r ?b \<or> ph_closing n r ?b"
      using r
    proof (elim disjE)
      assume ar: "ph_arriving n r b"
      then consider "pc b p = B_arrive" | "pc b p = B_aspin" | "pc b p = B_lspin"
        using p by (auto simp: ph_arriving_def)
      then show ?thesis
      proof cases
        case 2
        then have "?b = b" using ar by (simp add: ph_arriving_def)
        with r show ?thesis by auto
      qed (use arriving_arrive [OF ar p(1)] arriving_lspin [OF ar p(1)] in blast)+
    next
      assume "ph_opening n r b"
      from opening_step [OF this p v] show ?thesis by blast
    next
      assume lv: "ph_leaving n r b"
      then consider "pc b p = B_leave" | "pc b p = B_aspin" | "pc b p = B_lspin"
        using p by (auto simp: ph_leaving_def)
      then show ?thesis
      proof cases
        case 3
        then have "?b = b" using lv by (simp add: ph_leaving_def)
        with r show ?thesis by auto
      qed (use leaving_leave [OF lv p(1)] leaving_aspin [OF lv p(1)] in blast)+
    next
      assume "ph_closing n r b"
      from closing_step [OF this p(1) v] show ?thesis by blast
    qed
    moreover have "val_at_set ?b = int n" using v by (simp only: val_at_set_wait)
    ultimately show ?thesis unfolding Step bar_exec.simps bar_inv_def by blast
  qed
qed

lemma bar_reach_inv:
  "\<lbrakk>reach (synchBarrierSet n) (act_step (bar_ok n) bar_exec) b; 0 < n\<rbrakk> \<Longrightarrow> bar_inv n b"
  by (erule act_reach_invariant) (auto intro: bar_inv_init bar_inv_exec)

section \<open>Properties\<close>

text \<open>C34. The barrier holds: no thread has returned from more calls of
  \<^verbatim>\<open>synchBarrierWait\<close> than any other thread has begun, round after round.\<close>

theorem barrier_synchronises:
  assumes "reach (synchBarrierSet n) (act_step (bar_ok n) bar_exec) b" and "p < n" and "q < n"
  shows "finished b p \<le> started b q"
proof -
  have "bar_inv n b" using bar_reach_inv [OF assms(1)] assms(2) by simp
  then obtain r where "ph_arriving n r b \<or> ph_opening n r b \<or> ph_leaving n r b \<or> ph_closing n r b"
    unfolding bar_inv_def by blast
  then show ?thesis
  proof (elim disjE)
    assume ar: "ph_arriving n r b"
    then have "finished b p \<le> r" using assms(2) unfolding ph_arriving_def by (metis le_add1 order_refl)
    moreover have "r \<le> started b q" using ar assms(3) unfolding ph_arriving_def by (metis le_add1 order_refl)
    ultimately show ?thesis by (rule order_trans)
  qed (use assms(2,3) in \<open>simp_all add: ph_opening_def ph_leaving_def ph_closing_def\<close>)
qed

text \<open>C35. It does not block for ever: when every thread has begun one call more than it has
  returned from, some thread's next step moves it on.\<close>

theorem barrier_progress:
  assumes "reach (synchBarrierSet n) (act_step (bar_ok n) bar_exec) b" and "0 < n"
    and "\<forall>p<n. pc b p \<noteq> B_out"
  shows "\<exists>p<n. bar_ok n b (Step p) \<and> pc (bar_exec (Step p) b) p \<noteq> pc b p"
proof -
  have "bar_inv n b" using bar_reach_inv [OF assms(1,2)] .
  then obtain r where "ph_arriving n r b \<or> ph_opening n r b \<or> ph_leaving n r b \<or> ph_closing n r b"
    unfolding bar_inv_def by blast
  then show ?thesis
  proof (elim disjE)
    assume ar: "ph_arriving n r b"
    have "\<not> (\<forall>p<n. pc b p = B_aspin)"
    proof
      assume "\<forall>p<n. pc b p = B_aspin"
      then have "at n b B_aspin = {..<n}" by (auto simp: at_def)
      with ar show False by (auto simp: ph_arriving_def)
    qed
    then obtain p where "p < n" "pc b p \<noteq> B_aspin" by blast
    with ar assms(3) show ?thesis
      unfolding ph_arriving_def by (intro exI [of _ p]) auto
  next
    assume "ph_opening n r b"
    then obtain q where "q < n" "pc b q \<in> {B_a1, B_a2, B_a3}" unfolding ph_opening_def by blast
    then show ?thesis by (intro exI [of _ q]) auto
  next
    assume lv: "ph_leaving n r b"
    have "\<not> (\<forall>p<n. pc b p = B_lspin)"
    proof
      assume "\<forall>p<n. pc b p = B_lspin"
      then have "at n b B_lspin = {..<n}" by (auto simp: at_def)
      with lv show False by (auto simp: ph_leaving_def)
    qed
    then obtain p where "p < n" "pc b p \<noteq> B_lspin" by blast
    with lv show ?thesis
      unfolding ph_leaving_def by (intro exI [of _ p]) auto
  next
    assume "ph_closing n r b"
    then obtain q where "q < n" "pc b q \<in> {B_l1, B_l2, B_l3}" unfolding ph_closing_def by blast
    then show ?thesis by (intro exI [of _ q]) auto
  qed
qed

text \<open>Two threads; the first has arrived, the second is about to.\<close>

definition bar_demo :: barrier where
  "bar_demo = the (run_acts (bar_ok 2) bar_exec [Wait 0, Wait 1, Step 0] (synchBarrierSet 2))"

lemma bar_demo_run: "run_acts (bar_ok 2) bar_exec [Wait 0, Wait 1, Step 0] (synchBarrierSet 2) = Some bar_demo"
  by (simp add: bar_demo_def synchBarrierSet_def)

theorem barrier_synchronises_witness: "finished bar_demo 0 \<le> started bar_demo 1 \<and> pc bar_demo 0 = B_aspin"
  using barrier_synchronises [OF run_acts_reachable [OF bar_demo_run], of 0 1]
  by (simp add: bar_demo_def synchBarrierSet_def)

theorem barrier_progress_witness:
  "\<exists>p<2. bar_ok 2 bar_demo (Step p) \<and> pc (bar_exec (Step p) bar_demo) p \<noteq> pc bar_demo p"
proof -
  have "\<forall>p<2. pc bar_demo p \<noteq> B_out"
    by (simp add: bar_demo_def synchBarrierSet_def less_2_cases_iff)
  then show ?thesis by (intro barrier_progress [OF run_acts_reachable [OF bar_demo_run]]) simp_all
qed

end
