(* ===== verification/Linearizability.thy ===== *)
theory Linearizability
  imports Prelude
begin

text \<open>
  What the concurrent objects of the library promise. A history is the sequence of calls and
  returns the threads see. The atomic object is the automaton in which an operation is called,
  takes effect at one instant (\<open>Lin\<close>) by running the sequential specification, and returns
  what that run gave; a history is linearizable when the atomic object has it.

  A specification is a function \<open>spec p x s\<close> of the calling thread, the argument and the
  object's state, which gives the return value and the new state: this is the \<^verbatim>\<open>sfunc\<close>
  that the combining algorithms of the library take, \<^verbatim>\<open>sfunc(state, arg, pid)\<close>.

  Two interfaces are stated here: \<open>linearization\<close>, what a machine must show about its steps
  to be linearizable (a refinement of the atomic object), and \<open>object_refinement\<close>, what a
  sequential implementation must show to be replaced by its specification in a history.
\<close>

section \<open>Histories and the atomic object\<close>

datatype ('x, 'r) event = Call tid 'x | Ret tid 'r

datatype ('x, 'r) status = Idle | Pend 'x | Done 'r

type_synonym ('x, 'r, 's) sfunc = "tid \<Rightarrow> 'x \<Rightarrow> 's \<Rightarrow> 'r \<times> 's"

type_synonym ('x, 'r, 's) config = "'s \<times> (tid \<Rightarrow> ('x, 'r) status)"

inductive astep :: "('x, 'r, 's) sfunc \<Rightarrow> ('x, 'r, 's) config \<Rightarrow> ('x, 'r) event list \<Rightarrow>
    ('x, 'r, 's) config \<Rightarrow> bool" for spec where
  a_call: "st p = Idle \<Longrightarrow> astep spec (s, st) [Call p x] (s, st(p := Pend x))"
| a_lin: "st p = Pend x \<Longrightarrow> spec p x s = (r, s') \<Longrightarrow> astep spec (s, st) [] (s', st(p := Done r))"
| a_ret: "st p = Done r \<Longrightarrow> astep spec (s, st) [Ret p r] (s, st(p := Idle))"

inductive asteps :: "('x, 'r, 's) sfunc \<Rightarrow> ('x, 'r, 's) config \<Rightarrow> ('x, 'r) event list \<Rightarrow>
    ('x, 'r, 's) config \<Rightarrow> bool" for spec where
  as_refl: "asteps spec c [] c"
| as_step: "asteps spec c h d \<Longrightarrow> astep spec d l e \<Longrightarrow> asteps spec c (h @ l) e"

definition aconf0 :: "'s \<Rightarrow> ('x, 'r, 's) config" where
  "aconf0 s0 = (s0, \<lambda>_. Idle)"

definition linearizable :: "('x, 'r, 's) sfunc \<Rightarrow> 's \<Rightarrow> ('x, 'r) event list \<Rightarrow> bool" where
  "linearizable spec s0 h \<longleftrightarrow> (\<exists>c. asteps spec (aconf0 s0) h c)"

lemma asteps_one: "astep spec c l d \<Longrightarrow> asteps spec c l d"
  using as_step [OF as_refl] by fastforce

lemma asteps_trans: "asteps spec d h' e \<Longrightarrow> asteps spec c h d \<Longrightarrow> asteps spec c (h @ h') e"
proof (induction rule: asteps.induct)
  case (as_step d h' e l f)
  from asteps.as_step [OF as_step.IH [OF as_step.prems] as_step.hyps(2)] show ?case by simp
qed (simp add: asteps.as_refl)

lemma asteps_two: "astep spec c l d \<Longrightarrow> astep spec d l' e \<Longrightarrow> asteps spec c (l @ l') e"
  using asteps_trans [OF asteps_one asteps_one] .

text \<open>The steps in the form in which a machine meets them: the configuration after the step is
  given, its difference to the one before is a goal.\<close>

lemma step_call: "\<lbrakk>snd c p = Idle; c' = (fst c, (snd c)(p := Pend x)); l = [Call p x]\<rbrakk> \<Longrightarrow> asteps spec c l c'"
  using asteps_one [OF a_call, of "snd c" p spec "fst c" x] by simp

lemma step_lin:
  "\<lbrakk>snd c p = Pend x; c' = (snd (spec p x (fst c)), (snd c)(p := Done (fst (spec p x (fst c))))); l = []\<rbrakk>
   \<Longrightarrow> asteps spec c l c'"
  using asteps_one [OF a_lin, of "snd c" p x spec "fst c" "fst (spec p x (fst c))"] by simp

lemma step_ret: "\<lbrakk>snd c p = Done r; c' = (fst c, (snd c)(p := Idle)); l = [Ret p r]\<rbrakk> \<Longrightarrow> asteps spec c l c'"
  using asteps_one [OF a_ret, of "snd c" p r spec "fst c"] by simp

lemma step_skip: "\<lbrakk>c' = c; l = []\<rbrakk> \<Longrightarrow> asteps spec c l c'"
  by (simp add: as_refl)

text \<open>A run of the atomic object in which only the threads of \<open>M\<close> take part, while the operations
  of the other threads stand where they are.\<close>

fun event_of :: "('x, 'r) event \<Rightarrow> tid" where
  "event_of (Call p x) = p"
| "event_of (Ret p r) = p"

lemma astep_frame:
  assumes "astep f c h d" and "\<forall>e \<in> set h. event_of e \<in> M" and "\<forall>q. q \<notin> M \<longrightarrow> snd c q = Idle"
  shows "(\<forall>q. q \<notin> M \<longrightarrow> snd d q = Idle)
     \<and> astep f (fst c, \<lambda>q. if q \<in> M then snd c q else w q) h (fst d, \<lambda>q. if q \<in> M then snd d q else w q)"
  using assms
proof (induction rule: astep.induct)
  case (a_call st p s x)
  have "(\<lambda>q. if q \<in> M then (st(p := Pend x)) q else w q) = (\<lambda>q. if q \<in> M then st q else w q)(p := Pend x)"
    using a_call.prems(1) by auto
  then show ?case using a_call astep.a_call [of "\<lambda>q. if q \<in> M then st q else w q" p f s x] unfolding fst_conv snd_conv by simp
next
  case (a_lin st p x s r s')
  then have "p \<in> M" by force
  then have "(\<lambda>q. if q \<in> M then (st(p := Done r)) q else w q) = (\<lambda>q. if q \<in> M then st q else w q)(p := Done r)" by auto
  with \<open>p \<in> M\<close> show ?case using a_lin astep.a_lin [of "\<lambda>q. if q \<in> M then st q else w q" p x f s r s'] unfolding fst_conv snd_conv by auto
next
  case (a_ret st p r s)
  have "(\<lambda>q. if q \<in> M then (st(p := Idle)) q else w q) = (\<lambda>q. if q \<in> M then st q else w q)(p := Idle)"
    using a_ret.prems(1) by auto
  then show ?case using a_ret astep.a_ret [of "\<lambda>q. if q \<in> M then st q else w q" p r f s] unfolding fst_conv snd_conv by simp
qed

lemma asteps_frame:
  "\<lbrakk>asteps f c h d; \<forall>e \<in> set h. event_of e \<in> M; \<forall>q. q \<notin> M \<longrightarrow> snd c q = Idle\<rbrakk> \<Longrightarrow>
     (\<forall>q. q \<notin> M \<longrightarrow> snd d q = Idle)
     \<and> asteps f (fst c, \<lambda>q. if q \<in> M then snd c q else w q) h (fst d, \<lambda>q. if q \<in> M then snd d q else w q)"
proof (induction rule: asteps.induct)
  case (as_step c h d l e)
  then show ?case using astep_frame [of f d l e M w] by (auto intro: asteps.as_step)
qed (auto intro: as_refl)

section \<open>Machines and their traces\<close>

text \<open>A machine says which actions are enabled, what they do, and which events they show.\<close>

inductive traces :: "'c \<Rightarrow> ('c \<Rightarrow> 'a \<Rightarrow> bool) \<Rightarrow> ('a \<Rightarrow> 'c \<Rightarrow> 'c) \<Rightarrow> ('a \<Rightarrow> 'c \<Rightarrow> ('x, 'r) event list) \<Rightarrow>
    'c \<Rightarrow> ('x, 'r) event list \<Rightarrow> bool" for init ok exec obs where
  tr_init: "traces init ok exec obs init []"
| tr_step: "traces init ok exec obs c h \<Longrightarrow> ok c a \<Longrightarrow> traces init ok exec obs (exec a c) (h @ obs a c)"

lemma traces_reach: "traces init ok exec obs c h \<Longrightarrow> reach init (act_step ok exec) c"
  by (induction rule: traces.induct) (auto intro: reach.intros simp: act_step_def)

text \<open>A schedule executed: the final state and the history, \<open>None\<close> when it gets stuck.\<close>

fun run_trace :: "('c \<Rightarrow> 'a \<Rightarrow> bool) \<Rightarrow> ('a \<Rightarrow> 'c \<Rightarrow> 'c) \<Rightarrow> ('a \<Rightarrow> 'c \<Rightarrow> ('x, 'r) event list) \<Rightarrow> 'a list \<Rightarrow>
    'c \<Rightarrow> ('c \<times> ('x, 'r) event list) option" where
  "run_trace ok exec obs [] c = Some (c, [])"
| "run_trace ok exec obs (a # as) c =
     (if ok c a then map_option (\<lambda>(d, h). (d, obs a c @ h)) (run_trace ok exec obs as (exec a c)) else None)"

lemma run_trace_traces_from:
  "\<lbrakk>run_trace ok exec obs as c = Some (d, h'); traces init ok exec obs c h\<rbrakk> \<Longrightarrow> traces init ok exec obs d (h @ h')"
proof (induction as arbitrary: c h h')
  case (Cons a as)
  then obtain h'' where "run_trace ok exec obs as (exec a c) = Some (d, h'')" "h' = obs a c @ h''" "ok c a"
    by (auto split: if_splits)
  with Cons.IH [OF this(1), of "h @ obs a c"] Cons.prems show ?case by (auto intro: tr_step)
qed simp

lemma run_trace_traces: "run_trace ok exec obs as init = Some (d, h) \<Longrightarrow> traces init ok exec obs d h"
  using run_trace_traces_from [OF _ tr_init] by fastforce

section \<open>Refinement of the atomic object\<close>

text \<open>
  \<open>inv\<close> is the machine's invariant, \<open>abs\<close> reads off a concrete state the object it
  represents and how far each thread's operation has come; every step of the machine is a run of
  the atomic object (most often none or one step) that shows the same events.
\<close>

locale linearization =
  fixes init :: "'c"
    and ok :: "'c \<Rightarrow> 'a \<Rightarrow> bool"
    and exec :: "'a \<Rightarrow> 'c \<Rightarrow> 'c"
    and obs :: "'a \<Rightarrow> 'c \<Rightarrow> ('x, 'r) event list"
    and spec :: "('x, 'r, 's) sfunc"
    and s0 :: 's
    and inv :: "'c \<Rightarrow> bool"
    and abs :: "'c \<Rightarrow> ('x, 'r, 's) config"
  assumes inv_init: "inv init"
    and inv_step: "inv c \<Longrightarrow> ok c a \<Longrightarrow> inv (exec a c)"
    and abs_init: "abs init = aconf0 s0"
    and abs_step: "inv c \<Longrightarrow> ok c a \<Longrightarrow> asteps spec (abs c) (obs a c) (abs (exec a c))"
begin

lemma invariant: "traces init ok exec obs c h \<Longrightarrow> inv c"
  by (induction rule: traces.induct) (auto intro: inv_init inv_step)

lemma reach_inv: "reach init (act_step ok exec) c \<Longrightarrow> inv c"
  by (erule act_reach_invariant) (auto intro: inv_init inv_step)

lemma simulation: "traces init ok exec obs c h \<Longrightarrow> asteps spec (aconf0 s0) h (abs c)"
proof (induction rule: traces.induct)
  case tr_init
  then show ?case by (simp add: abs_init as_refl)
next
  case (tr_step c h a)
  from asteps_trans [OF abs_step [OF invariant [OF tr_step.hyps(1)] tr_step.hyps(2)] tr_step.IH]
  show ?case .
qed

lemma linearizable_traces: "traces init ok exec obs c h \<Longrightarrow> linearizable spec s0 h"
  using simulation unfolding linearizable_def by blast

end

section \<open>Linearization points that are known only later\<close>

text \<open>
  Sometimes a step turns out to be the instant of an operation only by what the thread sees
  afterwards. A choice \<open>w\<close> says how these guesses come out; \<open>abs w\<close> is the configuration under
  the choice \<open>w\<close>. Every choice that is valid after a step must come from one that was valid before
  it, so that the run of the atomic object is found from its end.
\<close>

locale choice_linearization =
  fixes init :: "'c"
    and ok :: "'c \<Rightarrow> 'a \<Rightarrow> bool"
    and exec :: "'a \<Rightarrow> 'c \<Rightarrow> 'c"
    and obs :: "'a \<Rightarrow> 'c \<Rightarrow> ('x, 'r) event list"
    and spec :: "('x, 'r, 's) sfunc"
    and s0 :: 's
    and inv :: "'c \<Rightarrow> bool"
    and valid :: "'w \<Rightarrow> 'c \<Rightarrow> bool"
    and abs :: "'w \<Rightarrow> 'c \<Rightarrow> ('x, 'r, 's) config"
  assumes inv_init: "inv init"
    and inv_step: "inv c \<Longrightarrow> ok c a \<Longrightarrow> inv (exec a c)"
    and abs_init: "valid w init \<Longrightarrow> abs w init = aconf0 s0"
    and some_valid: "\<exists>w. valid w c"
    and abs_step: "inv c \<Longrightarrow> ok c a \<Longrightarrow> valid w' (exec a c) \<Longrightarrow>
           \<exists>w. valid w c \<and> asteps spec (abs w c) (obs a c) (abs w' (exec a c))"
begin

lemma invariant: "traces init ok exec obs c h \<Longrightarrow> inv c"
  by (induction rule: traces.induct) (auto intro: inv_init inv_step)

lemma reach_inv: "reach init (act_step ok exec) c \<Longrightarrow> inv c"
  by (erule act_reach_invariant) (auto intro: inv_init inv_step)

lemma simulation: "traces init ok exec obs c h \<Longrightarrow> valid w c \<Longrightarrow> asteps spec (aconf0 s0) h (abs w c)"
proof (induction arbitrary: w rule: traces.induct)
  case tr_init
  then show ?case by (simp add: abs_init as_refl)
next
  case (tr_step c h a)
  from abs_step [OF invariant [OF tr_step.hyps(1)] tr_step.hyps(2) tr_step.prems] obtain u where
    "valid u c" "asteps spec (abs u c) (obs a c) (abs w (exec a c))" by blast
  with asteps_trans [OF this(2) tr_step.IH] show ?case by blast
qed

lemma linearizable_traces: "traces init ok exec obs c h \<Longrightarrow> linearizable spec s0 h"
  using simulation some_valid [of c] unfolding linearizable_def by blast

end

section \<open>Refinement of the sequential object\<close>

text \<open>A sequential implementation \<open>cspec\<close> keeps its invariant and does on the represented
  object what \<open>spec\<close> does.\<close>

locale object_refinement =
  fixes cspec :: "('x, 'r, 'k) sfunc"
    and spec :: "('y, 'q, 's) sfunc"
    and inv :: "'k \<Rightarrow> bool"
    and abs :: "'k \<Rightarrow> 's"
    and absx :: "'x \<Rightarrow> 'y"
    and absr :: "'r \<Rightarrow> 'q"
  assumes keeps: "inv k \<Longrightarrow> inv (snd (cspec p x k))"
    and refines: "inv k \<Longrightarrow> spec p (absx x) (abs k) = (absr (fst (cspec p x k)), abs (snd (cspec p x k)))"
begin

definition abs_status :: "('x, 'r) status \<Rightarrow> ('y, 'q) status" where
  "abs_status st = (case st of Idle \<Rightarrow> Idle | Pend x \<Rightarrow> Pend (absx x) | Done r \<Rightarrow> Done (absr r))"

lemma abs_status_simps [simp]:
  "abs_status Idle = Idle" "abs_status (Pend x) = Pend (absx x)" "abs_status (Done r) = Done (absr r)"
  by (simp_all add: abs_status_def)

lemma upd_status: "(abs_status \<circ> st)(p := abs_status v) = abs_status \<circ> st(p := v)"
  by (simp add: fun_eq_iff)

lemma astep_refines:
  assumes "astep cspec c l d" and "inv (fst c)"
  shows "inv (fst d) \<and> astep spec (abs (fst c), abs_status \<circ> snd c) (map (map_event absx absr) l)
           (abs (fst d), abs_status \<circ> snd d)"
  using assms
proof (induction rule: astep.induct)
  case (a_call st p s x)
  from a_call.hyps have "(abs_status \<circ> st) p = Idle" by simp
  with astep.a_call [of "abs_status \<circ> st" p spec "abs s" "absx x"] a_call.prems
  show ?case using upd_status [of st p "Pend x"] by (simp only: fst_conv snd_conv list.map event.map abs_status_simps simp_thms)
next
  case (a_lin st p x s r s')
  from a_lin.hyps(1) have "(abs_status \<circ> st) p = Pend (absx x)" by simp
  moreover from a_lin have "spec p (absx x) (abs s) = (absr r, abs s')" "inv s'"
    using keeps [of s p x] refines [of s p x] by simp_all
  ultimately show ?case using astep.a_lin [of "abs_status \<circ> st" p "absx x" spec "abs s" "absr r" "abs s'"]
      upd_status [of st p "Done r"] by (simp only: fst_conv snd_conv list.map abs_status_simps simp_thms)
next
  case (a_ret st p r s)
  from a_ret.hyps have "(abs_status \<circ> st) p = Done (absr r)" by simp
  with astep.a_ret [of "abs_status \<circ> st" p "absr r" spec "abs s"] a_ret.prems
  show ?case using upd_status [of st p Idle] by (simp only: fst_conv snd_conv list.map event.map abs_status_simps simp_thms)
qed

lemma asteps_refines:
  "asteps cspec c h d \<Longrightarrow> inv (fst c) \<Longrightarrow>
     inv (fst d) \<and> asteps spec (abs (fst c), abs_status \<circ> snd c) (map (map_event absx absr) h)
       (abs (fst d), abs_status \<circ> snd d)"
  by (induction rule: asteps.induct) (auto intro: as_refl as_step dest: astep_refines)

lemma linearizable_refines:
  assumes "linearizable cspec k h" and "inv k"
  shows "linearizable spec (abs k) (map (map_event absx absr) h)"
  using assms asteps_refines [of "aconf0 k" h] unfolding linearizable_def aconf0_def
  by (auto simp: comp_def)

end

text \<open>The sequential operations allocate from a pool that is local to the thread that runs them
  (\<^verbatim>\<open>static __thread\<close>), which under combining is not the thread whose request is run.
  \<open>pooled f\<close> runs the \<open>i\<close>-th operation with the pool of the thread \<open>c i\<close>; as
  \<open>c\<close> is arbitrary, this covers every way in which threads become combiners.\<close>

definition pooled :: "('x, 'r, 's) sfunc \<Rightarrow> ('x, 'r, 's \<times> (nat \<Rightarrow> tid)) sfunc" where
  "pooled f p x sc = (let (r, s) = f (snd sc 0) x (fst sc) in (r, (s, \<lambda>i. snd sc (Suc i))))"

lemma pooled_refinement:
  fixes f :: "('x, 'r, 'k) sfunc" and spec :: "('y, 'q, 's) sfunc"
  assumes "object_refinement f spec I A absx absr" and "\<And>p q. spec p = spec q"
  shows "object_refinement (pooled f) spec (I \<circ> fst) (A \<circ> fst) absx absr"
proof
  fix k :: "'k \<times> (nat \<Rightarrow> tid)" and p x
  assume k: "(I \<circ> fst) k"
  note r = object_refinement.keeps [OF assms(1), of "fst k" "snd k 0" x]
    object_refinement.refines [OF assms(1), of "fst k" "snd k 0" x]
  show "(I \<circ> fst) (snd (pooled f p x k))" using k r(1) by (simp add: pooled_def split_beta)
  show "spec p (absx x) ((A \<circ> fst) k) = (absr (fst (pooled f p x k)), (A \<circ> fst) (snd (pooled f p x k)))"
    using k r(2) assms(2) [of p "snd k 0"] by (simp add: pooled_def split_beta)
qed

end
