(* ===== verification/Lock.thy ===== *)
theory Lock
  imports Linearizability
begin

text \<open>
  The interface of the queue locks (clh.h, mcs.h) and what a client may rely on. A thread calls
  the lock operation (\<open>Acquire\<close>), runs its accesses one by one (\<open>Run\<close>), holds the lock, and
  calls the unlock operation (\<open>Release\<close>). The provider promises that the holder is the thread
  that has waited longest in the arrival queue, that the queue only grows at its end and shrinks
  at its front, and that only a thread's own actions decide whether it holds the lock.
\<close>

datatype lock_act = Acquire tid | Run tid | Release tid

fun actor :: "lock_act \<Rightarrow> tid" where
  "actor (Acquire p) = p"
| "actor (Run p) = p"
| "actor (Release p) = p"

datatype lock_phase = Out | Trying | Holding | Leaving

locale queue_lock =
  fixes init :: "'l"
    and ok :: "'l \<Rightarrow> lock_act \<Rightarrow> bool"
    and exec :: "lock_act \<Rightarrow> 'l \<Rightarrow> 'l"
    and phase :: "'l \<Rightarrow> tid \<Rightarrow> lock_phase"
    and queue :: "'l \<Rightarrow> tid list"
  assumes init_out: "phase init p = Out"
    and init_queue: "queue init = []"
    and acquire_ok: "ok l (Acquire p) \<Longrightarrow> phase l p = Out \<and> phase (exec (Acquire p) l) p = Trying"
    and run_ok: "reach init (act_step ok exec) l \<Longrightarrow> ok l (Run p) \<Longrightarrow>
                     phase l p = Trying \<and> phase (exec (Run p) l) p \<in> {Trying, Holding}
                   \<or> phase l p = Leaving \<and> phase (exec (Run p) l) p \<in> {Leaving, Out}"
    and release_ok: "ok l (Release p) \<Longrightarrow> phase l p = Holding \<and> phase (exec (Release p) l) p = Leaving"
    and others: "ok l a \<Longrightarrow> p \<noteq> actor a \<Longrightarrow> phase (exec a l) p = phase l p"
    and holder_first: "reach init (act_step ok exec) l \<Longrightarrow> phase l p = Holding \<Longrightarrow>
                         queue l \<noteq> [] \<and> p = hd (queue l)"
    and fifo: "reach init (act_step ok exec) l \<Longrightarrow> ok l a \<Longrightarrow>
                 queue (exec a l) = queue l
               \<or> queue (exec a l) = queue l @ [actor a] \<and> actor a \<notin> set (queue l)
               \<or> queue l = actor a # queue (exec a l)"
begin

lemma mutual_exclusion:
  "\<lbrakk>reach init (act_step ok exec) l; phase l p = Holding; phase l q = Holding\<rbrakk> \<Longrightarrow> p = q"
  using holder_first by metis

lemma queue_distinct: "reach init (act_step ok exec) l \<Longrightarrow> distinct (queue l)"
proof (induction rule: reach.induct)
  case reach_init
  then show ?case by (simp add: init_queue)
next
  case (reach_step s t)
  from reach_step.hyps(2) obtain a where a: "ok s a" "t = exec a s" unfolding act_step_def by auto
  from fifo [OF reach_step.hyps(1) a(1)] show ?case
    using reach_step.IH a(2) by (elim disjE conjE) simp_all
qed

text \<open>First come, first served: a thread that stands before another in the queue stays before it
  until it leaves the queue.\<close>

definition before :: "'l \<Rightarrow> tid \<Rightarrow> tid \<Rightarrow> bool" where
  "before l p q \<longleftrightarrow> (\<exists>xs ys zs. queue l = xs @ p # ys @ q # zs)"

lemma overtaken_never_holds:
  assumes "reach init (act_step ok exec) l" and "before l p q"
  shows "phase l q \<noteq> Holding"
proof
  assume "phase l q = Holding"
  with holder_first [OF assms(1)] have q: "q = hd (queue l)" by blast
  from assms(2) obtain xs ys zs where w: "queue l = xs @ p # ys @ q # zs" unfolding before_def by blast
  then have "distinct (xs @ p # ys @ q # zs)" using queue_distinct [OF assms(1)] by simp
  then have "hd (xs @ p # ys @ q # zs) \<noteq> q" by (cases xs) auto
  with q w show False by simp
qed

lemma before_step:
  assumes "reach init (act_step ok exec) l" and "ok l a" and "before l p q"
  shows "before (exec a l) p q \<or> (\<exists>ys. queue l = p # ys \<and> queue (exec a l) = ys)"
proof -
  obtain xs ys zs where w: "queue l = xs @ p # ys @ q # zs" using assms(3) unfolding before_def by blast
  from fifo [OF assms(1,2)] consider "queue (exec a l) = queue l"
    | "queue (exec a l) = queue l @ [actor a]" | "queue l = actor a # queue (exec a l)" by blast
  then show ?thesis
  proof cases
    case 1
    with assms(3) show ?thesis by (simp add: before_def)
  next
    case 2
    then have "queue (exec a l) = xs @ p # ys @ q # (zs @ [actor a])" using w by simp
    then show ?thesis unfolding before_def by blast
  next
    case 3
    then show ?thesis using w unfolding before_def
      by (cases xs) (auto, metis)
  qed
qed

end

section \<open>An object guarded by a lock\<close>

text \<open>
  The client of such a lock: an operation acquires the lock, reads the shared data into local
  variables, writes the updated data back (two accesses, so that an interleaving could lose an
  update), releases the lock and returns. This is the shape of every operation of clhhash.c and
  of the CLH-locked stack of clhstackbench.c.
\<close>

datatype ('x, 'r, 's) client = Resting | Asking 'x | Loaded 'x 's | Stored 'r

record ('l, 'x, 'r, 's) guarded =
  lock :: 'l
  data :: 's
  client :: "tid \<Rightarrow> ('x, 'r, 's) client"

datatype 'x client_act = Begin tid 'x | Lock_run tid | Load tid | Store tid | Unlock tid | Finish tid

fun g_ok :: "('l \<Rightarrow> lock_act \<Rightarrow> bool) \<Rightarrow> ('l \<Rightarrow> tid \<Rightarrow> lock_phase) \<Rightarrow>
    ('l, 'x, 'r, 's) guarded \<Rightarrow> 'x client_act \<Rightarrow> bool" where
  "g_ok lok phase g (Begin p x) \<longleftrightarrow> client g p = Resting \<and> lok (lock g) (Acquire p)"
| "g_ok lok phase g (Lock_run p) \<longleftrightarrow> lok (lock g) (Run p)"
| "g_ok lok phase g (Load p) \<longleftrightarrow> (\<exists>x. client g p = Asking x) \<and> phase (lock g) p = Holding"
| "g_ok lok phase g (Store p) \<longleftrightarrow> (\<exists>x s. client g p = Loaded x s)"
| "g_ok lok phase g (Unlock p) \<longleftrightarrow> (\<exists>r. client g p = Stored r) \<and> lok (lock g) (Release p)"
| "g_ok lok phase g (Finish p) \<longleftrightarrow> (\<exists>r. client g p = Stored r) \<and> phase (lock g) p = Out"

fun g_exec :: "(lock_act \<Rightarrow> 'l \<Rightarrow> 'l) \<Rightarrow> ('x, 'r, 's) sfunc \<Rightarrow> 'x client_act \<Rightarrow>
    ('l, 'x, 'r, 's) guarded \<Rightarrow> ('l, 'x, 'r, 's) guarded" where
  "g_exec lexec f (Begin p x) g =
     g\<lparr>lock := lexec (Acquire p) (lock g), client := (client g)(p := Asking x)\<rparr>"
| "g_exec lexec f (Lock_run p) g = g\<lparr>lock := lexec (Run p) (lock g)\<rparr>"
| "g_exec lexec f (Load p) g =
     (case client g p of Asking x \<Rightarrow> g\<lparr>client := (client g)(p := Loaded x (data g))\<rparr> | _ \<Rightarrow> g)"
| "g_exec lexec f (Store p) g =
     (case client g p of
        Loaded x s \<Rightarrow> g\<lparr>data := snd (f p x s), client := (client g)(p := Stored (fst (f p x s)))\<rparr>
      | _ \<Rightarrow> g)"
| "g_exec lexec f (Unlock p) g = g\<lparr>lock := lexec (Release p) (lock g)\<rparr>"
| "g_exec lexec f (Finish p) g = g\<lparr>client := (client g)(p := Resting)\<rparr>"

fun g_obs :: "'x client_act \<Rightarrow> ('l, 'x, 'r, 's) guarded \<Rightarrow> ('x, 'r) event list" where
  "g_obs (Begin p x) g = [Call p x]"
| "g_obs (Finish p) g = (case client g p of Stored r \<Rightarrow> [Ret p r] | _ \<Rightarrow> [])"
| "g_obs a g = []"

definition g_init :: "'l \<Rightarrow> 's \<Rightarrow> ('l, 'x, 'r, 's) guarded" where
  "g_init l s = \<lparr>lock = l, data = s, client = (\<lambda>_. Resting)\<rparr>"

fun client_status :: "('x, 'r, 's) client \<Rightarrow> ('x, 'r) status" where
  "client_status Resting = Idle"
| "client_status (Asking x) = Pend x"
| "client_status (Loaded x s) = Pend x"
| "client_status (Stored r) = Done r"

definition g_abs :: "('l, 'x, 'r, 's) guarded \<Rightarrow> ('x, 'r, 's) config" where
  "g_abs g = (data g, client_status \<circ> client g)"

text \<open>Where a thread stands with the lock, given where it stands in its operation; a local copy
  of the data is up to date.\<close>

fun in_phase :: "lock_phase \<Rightarrow> 's \<Rightarrow> ('x, 'r, 's) client \<Rightarrow> bool" where
  "in_phase ph d Resting \<longleftrightarrow> ph = Out"
| "in_phase ph d (Asking x) \<longleftrightarrow> ph = Trying \<or> ph = Holding"
| "in_phase ph d (Loaded x s) \<longleftrightarrow> ph = Holding \<and> s = d"
| "in_phase ph d (Stored r) \<longleftrightarrow> ph = Holding \<or> ph = Leaving \<or> ph = Out"

context queue_lock
begin

definition g_inv :: "('l, 'x, 'r, 's) guarded \<Rightarrow> bool" where
  "g_inv g \<longleftrightarrow> reach init (act_step ok exec) (lock g)
     \<and> (\<forall>p. in_phase (phase (lock g) p) (data g) (client g p))"

lemma g_inv_at: "g_inv g \<Longrightarrow> in_phase (phase (lock g) p) (data g) (client g p)"
  unfolding g_inv_def by blast

lemma lock_act_reach:
  "reach init (act_step ok exec) l \<Longrightarrow> ok l a \<Longrightarrow> reach init (act_step ok exec) (exec a l)"
  by (rule reach.reach_step) (auto simp: act_step_def)

text \<open>A lock action of one thread, and a client state of that thread that fits its new phase.\<close>

lemma g_inv_lock:
  assumes "g_inv g" and "ok (lock g) a"
    and "in_phase (phase (exec a (lock g)) (actor a)) (data g) c'"
  shows "g_inv (g\<lparr>lock := exec a (lock g), client := (client g)(actor a := c')\<rparr>)"
proof -
  have "reach init (act_step ok exec) (exec a (lock g))"
    using assms(1,2) by (auto simp: g_inv_def intro: lock_act_reach)
  moreover have "phase (exec a (lock g)) p = phase (lock g) p" if "p \<noteq> actor a" for p
    using assms(2) that by (rule others)
  ultimately show ?thesis using assms(1,3) by (auto simp: g_inv_def)
qed

lemma g_inv_step:
  assumes "g_inv g" and "g_ok ok phase g a"
  shows "g_inv (g_exec exec f a g)"
proof (cases a)
  case (Begin p x)
  then show ?thesis using assms g_inv_lock [of g "Acquire p" "Asking x"] acquire_ok by auto
next
  case (Lock_run p)
  then have r: "ok (lock g) (Run p)" using assms(2) by simp
  have rl: "reach init (act_step ok exec) (lock g)" using assms(1) by (simp add: g_inv_def)
  have "g_inv (g\<lparr>lock := exec (Run p) (lock g), client := (client g)(p := client g p)\<rparr>)"
    using g_inv_lock [OF assms(1) r, of "client g p"] run_ok [OF rl r] g_inv_at [OF assms(1), of p]
    by (cases "client g p") auto
  then show ?thesis using Lock_run by simp
next
  case (Load p)
  then show ?thesis using assms by (auto simp: g_inv_def)
next
  case (Store p)
  then obtain x s where c: "client g p = Loaded x s" using assms(2) by auto
  with g_inv_at [OF assms(1), of p] have h: "phase (lock g) p = Holding" by simp
  have "\<forall>q. q \<noteq> p \<longrightarrow> (\<forall>y t. client g q \<noteq> Loaded y t)"
  proof (intro allI impI notI)
    fix q y t assume "q \<noteq> p" "client g q = Loaded y t"
    with g_inv_at [OF assms(1), of q] have "phase (lock g) q = Holding" by simp
    with h \<open>q \<noteq> p\<close> assms(1) mutual_exclusion show False unfolding g_inv_def by blast
  qed
  then have "in_phase (phase (lock g) q) (snd (f p x s)) (client g q)" if "q \<noteq> p" for q
    using g_inv_at [OF assms(1), of q] that by (cases "client g q") auto
  with assms(1) c h Store show ?thesis by (auto simp: g_inv_def)
next
  case (Unlock p)
  then have r: "ok (lock g) (Release p)" "\<exists>r. client g p = Stored r" using assms(2) by auto
  have "g_inv (g\<lparr>lock := exec (Release p) (lock g), client := (client g)(p := client g p)\<rparr>)"
    using g_inv_lock [OF assms(1) r(1), of "client g p"] release_ok [OF r(1)] r(2) by auto
  then show ?thesis using Unlock by simp
next
  case (Finish p)
  then show ?thesis using assms by (auto simp: g_inv_def)
qed

lemma g_abs_step:
  assumes "g_inv g" and "g_ok ok phase g a"
  shows "asteps f (g_abs g) (g_obs a g) (g_abs (g_exec exec f a g))"
proof (cases a)
  case (Begin p x)
  then show ?thesis using assms(2)
    by (intro step_call [of _ p _ x]) (auto simp: g_abs_def fun_eq_iff)
next
  case (Store p)
  then obtain x s where c: "client g p = Loaded x s" using assms(2) by auto
  with g_inv_at [OF assms(1), of p] have "s = data g" by simp
  with c Store show ?thesis
    by (intro step_lin [of _ p x]) (auto simp: g_abs_def fun_eq_iff)
next
  case (Finish p)
  then obtain r where "client g p = Stored r" using assms(2) by auto
  with Finish show ?thesis
    by (intro step_ret [of _ p r]) (auto simp: g_abs_def fun_eq_iff)
qed (use assms(2) in \<open>auto intro!: step_skip simp: g_abs_def fun_eq_iff\<close>)

lemma g_init_correct: "g_inv (g_init init s)" "g_abs (g_init init s) = aconf0 s"
  by (simp_all add: g_inv_def g_init_def g_abs_def aconf0_def init_out reach.reach_init fun_eq_iff)

lemma guarded_linearizable:
  assumes "traces (g_init init s0) (g_ok ok phase) (g_exec exec f) g_obs g h"
  shows "linearizable f s0 h"
proof -
  have "g_inv g \<and> asteps f (aconf0 s0) h (g_abs g)"
    using assms
  proof (induction rule: traces.induct)
    case tr_init
    show ?case by (simp add: as_refl g_init_correct)
  next
    case (tr_step c h a)
    then show ?case using g_inv_step asteps_trans [OF g_abs_step] by blast
  qed
  then show ?thesis unfolding linearizable_def by blast
qed

end

end
