(* ===== verification/ClhLock.thy ===== *)
theory ClhLock
  imports Lock
begin

text \<open>
  The CLH queue lock of libconcurrent/concurrent/clh.c. Nodes are numbered: node \<open>0\<close> is the one
  \<^verbatim>\<open>CLHLockInit\<close> hangs on \<^verbatim>\<open>Tail\<close>, node \<open>p + 1\<close> starts as \<^verbatim>\<open>MyNode[p]\<close>. A step is one access to
  shared memory; the program counter names the access that comes next. \<open>arrivals\<close> is an
  auxiliary variable, the threads in the order of their \<^verbatim>\<open>synchSWAP\<close>.
\<close>

section \<open>State and steps\<close>

datatype clh_pc =
    C_out      \<comment> \<open>outside\<close>
  | C_mark     \<comment> \<open>\<^verbatim>\<open>MyNode[pid]->locked = true\<close>\<close>
  | C_swap     \<comment> \<open>\<^verbatim>\<open>MyPred[pid] = SWAP(&Tail, MyNode[pid])\<close>\<close>
  | C_spin     \<comment> \<open>\<^verbatim>\<open>while (MyPred[pid]->locked)\<close>\<close>
  | C_in       \<comment> \<open>holds the lock\<close>
  | C_clear    \<comment> \<open>\<^verbatim>\<open>MyNode[pid]->locked = false\<close>\<close>
  | C_recycle  \<comment> \<open>\<^verbatim>\<open>MyNode[pid] = MyPred[pid]\<close>\<close>
  | C_fault    \<comment> \<open>a null pointer was followed\<close>

record CLHLockStruct =
  Tail :: nat
  MyNode :: "tid \<Rightarrow> nat"
  MyPred :: "tid \<Rightarrow> ptr"
  locked :: "nat \<Rightarrow> bool"
  pc :: "tid \<Rightarrow> clh_pc"
  arrivals :: "tid list"

definition CLHLockInit :: "CLHLockStruct" where
  "CLHLockInit = \<lparr>Tail = 0, MyNode = Suc, MyPred = (\<lambda>_. None), locked = (\<lambda>_. False),
     pc = (\<lambda>_. C_out), arrivals = []\<rparr>"

fun CLHLock :: "tid \<Rightarrow> CLHLockStruct \<Rightarrow> CLHLockStruct" where
  "CLHLock p l =
     (case pc l p of
        C_mark \<Rightarrow> l\<lparr>locked := (locked l)(MyNode l p := True), pc := (pc l)(p := C_swap)\<rparr>
      | C_swap \<Rightarrow> l\<lparr>MyPred := (MyPred l)(p := Some (Tail l)), Tail := MyNode l p,
                    arrivals := arrivals l @ [p], pc := (pc l)(p := C_spin)\<rparr>
      | C_spin \<Rightarrow> (case MyPred l p of
                     None \<Rightarrow> l\<lparr>pc := (pc l)(p := C_fault)\<rparr>
                   | Some m \<Rightarrow> if locked l m then l else l\<lparr>pc := (pc l)(p := C_in)\<rparr>)
      | _ \<Rightarrow> l)"

fun CLHUnlock :: "tid \<Rightarrow> CLHLockStruct \<Rightarrow> CLHLockStruct" where
  "CLHUnlock p l =
     (case pc l p of
        C_clear \<Rightarrow> l\<lparr>locked := (locked l)(MyNode l p := False), arrivals := tl (arrivals l),
                     pc := (pc l)(p := C_recycle)\<rparr>
      | C_recycle \<Rightarrow> (case MyPred l p of
                        None \<Rightarrow> l\<lparr>pc := (pc l)(p := C_fault)\<rparr>
                      | Some m \<Rightarrow> l\<lparr>MyNode := (MyNode l)(p := m), pc := (pc l)(p := C_out)\<rparr>)
      | _ \<Rightarrow> l)"

fun clh_phase :: "CLHLockStruct \<Rightarrow> tid \<Rightarrow> lock_phase" where
  "clh_phase l p =
     (case pc l p of C_out \<Rightarrow> Out | C_in \<Rightarrow> Holding | C_clear \<Rightarrow> Leaving | C_recycle \<Rightarrow> Leaving | _ \<Rightarrow> Trying)"

fun clh_ok :: "nat \<Rightarrow> CLHLockStruct \<Rightarrow> lock_act \<Rightarrow> bool" where
  "clh_ok n l (Acquire p) \<longleftrightarrow> p < n \<and> pc l p = C_out"
| "clh_ok n l (Run p) \<longleftrightarrow> p < n \<and> pc l p \<notin> {C_out, C_in, C_fault}"
| "clh_ok n l (Release p) \<longleftrightarrow> p < n \<and> pc l p = C_in"

fun clh_exec :: "lock_act \<Rightarrow> CLHLockStruct \<Rightarrow> CLHLockStruct" where
  "clh_exec (Acquire p) l = l\<lparr>pc := (pc l)(p := C_mark)\<rparr>"
| "clh_exec (Run p) l = (if pc l p \<in> {C_mark, C_swap, C_spin} then CLHLock p l else CLHUnlock p l)"
| "clh_exec (Release p) l = l\<lparr>pc := (pc l)(p := C_clear)\<rparr>"

section \<open>Invariant\<close>

text \<open>Each thread owns one node and one node \<open>d\<close> is free and unlocked; the waiting threads form a
  chain from \<open>d\<close> to \<^verbatim>\<open>Tail\<close> in which each one spins on the node of the one before.\<close>

definition own :: "CLHLockStruct \<Rightarrow> tid \<Rightarrow> nat" where
  "own l p = (if pc l p = C_recycle then the (MyPred l p) else MyNode l p)"

fun chain :: "CLHLockStruct \<Rightarrow> nat \<Rightarrow> tid list \<Rightarrow> nat \<Rightarrow> bool" where
  "chain l d [] t \<longleftrightarrow> t = d"
| "chain l d (p # ps) t \<longleftrightarrow> MyPred l p = Some d \<and> chain l (MyNode l p) ps t"

definition waiting :: "clh_pc \<Rightarrow> bool" where
  "waiting c \<longleftrightarrow> c = C_spin \<or> c = C_in \<or> c = C_clear"

definition clh_inv_at :: "nat \<Rightarrow> nat \<Rightarrow> CLHLockStruct \<Rightarrow> bool" where
  "clh_inv_at n d l \<longleftrightarrow>
     distinct (arrivals l) \<and> (\<forall>p. p \<in> set (arrivals l) \<longleftrightarrow> waiting (pc l p))
   \<and> (\<forall>p. pc l p \<noteq> C_out \<longrightarrow> p < n)
   \<and> inj_on (own l) {..<n} \<and> d \<notin> own l ` {..<n} \<and> \<not> locked l d
   \<and> chain l d (arrivals l) (Tail l)
   \<and> (\<forall>p. pc l p = C_swap \<or> waiting (pc l p) \<longrightarrow> locked l (MyNode l p))
   \<and> (\<forall>p. pc l p = C_in \<or> pc l p = C_clear \<longrightarrow> arrivals l \<noteq> [] \<and> hd (arrivals l) = p)
   \<and> (\<forall>p. pc l p = C_recycle \<longrightarrow> MyPred l p \<noteq> None)
   \<and> (\<forall>p. pc l p \<noteq> C_fault)"

definition clh_inv :: "nat \<Rightarrow> CLHLockStruct \<Rightarrow> bool" where
  "clh_inv n l \<longleftrightarrow> (\<exists>d. clh_inv_at n d l)"

lemma clh_chain_append: "chain l d (ps @ [p]) t \<longleftrightarrow> (\<exists>m. chain l d ps m \<and> MyPred l p = Some m \<and> t = MyNode l p)"
  by (induction ps arbitrary: d) auto

lemma clh_chain_cong:
  "\<lbrakk>\<And>p. p \<in> set ps \<Longrightarrow> MyPred l' p = MyPred l p \<and> MyNode l' p = MyNode l p\<rbrakk> \<Longrightarrow> chain l' d ps t = chain l d ps t"
  by (induction ps arbitrary: d) auto

lemma chain_pred:
  "\<lbrakk>chain l d ps t; p \<in> set ps; distinct ps; p \<noteq> hd ps\<rbrakk> \<Longrightarrow> \<exists>q \<in> set ps. MyPred l p = Some (MyNode l q)"
proof (induction ps arbitrary: d)
  case (Cons q ps)
  show ?case
  proof (cases "ps \<noteq> [] \<and> p = hd ps")
    case True
    then have "MyPred l p = Some (MyNode l q)" using Cons.prems(1) by (cases ps) auto
    then show ?thesis by simp
  next
    case False
    then have "p \<in> set ps" "p \<noteq> hd ps" using Cons.prems by auto
    with Cons show ?thesis by auto
  qed
qed simp

lemma clh_inv_atE:
  assumes "clh_inv_at n d l"
  shows "distinct (arrivals l)" "\<And>p. p \<in> set (arrivals l) \<longleftrightarrow> waiting (pc l p)"
    "\<And>p. pc l p \<noteq> C_out \<Longrightarrow> p < n" "inj_on (own l) {..<n}" "d \<notin> own l ` {..<n}" "\<not> locked l d"
    "chain l d (arrivals l) (Tail l)"
    "\<And>p. pc l p = C_swap \<or> waiting (pc l p) \<Longrightarrow> locked l (MyNode l p)"
    "\<And>p. pc l p = C_in \<or> pc l p = C_clear \<Longrightarrow> arrivals l \<noteq> [] \<and> hd (arrivals l) = p"
    "\<And>p. pc l p = C_recycle \<Longrightarrow> MyPred l p \<noteq> None" "\<And>p. pc l p \<noteq> C_fault"
  using assms unfolding clh_inv_at_def by blast+

lemma clh_inv_init: "clh_inv n CLHLockInit"
  unfolding clh_inv_def clh_inv_at_def CLHLockInit_def
  by (rule exI [of _ 0]) (auto simp: own_def waiting_def inj_on_def)

text \<open>A step that changes the program counter of one thread and moves no node.\<close>

lemma clh_inv_pc:
  assumes inv: "clh_inv_at n d l" and "p < n" and "waiting c = waiting (pc l p)"
    and "c \<noteq> C_recycle" "pc l p \<noteq> C_recycle" "c \<noteq> C_fault" "c = C_swap \<Longrightarrow> locked l (MyNode l p)"
    and "c = C_in \<or> c = C_clear \<Longrightarrow> arrivals l \<noteq> [] \<and> hd (arrivals l) = p"
  shows "clh_inv_at n d (l\<lparr>pc := (pc l)(p := c)\<rparr>)"
proof -
  let ?l = "l\<lparr>pc := (pc l)(p := c)\<rparr>"
  have "own ?l = own l" using assms(4,5) by (auto simp: own_def fun_eq_iff)
  moreover have "chain ?l d (arrivals l) (Tail l) = chain l d (arrivals l) (Tail l)" by (rule clh_chain_cong) simp
  ultimately show ?thesis using assms clh_inv_atE [OF inv]
    unfolding clh_inv_at_def by (auto simp del: fun_upd_apply simp: fun_upd_def) blast+
qed

lemma clh_inv_mark:
  assumes inv: "clh_inv_at n d l" and "pc l p = C_mark"
  shows "clh_inv_at n d (l\<lparr>locked := (locked l)(MyNode l p := True), pc := (pc l)(p := C_swap)\<rparr>)"
    (is "clh_inv_at n d ?l")
proof -
  note i = clh_inv_atE [OF inv]
  have "p < n" using i(3) assms(2) by auto
  have "own ?l = own l" using assms(2) by (auto simp: own_def fun_eq_iff)
  moreover have "chain ?l d (arrivals l) (Tail l)" using i(7) by (subst clh_chain_cong [of _ _ l]) auto
  moreover have "MyNode l p = own l p" using assms(2) by (simp add: own_def)
  then have "MyNode l p \<noteq> d" using i(5) \<open>p < n\<close> by auto
  ultimately show ?thesis using i assms(2) \<open>p < n\<close>
    unfolding clh_inv_at_def by (auto simp: waiting_def)
qed

lemma clh_inv_swap:
  assumes inv: "clh_inv_at n d l" and "pc l p = C_swap"
  shows "clh_inv_at n d (l\<lparr>MyPred := (MyPred l)(p := Some (Tail l)), Tail := MyNode l p,
                    arrivals := arrivals l @ [p], pc := (pc l)(p := C_spin)\<rparr>)"
    (is "clh_inv_at n d ?l")
proof -
  note i = clh_inv_atE [OF inv]
  have "p < n" using i(3) assms(2) by auto
  have "p \<notin> set (arrivals l)" using i(2) assms(2) by (simp add: waiting_def)
  then have "chain ?l d (arrivals l) (Tail l)" using i(7) by (subst clh_chain_cong [of _ _ l]) auto
  then have "chain ?l d (arrivals l @ [p]) (MyNode l p)" by (auto simp: clh_chain_append)
  moreover have "own ?l = own l" using assms(2) by (auto simp: own_def fun_eq_iff)
  ultimately show ?thesis using i assms(2) \<open>p < n\<close> \<open>p \<notin> set (arrivals l)\<close>
    unfolding clh_inv_at_def by (auto simp: waiting_def hd_append)
qed

lemma clh_spin_head:
  assumes inv: "clh_inv_at n d l" and "pc l p = C_spin" and "MyPred l p = Some m"
  shows "\<not> locked l m \<Longrightarrow> arrivals l \<noteq> [] \<and> hd (arrivals l) = p"
proof -
  note i = clh_inv_atE [OF inv]
  assume "\<not> locked l m"
  have p: "p \<in> set (arrivals l)" using i(2) assms(2) by (simp add: waiting_def)
  have "hd (arrivals l) = p"
  proof (rule ccontr)
    assume "hd (arrivals l) \<noteq> p"
    from chain_pred [OF i(7) p i(1)] this obtain q where "q \<in> set (arrivals l)" "m = MyNode l q"
      using assms(3) by auto
    with i(2,8) \<open>\<not> locked l m\<close> show False by blast
  qed
  with p show ?thesis by auto
qed

lemma clh_inv_clear:
  assumes inv: "clh_inv_at n d l" and "pc l p = C_clear"
  shows "clh_inv_at n (MyNode l p) (l\<lparr>locked := (locked l)(MyNode l p := False), arrivals := tl (arrivals l),
                     pc := (pc l)(p := C_recycle)\<rparr>)"
    (is "clh_inv_at n _ ?l")
proof -
  note i = clh_inv_atE [OF inv]
  have "p < n" using i(3) assms(2) by auto
  obtain ps where ps: "arrivals l = p # ps" using i(9) [of p] assms(2) by (cases "arrivals l") auto
  then have pd: "MyPred l p = Some d" and "chain l (MyNode l p) ps (Tail l)" using i(7) by simp_all
  then have "chain ?l (MyNode l p) ps (Tail l)" by (subst clh_chain_cong [of _ _ l]) auto
  moreover have "own ?l = (own l)(p := d)" using pd by (auto simp: own_def fun_eq_iff)
  moreover have own: "own l p = MyNode l p" using assms(2) by (simp add: own_def)
  moreover have "MyNode l q \<noteq> MyNode l p" if "pc l q = C_swap \<or> waiting (pc l q)" "q \<noteq> p" for q
  proof -
    have "own l q = MyNode l q" "q < n" using that i(3) by (auto simp: own_def waiting_def)
    with i(4) own that(2) \<open>p < n\<close> show ?thesis by (metis inj_onD lessThan_iff)
  qed
  moreover have "\<And>q. q \<in> set ps \<longleftrightarrow> waiting (pc l q) \<and> q \<noteq> p"
    using i(1,2) ps by auto
  moreover have "q = p" if "pc l q = C_in \<or> pc l q = C_clear" for q using i(9) [OF that] ps by simp
  ultimately show ?thesis
    using i(3,8,10,11) ps pd inj_on_exchange [OF i(4,5), of p] \<open>p < n\<close> i(1) assms(2)
    unfolding clh_inv_at_def by (auto simp: waiting_def)
qed

lemma clh_inv_recycle:
  assumes inv: "clh_inv_at n d l" and "pc l p = C_recycle" and "MyPred l p = Some m"
  shows "clh_inv_at n d (l\<lparr>MyNode := (MyNode l)(p := m), pc := (pc l)(p := C_out)\<rparr>)"
    (is "clh_inv_at n _ ?l")
proof -
  note i = clh_inv_atE [OF inv]
  have "p \<notin> set (arrivals l)" using i(2) assms(2) by (simp add: waiting_def)
  then have "chain ?l d (arrivals l) (Tail l)" using i(7) by (subst clh_chain_cong [of _ _ l]) auto
  moreover have "own ?l = own l" using assms by (auto simp: own_def fun_eq_iff)
  ultimately show ?thesis using i assms unfolding clh_inv_at_def by (auto simp: waiting_def)
qed

lemma clh_inv_exec:
  assumes "clh_inv n l" and "clh_ok n l a"
  shows "clh_inv n (clh_exec a l)"
proof -
  from assms(1) obtain d where inv: "clh_inv_at n d l" unfolding clh_inv_def by blast
  note i = clh_inv_atE [OF inv]
  show ?thesis
  proof (cases a)
    case (Acquire p)
    with assms(2) have "clh_inv_at n d (l\<lparr>pc := (pc l)(p := C_mark)\<rparr>)"
      by (intro clh_inv_pc [OF inv]) (simp_all add: waiting_def)
    then show ?thesis using Acquire unfolding clh_inv_def by auto
  next
    case (Release p)
    with assms(2) i(9) [of p] have "clh_inv_at n d (l\<lparr>pc := (pc l)(p := C_clear)\<rparr>)"
      by (intro clh_inv_pc [OF inv]) (simp_all add: waiting_def)
    then show ?thesis using Release unfolding clh_inv_def by auto
  next
    case (Run p)
    with assms(2) have p: "p < n" "pc l p \<notin> {C_out, C_in, C_fault}" by simp_all
    show ?thesis
    proof (cases "pc l p")
      case C_mark
      with Run clh_inv_mark [OF inv] show ?thesis unfolding clh_inv_def by auto
    next
      case C_swap
      with Run clh_inv_swap [OF inv] show ?thesis unfolding clh_inv_def by auto
    next
      case C_spin
      have "p \<in> set (arrivals l)" using C_spin i(2) by (simp add: waiting_def)
      then obtain m where m: "MyPred l p = Some m"
        using i(1,7) chain_pred [OF i(7)] by (cases "arrivals l"; cases "p = hd (arrivals l)") auto
      show ?thesis
      proof (cases "locked l m")
        case True
        with Run C_spin m assms(1) show ?thesis by simp
      next
        case False
        have "clh_inv_at n d (l\<lparr>pc := (pc l)(p := C_in)\<rparr>)"
          using clh_spin_head [OF inv C_spin m False] C_spin p
          by (intro clh_inv_pc [OF inv]) (simp_all add: waiting_def)
        with Run C_spin m False show ?thesis unfolding clh_inv_def by auto
      qed
    next
      case C_clear
      with Run clh_inv_clear [OF inv] show ?thesis unfolding clh_inv_def by auto
    next
      case C_recycle
      with i(10) obtain m where "MyPred l p = Some m" by blast
      with Run C_recycle clh_inv_recycle [OF inv] show ?thesis unfolding clh_inv_def by auto
    qed (use p in simp_all)
  qed
qed

lemma clh_reach_inv: "reach CLHLockInit (act_step (clh_ok n) clh_exec) l \<Longrightarrow> clh_inv n l"
  by (erule act_reach_invariant) (rule clh_inv_init, rule clh_inv_exec)

text \<open>While a thread waits for the lock, somebody holds it, leaves it, or can move on.\<close>

lemma clh_some_mover:
  assumes r: "reach CLHLockInit (act_step (clh_ok n) clh_exec) k" and p: "clh_phase k p = Trying"
  shows "\<exists>q. clh_phase k q = Holding \<or> clh_phase k q = Leaving \<or>
           clh_phase k q = Trying \<and> pc (clh_exec (Run q) k) q \<noteq> pc k q"
proof -
  obtain d where inv: "clh_inv_at n d k" using clh_reach_inv [OF r] unfolding clh_inv_def by blast
  note i = clh_inv_atE [OF inv]
  have "pc k p \<in> {C_mark, C_swap, C_spin}" using p i(11) [of p]
    by (cases "pc k p") simp_all
  then consider "pc k p \<in> {C_mark, C_swap}" | "pc k p = C_spin" by blast
  then show ?thesis
  proof cases
    case 1
    then show ?thesis using p by (intro exI [of _ p]) auto
  next
    case 2
    then have "arrivals k \<noteq> []" using i(2) [of p] by (auto simp: waiting_def)
    then obtain h hs where h: "arrivals k = h # hs" by (cases "arrivals k") auto
    then have w: "waiting (pc k h)" "MyPred k h = Some d" using i(2) [of h] i(7) by simp_all
    have "\<not> locked k d" using i(6) .
    with w show ?thesis
      by (intro exI [of _ h]) (auto simp: waiting_def)
  qed
qed

section \<open>The lock interface\<close>

interpretation clh: queue_lock CLHLockInit "clh_ok n" clh_exec clh_phase arrivals for n
proof
  show "clh_phase CLHLockInit p = Out" for p by (simp add: CLHLockInit_def)
  show "arrivals CLHLockInit = []" by (simp add: CLHLockInit_def)
  show "clh_phase l p = Out \<and> clh_phase (clh_exec (Acquire p) l) p = Trying" if "clh_ok n l (Acquire p)" for l p
    using that by simp
  show "clh_phase l p = Trying \<and> clh_phase (clh_exec (Run p) l) p \<in> {Trying, Holding}
        \<or> clh_phase l p = Leaving \<and> clh_phase (clh_exec (Run p) l) p \<in> {Leaving, Out}"
    if r: "reach CLHLockInit (act_step (clh_ok n) clh_exec) l" and ok: "clh_ok n l (Run p)" for l p
  proof -
    from clh_reach_inv [OF r] have "pc l p = C_recycle \<longrightarrow> MyPred l p \<noteq> None"
      unfolding clh_inv_def by (auto dest: clh_inv_atE(10))
    with ok show ?thesis by (cases "pc l p") (auto split: option.splits)
  qed
  show "clh_phase l p = Holding \<and> clh_phase (clh_exec (Release p) l) p = Leaving" if "clh_ok n l (Release p)" for l p
    using that by simp
  show "clh_phase (clh_exec a l) p = clh_phase l p" if "clh_ok n l a" "p \<noteq> actor a" for l a p
    using that by (cases a) (auto split: clh_pc.splits option.splits)
next
  fix l p assume r: "reach CLHLockInit (act_step (clh_ok n) clh_exec) l" and "clh_phase l p = Holding"
  then have "pc l p = C_in" by (auto split: clh_pc.splits)
  with clh_reach_inv [OF r] show "arrivals l \<noteq> [] \<and> p = hd (arrivals l)"
    unfolding clh_inv_def by (metis clh_inv_atE(9))
next
  fix l a assume r: "reach CLHLockInit (act_step (clh_ok n) clh_exec) l" and ok: "clh_ok n l a"
  from clh_reach_inv [OF r] obtain d where inv: "clh_inv_at n d l" unfolding clh_inv_def by blast
  note i = clh_inv_atE [OF inv]
  show "arrivals (clh_exec a l) = arrivals l
      \<or> arrivals (clh_exec a l) = arrivals l @ [actor a] \<and> actor a \<notin> set (arrivals l)
      \<or> arrivals l = actor a # arrivals (clh_exec a l)"
  proof (cases a)
    case (Run p)
    then show ?thesis using ok i(2) [of p] i(9) [of p]
      by (cases "pc l p"; cases "arrivals l") (auto simp: waiting_def split: option.splits)
  qed simp_all
qed

section \<open>Properties\<close>

text \<open>C17. Mutual exclusion and absence of faults: in every reachable state at most one thread
  holds the lock, it is the one whose \<^verbatim>\<open>synchSWAP\<close> is oldest, and no thread has followed a
  null pointer.\<close>

theorem clh_mutual_exclusion:
  assumes "reach CLHLockInit (act_step (clh_ok n) clh_exec) l"
  shows "\<forall>p q. (clh_phase l p = Holding \<and> clh_phase l q = Holding \<longrightarrow> p = q)
           \<and> (clh_phase l p = Holding \<longrightarrow> hd (arrivals l) = p) \<and> pc l p \<noteq> C_fault"
proof -
  have "\<forall>p. pc l p \<noteq> C_fault"
    using clh_reach_inv [OF assms] unfolding clh_inv_def by (auto dest: clh_inv_atE(11))
  then show ?thesis using clh.mutual_exclusion [OF assms] clh.holder_first [OF assms] by blast
qed

text \<open>No lost wake-up: whenever threads wait, the first of them is either inside the
  critical section or about to leave it, or its next look at its predecessor's flag lets it in.\<close>

lemma clh_handover:
  assumes "reach CLHLockInit (act_step (clh_ok n) clh_exec) l" and "arrivals l = p # ps"
  shows "pc l p \<in> {C_in, C_clear} \<or> pc l p = C_spin \<and> clh_ok n l (Run p) \<and> pc (clh_exec (Run p) l) p = C_in"
proof -
  from clh_reach_inv [OF assms(1)] obtain d where inv: "clh_inv_at n d l" unfolding clh_inv_def by blast
  note i = clh_inv_atE [OF inv]
  have "waiting (pc l p)" using i(2) [of p] assms(2) by simp
  moreover have "MyPred l p = Some d" using i(7) assms(2) by simp
  ultimately show ?thesis using i(3) [of p] i(6) by (auto simp: waiting_def)
qed

text \<open>First come, first served: a thread whose \<^verbatim>\<open>synchSWAP\<close> came later does not
  hold the lock while the earlier one still waits for it or holds it, and one step only changes
  their order by the earlier thread leaving.\<close>

lemma clh_fifo:
  assumes "reach CLHLockInit (act_step (clh_ok n) clh_exec) l" and "arrivals l = xs @ p # ys @ q # zs"
  shows "clh_phase l q \<noteq> Holding \<and>
     (clh_ok n l a \<longrightarrow> (\<exists>xs ys zs. arrivals (clh_exec a l) = xs @ p # ys @ q # zs)
                     \<or> (\<exists>ys. arrivals l = p # ys \<and> arrivals (clh_exec a l) = ys))"
proof -
  have "clh.before l p q" using assms(2) unfolding clh.before_def by blast
  with clh.overtaken_never_holds [OF assms(1)] clh.before_step [OF assms(1)] show ?thesis
    unfolding clh.before_def by blast
qed

text \<open>C15. An object whose operations run between \<^verbatim>\<open>CLHLock\<close> and
  \<^verbatim>\<open>CLHUnlock\<close>, reading and writing the shared data in separate accesses, is linearizable
  with respect to its sequential operation.\<close>

theorem clh_guarded_linearizable:
  assumes "traces (g_init CLHLockInit s0) (g_ok (clh_ok n) clh_phase) (g_exec clh_exec f) g_obs g h"
  shows "linearizable f s0 h"
  using assms by (rule clh.guarded_linearizable)

section \<open>The properties at work\<close>

text \<open>Two threads: thread 0 takes the lock, thread 1 queues behind it.\<close>

definition clh_demo :: "lock_act list" where
  "clh_demo = [Acquire 0, Acquire 1, Run 0, Run 1, Run 0, Run 1, Run 0]"

definition clh_demo_state :: CLHLockStruct where
  "clh_demo_state = the (run_acts (clh_ok 2) clh_exec clh_demo CLHLockInit)"

lemma clh_demo_run: "run_acts (clh_ok 2) clh_exec clh_demo CLHLockInit = Some clh_demo_state"
  by (simp add: clh_demo_state_def clh_demo_def CLHLockInit_def)

lemmas clh_demo_reach = run_acts_reachable [OF clh_demo_run]

lemma clh_demo_facts:
  "arrivals clh_demo_state = [0, 1]" "pc clh_demo_state 0 = C_in" "pc clh_demo_state 1 = C_spin"
  "clh_ok 2 clh_demo_state (Run 1)"
  by (simp_all add: clh_demo_state_def clh_demo_def CLHLockInit_def)

theorem clh_mutual_exclusion_witness:
  "clh_phase clh_demo_state 0 = Holding \<and> clh_phase clh_demo_state 1 \<noteq> Holding"
proof -
  have "clh_phase clh_demo_state 0 = Holding" by (simp add: clh_demo_facts)
  with clh_mutual_exclusion [OF clh_demo_reach] show ?thesis by (metis zero_neq_one)
qed

lemma clh_handover_witness: "pc clh_demo_state 0 \<in> {C_in, C_clear}"
  using clh_handover [OF clh_demo_reach clh_demo_facts(1)] clh_demo_facts(2) by simp

lemma clh_fifo_witness:
  "clh_phase clh_demo_state 1 \<noteq> Holding \<and>
   (\<exists>xs ys zs. arrivals (clh_exec (Run 1) clh_demo_state) = xs @ 0 # ys @ 1 # zs)"
  using clh_fifo [OF clh_demo_reach, of "[]" 0 "[]" 1 "[]" "Run 1"] clh_demo_facts
  by (simp add: clh_demo_state_def clh_demo_def CLHLockInit_def)

text \<open>A counter incremented by one thread under the lock, run to the end.\<close>

definition clh_counter_run :: "(CLHLockStruct, unit, nat, nat) guarded \<times> (unit, nat) event list" where
  "clh_counter_run = the (run_trace (g_ok (clh_ok 2) clh_phase) (g_exec clh_exec (\<lambda>p x c. (c, c + 1))) g_obs
     [Begin 0 (), Lock_run 0, Lock_run 0, Lock_run 0, Load 0, Store 0, Unlock 0, Lock_run 0, Lock_run 0, Finish 0]
     (g_init CLHLockInit 5))"

theorem clh_guarded_linearizable_witness:
  "linearizable (\<lambda>p x c. (c, c + 1)) (5 :: nat) [Call 0 (), Ret 0 5]"
proof -
  have "run_trace (g_ok (clh_ok 2) clh_phase) (g_exec clh_exec (\<lambda>p x c. (c, c + 1))) g_obs
     [Begin 0 (), Lock_run 0, Lock_run 0, Lock_run 0, Load 0, Store 0, Unlock 0, Lock_run 0, Lock_run 0, Finish 0]
     (g_init CLHLockInit (5 :: nat)) = Some (fst clh_counter_run, [Call 0 (), Ret 0 5])"
    by (simp add: clh_counter_run_def g_init_def CLHLockInit_def)
  from clh_guarded_linearizable [OF run_trace_traces [OF this]] show ?thesis .
qed

end
