(* ===== verification/McsLock.thy ===== *)
theory McsLock
  imports Lock
begin

text \<open>
  The MCS queue lock of libconcurrent/concurrent/mcs.c. Each thread has one node for ever
  (\<^verbatim>\<open>MCSThreadStateInit\<close>), so the node of thread \<open>p\<close> is called \<open>p\<close>. A step is one access to
  shared memory. \<open>tmp\<close> holds a pointer loaded from shared memory before the store through it;
  \<open>arrivals\<close> is an auxiliary variable, the threads in the order of their \<^verbatim>\<open>synchSWAP\<close> that have
  not handed the lock on.
\<close>

section \<open>State and steps\<close>

datatype mcs_pc =
    M_out
  | M_clear      \<comment> \<open>\<^verbatim>\<open>MyNode->next = NULL\<close>\<close>
  | M_swap       \<comment> \<open>\<^verbatim>\<open>prev = SWAP(&Tail, MyNode)\<close>\<close>
  | M_tail_load  \<comment> \<open>\<^verbatim>\<open>l->Tail\<close> of line 12\<close>
  | M_tail_set   \<comment> \<open>\<^verbatim>\<open>...->locked = true\<close> of line 12\<close>
  | M_lock       \<comment> \<open>\<^verbatim>\<open>MyNode->locked = true\<close>\<close>
  | M_link       \<comment> \<open>\<^verbatim>\<open>prev->next = MyNode\<close>\<close>
  | M_spin
  | M_in
  | M_check      \<comment> \<open>\<^verbatim>\<open>if (MyNode->next == NULL)\<close>\<close>
  | M_cas        \<comment> \<open>\<^verbatim>\<open>CASPTR(&Tail, MyNode, NULL)\<close>\<close>
  | M_wait       \<comment> \<open>\<^verbatim>\<open>while (MyNode->next == NULL)\<close>\<close>
  | M_next_load  \<comment> \<open>\<^verbatim>\<open>MyNode->next\<close> of line 35\<close>
  | M_hand       \<comment> \<open>\<^verbatim>\<open>...->locked = false\<close> of line 35\<close>
  | M_null       \<comment> \<open>\<^verbatim>\<open>MyNode->next = NULL\<close> of line 36\<close>
  | M_fault

record MCSLockStruct =
  Tail :: ptr
  locked :: "tid \<Rightarrow> bool"
  nxt :: "tid \<Rightarrow> ptr"
  prev :: "tid \<Rightarrow> ptr"
  tmp :: "tid \<Rightarrow> ptr"
  pc :: "tid \<Rightarrow> mcs_pc"
  arrivals :: "tid list"

definition MCSLockInit :: MCSLockStruct where
  "MCSLockInit = \<lparr>Tail = None, locked = (\<lambda>_. False), nxt = (\<lambda>_. None), prev = (\<lambda>_. None), tmp = (\<lambda>_. None),
     pc = (\<lambda>_. M_out), arrivals = []\<rparr>"

abbreviation goto :: "tid \<Rightarrow> mcs_pc \<Rightarrow> MCSLockStruct \<Rightarrow> MCSLockStruct" where
  "goto p c l \<equiv> l\<lparr>pc := (pc l)(p := c)\<rparr>"

fun MCSLock :: "tid \<Rightarrow> MCSLockStruct \<Rightarrow> MCSLockStruct" where
  "MCSLock p l =
     (case pc l p of
        M_clear \<Rightarrow> goto p M_swap (l\<lparr>nxt := (nxt l)(p := None)\<rparr>)
      | M_swap \<Rightarrow> goto p (if Tail l = None then M_spin else M_tail_load)
                    (l\<lparr>prev := (prev l)(p := Tail l), Tail := Some p, arrivals := arrivals l @ [p]\<rparr>)
      | M_tail_load \<Rightarrow> goto p M_tail_set (l\<lparr>tmp := (tmp l)(p := Tail l)\<rparr>)
      | M_tail_set \<Rightarrow> (case tmp l p of
                         None \<Rightarrow> goto p M_fault l
                       | Some t \<Rightarrow> goto p M_lock (l\<lparr>locked := (locked l)(t := True)\<rparr>))
      | M_lock \<Rightarrow> goto p M_link (l\<lparr>locked := (locked l)(p := True)\<rparr>)
      | M_link \<Rightarrow> (case prev l p of
                     None \<Rightarrow> goto p M_fault l
                   | Some a \<Rightarrow> goto p M_spin (l\<lparr>nxt := (nxt l)(a := Some p)\<rparr>))
      | M_spin \<Rightarrow> if locked l p then l else goto p M_in l
      | _ \<Rightarrow> l)"

fun MCSUnlock :: "tid \<Rightarrow> MCSLockStruct \<Rightarrow> MCSLockStruct" where
  "MCSUnlock p l =
     (case pc l p of
        M_check \<Rightarrow> goto p (if nxt l p = None then M_cas else M_next_load) l
      | M_cas \<Rightarrow> (if Tail l = Some p
                  then goto p M_out (l\<lparr>Tail := None, arrivals := tl (arrivals l)\<rparr>)
                  else goto p M_wait l)
      | M_wait \<Rightarrow> (if nxt l p = None then l else goto p M_next_load l)
      | M_next_load \<Rightarrow> goto p M_hand (l\<lparr>tmp := (tmp l)(p := nxt l p)\<rparr>)
      | M_hand \<Rightarrow> (case tmp l p of
                     None \<Rightarrow> goto p M_fault l
                   | Some b \<Rightarrow> goto p M_null (l\<lparr>locked := (locked l)(b := False), arrivals := tl (arrivals l)\<rparr>))
      | M_null \<Rightarrow> goto p M_out (l\<lparr>nxt := (nxt l)(p := None)\<rparr>)
      | _ \<Rightarrow> l)"

definition locking :: "mcs_pc set" where
  "locking = {M_clear, M_swap, M_tail_load, M_tail_set, M_lock, M_link, M_spin}"

definition unlocking :: "mcs_pc set" where
  "unlocking = {M_check, M_cas, M_wait, M_next_load, M_hand, M_null}"

fun mcs_phase :: "MCSLockStruct \<Rightarrow> tid \<Rightarrow> lock_phase" where
  "mcs_phase l p =
     (if pc l p = M_out then Out else if pc l p = M_in then Holding
      else if pc l p \<in> unlocking then Leaving else Trying)"

fun mcs_ok :: "nat \<Rightarrow> MCSLockStruct \<Rightarrow> lock_act \<Rightarrow> bool" where
  "mcs_ok n l (Acquire p) \<longleftrightarrow> p < n \<and> pc l p = M_out"
| "mcs_ok n l (Run p) \<longleftrightarrow> p < n \<and> pc l p \<in> locking \<union> unlocking"
| "mcs_ok n l (Release p) \<longleftrightarrow> p < n \<and> pc l p = M_in"

fun mcs_exec :: "lock_act \<Rightarrow> MCSLockStruct \<Rightarrow> MCSLockStruct" where
  "mcs_exec (Acquire p) l = goto p M_clear l"
| "mcs_exec (Run p) l = (if pc l p \<in> locking then MCSLock p l else MCSUnlock p l)"
| "mcs_exec (Release p) l = goto p M_check l"

section \<open>Invariant\<close>

text \<open>A thread that has swapped and not yet linked itself behind its predecessor.\<close>

definition linking :: "mcs_pc \<Rightarrow> bool" where
  "linking c \<longleftrightarrow> c \<in> {M_tail_load, M_tail_set, M_lock, M_link}"

definition leading :: "mcs_pc \<Rightarrow> bool" where
  "leading c \<longleftrightarrow> c \<in> {M_spin, M_in, M_check, M_cas, M_wait, M_next_load, M_hand}"

definition behind :: "MCSLockStruct \<Rightarrow> tid \<Rightarrow> tid \<Rightarrow> bool" where
  "behind l a b \<longleftrightarrow> nxt l a = (if linking (pc l b) then None else Some b)
     \<and> (linking (pc l b) \<longrightarrow> prev l b = Some a)"

definition mcs_inv :: "nat \<Rightarrow> MCSLockStruct \<Rightarrow> bool" where
  "mcs_inv n l \<longleftrightarrow>
     distinct (arrivals l)
   \<and> (\<forall>p. p \<in> set (arrivals l) \<longleftrightarrow> linking (pc l p) \<or> leading (pc l p))
   \<and> (\<forall>p. pc l p \<noteq> M_out \<longrightarrow> p < n)
   \<and> Tail l = (if arrivals l = [] then None else Some (last (arrivals l)))
   \<and> (\<forall>i. Suc i < length (arrivals l) \<longrightarrow> behind l (arrivals l ! i) (arrivals l ! Suc i))
   \<and> (arrivals l \<noteq> [] \<longrightarrow> nxt l (last (arrivals l)) = None)
   \<and> (arrivals l \<noteq> [] \<longrightarrow> leading (pc l (hd (arrivals l))) \<and> \<not> locked l (hd (arrivals l)))
   \<and> (\<forall>p. p \<in> set (tl (arrivals l)) \<longrightarrow> (linking (pc l p) \<or> pc l p = M_spin)
          \<and> (pc l p \<in> {M_link, M_spin} \<longrightarrow> locked l p))
   \<and> (\<forall>p. pc l p \<in> {M_out, M_clear, M_swap, M_null} \<longrightarrow> \<not> locked l p)
   \<and> (\<forall>p. pc l p = M_swap \<longrightarrow> nxt l p = None)
   \<and> (\<forall>p. pc l p = M_tail_set \<longrightarrow>
         (\<exists>xs ys t. arrivals l = xs @ p # ys \<and> tmp l p = Some t \<and> t \<in> set (p # ys)))
   \<and> (\<forall>p. pc l p \<in> {M_next_load, M_hand} \<longrightarrow> nxt l p \<noteq> None)
   \<and> (\<forall>p. pc l p = M_hand \<longrightarrow> tmp l p = nxt l p)
   \<and> (\<forall>p. pc l p \<noteq> M_fault)"

lemmas mcs_pc_defs = locking_def unlocking_def linking_def leading_def

lemma mcs_invD:
  assumes "mcs_inv n l"
  shows "distinct (arrivals l)" "\<And>p. p \<in> set (arrivals l) \<longleftrightarrow> linking (pc l p) \<or> leading (pc l p)"
    "\<And>p. pc l p \<noteq> M_out \<Longrightarrow> p < n"
    "Tail l = (if arrivals l = [] then None else Some (last (arrivals l)))"
    "\<And>i. Suc i < length (arrivals l) \<Longrightarrow> behind l (arrivals l ! i) (arrivals l ! Suc i)"
    "arrivals l \<noteq> [] \<Longrightarrow> nxt l (last (arrivals l)) = None"
    "arrivals l \<noteq> [] \<Longrightarrow> leading (pc l (hd (arrivals l))) \<and> \<not> locked l (hd (arrivals l))"
    "\<And>p. p \<in> set (tl (arrivals l)) \<Longrightarrow> (linking (pc l p) \<or> pc l p = M_spin)
          \<and> (pc l p \<in> {M_link, M_spin} \<longrightarrow> locked l p)"
    "\<And>p. pc l p \<in> {M_out, M_clear, M_swap, M_null} \<Longrightarrow> \<not> locked l p"
    "\<And>p. pc l p = M_swap \<Longrightarrow> nxt l p = None"
    "\<And>p. pc l p = M_tail_set \<Longrightarrow>
         (\<exists>xs ys t. arrivals l = xs @ p # ys \<and> tmp l p = Some t \<and> t \<in> set (p # ys))"
    "\<And>p. pc l p \<in> {M_next_load, M_hand} \<Longrightarrow> nxt l p \<noteq> None"
    "\<And>p. pc l p = M_hand \<Longrightarrow> tmp l p = nxt l p"
    "\<And>p. pc l p \<noteq> M_fault"
  using assms unfolding mcs_inv_def by blast+

lemma mcs_inv_init: "mcs_inv n MCSLockInit"
  by (simp add: mcs_inv_def MCSLockInit_def mcs_pc_defs)

text \<open>Small changes that keep the invariant; most steps are a composition of two of them.\<close>

lemma mcs_inv_goto:
  assumes inv: "mcs_inv n l" and "p < n" "linking c = linking (pc l p)" "leading c = leading (pc l p)"
    and "c \<in> {M_out, M_clear, M_swap, M_null} \<Longrightarrow> \<not> locked l p" and "c = M_swap \<Longrightarrow> nxt l p = None"
    and "c = M_tail_set \<Longrightarrow> \<exists>xs ys t. arrivals l = xs @ p # ys \<and> tmp l p = Some t \<and> t \<in> set (p # ys)"
    and "c \<in> {M_next_load, M_hand} \<Longrightarrow> nxt l p \<noteq> None" and "c = M_hand \<Longrightarrow> tmp l p = nxt l p"
    and "c \<noteq> M_fault"
    and "p \<in> set (tl (arrivals l)) \<Longrightarrow> (linking c \<or> c = M_spin) \<and> (c \<in> {M_link, M_spin} \<longrightarrow> locked l p)"
  shows "mcs_inv n (goto p c l)"
proof -
  note i = mcs_invD [OF inv]
  have "behind (goto p c l) a b = behind l a b" for a b
    using assms(3) by (auto simp: behind_def)
  then show ?thesis
    unfolding mcs_inv_def using i assms(2-) by (auto simp del: insert_iff) blast+
qed

lemma mcs_inv_tmp:
  assumes inv: "mcs_inv n l" and "pc l p \<notin> {M_tail_set, M_hand}"
  shows "mcs_inv n (l\<lparr>tmp := (tmp l)(p := t)\<rparr>)"
proof -
  note i = mcs_invD [OF inv]
  have "behind (l\<lparr>tmp := (tmp l)(p := t)\<rparr>) a b = behind l a b" for a b by (simp add: behind_def)
  then show ?thesis
    unfolding mcs_inv_def using i assms(2) by (auto simp del: insert_iff) blast+
qed

lemma tl_not_hd: "\<lbrakk>p \<in> set (tl xs); distinct xs\<rbrakk> \<Longrightarrow> xs \<noteq> [] \<and> p \<noteq> hd xs \<and> p \<in> set xs"
  by (cases xs) auto

lemma in_tl: "\<lbrakk>p \<in> set xs; p \<noteq> hd xs\<rbrakk> \<Longrightarrow> p \<in> set (tl xs)"
  by (cases xs) auto

lemma mcs_inv_lock:
  assumes inv: "mcs_inv n l" and "t \<in> set (tl (arrivals l))"
  shows "mcs_inv n (l\<lparr>locked := (locked l)(t := True)\<rparr>)"
proof -
  note i = mcs_invD [OF inv]
  have "behind (l\<lparr>locked := (locked l)(t := True)\<rparr>) a b = behind l a b" for a b by (simp add: behind_def)
  moreover have t: "t \<noteq> hd (arrivals l)" "t \<in> set (arrivals l)" using tl_not_hd [OF assms(2) i(1)] by auto
  then have "pc l t \<notin> {M_out, M_clear, M_swap, M_null}" using i(2) [of t] by (auto simp: linking_def leading_def)
  ultimately show ?thesis
    unfolding mcs_inv_def using i t(1) by (auto simp del: insert_iff)
qed

lemma mcs_inv_next:
  assumes inv: "mcs_inv n l" and "pc l p \<in> {M_out, M_clear, M_null}"
  shows "mcs_inv n (l\<lparr>nxt := (nxt l)(p := None)\<rparr>)"
proof -
  note i = mcs_invD [OF inv]
  have p: "p \<notin> set (arrivals l)" using i(2) [of p] assms(2) by (auto simp: linking_def leading_def)
  then have "behind (l\<lparr>nxt := (nxt l)(p := None)\<rparr>) (arrivals l ! i) b = behind l (arrivals l ! i) b"
    if "i < length (arrivals l)" for i b
    using that by (auto simp: behind_def)
  moreover have "arrivals l \<noteq> [] \<Longrightarrow> last (arrivals l) \<noteq> p" using p by auto
  ultimately show ?thesis
    unfolding mcs_inv_def using i assms(2) by (auto simp del: insert_iff)
qed

lemma mcs_linking_tl:
  assumes inv: "mcs_inv n l" and "linking (pc l p)"
  shows "p \<in> set (tl (arrivals l))"
proof -
  note i = mcs_invD [OF inv]
  have p: "p \<in> set (arrivals l)" using i(2) assms(2) by blast
  then have "leading (pc l (hd (arrivals l)))" using i(7) by (cases "arrivals l") auto
  with assms(2) have "p \<noteq> hd (arrivals l)" by (auto simp: linking_def leading_def)
  with p show ?thesis by (rule in_tl)
qed

lemma mcs_leading_hd:
  assumes inv: "mcs_inv n l" and "leading (pc l p)" and "pc l p \<noteq> M_spin \<or> \<not> locked l p"
  shows "\<exists>ps. arrivals l = p # ps"
proof -
  note i = mcs_invD [OF inv]
  have "p \<in> set (arrivals l)" using i(2) assms(2) by blast
  moreover have "p \<notin> set (tl (arrivals l))" using i(8) [of p] assms(2,3) by (auto simp: leading_def linking_def)
  ultimately show ?thesis by (cases "arrivals l") auto
qed

lemma mcs_inv_link:
  assumes inv: "mcs_inv n l" and pcl: "pc l p = M_link" and pr: "prev l p = Some a"
  shows "mcs_inv n (goto p M_spin (l\<lparr>nxt := (nxt l)(a := Some p)\<rparr>))" (is "mcs_inv n ?l")
proof -
  note i = mcs_invD [OF inv]
  let ?q = "arrivals l"
  have tl: "p \<in> set (tl ?q)" using mcs_linking_tl [OF inv] pcl by (simp add: linking_def)
  then obtain k where k: "Suc k < length ?q" "?q ! Suc k = p"
    by (metis in_set_conv_nth length_tl less_diff_conv nth_tl Suc_eq_plus1)
  with i(5) [OF k(1)] pcl pr have a: "?q ! k = a" "nxt l a = None" by (auto simp: behind_def linking_def)
  have "behind ?l (?q ! j) (?q ! Suc j)" if j: "Suc j < length ?q" for j
  proof (cases "j = k")
    case True
    with a k show ?thesis by (simp add: behind_def linking_def)
  next
    case False
    with i(1) j k a have "?q ! j \<noteq> a" "?q ! Suc j \<noteq> p"
      by (metis Suc_lessD nth_eq_iff_index_eq, metis nat.inject nth_eq_iff_index_eq)
    with i(5) [OF j] show ?thesis by (simp add: behind_def)
  qed
  moreover have "last ?q \<noteq> a"
  proof -
    have "last ?q = ?q ! (length ?q - 1)" using k by (intro last_conv_nth) auto
    moreover have "k < length ?q - 1" using k by simp
    ultimately show ?thesis using i(1) a k by (metis Suc_lessD diff_less nth_eq_iff_index_eq less_irrefl zero_less_one length_pos_if_in_set nth_mem)
  qed
  moreover have "pc l a \<notin> {M_next_load, M_hand, M_swap}"
  proof -
    have "a \<in> set ?q" using a k by (metis Suc_lessD nth_mem)
    with i(2) [of a] i(12) [of a] a(2) show ?thesis by (auto simp: linking_def leading_def)
  qed
  moreover have "p \<noteq> hd ?q" using tl_not_hd [OF tl i(1)] by simp
  moreover have "locked l p" using i(8) [OF tl] pcl by simp
  ultimately show ?thesis
    unfolding mcs_inv_def using i pcl tl by (auto simp del: insert_iff simp: linking_def leading_def)
qed

lemma mcs_inv_swap:
  assumes inv: "mcs_inv n l" and pcl: "pc l p = M_swap"
  shows "mcs_inv n (goto p (if Tail l = None then M_spin else M_tail_load)
      (l\<lparr>prev := (prev l)(p := Tail l), Tail := Some p, arrivals := arrivals l @ [p]\<rparr>))" (is "mcs_inv n ?l")
proof -
  note i = mcs_invD [OF inv]
  let ?q = "arrivals l"
  have p: "p \<notin> set ?q" using i(2) [of p] pcl by (simp add: linking_def leading_def)
  have "behind ?l ((?q @ [p]) ! j) ((?q @ [p]) ! Suc j)" if j: "Suc j < length (?q @ [p])" for j
  proof (cases "Suc j < length ?q")
    case True
    then have "?q ! Suc j \<noteq> p" "?q ! j \<noteq> p" using p by (metis nth_mem, metis Suc_lessD nth_mem)
    with i(5) [OF True] True show ?thesis by (simp add: behind_def nth_append)
  next
    case False
    then have ne: "?q \<noteq> []" and jl: "j = length ?q - 1" "Suc j = length ?q" using j by auto
    then have "?q ! j = last ?q" by (simp add: last_conv_nth)
    with ne jl i(4,6) show ?thesis by (simp add: behind_def nth_append linking_def)
  qed
  moreover have "(\<exists>xs ys t. ?q @ [p] = xs @ r # ys \<and> tmp l r = Some t \<and> t \<in> set (r # ys))"
    if "pc l r = M_tail_set" for r
  proof -
    from i(11) [OF that] obtain xs ys t where "?q = xs @ r # ys" "tmp l r = Some t" "t \<in> set (r # ys)" by blast
    then have "?q @ [p] = xs @ r # (ys @ [p]) \<and> tmp l r = Some t \<and> t \<in> set (r # (ys @ [p]))" by auto
    then show ?thesis by blast
  qed
  moreover have "(\<forall>r. r \<in> set (?q @ [p]) \<longleftrightarrow> linking (pc ?l r) \<or> leading (pc ?l r))"
    using i(2) by (auto simp: linking_def leading_def)
  moreover have "leading (pc ?l (hd (?q @ [p]))) \<and> \<not> locked l (hd (?q @ [p]))"
    using i(4,7,9) pcl p by (cases "?q") (auto simp: leading_def)
  moreover have "(linking (pc ?l r) \<or> pc ?l r = M_spin) \<and> (pc ?l r \<in> {M_link, M_spin} \<longrightarrow> locked l r)"
    if "r \<in> set (tl (?q @ [p]))" for r
    using i(4) i(8) [of r] that p by (cases "?q") (auto simp: linking_def)
  ultimately show ?thesis
    unfolding mcs_inv_def using i(1,3,9,10,12,13,14) pcl p by (intro conjI) (simp_all split: if_splits)
qed

lemma mcs_inv_cas:
  assumes inv: "mcs_inv n l" and pcl: "pc l p = M_cas" and t: "Tail l = Some p"
  shows "mcs_inv n (goto p M_out (l\<lparr>Tail := None, arrivals := tl (arrivals l)\<rparr>))"
proof -
  note i = mcs_invD [OF inv]
  obtain ps where ps: "arrivals l = p # ps" using mcs_leading_hd [OF inv, of p] pcl by (auto simp: leading_def)
  with t i(1,4) have "ps = []" by (cases ps rule: rev_cases) auto
  with ps have q: "arrivals l = [p]" by simp
  have "\<not> locked l p" using i(7) q by simp
  moreover have "\<And>r. r \<noteq> p \<Longrightarrow> \<not> linking (pc l r) \<and> \<not> leading (pc l r)" using i(2) q by auto
  moreover have "pc l r \<noteq> M_tail_set" for r using i(11) [of r] q pcl by (auto simp: Cons_eq_append_conv)
  ultimately show ?thesis
    unfolding mcs_inv_def using i(3,9,10,12,13,14) q pcl by (auto simp: linking_def leading_def)
qed

lemma mcs_inv_hand:
  assumes inv: "mcs_inv n l" and pcl: "pc l p = M_hand" and b: "tmp l p = Some b"
  shows "mcs_inv n (goto p M_null (l\<lparr>locked := (locked l)(b := False), arrivals := tl (arrivals l)\<rparr>))"
    (is "mcs_inv n ?l")
proof -
  note i = mcs_invD [OF inv]
  have nb: "nxt l p = Some b" using i(13) [OF pcl] b by simp
  obtain ps where ps: "arrivals l = p # ps" using mcs_leading_hd [OF inv, of p] pcl by (auto simp: leading_def)
  moreover have "ps \<noteq> []" using i(6) nb ps by auto
  ultimately obtain b' qs where q: "arrivals l = p # b' # qs" by (cases ps) auto
  with i(5) [of 0] nb have bb: "b' = b" "\<not> linking (pc l b)" by (auto simp: behind_def split: if_splits)
  have spin: "pc l b = M_spin" using i(8) [of b] q bb by simp
  have "behind ?l (tl (arrivals l) ! j) (tl (arrivals l) ! Suc j)" if "Suc j < length (tl (arrivals l))" for j
  proof -
    have "behind l ((b # qs) ! j) ((b # qs) ! Suc j)" using i(5) [of "Suc j"] that q bb by simp
    moreover have "(b # qs) ! Suc j \<noteq> p" using i(1) that q bb by auto
    ultimately show ?thesis using q bb by (simp add: behind_def)
  qed
  moreover have "\<exists>xs ys t. tl (arrivals l) = xs @ r # ys \<and> tmp l r = Some t \<and> t \<in> set (r # ys)"
    if r: "pc l r = M_tail_set" for r
  proof -
    from i(11) [OF r] obtain xs ys t where w: "arrivals l = xs @ r # ys" "tmp l r = Some t" "t \<in> set (r # ys)" by blast
    have "r \<noteq> p" using r pcl by auto
    then obtain xs' where "xs = p # xs'" using w(1) q by (cases xs) auto
    with w q show ?thesis by auto
  qed
  moreover have "(\<forall>r. r \<in> set (tl (arrivals l)) \<longleftrightarrow> linking (pc ?l r) \<or> leading (pc ?l r))"
    using i(1,2) q bb by (auto simp: linking_def leading_def)
  moreover have "leading (pc ?l (hd (tl (arrivals l)))) \<and> \<not> locked ?l (hd (tl (arrivals l)))"
    using q bb spin i(1) by (auto simp: leading_def)
  moreover have "(linking (pc ?l r) \<or> pc ?l r = M_spin) \<and> (pc ?l r \<in> {M_link, M_spin} \<longrightarrow> locked ?l r)"
    if "r \<in> set (tl (tl (arrivals l)))" for r
    using i(8) [of r] i(1) that q bb by auto
  moreover have "\<not> locked l p" using i(7) q by simp
  ultimately show ?thesis
    unfolding mcs_inv_def using i(1,3,4,6,9,10,12,13,14) pcl q bb spin
    by (intro conjI) (simp_all split: if_splits)
qed

lemma mcs_inv_run:
  assumes inv: "mcs_inv n l" and "p < n" and pcl: "pc l p \<in> locking \<union> unlocking"
  shows "mcs_inv n (mcs_exec (Run p) l)"
proof (cases "pc l p")
  note i = mcs_invD [OF inv]
  {
    case M_clear
    then have "mcs_inv n (goto p M_swap (l\<lparr>nxt := (nxt l)(p := None)\<rparr>))"
      using i(9) [of p] \<open>p < n\<close> mcs_linking_tl [OF inv]
      by (intro mcs_inv_goto mcs_inv_next [OF inv]) (auto simp: mcs_pc_defs dest: i(8))
    then show ?thesis using M_clear by (simp add: locking_def)
  next
    case M_swap
    then show ?thesis using mcs_inv_swap [OF inv M_swap] by (simp add: locking_def)
  next
    case M_tail_load
    then have "p \<in> set (tl (arrivals l))" by (intro mcs_linking_tl [OF inv]) (simp add: linking_def)
    from tl_not_hd [OF this i(1)] have p: "p \<in> set (arrivals l)" by simp
    from split_list [OF p] obtain xs ys where w: "arrivals l = xs @ p # ys" by blast
    then have "Tail l = Some (last (p # ys))" using i(4) by simp
    with w have "\<exists>xs ys t. arrivals l = xs @ p # ys \<and> Tail l = Some t \<and> t \<in> set (p # ys)"
      by (metis last_in_set list.distinct(1))
    then have "mcs_inv n (goto p M_tail_set (l\<lparr>tmp := (tmp l)(p := Tail l)\<rparr>))"
      using \<open>p < n\<close> M_tail_load
      by (intro mcs_inv_goto mcs_inv_tmp [OF inv]) (simp_all add: mcs_pc_defs)
    then show ?thesis using M_tail_load by (simp add: locking_def)
  next
    case M_tail_set
    from i(11) [OF M_tail_set] obtain xs ys t where w: "arrivals l = xs @ p # ys" "tmp l p = Some t" "t \<in> set (p # ys)" by blast
    have "p \<in> set (tl (arrivals l))" using M_tail_set by (intro mcs_linking_tl [OF inv]) (simp add: linking_def)
    then have "xs \<noteq> []" using w(1) i(1) by auto
    then have "t \<in> set (tl (arrivals l))" using w by (cases xs) auto
    from mcs_inv_lock [OF inv this] have "mcs_inv n (goto p M_lock (l\<lparr>locked := (locked l)(t := True)\<rparr>))"
      using \<open>p < n\<close> M_tail_set by (intro mcs_inv_goto) (simp_all add: mcs_pc_defs)
    then show ?thesis using M_tail_set w by (simp add: locking_def)
  next
    case M_lock
    then have "p \<in> set (tl (arrivals l))" by (intro mcs_linking_tl [OF inv]) (simp add: linking_def)
    from mcs_inv_lock [OF inv this] have "mcs_inv n (goto p M_link (l\<lparr>locked := (locked l)(p := True)\<rparr>))"
      using \<open>p < n\<close> M_lock by (intro mcs_inv_goto) (simp_all add: mcs_pc_defs)
    then show ?thesis using M_lock by (simp add: locking_def)
  next
    case M_link
    then have tl: "p \<in> set (tl (arrivals l))" by (intro mcs_linking_tl [OF inv]) (simp add: linking_def)
    then obtain k where k: "Suc k < length (arrivals l)" "arrivals l ! Suc k = p"
      by (metis in_set_conv_nth length_tl less_diff_conv nth_tl Suc_eq_plus1)
    from i(5) [OF k(1)] k(2) M_link have "prev l p = Some (arrivals l ! k)" by (simp add: behind_def linking_def)
    from mcs_inv_link [OF inv M_link this] M_link this show ?thesis by (simp add: locking_def)
  next
    case M_spin
    have "\<not> locked l p \<Longrightarrow> \<exists>ps. arrivals l = p # ps"
      using mcs_leading_hd [OF inv, of p] M_spin by (simp add: leading_def)
    then have "\<not> locked l p \<Longrightarrow> mcs_inv n (goto p M_in l)"
      using M_spin \<open>p < n\<close> i(1) by (intro mcs_inv_goto [OF inv]) (auto simp: mcs_pc_defs)
    then show ?thesis using M_spin inv by (simp add: locking_def)
  next
    case M_check
    then obtain ps where "arrivals l = p # ps" using mcs_leading_hd [OF inv, of p] by (auto simp: leading_def)
    then have "mcs_inv n (goto p (if nxt l p = None then M_cas else M_next_load) l)"
      using M_check \<open>p < n\<close> i(1) by (intro mcs_inv_goto [OF inv]) (auto simp: mcs_pc_defs split: if_splits)
    then show ?thesis using M_check by (simp add: locking_def)
  next
    case M_cas
    then obtain ps where "arrivals l = p # ps" using mcs_leading_hd [OF inv, of p] by (auto simp: leading_def)
    then have "mcs_inv n (goto p M_wait l)"
      using M_cas \<open>p < n\<close> i(1) by (intro mcs_inv_goto [OF inv]) (auto simp: mcs_pc_defs)
    then show ?thesis using M_cas mcs_inv_cas [OF inv M_cas] by (simp add: locking_def)
  next
    case M_wait
    then obtain ps where "arrivals l = p # ps" using mcs_leading_hd [OF inv, of p] by (auto simp: leading_def)
    then have "nxt l p \<noteq> None \<Longrightarrow> mcs_inv n (goto p M_next_load l)"
      using M_wait \<open>p < n\<close> i(1) by (intro mcs_inv_goto [OF inv]) (auto simp: mcs_pc_defs)
    then show ?thesis using M_wait inv by (simp add: locking_def)
  next
    case M_next_load
    then obtain ps where "arrivals l = p # ps" using mcs_leading_hd [OF inv, of p] by (auto simp: leading_def)
    then have "mcs_inv n (goto p M_hand (l\<lparr>tmp := (tmp l)(p := nxt l p)\<rparr>))"
      using M_next_load \<open>p < n\<close> i(1,12) by (intro mcs_inv_goto mcs_inv_tmp [OF inv]) (auto simp: mcs_pc_defs)
    then show ?thesis using M_next_load by (simp add: locking_def)
  next
    case M_hand
    then obtain b where "tmp l p = Some b" using i(12,13) [of p] by auto
    with mcs_inv_hand [OF inv M_hand] M_hand show ?thesis by (simp add: locking_def)
  next
    case M_null
    then have "mcs_inv n (goto p M_out (l\<lparr>nxt := (nxt l)(p := None)\<rparr>))"
      using \<open>p < n\<close> i(9) [of p] i(8) [of p]
      by (intro mcs_inv_goto mcs_inv_next [OF inv]) (auto simp: mcs_pc_defs)
    then show ?thesis using M_null by (simp add: locking_def)
  }
qed (use pcl in \<open>simp_all add: mcs_pc_defs\<close>)

lemma mcs_inv_exec:
  assumes inv: "mcs_inv n l" and "mcs_ok n l a"
  shows "mcs_inv n (mcs_exec a l)"
proof (cases a)
  case (Acquire p)
  then show ?thesis using assms mcs_invD(9) [OF inv, of p] mcs_invD(8) [OF inv, of p]
    by (auto intro!: mcs_inv_goto [OF inv] simp: mcs_pc_defs)
next
  case (Release p)
  then have p: "pc l p = M_in" "p < n" using assms(2) by simp_all
  then obtain ps where "arrivals l = p # ps" using mcs_leading_hd [OF inv, of p] by (auto simp: leading_def)
  with p mcs_invD(1) [OF inv] Release show ?thesis
    by (auto intro!: mcs_inv_goto [OF inv] simp: mcs_pc_defs)
next
  case (Run p)
  with assms(2) have "p < n" "pc l p \<in> locking \<union> unlocking" by simp_all
  with mcs_inv_run [OF inv] Run show ?thesis by blast
qed

lemma mcs_reach_inv: "reach MCSLockInit (act_step (mcs_ok n) mcs_exec) l \<Longrightarrow> mcs_inv n l"
  by (erule act_reach_invariant) (rule mcs_inv_init, rule mcs_inv_exec)

text \<open>A thread that failed to reset \<^verbatim>\<open>Tail\<close> has a successor to wait for.\<close>

lemma mcs_waits_for_someone:
  assumes "reach MCSLockInit (act_step (mcs_ok n) mcs_exec) l"
  shows "pc l p = M_wait \<Longrightarrow> tl (arrivals l) \<noteq> []"
proof -
  have "\<forall>p. pc l p = M_wait \<longrightarrow> tl (arrivals l) \<noteq> []"
    using assms
  proof (rule reach_invariant)
    show "\<forall>p. pc MCSLockInit p = M_wait \<longrightarrow> tl (arrivals MCSLockInit) \<noteq> []"
      by (simp add: MCSLockInit_def)
  next
    fix l l' assume r: "reach MCSLockInit (act_step (mcs_ok n) mcs_exec) l"
      and IH: "\<forall>p. pc l p = M_wait \<longrightarrow> tl (arrivals l) \<noteq> []" and "act_step (mcs_ok n) mcs_exec l l'"
    then obtain a where a: "mcs_ok n l a" "l' = mcs_exec a l" unfolding act_step_def by blast
    note inv = mcs_reach_inv [OF r]
    have first: "\<exists>ps. arrivals l = r # ps" if "pc l r \<in> {M_wait, M_cas, M_hand}" for r
      using mcs_leading_hd [OF inv, of r] that by (auto simp: leading_def)
    have same: "r = q" if "pc l r \<in> {M_wait, M_cas, M_hand}" "pc l q \<in> {M_wait, M_cas, M_hand}" for r q
      using first [OF that(1)] first [OF that(2)] by auto
    show "\<forall>p. pc l' p = M_wait \<longrightarrow> tl (arrivals l') \<noteq> []"
    proof (cases a)
      case (Run q)
      have "Tail l \<noteq> Some q \<Longrightarrow> pc l q = M_cas \<Longrightarrow> tl (arrivals l) \<noteq> []"
        using first [of q] mcs_invD(4) [OF inv] by (auto split: if_splits)
      then show ?thesis using IH a Run same [of _ q]
        by (cases "pc l q"; cases "prev l q"; cases "tmp l q"; cases "arrivals l")
          (auto simp: locking_def)
    qed (use IH a in auto)
  qed
  then show "pc l p = M_wait \<Longrightarrow> tl (arrivals l) \<noteq> []" by blast
qed

section \<open>The lock interface\<close>

lemma mcs_pc_others:
  assumes "p \<noteq> actor a"
  shows "pc (mcs_exec a l) p = pc l p"
proof (cases a)
  case (Run q)
  then show ?thesis using assms
    by (cases "pc l q"; cases "prev l q"; cases "tmp l q") (simp_all add: locking_def)
qed (use assms in simp_all)

interpretation mcs: queue_lock MCSLockInit "mcs_ok n" mcs_exec mcs_phase arrivals for n
proof
  show "mcs_phase MCSLockInit p = Out" for p by (simp add: MCSLockInit_def)
  show "arrivals MCSLockInit = []" by (simp add: MCSLockInit_def)
  show "mcs_phase l p = Out \<and> mcs_phase (mcs_exec (Acquire p) l) p = Trying" if "mcs_ok n l (Acquire p)" for l p
    using that by (simp add: mcs_pc_defs)
  show "mcs_phase l p = Holding \<and> mcs_phase (mcs_exec (Release p) l) p = Leaving" if "mcs_ok n l (Release p)" for l p
    using that by (simp add: mcs_pc_defs)
  show "mcs_phase (mcs_exec a l) p = mcs_phase l p" if "mcs_ok n l a" "p \<noteq> actor a" for l a p
    using mcs_pc_others [OF that(2)] by simp
next
  fix l p assume r: "reach MCSLockInit (act_step (mcs_ok n) mcs_exec) l" and ok: "mcs_ok n l (Run p)"
  note i = mcs_invD [OF mcs_inv_exec [OF mcs_reach_inv [OF r] ok]]
  have nf: "pc (mcs_exec (Run p) l) p \<noteq> M_fault" by (rule i(14))
  with ok show "mcs_phase l p = Trying \<and> mcs_phase (mcs_exec (Run p) l) p \<in> {Trying, Holding}
        \<or> mcs_phase l p = Leaving \<and> mcs_phase (mcs_exec (Run p) l) p \<in> {Leaving, Out}"
    by (cases "pc l p"; cases "prev l p"; cases "tmp l p") (simp_all add: locking_def unlocking_def)
next
  fix l p assume r: "reach MCSLockInit (act_step (mcs_ok n) mcs_exec) l" and "mcs_phase l p = Holding"
  then have "pc l p = M_in" by (auto split: if_splits)
  with mcs_leading_hd [OF mcs_reach_inv [OF r], of p] show "arrivals l \<noteq> [] \<and> p = hd (arrivals l)"
    by (auto simp: leading_def)
next
  fix l a assume r: "reach MCSLockInit (act_step (mcs_ok n) mcs_exec) l" and ok: "mcs_ok n l a"
  note inv = mcs_reach_inv [OF r]
  note i = mcs_invD [OF inv]
  show "arrivals (mcs_exec a l) = arrivals l
      \<or> arrivals (mcs_exec a l) = arrivals l @ [actor a] \<and> actor a \<notin> set (arrivals l)
      \<or> arrivals l = actor a # arrivals (mcs_exec a l)"
  proof (cases a)
    case (Run p)
    have "pc l p = M_swap \<Longrightarrow> p \<notin> set (arrivals l)" using i(2) by (simp add: mcs_pc_defs)
    moreover have "pc l p \<in> {M_cas, M_hand} \<Longrightarrow> \<exists>ps. arrivals l = p # ps"
      using mcs_leading_hd [OF inv, of p] by (auto simp: leading_def)
    ultimately show ?thesis using ok Run
      by (cases "pc l p") (auto simp: locking_def split: option.splits)
  qed simp_all
qed

section \<open>Properties\<close>

text \<open>C18. Mutual exclusion and absence of faults: at most one thread holds the lock, the one
  whose \<^verbatim>\<open>synchSWAP\<close> is oldest, and no null pointer is followed; the store of line 12 to
  whichever node is the tail by then does no harm.\<close>

theorem mcs_mutual_exclusion:
  assumes "reach MCSLockInit (act_step (mcs_ok n) mcs_exec) l"
  shows "\<forall>p q. (mcs_phase l p = Holding \<and> mcs_phase l q = Holding \<longrightarrow> p = q)
           \<and> (mcs_phase l p = Holding \<longrightarrow> hd (arrivals l) = p) \<and> pc l p \<noteq> M_fault"
  using mcs.mutual_exclusion [OF assms] mcs.holder_first [OF assms] mcs_invD(14) [OF mcs_reach_inv [OF assms]]
  by blast

text \<open>No lost wake-up: the first thread of the queue can always move on with its next step,
  except when it waits, in \<^verbatim>\<open>MCSUnlock\<close>, for its successor to link itself; then the
  successor is in the straight-line code that does so.\<close>

lemma mcs_handover:
  assumes "reach MCSLockInit (act_step (mcs_ok n) mcs_exec) l" and "arrivals l = p # ps"
  shows "pc l p = M_in \<or> mcs_ok n l (Run p) \<and> pc (mcs_exec (Run p) l) p \<noteq> pc l p
     \<or> pc l p = M_wait \<and> nxt l p = None \<and> ps \<noteq> [] \<and> linking (pc l (hd ps))"
proof -
  note inv = mcs_reach_inv [OF assms(1)]
  note i = mcs_invD [OF inv]
  have lead: "leading (pc l p)" "\<not> locked l p" "p < n" using i(7) i(3) [of p] assms(2) by (auto simp: leading_def)
  show ?thesis
  proof (cases "pc l p = M_wait \<and> nxt l p = None")
    case True
    then have "ps \<noteq> []" using mcs_waits_for_someone [OF assms(1), of p] assms(2) by simp
    then show ?thesis using i(5) [of 0] assms(2) True by (cases ps) (auto simp: behind_def split: if_splits)
  next
    case False
    have "pc l p = M_hand \<Longrightarrow> tmp l p \<noteq> None" using i(12,13) [of p] by simp
    with lead False show ?thesis
      by (cases "pc l p") (auto simp: leading_def locking_def unlocking_def)
  qed
qed

text \<open>C16. An object whose operations run between \<^verbatim>\<open>MCSLock\<close> and
  \<^verbatim>\<open>MCSUnlock\<close> is linearizable.\<close>

theorem mcs_guarded_linearizable:
  assumes "traces (g_init MCSLockInit s0) (g_ok (mcs_ok n) mcs_phase) (g_exec mcs_exec f) g_obs g h"
  shows "linearizable f s0 h"
  using assms by (rule mcs.guarded_linearizable)

section \<open>The properties at work\<close>

text \<open>Thread 0 has the lock and thread 1 has swapped behind it.\<close>

definition mcs_demo :: "lock_act list" where
  "mcs_demo = [Acquire 0, Acquire 1, Run 0, Run 1, Run 0, Run 1, Run 0]"

definition mcs_demo_state :: MCSLockStruct where
  "mcs_demo_state = the (run_acts (mcs_ok 2) mcs_exec mcs_demo MCSLockInit)"

lemma mcs_demo_run: "run_acts (mcs_ok 2) mcs_exec mcs_demo MCSLockInit = Some mcs_demo_state"
  by (simp add: mcs_demo_state_def mcs_demo_def MCSLockInit_def mcs_pc_defs)

text \<open>Thread 0 then leaves and finds that thread 1 has not linked itself yet.\<close>

definition mcs_demo_state2 :: MCSLockStruct where
  "mcs_demo_state2 = the (run_acts (mcs_ok 2) mcs_exec (mcs_demo @ [Release 0, Run 0, Run 0]) MCSLockInit)"

lemma mcs_demo_run2:
  "run_acts (mcs_ok 2) mcs_exec (mcs_demo @ [Release 0, Run 0, Run 0]) MCSLockInit = Some mcs_demo_state2"
  by (simp add: mcs_demo_state2_def mcs_demo_def MCSLockInit_def mcs_pc_defs)

theorem mcs_mutual_exclusion_witness:
  "mcs_phase mcs_demo_state 0 = Holding \<and> mcs_phase mcs_demo_state 1 \<noteq> Holding"
proof -
  have "mcs_phase mcs_demo_state 0 = Holding"
    by (simp add: mcs_demo_state_def mcs_demo_def MCSLockInit_def mcs_pc_defs)
  with mcs_mutual_exclusion [OF run_acts_reachable [OF mcs_demo_run]] show ?thesis by (metis zero_neq_one)
qed

lemma mcs_handover_witness: "pc mcs_demo_state2 0 = M_wait \<and> linking (pc mcs_demo_state2 1)"
proof -
  have "arrivals mcs_demo_state2 = [0, 1]" "pc mcs_demo_state2 0 = M_wait" "nxt mcs_demo_state2 0 = None"
    by (simp_all add: mcs_demo_state2_def mcs_demo_def MCSLockInit_def mcs_pc_defs)
  with mcs_handover [OF run_acts_reachable [OF mcs_demo_run2], of 0 "[1]"] show ?thesis
    by (simp add: locking_def)
qed

theorem mcs_guarded_linearizable_witness:
  "linearizable (\<lambda>p x c. (c, c + 1)) (5 :: nat) [Call 0 (), Ret 0 5]"
proof -
  let ?as = "[Begin 0 (), Lock_run 0, Lock_run 0, Lock_run 0, Load 0, Store 0, Unlock 0, Lock_run 0, Lock_run 0, Finish 0]"
  obtain g where "run_trace (g_ok (mcs_ok 2) mcs_phase) (g_exec mcs_exec (\<lambda>p x c. (c, c + 1))) g_obs
     ?as (g_init MCSLockInit (5 :: nat)) = Some (g, [Call 0 (), Ret 0 5])"
    by (simp add: g_init_def MCSLockInit_def mcs_pc_defs)
  from mcs_guarded_linearizable [OF run_trace_traces [OF this]] show ?thesis .
qed

end
