(* ===== verification/CcSynch.thy ===== *)
theory CcSynch
  imports Linearizability
begin

text \<open>
  The CC-Synch combining object of libconcurrent/concurrent/ccsynch.c. Node \<open>n\<close> is the one on
  \<^verbatim>\<open>Tail\<close> at the start (\<^verbatim>\<open>l->nodes[nthreads]\<close>), node \<open>p\<close> is \<^verbatim>\<open>st_thread->next\<close> of
  thread \<open>p\<close>. A step is one access to shared memory, the program counter names the next one; the
  call of \<^verbatim>\<open>sfunc\<close> is one step, and \<open>cc_exclusive\<close> shows that no two threads can
  be at it. The field \<^verbatim>\<open>arg_ret\<close> is first an argument, then a return value: it is a tagged
  slot here, and using it with the wrong tag, like following a null pointer, is the fault
  \<open>K_fault\<close>, which the invariant excludes. \<open>arr\<close> is an auxiliary variable: the threads in the
  order of their \<^verbatim>\<open>synchSWAP\<close> whose requests have not been served.
\<close>

section \<open>State and steps\<close>

datatype ('x, 'r) slot = Arg 'x | Res 'r

datatype cc_pc =
    K_out
  | K_next     \<comment> \<open>\<^verbatim>\<open>next_node->next = NULL\<close>\<close>
  | K_lock     \<comment> \<open>\<^verbatim>\<open>next_node->locked = true\<close>\<close>
  | K_compl    \<comment> \<open>\<^verbatim>\<open>next_node->completed = false\<close>\<close>
  | K_swap     \<comment> \<open>\<^verbatim>\<open>cur = SWAP(&Tail, next_node)\<close>\<close>
  | K_arg      \<comment> \<open>\<^verbatim>\<open>cur->arg_ret = arg\<close>\<close>
  | K_pid      \<comment> \<open>\<^verbatim>\<open>cur->pid = pid\<close>\<close>
  | K_link     \<comment> \<open>\<^verbatim>\<open>cur->next = next_node; st_thread->next = cur\<close>\<close>
  | K_spin     \<comment> \<open>\<^verbatim>\<open>while (cur->locked)\<close>\<close>
  | K_check    \<comment> \<open>\<^verbatim>\<open>if (cur->completed)\<close>\<close>
  | K_helped   \<comment> \<open>\<^verbatim>\<open>return cur->arg_ret\<close>, line 33\<close>
  | K_loop     \<comment> \<open>\<^verbatim>\<open>while (p->next != NULL && counter < help_bound)\<close>\<close>
  | K_tmp      \<comment> \<open>\<^verbatim>\<open>tmp_next = p->next\<close>\<close>
  | K_apply    \<comment> \<open>\<^verbatim>\<open>p->arg_ret = sfunc(state, p->arg_ret, p->pid)\<close>\<close>
  | K_done     \<comment> \<open>\<^verbatim>\<open>p->completed = true\<close>\<close>
  | K_unlock   \<comment> \<open>\<^verbatim>\<open>p->locked = false; p = tmp_next\<close>\<close>
  | K_end      \<comment> \<open>\<^verbatim>\<open>p->locked = false\<close>, line 53\<close>
  | K_return   \<comment> \<open>\<^verbatim>\<open>return cur->arg_ret\<close>, line 56\<close>
  | K_fault

record ('x, 'r) CCSynchNode =
  nxt :: "nat \<Rightarrow> ptr"
  arg_ret :: "nat \<Rightarrow> ('x, 'r) slot"
  npid :: "nat \<Rightarrow> tid"
  locked :: "nat \<Rightarrow> bool"
  completed :: "nat \<Rightarrow> bool"

record ('x, 'r, 's) CCSynchStruct = "('x, 'r) CCSynchNode" +
  nthreads :: nat
  Tail :: nat
  obj :: 's
  \<comment> \<open>per thread: \<^verbatim>\<open>st_thread->next\<close> and the local variables\<close>
  mynext :: "tid \<Rightarrow> nat"
  next_node :: "tid \<Rightarrow> nat"
  cur :: "tid \<Rightarrow> nat"
  wp :: "tid \<Rightarrow> nat"
  tmp_next :: "tid \<Rightarrow> nat"
  counter :: "tid \<Rightarrow> nat"
  arg :: "tid \<Rightarrow> 'x"
  pc :: "tid \<Rightarrow> cc_pc"
  arr :: "tid list"

definition CCSYNCH_HELP_FACTOR :: nat where "CCSYNCH_HELP_FACTOR = 10"

text \<open>\<open>x0\<close> is whatever the argument fields hold before they are first written.\<close>

definition CCSynchStructInit :: "nat \<Rightarrow> 'x \<Rightarrow> 's \<Rightarrow> ('x, 'r, 's) CCSynchStruct" where
  "CCSynchStructInit n x0 s0 = \<lparr>nxt = (\<lambda>_. None), arg_ret = (\<lambda>_. Arg x0), npid = (\<lambda>_. 0),
     locked = (\<lambda>_. False), completed = (\<lambda>_. False), nthreads = n, Tail = n, obj = s0,
     mynext = (\<lambda>p. p), next_node = (\<lambda>_. 0), cur = (\<lambda>_. 0), wp = (\<lambda>_. 0), tmp_next = (\<lambda>_. 0),
     counter = (\<lambda>_. 0), arg = (\<lambda>_. x0), pc = (\<lambda>_. K_out), arr = []\<rparr>"

abbreviation goto :: "tid \<Rightarrow> cc_pc \<Rightarrow> ('x, 'r, 's) CCSynchStruct \<Rightarrow> ('x, 'r, 's) CCSynchStruct" where
  "goto p c l \<equiv> l\<lparr>pc := (pc l)(p := c)\<rparr>"

fun CCSynchApplyOp :: "('x, 'r, 's) sfunc \<Rightarrow> tid \<Rightarrow> ('x, 'r, 's) CCSynchStruct \<Rightarrow> ('x, 'r, 's) CCSynchStruct" where
  "CCSynchApplyOp sfunc pid l =
     (case pc l pid of
        K_next \<Rightarrow> goto pid K_lock (l\<lparr>next_node := (next_node l)(pid := mynext l pid), nxt := (nxt l)(mynext l pid := None)\<rparr>)
      | K_lock \<Rightarrow> goto pid K_compl (l\<lparr>locked := (locked l)(next_node l pid := True)\<rparr>)
      | K_compl \<Rightarrow> goto pid K_swap (l\<lparr>completed := (completed l)(next_node l pid := False)\<rparr>)
      | K_swap \<Rightarrow> goto pid K_arg (l\<lparr>cur := (cur l)(pid := Tail l), Tail := next_node l pid, arr := arr l @ [pid]\<rparr>)
      | K_arg \<Rightarrow> goto pid K_pid (l\<lparr>arg_ret := (arg_ret l)(cur l pid := Arg (arg l pid))\<rparr>)
      | K_pid \<Rightarrow> goto pid K_link (l\<lparr>npid := (npid l)(cur l pid := pid)\<rparr>)
      | K_link \<Rightarrow> goto pid K_spin (l\<lparr>nxt := (nxt l)(cur l pid := Some (next_node l pid)),
                                   mynext := (mynext l)(pid := cur l pid)\<rparr>)
      | K_spin \<Rightarrow> if locked l (cur l pid) then l else goto pid K_check l
      | K_check \<Rightarrow> if completed l (cur l pid) then goto pid K_helped l
                   else goto pid K_loop (l\<lparr>wp := (wp l)(pid := cur l pid), counter := (counter l)(pid := 0)\<rparr>)
      | K_loop \<Rightarrow> if nxt l (wp l pid) \<noteq> None \<and> counter l pid < CCSYNCH_HELP_FACTOR * nthreads l
                  then goto pid K_tmp (l\<lparr>counter := (counter l)(pid := counter l pid + 1)\<rparr>)
                  else goto pid K_end l
      | K_tmp \<Rightarrow> (case nxt l (wp l pid) of
                    None \<Rightarrow> goto pid K_fault l
                  | Some m \<Rightarrow> goto pid K_apply (l\<lparr>tmp_next := (tmp_next l)(pid := m)\<rparr>))
      | K_apply \<Rightarrow> (case arg_ret l (wp l pid) of
                      Res r \<Rightarrow> goto pid K_fault l
                    | Arg x \<Rightarrow> (let (r, s) = sfunc (npid l (wp l pid)) x (obj l)
                               in goto pid K_done (l\<lparr>obj := s, arg_ret := (arg_ret l)(wp l pid := Res r)\<rparr>)))
      | K_done \<Rightarrow> goto pid K_unlock (l\<lparr>completed := (completed l)(wp l pid := True)\<rparr>)
      | K_unlock \<Rightarrow> goto pid K_loop (l\<lparr>locked := (locked l)(wp l pid := False),
                                     wp := (wp l)(pid := tmp_next l pid), arr := tl (arr l)\<rparr>)
      | K_end \<Rightarrow> goto pid K_return (l\<lparr>locked := (locked l)(wp l pid := False)\<rparr>)
      | K_helped \<Rightarrow> (case arg_ret l (cur l pid) of Arg x \<Rightarrow> goto pid K_fault l | Res r \<Rightarrow> goto pid K_out l)
      | K_return \<Rightarrow> (case arg_ret l (cur l pid) of Arg x \<Rightarrow> goto pid K_fault l | Res r \<Rightarrow> goto pid K_out l)
      | _ \<Rightarrow> l)"

datatype 'x cc_act = Invoke tid 'x | Step tid

fun cc_ok :: "nat \<Rightarrow> ('x, 'r, 's) CCSynchStruct \<Rightarrow> 'x cc_act \<Rightarrow> bool" where
  "cc_ok n l (Invoke p x) \<longleftrightarrow> p < n \<and> pc l p = K_out"
| "cc_ok n l (Step p) \<longleftrightarrow> p < n \<and> pc l p \<notin> {K_out, K_fault}"

fun cc_exec :: "('x, 'r, 's) sfunc \<Rightarrow> 'x cc_act \<Rightarrow> ('x, 'r, 's) CCSynchStruct \<Rightarrow> ('x, 'r, 's) CCSynchStruct" where
  "cc_exec sfunc (Invoke p x) l = goto p K_next (l\<lparr>arg := (arg l)(p := x)\<rparr>)"
| "cc_exec sfunc (Step p) l = CCSynchApplyOp sfunc p l"

fun cc_obs :: "'x cc_act \<Rightarrow> ('x, 'r, 's) CCSynchStruct \<Rightarrow> ('x, 'r) event list" where
  "cc_obs (Invoke p x) l = [Call p x]"
| "cc_obs (Step p) l =
     (if pc l p \<in> {K_helped, K_return}
      then (case arg_ret l (cur l p) of Res r \<Rightarrow> [Ret p r] | Arg x \<Rightarrow> []) else [])"

section \<open>Abstraction\<close>

fun slot_status :: "('x, 'r) slot \<Rightarrow> ('x, 'r) status" where
  "slot_status (Arg x) = Pend x"
| "slot_status (Res r) = Done r"

definition cc_status :: "('x, 'r, 's) CCSynchStruct \<Rightarrow> tid \<Rightarrow> ('x, 'r) status" where
  "cc_status l p =
     (if pc l p = K_out then Idle
      else if pc l p \<in> {K_next, K_lock, K_compl, K_swap, K_arg} then Pend (arg l p)
      else slot_status (arg_ret l (cur l p)))"

definition cc_abs :: "('x, 'r, 's) CCSynchStruct \<Rightarrow> ('x, 'r, 's) config" where
  "cc_abs l = (obj l, cc_status l)"

section \<open>Invariant\<close>

fun early :: "cc_pc \<Rightarrow> bool" where
  "early K_out = True"
| "early K_next = True"
| "early K_lock = True"
| "early K_compl = True"
| "early K_swap = True"
| "early _ = False"

fun filing :: "cc_pc \<Rightarrow> bool" where
  "filing K_arg = True"
| "filing K_pid = True"
| "filing K_link = True"
| "filing _ = False"

fun combining :: "cc_pc \<Rightarrow> bool" where
  "combining K_loop = True"
| "combining K_tmp = True"
| "combining K_apply = True"
| "combining K_done = True"
| "combining K_unlock = True"
| "combining K_end = True"
| "combining _ = False"

text \<open>The node that belongs to a thread: its spare node, or the one its request is in.\<close>

definition own :: "('x, 'r, 's) CCSynchStruct \<Rightarrow> tid \<Rightarrow> nat" where
  "own l p = (if early (pc l p) then mynext l p else cur l p)"

text \<open>The requests in order: the first sits in node \<open>d\<close>, each next one in the node its predecessor
  left on \<^verbatim>\<open>Tail\<close>.\<close>

fun chain :: "('x, 'r, 's) CCSynchStruct \<Rightarrow> nat \<Rightarrow> tid list \<Rightarrow> nat \<Rightarrow> bool" where
  "chain l d [] t \<longleftrightarrow> t = d"
| "chain l d (p # ps) t \<longleftrightarrow> cur l p = d \<and> chain l (next_node l p) ps t"

text \<open>A thread whose request is waiting; \<open>served\<close>: its request has been applied but its node is
  not yet unlocked.\<close>

definition waiting_ok :: "('x, 'r, 's) CCSynchStruct \<Rightarrow> tid \<Rightarrow> bool" where
  "waiting_ok l p \<longleftrightarrow> (filing (pc l p) \<or> pc l p \<in> {K_spin, K_check} \<or> combining (pc l p) \<and> pc l p \<noteq> K_end)
     \<and> nxt l (cur l p) = (if filing (pc l p) then None else Some (next_node l p))
     \<and> (pc l p \<noteq> K_arg \<longrightarrow> (\<forall>x. arg_ret l (cur l p) = Arg x \<longrightarrow> x = arg l p))
     \<and> (pc l p \<notin> {K_arg, K_pid} \<longrightarrow> npid l (cur l p) = p)
     \<and> (\<not> filing (pc l p) \<longrightarrow> mynext l p = cur l p)"

definition resting_ok :: "('x, 'r, 's) CCSynchStruct \<Rightarrow> tid \<Rightarrow> bool" where
  "resting_ok l p \<longleftrightarrow>
     (if early (pc l p)
      then (pc l p \<in> {K_lock, K_compl, K_swap} \<longrightarrow> next_node l p = mynext l p \<and> nxt l (mynext l p) = None)
         \<and> (pc l p \<in> {K_compl, K_swap} \<longrightarrow> locked l (mynext l p))
         \<and> (pc l p = K_swap \<longrightarrow> \<not> completed l (mynext l p))
      else \<not> filing (pc l p) \<and> pc l p \<noteq> K_fault \<and> mynext l p = cur l p
         \<and> completed l (cur l p) \<and> \<not> locked l (cur l p) \<and> (\<exists>r. arg_ret l (cur l p) = Res r))"

text \<open>The combiner works on the first request.\<close>

definition combiner_ok :: "('x, 'r, 's) CCSynchStruct \<Rightarrow> nat \<Rightarrow> tid \<Rightarrow> bool" where
  "combiner_ok l d c \<longleftrightarrow> wp l c = d
     \<and> (c \<in> set (arr l) \<longrightarrow> hd (arr l) = c \<and> (pc l c = K_loop \<longrightarrow> counter l c = 0))
     \<and> (pc l c \<in> {K_tmp, K_apply, K_done, K_unlock} \<longrightarrow> arr l \<noteq> [] \<and> \<not> filing (pc l (hd (arr l))))
     \<and> (pc l c \<in> {K_apply, K_done, K_unlock} \<longrightarrow> tmp_next l c = next_node l (hd (arr l)))"

text \<open>Whether the first request has been applied, or marked as completed, by the combiner.\<close>

definition applied :: "('x, 'r, 's) CCSynchStruct \<Rightarrow> bool" where
  "applied l \<longleftrightarrow> (\<exists>c. pc l c \<in> {K_done, K_unlock})"

definition marked :: "('x, 'r, 's) CCSynchStruct \<Rightarrow> bool" where
  "marked l \<longleftrightarrow> (\<exists>c. pc l c = K_unlock)"

definition cc_inv_at :: "tid set \<Rightarrow> nat \<Rightarrow> ('x, 'r, 's) CCSynchStruct \<Rightarrow> bool" where
  "cc_inv_at P d l \<longleftrightarrow> (P \<noteq> {} \<longrightarrow> 0 < nthreads l) \<and> distinct (arr l) \<and> (\<forall>p. pc l p \<noteq> K_out \<longrightarrow> p \<in> P)
   \<and> inj_on (own l) P \<and> Tail l \<notin> own l ` P \<and> chain l d (arr l) (Tail l)
   \<and> (\<forall>p. p \<in> set (arr l) \<longrightarrow> waiting_ok l p) \<and> (\<forall>p. p \<notin> set (arr l) \<longrightarrow> resting_ok l p)
   \<and> nxt l (Tail l) = None \<and> \<not> completed l (Tail l)
   \<and> (arr l \<noteq> [] \<longrightarrow> locked l (Tail l)) \<and> (\<forall>p \<in> set (tl (arr l)). locked l (cur l p))
   \<and> (\<forall>p \<in> set (arr l). pc l p \<noteq> K_arg \<longrightarrow>
        ((\<exists>r. arg_ret l (cur l p) = Res r) \<longleftrightarrow> p = hd (arr l) \<and> applied l))
   \<and> (\<forall>p \<in> set (arr l). completed l (cur l p) \<longleftrightarrow> p = hd (arr l) \<and> marked l)
   \<and> (\<forall>c. combining (pc l c) \<longrightarrow> combiner_ok l d c)
   \<and> (\<forall>c c'. combining (pc l c) \<and> combining (pc l c') \<longrightarrow> c = c')
   \<and> (locked l d \<longleftrightarrow> (\<exists>c. combining (pc l c) \<and> c \<notin> set (arr l)))
   \<and> (\<forall>p \<in> set (arr l). pc l p = K_check \<longrightarrow> p = hd (arr l) \<and> (\<forall>c. \<not> combining (pc l c)))"

definition cc_inv :: "nat \<Rightarrow> ('x, 'r, 's) CCSynchStruct \<Rightarrow> bool" where
  "cc_inv n l \<longleftrightarrow> (\<exists>d. cc_inv_at {..<n} d l)"

lemma cc_invD:
  assumes "cc_inv_at P d l"
  shows "P \<noteq> {} \<longrightarrow> 0 < nthreads l" "distinct (arr l)" "\<And>p. pc l p \<noteq> K_out \<Longrightarrow> p \<in> P"
   "inj_on (own l) P" "Tail l \<notin> own l ` P" "chain l d (arr l) (Tail l)"
   "\<And>p. p \<in> set (arr l) \<Longrightarrow> waiting_ok l p" "\<And>p. p \<notin> set (arr l) \<Longrightarrow> resting_ok l p"
   "nxt l (Tail l) = None" "\<not> completed l (Tail l)"
   "arr l \<noteq> [] \<Longrightarrow> locked l (Tail l)" "\<And>p. p \<in> set (tl (arr l)) \<Longrightarrow> locked l (cur l p)"
   "\<And>p. p \<in> set (arr l) \<Longrightarrow> pc l p \<noteq> K_arg \<Longrightarrow>
        (\<exists>r. arg_ret l (cur l p) = Res r) \<longleftrightarrow> p = hd (arr l) \<and> applied l"
   "\<And>p. p \<in> set (arr l) \<Longrightarrow> completed l (cur l p) \<longleftrightarrow> p = hd (arr l) \<and> marked l"
   "\<And>c. combining (pc l c) \<Longrightarrow> combiner_ok l d c"
   "\<And>c c'. combining (pc l c) \<Longrightarrow> combining (pc l c') \<Longrightarrow> c = c'"
   "locked l d \<longleftrightarrow> (\<exists>c. combining (pc l c) \<and> c \<notin> set (arr l))"
   "\<And>p. p \<in> set (arr l) \<Longrightarrow> pc l p = K_check \<Longrightarrow> p = hd (arr l) \<and> (\<forall>c. \<not> combining (pc l c))"
  using assms unfolding cc_inv_at_def by (elim conjE; simp; fail | elim conjE; blast)+

lemma cc_invI:
  assumes "P \<noteq> {} \<longrightarrow> 0 < nthreads l" "distinct (arr l)" "\<And>p. pc l p \<noteq> K_out \<Longrightarrow> p \<in> P"
   "inj_on (own l) P" "Tail l \<notin> own l ` P" "chain l d (arr l) (Tail l)"
   "\<And>p. p \<in> set (arr l) \<Longrightarrow> waiting_ok l p" "\<And>p. p \<notin> set (arr l) \<Longrightarrow> resting_ok l p"
   "nxt l (Tail l) = None" "\<not> completed l (Tail l)"
   "arr l \<noteq> [] \<Longrightarrow> locked l (Tail l)" "\<And>p. p \<in> set (tl (arr l)) \<Longrightarrow> locked l (cur l p)"
   "\<And>p. p \<in> set (arr l) \<Longrightarrow> pc l p \<noteq> K_arg \<Longrightarrow>
        (\<exists>r. arg_ret l (cur l p) = Res r) \<longleftrightarrow> p = hd (arr l) \<and> applied l"
   "\<And>p. p \<in> set (arr l) \<Longrightarrow> completed l (cur l p) \<longleftrightarrow> p = hd (arr l) \<and> marked l"
   "\<And>c. combining (pc l c) \<Longrightarrow> combiner_ok l d c"
   "\<And>c c'. combining (pc l c) \<Longrightarrow> combining (pc l c') \<Longrightarrow> c = c'"
   "locked l d \<longleftrightarrow> (\<exists>c. combining (pc l c) \<and> c \<notin> set (arr l))"
   "\<And>p. p \<in> set (arr l) \<Longrightarrow> pc l p = K_check \<Longrightarrow> p = hd (arr l) \<and> (\<forall>c. \<not> combining (pc l c))"
  shows "cc_inv_at P d l"
  unfolding cc_inv_at_def using assms by (intro conjI allI impI ballI; (elim conjE)?; simp)

lemma waiting_pc: "waiting_ok l p \<Longrightarrow> \<not> early (pc l p) \<and> pc l p \<notin> {K_helped, K_return, K_end, K_fault}"
  by (cases "pc l p") (simp_all add: waiting_ok_def)

lemma resting_pc: "resting_ok l p \<Longrightarrow> \<not> filing (pc l p) \<and> pc l p \<noteq> K_fault"
  by (cases "pc l p") (simp_all add: resting_ok_def)

lemma cc_chain_append: "chain l d (ps @ [p]) t \<longleftrightarrow> (\<exists>m. chain l d ps m \<and> cur l p = m \<and> t = next_node l p)"
  by (induction ps arbitrary: d) auto

lemma cc_chain_cong:
  "\<lbrakk>\<And>p. p \<in> set ps \<Longrightarrow> cur l' p = cur l p \<and> next_node l' p = next_node l p\<rbrakk> \<Longrightarrow> chain l' d ps t = chain l d ps t"
  by (induction ps arbitrary: d) auto

lemma cc_chain_hd: "chain l d (p # ps) t \<Longrightarrow> cur l p = d"
  by simp

lemma cc_chain_next:
  "\<lbrakk>chain l d ps t; p \<in> set ps\<rbrakk> \<Longrightarrow> next_node l p = t \<or> (\<exists>q \<in> set (tl ps). next_node l p = cur l q)"
proof (induction ps arbitrary: d)
  case (Cons a ps)
  show ?case
  proof (cases "p = a")
    case True
    then show ?thesis using Cons.prems(1) by (cases ps) auto
  next
    case False
    with Cons have "next_node l p = t \<or> (\<exists>q \<in> set (tl ps). next_node l p = cur l q)" by auto
    then show ?thesis by (cases ps) auto
  qed
qed simp

lemma own_waiting: "waiting_ok l p \<Longrightarrow> own l p = cur l p"
  using waiting_pc by (auto simp: own_def)

text \<open>A step of thread \<open>p\<close> that touches no node but its own and changes no other thread's
  variables.\<close>

definition touches_own :: "('x, 'r, 's) CCSynchStruct \<Rightarrow> ('x, 'r, 's) CCSynchStruct \<Rightarrow> tid \<Rightarrow> bool" where
  "touches_own l l' p \<longleftrightarrow> nthreads l' = nthreads l \<and> arr l' = arr l \<and> Tail l' = Tail l \<and> own l' p = own l p
     \<and> (\<forall>q. q \<noteq> p \<longrightarrow> pc l' q = pc l q \<and> cur l' q = cur l q \<and> next_node l' q = next_node l q \<and> mynext l' q = mynext l q
           \<and> arg l' q = arg l q \<and> wp l' q = wp l q \<and> tmp_next l' q = tmp_next l q \<and> counter l' q = counter l q)
     \<and> (\<forall>y. y \<noteq> own l p \<longrightarrow> nxt l' y = nxt l y \<and> arg_ret l' y = arg_ret l y \<and> npid l' y = npid l y
           \<and> locked l' y = locked l y \<and> completed l' y = completed l y)"

lemma waiting_cong:
  assumes "pc l' q = pc l q" "cur l' q = cur l q" "next_node l' q = next_node l q" "mynext l' q = mynext l q"
    "arg l' q = arg l q" "nxt l' (cur l q) = nxt l (cur l q)" "arg_ret l' (cur l q) = arg_ret l (cur l q)"
    "npid l' (cur l q) = npid l (cur l q)"
  shows "waiting_ok l' q = waiting_ok l q"
  using assms by (simp add: waiting_ok_def)

lemma resting_cong:
  assumes "pc l' q = pc l q" "cur l' q = cur l q" "next_node l' q = next_node l q" "mynext l' q = mynext l q"
    "nxt l' (own l q) = nxt l (own l q)" "arg_ret l' (own l q) = arg_ret l (own l q)"
    "locked l' (own l q) = locked l (own l q)" "completed l' (own l q) = completed l (own l q)"
  shows "resting_ok l' q = resting_ok l q"
  using assms by (cases "early (pc l q)") (simp_all add: resting_ok_def own_def)

lemma own_neq: "\<lbrakk>cc_inv_at P d l; p \<in> P; q \<in> P; p \<noteq> q\<rbrakk> \<Longrightarrow> own l p \<noteq> own l q"
  using cc_invD(4) by (metis inj_onD)

lemma resting_out: "resting_ok l q \<Longrightarrow> q \<notin> P \<Longrightarrow> (\<And>p. pc l p \<noteq> K_out \<Longrightarrow> p \<in> P) \<Longrightarrow> pc l q = K_out"
  by (meson leD)

lemma cc_chain_start: "chain l d ps t \<Longrightarrow> d = (if ps = [] then t else cur l (hd ps))"
  by (cases ps) auto

lemma waiting_lt: "cc_inv_at P d l \<Longrightarrow> p \<in> set (arr l) \<Longrightarrow> p \<in> P"
  using cc_invD(3,7) waiting_pc by (metis early.simps(1))

lemma cur_neq:
  assumes inv: "cc_inv_at P d l" and "p \<in> set (arr l)" and "q \<in> P" and "q \<noteq> p"
  shows "cur l p \<noteq> own l q" and "cur l p \<noteq> Tail l"
proof -
  have "own l p = cur l p" using cc_invD(7) [OF inv assms(2)] by (rule own_waiting)
  with own_neq [OF inv waiting_lt [OF inv assms(2)] assms(3)] assms(4) show "cur l p \<noteq> own l q" by auto
  show "cur l p \<noteq> Tail l"
    using cc_invD(5) [OF inv] waiting_lt [OF inv assms(2)] \<open>own l p = cur l p\<close> by (metis image_eqI)
qed

lemma own_neq_Tail: "cc_inv_at P d l \<Longrightarrow> p \<in> P \<Longrightarrow> own l p \<noteq> Tail l"
  using cc_invD(5) by (metis image_eqI)

lemma first_node_neq:
  assumes inv: "cc_inv_at P d l" and "q \<in> P" and "arr l = [] \<or> q \<noteq> hd (arr l)"
  shows "d \<noteq> own l q"
proof (cases "arr l = []")
  case True
  with cc_chain_start [OF cc_invD(6) [OF inv]] own_neq_Tail [OF inv assms(2)] show ?thesis by simp
next
  case False
  then have "hd (arr l) \<in> set (arr l)" by simp
  from cur_neq(1) [OF inv this assms(2)] assms(3) False cc_chain_start [OF cc_invD(6) [OF inv]] show ?thesis by simp
qed

lemma cc_inv_local:
  assumes inv: "cc_inv_at P d l" and pn: "p \<in> P" and t: "touches_own l l' p"
    and comb: "combining (pc l' p) = combining (pc l p)"
    and ap: "applied l' = applied l" "marked l' = marked l"
    and wt: "p \<in> set (arr l) \<Longrightarrow> cur l' p = cur l p \<and> next_node l' p = next_node l p \<and> waiting_ok l' p
        \<and> locked l' (cur l p) = locked l (cur l p)
        \<and> (pc l' p \<noteq> K_arg \<longrightarrow> ((\<exists>r. arg_ret l' (cur l p) = Res r) \<longleftrightarrow> p = hd (arr l) \<and> applied l))
        \<and> (completed l' (cur l p) \<longleftrightarrow> p = hd (arr l) \<and> marked l)
        \<and> (pc l' p = K_check \<longrightarrow> p = hd (arr l) \<and> (\<forall>c. \<not> combining (pc l c)))
        \<and> (filing (pc l' p) \<longrightarrow> filing (pc l p))"
    and rs: "p \<notin> set (arr l) \<Longrightarrow> resting_ok l' p"
    and cb: "combining (pc l' p) \<Longrightarrow> combiner_ok l' d p"
  shows "cc_inv_at P d l'"
proof -
  note i = cc_invD [OF inv]
  have same: "nthreads l' = nthreads l" "arr l' = arr l" "Tail l' = Tail l" "own l' p = own l p"
    and others: "\<And>q. q \<noteq> p \<Longrightarrow> pc l' q = pc l q \<and> cur l' q = cur l q \<and> next_node l' q = next_node l q
           \<and> mynext l' q = mynext l q \<and> arg l' q = arg l q \<and> wp l' q = wp l q \<and> tmp_next l' q = tmp_next l q
           \<and> counter l' q = counter l q"
    and nodes: "\<And>y. y \<noteq> own l p \<Longrightarrow> nxt l' y = nxt l y \<and> arg_ret l' y = arg_ret l y \<and> npid l' y = npid l y
           \<and> locked l' y = locked l y \<and> completed l' y = completed l y"
    using t unfolding touches_own_def by blast+
  have own': "own l' = own l"
  proof
    show "own l' q = own l q" for q
      by (cases "q = p") (use same(4) others [of q] in \<open>simp_all add: own_def\<close>)
  qed
  have comb': "combining (pc l' c) = combining (pc l c)" for c using others [of c] comb by (cases "c = p") auto
  have out: "pc l q = K_out" if "q \<notin> P" for q using i(3) that by (meson leD)
  have wother: "waiting_ok l' q" if "q \<in> set (arr l)" "q \<noteq> p" for q
    using i(7) [OF that(1)] others [OF that(2)] nodes [OF cur_neq(1) [OF inv that(1) pn that(2)[symmetric]]]
    by (subst waiting_cong) auto
  have rother: "resting_ok l' q" if "q \<notin> set (arr l)" "q \<noteq> p" for q
  proof (cases "q \<in> P")
    case True
    with that pn inv have "own l q \<noteq> own l p" by (intro own_neq)
    with i(8) [OF that(1)] others [OF that(2)] nodes show ?thesis by (subst resting_cong) auto
  next
    case False
    then have "pc l' q = K_out" using out others [OF that(2)] by simp
    then show ?thesis by (simp add: resting_ok_def)
  qed
  have tail: "Tail l \<noteq> own l p" using own_neq_Tail [OF inv pn] by simp
  have ld: "locked l' d = locked l d"
  proof (cases "arr l \<noteq> [] \<and> p = hd (arr l)")
    case True
    then have "p \<in> set (arr l)" by auto
    moreover have "d = cur l p" using cc_chain_start [OF i(6)] True by simp
    ultimately show ?thesis using wt by blast
  next
    case False
    then have "d \<noteq> own l p" by (intro first_node_neq [OF inv pn]) auto
    then show ?thesis using nodes by simp
  qed
  have waiting': "q \<in> set (arr l) \<Longrightarrow> cur l' q = cur l q \<and> next_node l' q = next_node l q \<and> waiting_ok l' q
        \<and> locked l' (cur l q) = locked l (cur l q)
        \<and> (pc l' q \<noteq> K_arg \<longrightarrow> ((\<exists>r. arg_ret l' (cur l q) = Res r) \<longleftrightarrow> q = hd (arr l) \<and> applied l))
        \<and> (completed l' (cur l q) \<longleftrightarrow> q = hd (arr l) \<and> marked l)
        \<and> (pc l' q = K_check \<longrightarrow> q = hd (arr l) \<and> (\<forall>c. \<not> combining (pc l c)))
        \<and> (filing (pc l' q) \<longrightarrow> filing (pc l q))" for q
  proof (cases "q = p")
    case False
    assume q: "q \<in> set (arr l)"
    from nodes [OF cur_neq(1) [OF inv q pn False [symmetric]]] others [OF False] wother [OF q False] i(13,14,18) [OF q]
    show ?thesis by simp
  qed (use wt in simp)
  have cb': "combiner_ok l' d c" if "combining (pc l' c)" for c
  proof (cases "c = p")
    case False
    have "combiner_ok l d c" using that comb' i(15) by blast
    moreover have "filing (pc l' (hd (arr l))) \<longrightarrow> filing (pc l (hd (arr l)))" 
      "next_node l' (hd (arr l)) = next_node l (hd (arr l))" if "arr l \<noteq> []"
      using waiting' [of "hd (arr l)"] that by auto
    ultimately show ?thesis using others [OF False] same(2) unfolding combiner_ok_def by auto
  qed (use cb that in simp)
  have ch: "chain l' d (arr l) (Tail l)" using i(6) waiting' by (subst cc_chain_cong [of _ _ l]) auto
  have sub: "q \<in> set (tl (arr l)) \<Longrightarrow> q \<in> set (arr l)" for q by (cases "arr l") auto
  have pout: "pc l' q \<noteq> K_out \<Longrightarrow> q \<in> P" for q using others [of q] i(3) pn by (cases "q = p") auto
  show ?thesis
  proof (rule cc_invI; (unfold same own' ap comb')?)
    show "P \<noteq> {} \<longrightarrow> 0 < nthreads l" "distinct (arr l)" "inj_on (own l) P" "Tail l \<notin> own l ` P"
      by (rule i)+
    show "chain l' d (arr l) (Tail l)" by (rule ch)
    show "nxt l' (Tail l) = None" "\<not> completed l' (Tail l)" using nodes [OF tail] i(9,10) by simp_all
    show "arr l \<noteq> [] \<Longrightarrow> locked l' (Tail l)" using nodes [OF tail] i(11) by simp
    show "locked l' d \<longleftrightarrow> (\<exists>c. combining (pc l c) \<and> c \<notin> set (arr l))" using ld i(17) by simp
    show "pc l' q \<noteq> K_out \<Longrightarrow> q \<in> P" for q by (rule pout)
    show "combining (pc l c) \<Longrightarrow> combiner_ok l' d c" for c using cb' comb' by blast
    show "combining (pc l c) \<Longrightarrow> combining (pc l c') \<Longrightarrow> c = c'" for c c' by (rule i(16))
    show "q \<in> set (arr l) \<Longrightarrow> waiting_ok l' q" for q using waiting' by blast
    show "q \<notin> set (arr l) \<Longrightarrow> resting_ok l' q" for q using rother rs by (cases "q = p") auto
    show "q \<in> set (tl (arr l)) \<Longrightarrow> locked l' (cur l' q)" for q
      using waiting' [OF sub, of q] i(12) [of q] by simp
    show "q \<in> set (arr l) \<Longrightarrow> pc l' q \<noteq> K_arg \<Longrightarrow>
        (\<exists>r. arg_ret l' (cur l' q) = Res r) \<longleftrightarrow> q = hd (arr l) \<and> applied l" for q
      using waiting' [of q] by simp
    show "q \<in> set (arr l) \<Longrightarrow> completed l' (cur l' q) \<longleftrightarrow> q = hd (arr l) \<and> marked l" for q
      using waiting' [of q] by simp
    show "q \<in> set (arr l) \<Longrightarrow> pc l' q = K_check \<Longrightarrow> q = hd (arr l) \<and> (\<forall>c. \<not> combining (pc l c))" for q
      using waiting' [of q] by simp
  qed
qed

lemma applied_same:
  assumes "\<And>q. q \<noteq> p \<Longrightarrow> pc l' q = pc l q" and "pc l p \<notin> {K_done, K_unlock}" and "pc l' p \<notin> {K_done, K_unlock}"
  shows "applied l' = applied l" and "marked l' = marked l"
  using assms unfolding applied_def marked_def by (metis insertCI)+

text \<open>The steps that prepare the spare node, and those of a helped thread.\<close>

lemma cc_inv_invoke:
  assumes inv: "cc_inv_at P d l" and "p \<in> P" and pcl: "pc l p = K_out"
  shows "cc_inv_at P d (cc_exec f (Invoke p x) l)"
proof -
  have na: "p \<notin> set (arr l)" using cc_invD(7) [OF inv] waiting_pc pcl by fastforce
  let ?l = "cc_exec f (Invoke p x) l"
  have "applied ?l = applied l" "marked ?l = marked l" by (rule applied_same [of p]; simp add: pcl)+
  then show ?thesis using na assms(2) pcl
    by (intro cc_inv_local [OF inv assms(2)]) (auto simp: touches_own_def own_def resting_ok_def)
qed

lemma cc_inv_prepare:
  assumes inv: "cc_inv_at P d l" and pcl: "pc l p \<in> {K_next, K_lock, K_compl}"
  shows "cc_inv_at P d (CCSynchApplyOp f p l)"
proof -
  have pn: "p \<in> P" using cc_invD(3) [OF inv, of p] pcl by auto
  have na: "p \<notin> set (arr l)" using cc_invD(7) [OF inv, of p] waiting_pc pcl by fastforce
  let ?l = "CCSynchApplyOp f p l"
  have ap: "applied ?l = applied l" "marked ?l = marked l" using pcl by (intro applied_same [of p]; auto)+
  from pcl consider "pc l p = K_next" | "pc l p = K_lock" | "pc l p = K_compl" by blast
  then show ?thesis using na pn ap cc_invD(8) [OF inv na]
    by cases (intro cc_inv_local [OF inv pn]; auto simp: touches_own_def own_def resting_ok_def; fail)+
qed

lemma cc_inv_file:
  assumes inv: "cc_inv_at P d l" and pcl: "pc l p \<in> {K_arg, K_pid, K_link}"
  shows "cc_inv_at P d (CCSynchApplyOp f p l)"
proof -
  have pn: "p \<in> P" using cc_invD(3) [OF inv, of p] pcl by auto
  have a: "p \<in> set (arr l)" using cc_invD(8) [OF inv, of p] resting_pc pcl by fastforce
  let ?l = "CCSynchApplyOp f p l"
  have ap: "applied ?l = applied l" "marked ?l = marked l" using pcl by (intro applied_same [of p]; auto)+
  have w: "waiting_ok l p" by (rule cc_invD(7) [OF inv a])
  have nf: "p = hd (arr l) \<longrightarrow> \<not> applied l"
  proof
    assume h: "p = hd (arr l)"
    show "\<not> applied l"
    proof
      assume "applied l"
      then obtain c where "pc l c \<in> {K_done, K_unlock}" unfolding applied_def by blast
      with cc_invD(15) [OF inv, of c] h pcl show False by (auto simp: combiner_ok_def)
    qed
  qed
  have m: "marked l \<longrightarrow> applied l" by (auto simp: marked_def applied_def)
  from pcl consider "pc l p = K_arg" | "pc l p = K_pid" | "pc l p = K_link" by blast
  then show ?thesis using a pn w ap nf m cc_invD(13,14) [OF inv a]
    by cases (intro cc_inv_local [OF inv pn]; auto simp: touches_own_def own_def waiting_ok_def; fail)+
qed

lemma cc_inv_spin:
  assumes inv: "cc_inv_at P d l" and pcl: "pc l p = K_spin"
  shows "cc_inv_at P d (CCSynchApplyOp f p l)"
proof (cases "locked l (cur l p)")
  case True
  with pcl inv show ?thesis by simp
next
  case False
  have pn: "p \<in> P" using cc_invD(3) [OF inv, of p] pcl by auto
  let ?l = "CCSynchApplyOp f p l"
  have ap: "applied ?l = applied l" "marked ?l = marked l" using pcl by (intro applied_same [of p]; auto)+
  have first: "p = hd (arr l) \<and> (\<forall>c. \<not> combining (pc l c))" if a: "p \<in> set (arr l)"
  proof
    have ntl: "p \<notin> set (tl (arr l))" using cc_invD(12) [OF inv, of p] False by blast
    with a show h: "p = hd (arr l)" by (cases "arr l") auto
    with a have "cur l p = d" using cc_chain_start [OF cc_invD(6) [OF inv]] by auto
    with False cc_invD(17) [OF inv] have "combining (pc l c) \<Longrightarrow> c \<in> set (arr l)" for c by blast
    moreover have "combining (pc l c) \<Longrightarrow> c \<in> set (arr l) \<Longrightarrow> c = p" for c
      using cc_invD(15) [OF inv, of c] h by (simp add: combiner_ok_def)
    ultimately show "\<forall>c. \<not> combining (pc l c)" using pcl by (metis combining.simps)
  qed
  show ?thesis
  proof (cases "p \<in> set (arr l)")
    case True
    show ?thesis using True False pcl pn ap first [OF True] cc_invD(7,13,14) [OF inv True]
      by (intro cc_inv_local [OF inv pn]) (auto simp: touches_own_def own_def waiting_ok_def)
  next
    case na: False
    show ?thesis using na False pcl pn ap cc_invD(8) [OF inv na]
      by (intro cc_inv_local [OF inv pn]) (auto simp: touches_own_def own_def resting_ok_def)
  qed
qed

lemma cc_inv_helped:
  assumes inv: "cc_inv_at P d l" and pcl: "pc l p \<in> {K_helped, K_return} \<or> pc l p = K_check \<and> p \<notin> set (arr l)"
  shows "cc_inv_at P d (CCSynchApplyOp f p l) \<and>
    (pc l p \<noteq> K_check \<longrightarrow> (\<exists>r. arg_ret l (cur l p) = Res r))"
proof -
  have pn: "p \<in> P" using cc_invD(3) [OF inv, of p] pcl by auto
  have na: "p \<notin> set (arr l)" using pcl cc_invD(7) [OF inv, of p] waiting_pc by fastforce
  note r = cc_invD(8) [OF inv na]
  let ?l = "CCSynchApplyOp f p l"
  from pcl r obtain q where res: "arg_ret l (cur l p) = Res q" "completed l (cur l p)" "mynext l p = cur l p"
    by (auto simp: resting_ok_def)
  from pcl consider "pc l p = K_helped" | "pc l p = K_return" | "pc l p = K_check" by blast
  then have "cc_inv_at P d ?l"
  proof cases
    case 1
    then have ap: "applied ?l = applied l" "marked ?l = marked l" using res by (intro applied_same [of p]; auto)+
    show ?thesis using 1 na pn ap r res
      by (intro cc_inv_local [OF inv pn]) (auto simp: touches_own_def own_def resting_ok_def)
  next
    case 2
    then have ap: "applied ?l = applied l" "marked ?l = marked l" using res by (intro applied_same [of p]; auto)+
    show ?thesis using 2 na pn ap r res
      by (intro cc_inv_local [OF inv pn]) (auto simp: touches_own_def own_def resting_ok_def)
  next
    case 3
    then have ap: "applied ?l = applied l" "marked ?l = marked l" using res by (intro applied_same [of p]; auto)+
    show ?thesis using 3 na pn ap r res
      by (intro cc_inv_local [OF inv pn]) (auto simp: touches_own_def own_def resting_ok_def)
  qed
  with res show ?thesis by blast
qed

text \<open>A combiner has the first request before it, filed completely, once it has seen the
  \<^verbatim>\<open>next\<close> pointer.\<close>

lemma first_request:
  assumes inv: "cc_inv_at P d l" and "nxt l d \<noteq> None"
  shows "arr l \<noteq> [] \<and> \<not> filing (pc l (hd (arr l))) \<and> cur l (hd (arr l)) = d \<and> nxt l d = Some (next_node l (hd (arr l)))"
proof -
  have ne: "arr l \<noteq> []" using assms(2) cc_invD(9) [OF inv] cc_chain_start [OF cc_invD(6) [OF inv]] by auto
  then have "hd (arr l) \<in> set (arr l)" "cur l (hd (arr l)) = d"
    using cc_chain_start [OF cc_invD(6) [OF inv]] by auto
  with cc_invD(7) [OF inv, of "hd (arr l)"] assms(2) ne show ?thesis
    by (auto simp: waiting_ok_def split: if_splits)
qed

lemma cc_inv_loop:
  assumes inv: "cc_inv_at P d l" and pcl: "pc l p = K_loop"
  shows "cc_inv_at P d (CCSynchApplyOp f p l)"
proof -
  have pn: "p \<in> P" using cc_invD(3) [OF inv, of p] pcl by auto
  have co: "combiner_ok l d p" using cc_invD(15) [OF inv, of p] pcl by simp
  then have wd: "wp l p = d" by (simp add: combiner_ok_def)
  let ?l = "CCSynchApplyOp f p l"
  have ap: "applied ?l = applied l" "marked ?l = marked l" using pcl by (intro applied_same [of p]; auto)+
  show ?thesis
  proof (cases "nxt l d \<noteq> None \<and> counter l p < CCSYNCH_HELP_FACTOR * nthreads l")
    case True
    note fr = first_request [OF inv conjunct1 [OF True]]
    have co': "combiner_ok ?l d p" using co pcl wd True fr by (auto simp: combiner_ok_def)
    show ?thesis
    proof (cases "p \<in> set (arr l)")
      case a: True
      show ?thesis using a True wd pcl ap co' cc_invD(7,13,14) [OF inv a]
        by (intro cc_inv_local [OF inv pn]) (auto simp: touches_own_def own_def waiting_ok_def)
    next
      case na: False
      show ?thesis using na True wd pcl ap co' cc_invD(8) [OF inv na]
        by (intro cc_inv_local [OF inv pn]) (auto simp: touches_own_def own_def resting_ok_def)
    qed
  next
    case False
    have na: "p \<notin> set (arr l)"
    proof
      assume a: "p \<in> set (arr l)"
      with co pcl have "hd (arr l) = p" "counter l p = 0" by (simp_all add: combiner_ok_def)
      moreover have "0 < CCSYNCH_HELP_FACTOR * nthreads l"
        using pn cc_invD(1) [OF inv] by (auto simp: CCSYNCH_HELP_FACTOR_def)
      moreover have "cur l p = d" using cc_chain_start [OF cc_invD(6) [OF inv]] a \<open>hd (arr l) = p\<close> by auto
      then have "nxt l d \<noteq> None" using cc_invD(7) [OF inv a] pcl by (simp add: waiting_ok_def)
      ultimately show False using False by simp
    qed
    have co': "combiner_ok ?l d p" using co pcl wd False na by (auto simp: combiner_ok_def)
    show ?thesis using na False wd pcl ap co' cc_invD(8) [OF inv na]
      by (intro cc_inv_local [OF inv pn]) (auto simp: touches_own_def own_def resting_ok_def)
  qed
qed

lemma cc_inv_tmp:
  assumes inv: "cc_inv_at P d l" and pcl: "pc l p = K_tmp"
  shows "cc_inv_at P d (CCSynchApplyOp f p l) \<and> nxt l (wp l p) \<noteq> None"
proof -
  have pn: "p \<in> P" using cc_invD(3) [OF inv, of p] pcl by auto
  have co: "combiner_ok l d p" using cc_invD(15) [OF inv, of p] pcl by simp
  then have wd: "wp l p = d" and h: "arr l \<noteq> []" "\<not> filing (pc l (hd (arr l)))"
    using pcl by (simp_all add: combiner_ok_def)
  have "hd (arr l) \<in> set (arr l)" "cur l (hd (arr l)) = d"
    using cc_chain_start [OF cc_invD(6) [OF inv]] h by auto
  with cc_invD(7) [OF inv, of "hd (arr l)"] h have nx: "nxt l d = Some (next_node l (hd (arr l)))"
    by (simp add: waiting_ok_def)
  let ?l = "CCSynchApplyOp f p l"
  have ap: "applied ?l = applied l" "marked ?l = marked l" using pcl wd nx by (intro applied_same [of p]; auto)+
  have co': "combiner_ok ?l d p" using co pcl wd nx h by (auto simp: combiner_ok_def)
  have "cc_inv_at P d ?l"
  proof (cases "p \<in> set (arr l)")
    case a: True
    show ?thesis using a nx wd pcl ap co' cc_invD(7,13,14) [OF inv a]
      by (intro cc_inv_local [OF inv pn]) (auto simp: touches_own_def own_def waiting_ok_def)
  next
    case na: False
    show ?thesis using na nx wd pcl ap co' cc_invD(8) [OF inv na]
      by (intro cc_inv_local [OF inv pn]) (auto simp: touches_own_def own_def resting_ok_def)
  qed
  with nx wd show ?thesis by simp
qed

lemma applied_first: "cc_inv_at P d l \<Longrightarrow> applied l \<Longrightarrow> arr l \<noteq> [] \<and> \<not> filing (pc l (hd (arr l)))"
proof -
  assume inv: "cc_inv_at P d l" and "applied l"
  then obtain c where c: "pc l c \<in> {K_done, K_unlock}" unfolding applied_def by blast
  then have "combining (pc l c)" by auto
  from cc_invD(15) [OF inv this] c show ?thesis by (auto simp: combiner_ok_def)
qed

lemma marked_applied: "marked l \<Longrightarrow> applied l"
  by (auto simp: marked_def applied_def)

lemma cc_inv_swap:
  assumes inv: "cc_inv_at P d l" and pcl: "pc l p = K_swap"
  shows "cc_inv_at P d (CCSynchApplyOp f p l)"
proof -
  note i = cc_invD [OF inv]
  have pn: "p \<in> P" using i(3) [of p] pcl by auto
  have na: "p \<notin> set (arr l)" using i(7) [of p] waiting_pc pcl by fastforce
  have sp: "next_node l p = mynext l p" "nxt l (mynext l p) = None" "locked l (mynext l p)" "\<not> completed l (mynext l p)"
    using i(8) [OF na] pcl by (simp_all add: resting_ok_def)
  let ?l = "goto p K_arg (l\<lparr>cur := (cur l)(p := Tail l), Tail := next_node l p, arr := arr l @ [p]\<rparr>)"
  have own': "own ?l = (own l)(p := Tail l)" using pcl by (auto simp: own_def fun_eq_iff)
  have ownp: "own l p = mynext l p" using pcl by (simp add: own_def)
  have ap: "applied ?l = applied l" "marked ?l = marked l" using pcl by (intro applied_same [of p]; auto)+
  have w: "waiting_ok ?l q" if "q \<in> set (arr l)" for q
    using i(7) [OF that] na that by (subst waiting_cong [of _ _ l]) auto
  have r: "resting_ok ?l q" if "q \<notin> set (arr l)" "q \<noteq> p" for q
    using i(8) [OF that(1)] that(2) by (subst resting_cong [of _ _ l]) auto
  have ch: "chain ?l d (arr l) (Tail l)" using i(6) na by (subst cc_chain_cong [of _ _ l]) auto
  have comb: "combining (pc ?l c) \<longleftrightarrow> combining (pc l c)" for c using pcl by auto
  have "cc_inv_at P d ?l"
  proof (rule cc_invI)
    show "P \<noteq> {} \<longrightarrow> 0 < nthreads ?l" "distinct (arr ?l)" using i(1,2) na by simp_all
    show "inj_on (own ?l) P" "Tail ?l \<notin> own ?l ` P"
      using inj_on_exchange [OF i(4,5), of p] pn sp(1) ownp unfolding own' by simp_all
    show "chain ?l d (arr ?l) (Tail ?l)" using ch by (simp add: cc_chain_append)
    show "nxt ?l (Tail ?l) = None" "\<not> completed ?l (Tail ?l)" "locked ?l (Tail ?l)" using sp by simp_all
    show "pc ?l q \<noteq> K_out \<Longrightarrow> q \<in> P" for q using i(3) [of q] pn by (cases "q = p") auto
    show "waiting_ok ?l q" if "q \<in> set (arr ?l)" for q
    proof (cases "q = p")
      case True
      then show ?thesis using i(9) by (simp add: waiting_ok_def)
    qed (use that w in simp)
    show "resting_ok ?l q" if "q \<notin> set (arr ?l)" for q using that r by simp
    show "locked ?l (cur ?l q)" if "q \<in> set (tl (arr ?l))" for q
      using that i(11,12) na by (cases "arr l") (auto split: if_splits)
    show "(\<exists>r. arg_ret ?l (cur ?l q) = Res r) \<longleftrightarrow> q = hd (arr ?l) \<and> applied ?l"
      if "q \<in> set (arr ?l)" "pc ?l q \<noteq> K_arg" for q
      using that i(13) [of q] na unfolding ap by (cases "arr l"; cases "q = p") auto
    show "completed ?l (cur ?l q) \<longleftrightarrow> q = hd (arr ?l) \<and> marked ?l" if "q \<in> set (arr ?l)" for q
      using that i(10) i(14) [of q] na applied_first [OF inv] marked_applied [of l] unfolding ap
      by (cases "arr l"; cases "q = p") auto
    show "combiner_ok ?l d c" if "combining (pc ?l c)" for c
      using i(15) [of c] that pcl na unfolding comb combiner_ok_def
      by (cases "arr l"; cases "c = p") auto
    show "c = c'" if "combining (pc ?l c)" "combining (pc ?l c')" for c c' using that i(16) unfolding comb by blast
    show "locked ?l d \<longleftrightarrow> (\<exists>c. combining (pc ?l c) \<and> c \<notin> set (arr ?l))" using i(17) pcl unfolding comb by auto
    show "q = hd (arr ?l) \<and> (\<forall>c. \<not> combining (pc ?l c))" if "q \<in> set (arr ?l)" "pc ?l q = K_check" for q
      using that i(18) [of q] na unfolding comb by (cases "arr l"; cases "q = p") auto
  qed
  then show ?thesis using pcl by simp
qed

lemma cc_inv_become:
  assumes inv: "cc_inv_at P d l" and pcl: "pc l p = K_check" and a: "p \<in> set (arr l)"
  shows "cc_inv_at P d (CCSynchApplyOp f p l)"
proof -
  note i = cc_invD [OF inv]
  have first: "p = hd (arr l)" "\<And>c. \<not> combining (pc l c)" using i(18) [OF a pcl] by simp_all
  have d: "cur l p = d" using cc_chain_start [OF i(6)] a first(1) by auto
  have nap: "\<not> applied l" using first(2) unfolding applied_def by (metis combining.simps(4,5) insert_iff singletonD)
  then have "\<not> completed l d" using i(14) [OF a] marked_applied d by auto
  let ?l = "goto p K_loop (l\<lparr>wp := (wp l)(p := cur l p), counter := (counter l)(p := 0)\<rparr>)"
  have own': "own ?l = own l" using pcl by (auto simp: own_def fun_eq_iff)
  have ap: "applied ?l = applied l" "marked ?l = marked l" using pcl by (intro applied_same [of p]; auto)+
  have w: "waiting_ok ?l q" if "q \<in> set (arr l)" for q
  proof (cases "q = p")
    case True
    with i(7) [OF a] pcl show ?thesis by (simp add: waiting_ok_def)
  next
    case False
    with i(7) [OF that] show ?thesis by (subst waiting_cong [of _ _ l]) auto
  qed
  have r: "resting_ok ?l q" if "q \<notin> set (arr l)" for q
    using i(8) [OF that] that a by (subst resting_cong [of _ _ l]) auto
  have ch: "chain ?l d (arr l) (Tail l)" using i(6) by (subst cc_chain_cong [of _ _ l]) auto
  have comb: "combining (pc ?l c) \<longleftrightarrow> c = p" for c using first(2) by auto
  have "cc_inv_at P d ?l"
  proof (rule cc_invI)
    show "P \<noteq> {} \<longrightarrow> 0 < nthreads ?l" "distinct (arr ?l)" using i(1,2) by simp_all
    show "inj_on (own ?l) P" "Tail ?l \<notin> own ?l ` P" using i(4,5) unfolding own' by simp_all
    show "chain ?l d (arr ?l) (Tail ?l)" using ch by simp
    show "nxt ?l (Tail ?l) = None" "\<not> completed ?l (Tail ?l)" using i(9,10) by simp_all
    show "arr ?l \<noteq> [] \<Longrightarrow> locked ?l (Tail ?l)" using i(11) by simp
    show "pc ?l q \<noteq> K_out \<Longrightarrow> q \<in> P" for q using i(3) [of q] i(3) [of p] pcl by (cases "q = p") auto
    show "q \<in> set (arr ?l) \<Longrightarrow> waiting_ok ?l q" for q using w by simp
    show "q \<notin> set (arr ?l) \<Longrightarrow> resting_ok ?l q" for q using r by simp
    show "q \<in> set (tl (arr ?l)) \<Longrightarrow> locked ?l (cur ?l q)" for q using i(12) by simp
    show "(\<exists>r. arg_ret ?l (cur ?l q) = Res r) \<longleftrightarrow> q = hd (arr ?l) \<and> applied ?l"
      if "q \<in> set (arr ?l)" "pc ?l q \<noteq> K_arg" for q
      using that i(13) [of q] pcl unfolding ap by (cases "q = p") auto
    show "q \<in> set (arr ?l) \<Longrightarrow> completed ?l (cur ?l q) \<longleftrightarrow> q = hd (arr ?l) \<and> marked ?l" for q
      using i(14) [of q] unfolding ap by simp
    show "combining (pc ?l c) \<Longrightarrow> combiner_ok ?l d c" for c
      unfolding comb using first(1) d by (simp add: combiner_ok_def)
    show "combining (pc ?l c) \<Longrightarrow> combining (pc ?l c') \<Longrightarrow> c = c'" for c c' unfolding comb by simp
    show "locked ?l d \<longleftrightarrow> (\<exists>c. combining (pc ?l c) \<and> c \<notin> set (arr ?l))"
      unfolding comb using i(17) first(2) a by simp
    show "q = hd (arr ?l) \<and> (\<forall>c. \<not> combining (pc ?l c))" if "q \<in> set (arr ?l)" "pc ?l q = K_check" for q
    proof -
      have "q \<noteq> p" using that(2) by auto
      moreover from this have "q = hd (arr l)" using that i(18) [of q] by simp
      ultimately show ?thesis using first(1) by simp
    qed
  qed
  moreover have "\<not> completed l (cur l p)" using \<open>\<not> completed l d\<close> d by simp
  ultimately show ?thesis using pcl by simp
qed

text \<open>The two stores of the combiner to the node of the first request.\<close>

lemma cc_inv_serve:
  assumes inv: "cc_inv_at P d l" and pcl: "pc l p \<in> {K_apply, K_done}" and c': "c' \<in> {K_done, K_unlock}"
    and l': "l' = goto p c' (l\<lparr>obj := s', arg_ret := (arg_ret l)(d := Res r), completed := (completed l)(d := m)\<rparr>)"
    and m: "m \<longleftrightarrow> c' = K_unlock"
  shows "cc_inv_at P d l'"
proof -
  note i = cc_invD [OF inv]
  have cp: "combining (pc l p)" "\<not> early (pc l p)" "pc l p \<noteq> K_end" "\<not> filing (pc l p)" "pc l p \<noteq> K_arg"
    using pcl by auto
  have cc: "combining c'" "\<not> early c'" "\<not> filing c'" "c' \<noteq> K_end" "c' \<noteq> K_arg" "c' \<noteq> K_pid" "c' \<noteq> K_loop" "c' \<noteq> K_check" "c' \<noteq> K_fault" "c' \<noteq> K_out"
    using c' by auto
  have pn: "p \<in> P" using i(3) [of p] pcl by auto
  have co: "combiner_ok l d p" using i(15) cp by blast
  then have ne: "arr l \<noteq> []" "\<not> filing (pc l (hd (arr l)))" using pcl by (auto simp: combiner_ok_def)
  define h where "h = hd (arr l)"
  have h: "h \<in> set (arr l)" "cur l h = d" "\<not> filing (pc l h)"
    using cc_chain_start [OF i(6)] ne by (auto simp: h_def)
  have only: "combining (pc l c) \<longleftrightarrow> c = p" for c using i(16) cp by blast
  have comb: "combining (pc l' c) \<longleftrightarrow> c = p" for c using only cc l' by auto
  have own': "own l' = own l" using cp cc unfolding l' by (auto simp: own_def fun_eq_iff)
  have ap: "applied l'" "marked l' \<longleftrightarrow> m"
  proof -
    show "applied l'" unfolding applied_def l' using c' by (intro exI [of _ p]) simp
    have "pc l' c = K_unlock \<longleftrightarrow> c = p \<and> m" for c
      using only [of c] m by (cases "c = p") (auto simp: l')
    then show "marked l' \<longleftrightarrow> m" by (auto simp: marked_def)
  qed
  have dn: "cur l q \<noteq> d" if "q \<in> set (arr l)" "q \<noteq> h" for q
    using cur_neq(1) [OF inv that(1) waiting_lt [OF inv h(1)] that(2) [symmetric]]
      own_waiting [OF i(7) [OF h(1)]] h(2) by simp
  have w: "waiting_ok l' q" if "q \<in> set (arr l)" for q
  proof (cases "q = h")
    case True
    with i(7) [OF h(1)] h cc show ?thesis unfolding l' by (auto simp: waiting_ok_def)
  next
    case False
    with dn [OF that False] i(7) [OF that] cc cp show ?thesis unfolding l' by (auto simp: waiting_ok_def)
  qed
  have r: "resting_ok l' q" if "q \<notin> set (arr l)" for q
  proof (cases "q \<in> P")
    case True
    have "q \<noteq> hd (arr l)" using that h(1) h_def by auto
    then have "d \<noteq> own l q" by (intro first_node_neq [OF inv True]) simp
    with i(8) [OF that] cc cp show ?thesis
      unfolding l' by (cases "early (pc l q)"; cases "q = p") (simp_all add: resting_ok_def own_def)
  next
    case False
    then have "pc l' q = K_out" using i(3) [of q] pn by (auto simp: l')
    then show ?thesis by (simp add: resting_ok_def)
  qed
  have ch: "chain l' d (arr l) (Tail l)" using i(6) by (subst cc_chain_cong [of _ _ l]) (auto simp: l')
  have dt: "d \<noteq> Tail l" using cur_neq(2) [OF inv h(1) pn] h(2) 
    by (cases "p = h") (metis own_neq_Tail [OF inv pn] own_waiting i(7) h, simp)
  show ?thesis
  proof (rule cc_invI)
    show "P \<noteq> {} \<longrightarrow> 0 < nthreads l'" "distinct (arr l')" using i(1,2) by (simp_all add: l')
    show "inj_on (own l') P" "Tail l' \<notin> own l' ` P" using i(4,5) unfolding own' by (simp_all add: l')
    show "chain l' d (arr l') (Tail l')" using ch by (simp add: l')
    show "nxt l' (Tail l') = None" "\<not> completed l' (Tail l')" using i(9,10) dt by (simp_all add: l')
    show "arr l' \<noteq> [] \<Longrightarrow> locked l' (Tail l')" using i(11) by (simp add: l')
    show "pc l' q \<noteq> K_out \<Longrightarrow> q \<in> P" for q using i(3) [of q] pn by (cases "q = p") (auto simp: l')
    show "q \<in> set (arr l') \<Longrightarrow> waiting_ok l' q" for q using w by (simp add: l')
    show "q \<notin> set (arr l') \<Longrightarrow> resting_ok l' q" for q using r by (simp add: l')
    show "q \<in> set (tl (arr l')) \<Longrightarrow> locked l' (cur l' q)" for q using i(12) by (simp add: l')
    show "(\<exists>r. arg_ret l' (cur l' q) = Res r) \<longleftrightarrow> q = hd (arr l') \<and> applied l'"
      if "q \<in> set (arr l')" "pc l' q \<noteq> K_arg" for q
    proof (cases "q = h")
      case True
      then show ?thesis using h ap by (simp add: l' h_def)
    next
      case False
      with that dn [of q] have "cur l q \<noteq> d" "pc l q \<noteq> K_arg" using cp by (auto simp: l' split: if_splits)
      with that False i(13) [of q] show ?thesis by (simp add: l' h_def)
    qed
    show "completed l' (cur l' q) \<longleftrightarrow> q = hd (arr l') \<and> marked l'" if "q \<in> set (arr l')" for q
    proof (cases "q = h")
      case True
      then show ?thesis using h ap by (simp add: l' h_def)
    next
      case False
      with that dn [of q] i(14) [of q] show ?thesis by (simp add: l' h_def)
    qed
    show "combining (pc l' c) \<Longrightarrow> combiner_ok l' d c" for c
      unfolding comb using co pcl cc ne(2) h(3) by (auto simp: combiner_ok_def l' h_def)
    show "combining (pc l' c) \<Longrightarrow> combining (pc l' c') \<Longrightarrow> c = c'" for c c' unfolding comb by simp
    show "locked l' d \<longleftrightarrow> (\<exists>c. combining (pc l' c) \<and> c \<notin> set (arr l'))"
      unfolding comb using i(17) unfolding only by (simp add: l')
    show "q = hd (arr l') \<and> (\<forall>c. \<not> combining (pc l' c))" if "q \<in> set (arr l')" "pc l' q = K_check" for q
      using that i(18) [of q] cc only by (cases "q = p") (auto simp: l')
  qed
qed

lemma combiner_first:
  assumes inv: "cc_inv_at P d l" and pcl: "pc l p \<in> {K_tmp, K_apply, K_done, K_unlock}"
  shows "wp l p = d" "arr l \<noteq> []" "hd (arr l) \<in> set (arr l)" "cur l (hd (arr l)) = d"
    "\<not> filing (pc l (hd (arr l)))" "npid l d = hd (arr l)" "hd (arr l) \<in> P"
    "pc l p \<noteq> K_tmp \<Longrightarrow> tmp_next l p = next_node l (hd (arr l))"
proof -
  have co: "combiner_ok l d p" using cc_invD(15) [OF inv] pcl by auto
  then show "wp l p = d" and ne: "arr l \<noteq> []" and nf: "\<not> filing (pc l (hd (arr l)))"
    and "pc l p \<noteq> K_tmp \<Longrightarrow> tmp_next l p = next_node l (hd (arr l))"
    using pcl by (auto simp: combiner_ok_def)
  then show h: "hd (arr l) \<in> set (arr l)" and d: "cur l (hd (arr l)) = d"
    using cc_chain_start [OF cc_invD(6) [OF inv]] by auto
  have "pc l (hd (arr l)) \<notin> {K_arg, K_pid}" using nf by auto
  with cc_invD(7) [OF inv h] d show "npid l d = hd (arr l)" by (simp add: waiting_ok_def)
  show "hd (arr l) \<in> P" using waiting_lt [OF inv h] .
qed

lemma cc_inv_apply:
  assumes inv: "cc_inv_at P d l" and pcl: "pc l p = K_apply"
  shows "cc_inv_at P d (CCSynchApplyOp f p l) \<and> arg_ret l d = Arg (arg l (hd (arr l)))"
proof -
  have pcl': "pc l p \<in> {K_tmp, K_apply, K_done, K_unlock}" using pcl by simp
  note c = combiner_first [OF inv pcl']
  have "\<not> applied l"
  proof
    assume "applied l"
    then obtain q where "pc l q \<in> {K_done, K_unlock}" unfolding applied_def by blast
    moreover from this have "q = p" using cc_invD(16) [OF inv, of q p] pcl by auto
    ultimately show False using pcl by simp
  qed
  moreover have "pc l (hd (arr l)) \<noteq> K_arg" using c(5) by auto
  ultimately obtain x where x: "arg_ret l d = Arg x"
    using cc_invD(13) [OF inv c(3)] c(4) by (cases "arg_ret l d") auto
  with cc_invD(7) [OF inv c(3)] c(4) \<open>pc l (hd (arr l)) \<noteq> K_arg\<close> have xa: "x = arg l (hd (arr l))"
    by (simp add: waiting_ok_def)
  have m: "\<not> completed l d"
    using cc_invD(14) [OF inv c(3)] c(4) \<open>\<not> applied l\<close> marked_applied by auto
  let ?r = "fst (f (npid l d) x (obj l))" and ?s = "snd (f (npid l d) x (obj l))"
  have eq: "CCSynchApplyOp f p l = goto p K_done (l\<lparr>obj := ?s, arg_ret := (arg_ret l)(d := Res ?r), completed := (completed l)(d := False)\<rparr>)"
    using pcl c(1) x m by (simp add: split_beta fun_upd_idem)
  have "cc_inv_at P d (CCSynchApplyOp f p l)" using pcl by (intro cc_inv_serve [OF inv _ _ eq]) auto
  with x xa show ?thesis by simp
qed

lemma cc_inv_done:
  assumes inv: "cc_inv_at P d l" and pcl: "pc l p = K_done"
  shows "cc_inv_at P d (CCSynchApplyOp f p l)"
proof -
  have pcl': "pc l p \<in> {K_tmp, K_apply, K_done, K_unlock}" using pcl by simp
  note c = combiner_first [OF inv pcl']
  have "applied l" using pcl by (auto simp: applied_def)
  moreover have "pc l (hd (arr l)) \<noteq> K_arg" using c(5) by auto
  ultimately obtain r where r: "arg_ret l d = Res r"
    using cc_invD(13) [OF inv c(3)] c(4) by auto
  have eq: "CCSynchApplyOp f p l = goto p K_unlock (l\<lparr>obj := obj l, arg_ret := (arg_ret l)(d := Res r), completed := (completed l)(d := True)\<rparr>)"
    using pcl c(1) r by (simp add: fun_upd_idem)
  show ?thesis using pcl by (intro cc_inv_serve [OF inv _ _ eq]) auto
qed

lemma cc_inv_unlock:
  assumes inv: "cc_inv_at P d l" and pcl: "pc l p = K_unlock"
  shows "cc_inv_at P (next_node l (hd (arr l))) (CCSynchApplyOp f p l)"
proof -
  note i = cc_invD [OF inv]
  have pcl': "pc l p \<in> {K_tmp, K_apply, K_done, K_unlock}" using pcl by simp
  note c = combiner_first [OF inv pcl']
  obtain h ps where ps: "arr l = h # ps" using c(2) by (cases "arr l") auto
  then have hh: "hd (arr l) = h" by simp
  define e where "e = next_node l h"
  have pn: "p \<in> P" using i(3) [of p] pcl by auto
  have hd_: "cur l h = d" and hn: "h \<in> P" and h: "h \<in> set (arr l)" "h \<notin> set ps" "distinct ps"
    using c(4,7) i(2) ps by simp_all
  have only: "combining (pc l q) \<longleftrightarrow> q = p" for q using i(16) [of q p] pcl by auto
  have pps: "p \<notin> set ps" using i(15) [of p] pcl h ps by (auto simp: combiner_ok_def)
  have che: "chain l e ps (Tail l)" using i(6) ps by (simp add: e_def)
  have dn: "cur l q \<noteq> d" if "q \<in> set ps" for q
    using cur_neq(1) [OF inv _ hn, of q] that h ps own_waiting [OF i(7) [OF h(1)]] hd_ by auto
  have dt: "d \<noteq> Tail l" using own_neq_Tail [OF inv hn] own_waiting [OF i(7) [OF h(1)]] hd_ by simp
  have ro: "own l q \<noteq> d" if "q \<notin> set (arr l)" "q \<in> P" for q
    using first_node_neq [OF inv that(2)] that(1) h(1) hh by auto
  have le: "locked l e" "e \<noteq> d"
  proof -
    have "e = (if ps = [] then Tail l else cur l (hd ps))" using cc_chain_start [OF che] .
    moreover have "ps \<noteq> [] \<Longrightarrow> hd ps \<in> set ps" by simp
    ultimately show "locked l e" "e \<noteq> d"
      using i(11) i(12) [of "hd ps"] ps dn [of "hd ps"] dt by (auto split: if_splits)
  qed
  let ?l = "goto p K_loop (l\<lparr>locked := (locked l)(d := False), wp := (wp l)(p := e), arr := ps\<rparr>)"
  have eq: "CCSynchApplyOp f p l = ?l" using pcl c(1) c(8) ps by (simp add: e_def)
  have own': "own ?l = own l" using pcl by (auto simp: own_def fun_eq_iff)
  have comb: "combining (pc ?l q) \<longleftrightarrow> q = p" for q using only by auto
  have nap: "\<not> applied ?l"
  proof
    assume "applied ?l"
    then obtain q where q: "pc ?l q \<in> {K_done, K_unlock}" unfolding applied_def by blast
    then have "combining (pc ?l q)" by (elim insertE; simp)
    with comb have "q = p" by blast
    with q show False by simp
  qed
  then have nam: "\<not> marked ?l" using marked_applied by blast
  have "marked l" "applied l" using pcl by (auto simp: marked_def applied_def)
  have w: "waiting_ok ?l q" if "q \<in> set ps" for q
  proof -
    have "q \<noteq> p" using that pps by auto
    with i(7) [of q] that ps show ?thesis by (subst waiting_cong [of _ _ l]) auto
  qed
  have nfh: "\<not> filing (pc l h)" using c(5) hh by simp
  then have nah: "pc l h \<noteq> K_arg" by auto
  have rh: "resting_ok ?l h"
  proof -
    from i(7) [OF h(1)] have "mynext l h = cur l h" "\<not> early (pc l h)" "pc l h \<noteq> K_fault"
      using nfh waiting_pc [OF i(7) [OF h(1)]] by (simp_all add: waiting_ok_def)
    moreover have "completed l d" "\<exists>r. arg_ret l d = Res r"
      using i(14) [OF h(1)] i(13) [OF h(1) nah] hd_ \<open>marked l\<close> \<open>applied l\<close> hh by simp_all
    ultimately show ?thesis using nfh hd_ by (simp add: resting_ok_def)
  qed
  have r: "resting_ok ?l q" if "q \<notin> set ps" for q
  proof (cases "q = h")
    case False
    then have q: "q \<notin> set (arr l)" using that ps by simp
    show ?thesis
    proof (cases "q \<in> P")
      case True
      from i(8) [OF q] ro [OF q True] pcl show ?thesis
        by (cases "early (pc l q)"; cases "q = p") (simp_all add: resting_ok_def own_def)
    next
      case False
      then have "pc ?l q = K_out" using i(3) [of q] pn by auto
      then show ?thesis by (simp add: resting_ok_def)
    qed
  qed (use rh in simp)
  have ch: "chain ?l e ps (Tail l)" using che by (subst cc_chain_cong [of _ _ l]) auto
  have "cc_inv_at P e ?l"
  proof (rule cc_invI)
    show "P \<noteq> {} \<longrightarrow> 0 < nthreads ?l" "distinct (arr ?l)" using i(1) h by simp_all
    show "inj_on (own ?l) P" "Tail ?l \<notin> own ?l ` P" using i(4,5) unfolding own' by simp_all
    show "chain ?l e (arr ?l) (Tail ?l)" using ch by simp
    show "nxt ?l (Tail ?l) = None" "\<not> completed ?l (Tail ?l)" using i(9,10) by simp_all
    show "arr ?l \<noteq> [] \<Longrightarrow> locked ?l (Tail ?l)" using i(11) dt ps by simp
    show "pc ?l q \<noteq> K_out \<Longrightarrow> q \<in> P" for q using i(3) [of q] pn by (cases "q = p") auto
    show "q \<in> set (arr ?l) \<Longrightarrow> waiting_ok ?l q" for q using w by simp
    show "q \<notin> set (arr ?l) \<Longrightarrow> resting_ok ?l q" for q using r by simp
    show "locked ?l (cur ?l q)" if "q \<in> set (tl (arr ?l))" for q
    proof -
      have "q \<in> set ps" using that by (cases ps) auto
      with dn i(12) [of q] ps show ?thesis by simp
    qed
    show "(\<exists>r. arg_ret ?l (cur ?l q) = Res r) \<longleftrightarrow> q = hd (arr ?l) \<and> applied ?l"
      if "q \<in> set (arr ?l)" "pc ?l q \<noteq> K_arg" for q
      using that i(13) [of q] nap pps h ps by (cases "q = p") auto
    show "completed ?l (cur ?l q) \<longleftrightarrow> q = hd (arr ?l) \<and> marked ?l" if "q \<in> set (arr ?l)" for q
      using that i(14) [of q] nam h ps by auto
    show "combining (pc ?l q) \<Longrightarrow> combiner_ok ?l e q" for q
      unfolding comb using pps by (simp add: combiner_ok_def)
    show "combining (pc ?l q) \<Longrightarrow> combining (pc ?l q') \<Longrightarrow> q = q'" for q q' unfolding comb by simp
    show "locked ?l e \<longleftrightarrow> (\<exists>q. combining (pc ?l q) \<and> q \<notin> set (arr ?l))"
      unfolding comb using le pps by simp
    show "q = hd (arr ?l) \<and> (\<forall>q. \<not> combining (pc ?l q))" if "q \<in> set (arr ?l)" "pc ?l q = K_check" for q
      using that i(18) [of q] h ps by (cases "q = p") auto
  qed
  then show ?thesis using eq hh by (simp add: e_def)
qed

lemma cc_inv_end:
  assumes inv: "cc_inv_at P d l" and pcl: "pc l p = K_end"
  shows "cc_inv_at P d (CCSynchApplyOp f p l)"
proof -
  note i = cc_invD [OF inv]
  have pn: "p \<in> P" using i(3) [of p] pcl by auto
  have wd: "wp l p = d" using i(15) [of p] pcl by (simp add: combiner_ok_def)
  have na: "p \<notin> set (arr l)" using i(7) [of p] waiting_pc pcl by fastforce
  have only: "combining (pc l q) \<longleftrightarrow> q = p" for q using i(16) [of q p] pcl by auto
  let ?l = "goto p K_return (l\<lparr>locked := (locked l)(d := False)\<rparr>)"
  have eq: "CCSynchApplyOp f p l = ?l" using pcl wd by simp
  have own': "own ?l = own l" using pcl by (auto simp: own_def fun_eq_iff)
  have ap: "applied ?l = applied l" "marked ?l = marked l" using pcl by (intro applied_same [of p]; auto)+
  have comb: "\<not> combining (pc ?l q)" for q using only by auto
  have w: "waiting_ok ?l q" if "q \<in> set (arr l)" for q
    using i(7) [OF that] that na by (subst waiting_cong [of _ _ l]) auto
  have r: "resting_ok ?l q" if "q \<notin> set (arr l)" for q
  proof (cases "q \<in> P")
    case True
    have "arr l = [] \<or> q \<noteq> hd (arr l)" using that by (cases "arr l") auto
    then have "d \<noteq> own l q" by (intro first_node_neq [OF inv True]) simp
    with i(8) [OF that] pcl show ?thesis
      by (cases "early (pc l q)"; cases "q = p") (simp_all add: resting_ok_def own_def)
  next
    case False
    then have "pc ?l q = K_out" using i(3) [of q] pn by auto
    then show ?thesis by (simp add: resting_ok_def)
  qed
  have dn: "cur l q \<noteq> d" if "q \<in> set (tl (arr l))" for q
  proof -
    have "q \<in> set (arr l)" "q \<noteq> hd (arr l)" using that i(2) by (cases "arr l"; auto)+
    with first_node_neq [OF inv waiting_lt [OF inv this(1)]] own_waiting [OF i(7) [OF this(1)]] show ?thesis by simp
  qed
  have dt: "arr l \<noteq> [] \<Longrightarrow> d \<noteq> Tail l"
  proof -
    assume "arr l \<noteq> []"
    then have "hd (arr l) \<in> set (arr l)" "d = cur l (hd (arr l))" using cc_chain_start [OF i(6)] by auto
    then show "d \<noteq> Tail l" using own_neq_Tail [OF inv waiting_lt [OF inv]] own_waiting [OF i(7)] by metis
  qed
  have ch: "chain ?l d (arr l) (Tail l)" using i(6) by (subst cc_chain_cong [of _ _ l]) auto
  have "cc_inv_at P d ?l"
  proof (rule cc_invI)
    show "P \<noteq> {} \<longrightarrow> 0 < nthreads ?l" "distinct (arr ?l)" using i(1,2) by simp_all
    show "inj_on (own ?l) P" "Tail ?l \<notin> own ?l ` P" using i(4,5) unfolding own' by simp_all
    show "chain ?l d (arr ?l) (Tail ?l)" using ch by simp
    show "nxt ?l (Tail ?l) = None" "\<not> completed ?l (Tail ?l)" using i(9,10) by simp_all
    show "arr ?l \<noteq> [] \<Longrightarrow> locked ?l (Tail ?l)" using i(11) dt by simp
    show "pc ?l q \<noteq> K_out \<Longrightarrow> q \<in> P" for q using i(3) [of q] pn by (cases "q = p") auto
    show "q \<in> set (arr ?l) \<Longrightarrow> waiting_ok ?l q" for q using w by simp
    show "q \<notin> set (arr ?l) \<Longrightarrow> resting_ok ?l q" for q using r by simp
    show "q \<in> set (tl (arr ?l)) \<Longrightarrow> locked ?l (cur ?l q)" for q using i(12) [of q] dn by simp
    show "(\<exists>r. arg_ret ?l (cur ?l q) = Res r) \<longleftrightarrow> q = hd (arr ?l) \<and> applied ?l"
      if "q \<in> set (arr ?l)" "pc ?l q \<noteq> K_arg" for q
      using that i(13) [of q] pcl unfolding ap by (cases "q = p") auto
    show "q \<in> set (arr ?l) \<Longrightarrow> completed ?l (cur ?l q) \<longleftrightarrow> q = hd (arr ?l) \<and> marked ?l" for q
      using i(14) [of q] unfolding ap by simp
    show "combining (pc ?l q) \<Longrightarrow> combiner_ok ?l d q" for q using comb by blast
    show "combining (pc ?l q) \<Longrightarrow> combining (pc ?l q') \<Longrightarrow> q = q'" for q q' using comb by blast
    show "locked ?l d \<longleftrightarrow> (\<exists>q. combining (pc ?l q) \<and> q \<notin> set (arr ?l))" using comb by simp
    show "q = hd (arr ?l) \<and> (\<forall>q. \<not> combining (pc ?l q))" if "q \<in> set (arr ?l)" "pc ?l q = K_check" for q
      using that i(18) [of q] na comb by (cases "q = p") auto
  qed
  then show ?thesis using eq by simp
qed

lemma cc_inv_init: "cc_inv n (CCSynchStructInit n x0 s0)"
  unfolding cc_inv_def
proof (rule exI [of _ n], rule cc_invI)
  let ?l = "CCSynchStructInit n x0 s0"
  show "inj_on (own ?l) {..<n}" "Tail ?l \<notin> own ?l ` {..<n}"
    by (auto simp: CCSynchStructInit_def own_def inj_on_def)
qed (simp_all add: CCSynchStructInit_def resting_ok_def lessThan_empty_iff)

lemma cc_inv_at_step:
  assumes inv: "cc_inv_at P d l" and "pc l p \<notin> {K_out, K_fault}"
  shows "\<exists>d. cc_inv_at P d (CCSynchApplyOp f p l)"
proof (cases "pc l p")
    case K_next with cc_inv_prepare [OF inv, of p] show ?thesis by blast next
    case K_lock with cc_inv_prepare [OF inv, of p] show ?thesis by blast next
    case K_compl with cc_inv_prepare [OF inv, of p] show ?thesis by blast next
    case K_swap with cc_inv_swap [OF inv] show ?thesis by blast next
    case K_arg with cc_inv_file [OF inv, of p] show ?thesis by blast next
    case K_pid with cc_inv_file [OF inv, of p] show ?thesis by blast next
    case K_link with cc_inv_file [OF inv, of p] show ?thesis by blast next
    case K_spin with cc_inv_spin [OF inv] show ?thesis by blast next
    case K_check
    with cc_inv_become [OF inv K_check] cc_inv_helped [OF inv, of p] show ?thesis by blast next
    case K_helped with cc_inv_helped [OF inv, of p] show ?thesis by blast next
    case K_return with cc_inv_helped [OF inv, of p] show ?thesis by blast next
    case K_loop with cc_inv_loop [OF inv] show ?thesis by blast next
    case K_tmp with cc_inv_tmp [OF inv] show ?thesis by blast next
    case K_apply with cc_inv_apply [OF inv] show ?thesis by blast next
    case K_done with cc_inv_done [OF inv] show ?thesis by blast next
    case K_unlock with cc_inv_unlock [OF inv] show ?thesis by blast next
    case K_end with cc_inv_end [OF inv] show ?thesis by blast
qed (use assms(2) in simp_all)

lemma cc_inv_exec: "cc_inv n l \<Longrightarrow> cc_ok n l a \<Longrightarrow> cc_inv n (cc_exec f a l)"
proof (cases a)
  case (Invoke p x)
  assume "cc_inv n l" "cc_ok n l a"
  with Invoke cc_inv_invoke [of "{..<n}" _ l p f x] show ?thesis unfolding cc_inv_def by auto
next
  case (Step p)
  assume "cc_inv n l" "cc_ok n l a"
  with Step cc_inv_at_step [of "{..<n}" _ l p f] show ?thesis unfolding cc_inv_def by (auto simp del: CCSynchApplyOp.simps)
qed

section \<open>Refinement\<close>

lemma cc_status_eq:
  assumes "\<And>q. q \<noteq> p \<Longrightarrow> pc l' q = pc l q \<and> arg l' q = arg l q \<and> cur l' q = cur l q"
    and "\<And>q. q \<noteq> p \<Longrightarrow> \<not> early (pc l q) \<Longrightarrow> pc l q \<noteq> K_arg \<Longrightarrow> arg_ret l' (cur l q) = arg_ret l (cur l q)"
    and "cc_status l' p = c"
  shows "cc_status l' = (cc_status l)(p := c)"
proof
  fix q
  show "cc_status l' q = ((cc_status l)(p := c)) q"
  proof (cases "q = p")
    case False
    with assms(1,2) [of q] show ?thesis by (cases "pc l q") (simp_all add: cc_status_def)
  qed (use assms(3) in simp)
qed

lemma cc_status_same:
  assumes "pc l p \<noteq> K_apply" "pc l p \<noteq> K_helped" "pc l p \<noteq> K_return" "pc l p \<noteq> K_out" "pc l p \<noteq> K_fault"
    and inv: "cc_inv_at P d l"
  shows "cc_status (CCSynchApplyOp f p l) = cc_status l" and "obj (CCSynchApplyOp f p l) = obj l"
proof -
  have pn: "p \<in> P" using cc_invD(3) [OF inv] assms(4) by blast
  have own: "own l q \<noteq> own l p" if "q \<noteq> p" "pc l q \<noteq> K_out" for q
    using own_neq [OF inv _ pn that(1)] cc_invD(3) [OF inv that(2)] by blast
  have "cc_status (CCSynchApplyOp f p l) = (cc_status l)(p := cc_status l p)"
  proof (rule cc_status_eq)
    show "pc (CCSynchApplyOp f p l) q = pc l q \<and> arg (CCSynchApplyOp f p l) q = arg l q
        \<and> cur (CCSynchApplyOp f p l) q = cur l q" if "q \<noteq> p" for q
      using that by (cases "pc l p"; cases "nxt l (wp l p)"; cases "arg_ret l (wp l p)"; cases "arg_ret l (cur l p)")
        (simp_all add: split_beta)
    show "arg_ret (CCSynchApplyOp f p l) (cur l q) = arg_ret l (cur l q)"
      if "q \<noteq> p" "\<not> early (pc l q)" "pc l q \<noteq> K_arg" for q
    proof (cases "pc l p = K_arg")
      case True
      have "pc l q \<noteq> K_out" using that(2) by auto
      with own [OF that(1)] that(2) True show ?thesis by (simp add: own_def)
    next
      case False
      with assms show ?thesis by (cases "pc l p"; cases "nxt l (wp l p)") simp_all
    qed
    show "cc_status (CCSynchApplyOp f p l) p = cc_status l p"
    proof (cases "pc l p = K_tmp")
      case True
      with cc_inv_tmp [OF inv True, of f] show ?thesis by (auto simp: cc_status_def)
    next
      case False
      with assms show ?thesis by (cases "pc l p") (simp_all add: cc_status_def)
    qed
  qed
  then show "cc_status (CCSynchApplyOp f p l) = cc_status l" by simp
  show "obj (CCSynchApplyOp f p l) = obj l"
    using assms by (cases "pc l p"; cases "nxt l (wp l p)") simp_all
qed

lemma cc_abs_at:
  assumes inv: "cc_inv_at P d l" and ok: "case a of Invoke p x \<Rightarrow> pc l p = K_out | Step p \<Rightarrow> pc l p \<notin> {K_out, K_fault}"
  shows "asteps f (cc_abs l) (cc_obs a l) (cc_abs (cc_exec f a l))"
proof (cases a)
  case (Invoke p x)
  then have p: "pc l p = K_out" using ok by simp
  have "cc_status (cc_exec f (Invoke p x) l) = (cc_status l)(p := Pend x)"
    by (rule cc_status_eq) (simp_all add: cc_status_def)
  then show ?thesis using Invoke p
    by (intro step_call [of _ p _ x]) (simp_all add: cc_abs_def cc_status_def)
next
  case (Step p)
  have pcl: "pc l p \<noteq> K_out" "pc l p \<noteq> K_fault" using ok Step by auto
  consider "pc l p = K_apply" | "pc l p \<in> {K_helped, K_return}" | "pc l p \<notin> {K_apply, K_helped, K_return}" by blast
  then show ?thesis
  proof cases
    case 1
    have pcl': "pc l p \<in> {K_tmp, K_apply, K_done, K_unlock}" using 1 by simp
    note c = combiner_first [OF inv pcl']
    note ap = cc_inv_apply [OF inv 1, of f]
    define h where "h = hd (arr l)"
    have nf: "\<not> early (pc l h)" "pc l h \<noteq> K_arg"
      using waiting_pc [OF cc_invD(7) [OF inv c(3)]] c(5) by (auto simp: h_def)
    let ?l = "CCSynchApplyOp f p l"
    let ?r = "f h (arg l h) (obj l)"
    have eq: "?l = goto p K_done (l\<lparr>obj := snd ?r, arg_ret := (arg_ret l)(d := Res (fst ?r))\<rparr>)"
      using 1 c(1,6) ap by (simp add: split_beta h_def)
    have hs: "cc_status l h = Pend (arg l h)"
      using nf ap c(4) by (cases "pc l h") (simp_all add: cc_status_def h_def)
    have early': "early (pc ?l q) = early (pc l q)" "pc ?l q = K_arg \<longleftrightarrow> pc l q = K_arg" for q using 1 unfolding eq by auto
    have "cc_status ?l q = ((cc_status l)(h := Done (fst ?r))) q" for q
    proof (cases "q = h")
      case True
      then show ?thesis using nf c(4) 1 unfolding eq by (cases "pc l h") (auto simp: cc_status_def h_def)
    next
      case False
      have "cur l q \<noteq> d" if "\<not> early (pc l q)"
      proof -
        have "q \<in> P" using cc_invD(3) [OF inv, of q] that by (cases "pc l q") auto
        with cur_neq(1) [OF inv c(3) this] False c(4) that show ?thesis by (auto simp: own_def h_def)
      qed
      with False 1 show ?thesis unfolding eq by (cases "pc l q"; cases "q = p") (simp_all add: cc_status_def)
    qed
    then have st: "cc_status ?l = (cc_status l)(h := Done (fst ?r))" by (rule ext)
    have ob: "obj ?l = snd ?r" unfolding eq by simp
    have "asteps f (obj l, cc_status l) [] (obj ?l, cc_status ?l)"
      using hs by (intro step_lin [of _ h "arg l h"]) (simp_all only: fst_conv snd_conv ob st)
    then show ?thesis unfolding Step cc_exec.simps cc_abs_def using 1 by simp
  next
    case 2
    then obtain r where r: "arg_ret l (cur l p) = Res r" using cc_inv_helped [OF inv, of p f] by auto
    have "cc_status (CCSynchApplyOp f p l) = (cc_status l)(p := Idle)"
      using 2 r by (intro cc_status_eq) (auto simp: cc_status_def)
    moreover have "obj (CCSynchApplyOp f p l) = obj l" "cc_status l p = Done r"
      using 2 r by (auto simp: cc_status_def)
    ultimately show ?thesis using 2 r Step
      by (intro step_ret [of _ p r]) (simp_all add: cc_abs_def del: CCSynchApplyOp.simps)
  next
    case 3
    then have "cc_obs a l = []" using Step by auto
    moreover have "cc_abs (cc_exec f a l) = cc_abs l"
      using cc_status_same [OF _ _ _ pcl inv, of f] 3 Step by (simp add: cc_abs_def del: CCSynchApplyOp.simps)
    ultimately show ?thesis by (intro step_skip)
  qed
qed

lemma cc_abs_exec: "cc_inv n l \<Longrightarrow> cc_ok n l a \<Longrightarrow> asteps f (cc_abs l) (cc_obs a l) (cc_abs (cc_exec f a l))"
  unfolding cc_inv_def by (elim exE, rule cc_abs_at, assumption, cases a) simp_all

interpretation cc: linearization "CCSynchStructInit n x0 s0" "cc_ok n" "cc_exec f" cc_obs f s0 "cc_inv n" cc_abs
  for n x0 s0 f
proof
  show "cc_inv n (CCSynchStructInit n x0 s0)" by (rule cc_inv_init)
  show "cc_abs (CCSynchStructInit n x0 s0) = aconf0 s0"
    by (simp add: cc_abs_def aconf0_def CCSynchStructInit_def cc_status_def fun_eq_iff)
qed (fact cc_inv_exec, fact cc_abs_exec)

section \<open>Properties\<close>

text \<open>C4. CC-Synch is linearizable: whatever the interleaving, the calls and returns of
  \<^verbatim>\<open>CCSynchApplyOp\<close> are those of an atomic object that runs \<^verbatim>\<open>sfunc\<close> once for every
  request, with the argument and the \<^verbatim>\<open>pid\<close> of the thread that made it.\<close>

theorem ccsynch_linearizable:
  assumes "traces (CCSynchStructInit n x0 s0) (cc_ok n) (cc_exec f) cc_obs l h"
  shows "linearizable f s0 h"
  using assms by (rule cc.linearizable_traces)

lemma cc_reach_inv: "reach (CCSynchStructInit n x0 s0) (act_step (cc_ok n) (cc_exec f)) l \<Longrightarrow> cc_inv n l"
  by (rule cc.reach_inv)

lemma cc_safe:
  assumes "reach (CCSynchStructInit n x0 s0) (act_step (cc_ok n) (cc_exec f)) l"
  shows "\<forall>p q. pc l p \<noteq> K_fault \<and> (combining (pc l p) \<and> combining (pc l q) \<longrightarrow> p = q)"
proof -
  from cc_reach_inv [OF assms] obtain d where inv: "cc_inv_at {..<n} d l" unfolding cc_inv_def by blast
  have "pc l p \<noteq> K_fault" for p
    using cc_invD(7) [OF inv, of p] cc_invD(8) [OF inv, of p] waiting_pc resting_pc by blast
  with cc_invD(16) [OF inv] show ?thesis by blast
qed

lemma cc_exclusive:
  "\<lbrakk>reach (CCSynchStructInit n x0 s0) (act_step (cc_ok n) (cc_exec f)) l; combining (pc l p) \<and> combining (pc l q)\<rbrakk> \<Longrightarrow> p = q"
  by (drule cc_safe) blast

lemma step_moves: 
  assumes "pc l p \<notin> {K_out, K_spin, K_fault}"
  shows "pc (cc_exec f (Step p) l) p \<noteq> pc l p"
  using assms by (cases "pc l p"; cases "nxt l (wp l p)"; cases "arg_ret l (wp l p)"; cases "arg_ret l (cur l p)")
    (simp_all add: split_beta)

lemma cc_some_mover:
  assumes inv: "cc_inv_at P d l" and q: "pc l q \<noteq> K_out"
  shows "\<exists>p. pc l p \<notin> {K_out, K_fault} \<and> (pc l p = K_spin \<longrightarrow> \<not> locked l (cur l p))"
proof -
  note i = cc_invD [OF inv]
  have nf: "pc l p \<noteq> K_fault" for p using i(7) [of p] i(8) [of p] waiting_pc resting_pc by blast
  show ?thesis
  proof (cases "\<exists>c. combining (pc l c)")
    case True
    then obtain c where "combining (pc l c)" by blast
    then show ?thesis by (intro exI [of _ c]; cases "pc l c") simp_all
  next
    case nc: False
    show ?thesis
    proof (cases "arr l = []")
      case True
      with i(8) [of q] have "pc l q = K_spin \<Longrightarrow> \<not> locked l (cur l q)" by (simp add: resting_ok_def)
      then show ?thesis using q nf by blast
    next
      case False
      then have h: "hd (arr l) \<in> set (arr l)" "cur l (hd (arr l)) = d" using cc_chain_start [OF i(6)] by auto
      have "\<not> locked l d" using i(17) nc by blast
      moreover have "pc l (hd (arr l)) \<noteq> K_out" using waiting_pc [OF i(7) [OF h(1)]] by auto
      ultimately show ?thesis using h(2) nf by blast
    qed
  qed
qed

text \<open>C22. There is no deadlock: as long as some thread is inside an operation, some thread's next
  step moves it on; the threads that spin are waiting for somebody.\<close>

theorem ccsynch_no_deadlock:
  assumes "reach (CCSynchStructInit n x0 s0) (act_step (cc_ok n) (cc_exec f)) l" and "pc l q \<noteq> K_out"
  shows "\<exists>p. cc_ok n l (Step p) \<and> pc (cc_exec f (Step p) l) p \<noteq> pc l p"
proof -
  from cc_reach_inv [OF assms(1)] obtain d where inv: "cc_inv_at {..<n} d l" unfolding cc_inv_def by blast
  from cc_some_mover [OF inv assms(2)] obtain p where
    p: "pc l p \<notin> {K_out, K_fault}" "pc l p = K_spin \<longrightarrow> \<not> locked l (cur l p)" by blast
  then have "cc_ok n l (Step p)" using cc_invD(3) [OF inv, of p] by simp
  moreover have "pc (cc_exec f (Step p) l) p \<noteq> pc l p"
    using step_moves [of l p f] p by (cases "pc l p = K_spin") auto
  ultimately show ?thesis by blast
qed

section \<open>The properties at work\<close>

text \<open>Two threads add 5 and 7 to a counter; thread 0 becomes the combiner and serves both.\<close>

definition cc_demo :: "nat cc_act list" where
  "cc_demo = Invoke 0 5 # replicate 7 (Step 0) @ Invoke 1 7 # replicate 7 (Step 1)"

definition cc_demo2 :: "nat cc_act list" where
  "cc_demo2 = cc_demo @ replicate 15 (Step 0) @ replicate 3 (Step 1)"

definition fetch_add :: "tid \<Rightarrow> nat \<Rightarrow> nat \<Rightarrow> nat \<times> nat" where
  "fetch_add p x s = (s, s + x)"

lemmas cc_eval = cc_demo_def cc_demo2_def CCSynchStructInit_def CCSYNCH_HELP_FACTOR_def fetch_add_def replicate_num

theorem ccsynch_linearizable_witness:
  "linearizable fetch_add 100 [Call 0 5, Call 1 7, Ret 0 100, Ret 1 105]"
proof -
  obtain l where "run_trace (cc_ok 2) (cc_exec fetch_add) cc_obs cc_demo2 (CCSynchStructInit 2 0 (100 :: nat))
      = Some (l, [Call 0 5, Call 1 7, Ret 0 100, Ret 1 105])"
    by (simp add: cc_eval)
  from ccsynch_linearizable [OF run_trace_traces [OF this]] show ?thesis .
qed

definition cc_demo_state :: "(nat, nat, nat) CCSynchStruct" where
  "cc_demo_state = the (run_acts (cc_ok 2) (cc_exec fetch_add) (cc_demo @ replicate 2 (Step 0)) (CCSynchStructInit 2 0 100))"

lemma cc_demo_run:
  "run_acts (cc_ok 2) (cc_exec fetch_add) (cc_demo @ replicate 2 (Step 0)) (CCSynchStructInit 2 0 100) = Some cc_demo_state"
  by (simp add: cc_demo_state_def cc_eval)

lemma cc_demo_pcs: "pc cc_demo_state 0 = K_loop" "pc cc_demo_state 1 = K_spin"
  by (simp_all add: cc_demo_state_def cc_eval)

theorem ccsynch_no_deadlock_witness:
  "\<exists>p. cc_ok 2 cc_demo_state (Step p) \<and> pc (cc_exec fetch_add (Step p) cc_demo_state) p \<noteq> pc cc_demo_state p"
proof -
  have "pc cc_demo_state 1 \<noteq> K_out" using cc_demo_pcs by simp
  from ccsynch_no_deadlock [OF run_acts_reachable [OF cc_demo_run] this] show ?thesis .
qed

end
