(* ===== verification/DsmSynch.thy ===== *)
theory DsmSynch
  imports Linearizability
begin

text \<open>
  The DSM-Synch combining algorithm, libconcurrent/concurrent/dsmsynch.c. Requests are announced in
  a queue of nodes, as in the MCS lock; every thread owns two nodes and uses them in turn, so that a
  combiner may still follow the \<^verbatim>\<open>next\<close> pointer of a node whose owner has already gone on to
  its next request. A step is one access to shared memory; reading the request and writing its
  result are one step, since nobody else writes to those fields in between. Node \<open>2 * pid + t\<close> is
  \<^verbatim>\<open>MyNodes[t]\<close> of thread \<open>pid\<close>. \<open>arr\<close> is a ghost: the nodes from the one the combiner is at
  to the tail.
\<close>

section \<open>State and steps\<close>

datatype ('x, 'r) slot = Arg 'x | Res 'r

datatype dsm_pc =
    S_out
  | S_next     \<comment> \<open>\<^verbatim>\<open>toggle = 1 - toggle; mynode = MyNodes[toggle]; mynode->next = NULL\<close>\<close>
  | S_arg      \<comment> \<open>\<^verbatim>\<open>mynode->arg_ret = arg\<close>\<close>
  | S_pid      \<comment> \<open>\<^verbatim>\<open>mynode->pid = pid\<close>\<close>
  | S_lock     \<comment> \<open>\<^verbatim>\<open>mynode->locked = true\<close>\<close>
  | S_compl    \<comment> \<open>\<^verbatim>\<open>mynode->completed = false\<close>\<close>
  | S_swap     \<comment> \<open>\<^verbatim>\<open>mypred = SWAP(&l->Tail, mynode)\<close>\<close>
  | S_link     \<comment> \<open>\<^verbatim>\<open>mypred->next = mynode\<close>\<close>
  | S_spin     \<comment> \<open>\<^verbatim>\<open>while (mynode->locked)\<close>\<close>
  | S_check    \<comment> \<open>\<^verbatim>\<open>if (mynode->completed)\<close>\<close>
  | S_helped   \<comment> \<open>\<^verbatim>\<open>return mynode->arg_ret\<close>, line 33\<close>
  | S_apply    \<comment> \<open>\<^verbatim>\<open>counter++; p->arg_ret = sfunc(state, p->arg_ret, p->pid)\<close>\<close>
  | S_done     \<comment> \<open>\<^verbatim>\<open>p->completed = true\<close>\<close>
  | S_unlock   \<comment> \<open>\<^verbatim>\<open>p->locked = false\<close>\<close>
  | S_cond1    \<comment> \<open>\<^verbatim>\<open>p->next == NULL\<close>, line 52\<close>
  | S_cond2    \<comment> \<open>the second \<^verbatim>\<open>p->next\<close> of line 52\<close>
  | S_cond3    \<comment> \<open>\<^verbatim>\<open>p->next->next == NULL || counter >= help_bound\<close>\<close>
  | S_adv      \<comment> \<open>\<^verbatim>\<open>p = p->next\<close>\<close>
  | S_end      \<comment> \<open>\<^verbatim>\<open>if (p->next == NULL)\<close>, line 57\<close>
  | S_tail     \<comment> \<open>\<^verbatim>\<open>l->Tail == p\<close>\<close>
  | S_cas      \<comment> \<open>\<^verbatim>\<open>CASPTR(&l->Tail, p, NULL)\<close>\<close>
  | S_wait     \<comment> \<open>\<^verbatim>\<open>while (p->next == NULL)\<close>\<close>
  | S_load     \<comment> \<open>the \<^verbatim>\<open>p->next\<close> of line 64\<close>
  | S_pass     \<comment> \<open>\<^verbatim>\<open>p->next->locked = false\<close>\<close>
  | S_return   \<comment> \<open>\<^verbatim>\<open>return mynode->arg_ret\<close>, lines 58 and 67\<close>
  | S_fault

record ('x, 'r) DSMSynchNode =
  nxt :: "nat \<Rightarrow> ptr"
  arg_ret :: "nat \<Rightarrow> ('x, 'r) slot"
  npid :: "nat \<Rightarrow> tid"
  locked :: "nat \<Rightarrow> bool"
  completed :: "nat \<Rightarrow> bool"

record ('x, 'r, 's) DSMSynchStruct = "('x, 'r) DSMSynchNode" +
  nthreads :: nat
  Tail :: ptr
  obj :: 's
  \<comment> \<open>per thread: \<^verbatim>\<open>st_thread\<close> and the local variables\<close>
  toggle :: "tid \<Rightarrow> nat"
  mynode :: "tid \<Rightarrow> nat"
  mypred :: "tid \<Rightarrow> ptr"
  wp :: "tid \<Rightarrow> nat"
  tmp :: "tid \<Rightarrow> ptr"
  counter :: "tid \<Rightarrow> nat"
  arg :: "tid \<Rightarrow> 'x"
  pc :: "tid \<Rightarrow> dsm_pc"
  arr :: "nat list"

definition DSMSYNCH_HELP_FACTOR :: nat where "DSMSYNCH_HELP_FACTOR = 10"

definition DSMSynchStructInit :: "nat \<Rightarrow> 'x \<Rightarrow> 's \<Rightarrow> ('x, 'r, 's) DSMSynchStruct" where
  "DSMSynchStructInit n x0 s0 = \<lparr>nxt = (\<lambda>_. None), arg_ret = (\<lambda>_. Arg x0), npid = (\<lambda>_. 0),
     locked = (\<lambda>_. False), completed = (\<lambda>_. False), nthreads = n, Tail = None, obj = s0,
     toggle = (\<lambda>_. 0), mynode = (\<lambda>p. 2 * p), mypred = (\<lambda>_. None), wp = (\<lambda>_. 0), tmp = (\<lambda>_. None),
     counter = (\<lambda>_. 0), arg = (\<lambda>_. x0), pc = (\<lambda>_. S_out), arr = []\<rparr>"

abbreviation goto :: "tid \<Rightarrow> dsm_pc \<Rightarrow> ('x, 'r, 's) DSMSynchStruct \<Rightarrow> ('x, 'r, 's) DSMSynchStruct" where
  "goto p c l \<equiv> l\<lparr>pc := (pc l)(p := c)\<rparr>"

fun DSMSynchApplyOp :: "('x, 'r, 's) sfunc \<Rightarrow> tid \<Rightarrow> ('x, 'r, 's) DSMSynchStruct \<Rightarrow> ('x, 'r, 's) DSMSynchStruct" where
  "DSMSynchApplyOp sfunc pid l =
     (case pc l pid of
        S_next \<Rightarrow> (let t = 1 - toggle l pid; m = 2 * pid + t
                  in goto pid S_arg (l\<lparr>toggle := (toggle l)(pid := t), mynode := (mynode l)(pid := m), nxt := (nxt l)(m := None)\<rparr>))
      | S_arg \<Rightarrow> goto pid S_pid (l\<lparr>arg_ret := (arg_ret l)(mynode l pid := Arg (arg l pid))\<rparr>)
      | S_pid \<Rightarrow> goto pid S_lock (l\<lparr>npid := (npid l)(mynode l pid := pid)\<rparr>)
      | S_lock \<Rightarrow> goto pid S_compl (l\<lparr>locked := (locked l)(mynode l pid := True)\<rparr>)
      | S_compl \<Rightarrow> goto pid S_swap (l\<lparr>completed := (completed l)(mynode l pid := False)\<rparr>)
      | S_swap \<Rightarrow> goto pid (if Tail l = None then S_apply else S_link)
                   (l\<lparr>mypred := (mypred l)(pid := Tail l), Tail := Some (mynode l pid), arr := arr l @ [mynode l pid],
                      counter := (counter l)(pid := 0), wp := (wp l)(pid := mynode l pid)\<rparr>)
      | S_link \<Rightarrow> (case mypred l pid of
                     None \<Rightarrow> goto pid S_fault l
                   | Some m \<Rightarrow> goto pid S_spin (l\<lparr>nxt := (nxt l)(m := Some (mynode l pid))\<rparr>))
      | S_spin \<Rightarrow> if locked l (mynode l pid) then l else goto pid S_check l
      | S_check \<Rightarrow> if completed l (mynode l pid) then goto pid S_helped l
                   else goto pid S_apply (l\<lparr>counter := (counter l)(pid := 0), wp := (wp l)(pid := mynode l pid)\<rparr>)
      | S_apply \<Rightarrow> (case arg_ret l (wp l pid) of
                      Res r \<Rightarrow> goto pid S_fault l
                    | Arg x \<Rightarrow> (let (r, s) = sfunc (npid l (wp l pid)) x (obj l)
                               in goto pid S_done (l\<lparr>counter := (counter l)(pid := counter l pid + 1), obj := s,
                                    arg_ret := (arg_ret l)(wp l pid := Res r)\<rparr>)))
      | S_done \<Rightarrow> goto pid S_unlock (l\<lparr>completed := (completed l)(wp l pid := True)\<rparr>)
      | S_unlock \<Rightarrow> goto pid S_cond1 (l\<lparr>locked := (locked l)(wp l pid := False)\<rparr>)
      | S_cond1 \<Rightarrow> goto pid (if nxt l (wp l pid) = None then S_end else S_cond2) l
      | S_cond2 \<Rightarrow> goto pid S_cond3 (l\<lparr>tmp := (tmp l)(pid := nxt l (wp l pid))\<rparr>)
      | S_cond3 \<Rightarrow> (case tmp l pid of
                      None \<Rightarrow> goto pid S_fault l
                    | Some m \<Rightarrow> goto pid (if nxt l m = None \<or> counter l pid \<ge> DSMSYNCH_HELP_FACTOR * nthreads l
                                          then S_end else S_adv) l)
      | S_adv \<Rightarrow> (case nxt l (wp l pid) of
                    None \<Rightarrow> goto pid S_fault l
                  | Some m \<Rightarrow> goto pid S_apply (l\<lparr>wp := (wp l)(pid := m), arr := tl (arr l)\<rparr>))
      | S_end \<Rightarrow> goto pid (if nxt l (wp l pid) = None then S_tail else S_load) l
      | S_tail \<Rightarrow> goto pid (if Tail l = Some (wp l pid) then S_cas else S_wait) l
      | S_cas \<Rightarrow> (if Tail l = Some (wp l pid) then goto pid S_return (l\<lparr>Tail := None, arr := []\<rparr>) else goto pid S_wait l)
      | S_wait \<Rightarrow> if nxt l (wp l pid) = None then l else goto pid S_load l
      | S_load \<Rightarrow> goto pid S_pass (l\<lparr>tmp := (tmp l)(pid := nxt l (wp l pid))\<rparr>)
      | S_pass \<Rightarrow> (case tmp l pid of
                     None \<Rightarrow> goto pid S_fault l
                   | Some m \<Rightarrow> goto pid S_return (l\<lparr>locked := (locked l)(m := False), arr := tl (arr l)\<rparr>))
      | S_helped \<Rightarrow> (case arg_ret l (mynode l pid) of Arg x \<Rightarrow> goto pid S_fault l | Res r \<Rightarrow> goto pid S_out l)
      | S_return \<Rightarrow> (case arg_ret l (mynode l pid) of Arg x \<Rightarrow> goto pid S_fault l | Res r \<Rightarrow> goto pid S_out l)
      | _ \<Rightarrow> l)"

datatype 'x dsm_act = Invoke tid 'x | Step tid

fun dsm_ok :: "nat \<Rightarrow> ('x, 'r, 's) DSMSynchStruct \<Rightarrow> 'x dsm_act \<Rightarrow> bool" where
  "dsm_ok n l (Invoke p x) \<longleftrightarrow> p < n \<and> pc l p = S_out"
| "dsm_ok n l (Step p) \<longleftrightarrow> p < n \<and> pc l p \<notin> {S_out, S_fault}"

fun dsm_exec :: "('x, 'r, 's) sfunc \<Rightarrow> 'x dsm_act \<Rightarrow> ('x, 'r, 's) DSMSynchStruct \<Rightarrow> ('x, 'r, 's) DSMSynchStruct" where
  "dsm_exec sfunc (Invoke p x) l = goto p S_next (l\<lparr>arg := (arg l)(p := x)\<rparr>)"
| "dsm_exec sfunc (Step p) l = DSMSynchApplyOp sfunc p l"

fun dsm_obs :: "'x dsm_act \<Rightarrow> ('x, 'r, 's) DSMSynchStruct \<Rightarrow> ('x, 'r) event list" where
  "dsm_obs (Invoke p x) l = [Call p x]"
| "dsm_obs (Step p) l =
     (if pc l p \<in> {S_helped, S_return}
      then (case arg_ret l (mynode l p) of Res r \<Rightarrow> [Ret p r] | Arg x \<Rightarrow> []) else [])"

section \<open>Abstraction\<close>

fun slot_status :: "('x, 'r) slot \<Rightarrow> ('x, 'r) status" where
  "slot_status (Arg x) = Pend x" | "slot_status (Res r) = Done r"

definition dsm_status :: "('x, 'r, 's) DSMSynchStruct \<Rightarrow> tid \<Rightarrow> ('x, 'r) status" where
  "dsm_status l p =
     (if pc l p = S_out then Idle
      else if pc l p = S_next \<or> pc l p = S_arg then Pend (arg l p)
      else slot_status (arg_ret l (mynode l p)))"

definition dsm_abs :: "('x, 'r, 's) DSMSynchStruct \<Rightarrow> ('x, 'r, 's) config" where
  "dsm_abs l = (obj l, dsm_status l)"

section \<open>Invariant\<close>

text \<open>A thread that is writing its announcement; a combiner that is at work on a request.\<close>

fun preswap :: "dsm_pc \<Rightarrow> bool" where
  "preswap S_arg = True" | "preswap S_pid = True" | "preswap S_lock = True" | "preswap S_compl = True"
| "preswap S_swap = True" | "preswap _ = False"

fun serving :: "dsm_pc \<Rightarrow> bool" where
  "serving S_apply = True" | "serving S_done = True" | "serving S_unlock = True" | "serving _ = False"

abbreviation owner :: "nat \<Rightarrow> tid" where
  "owner x \<equiv> x div 2"

definition spare :: "('x, 'r, 's) DSMSynchStruct \<Rightarrow> tid \<Rightarrow> nat" where
  "spare l p = 2 * p + (1 - toggle l p)"

definition ready :: "('x, 'r, 's) DSMSynchStruct \<Rightarrow> nat \<Rightarrow> bool" where
  "ready l x \<longleftrightarrow> arg_ret l x = Arg (arg l (owner x)) \<and> npid l x = owner x \<and> \<not> completed l x \<and> mynode l (owner x) = x"

definition waiting :: "('x, 'r, 's) DSMSynchStruct \<Rightarrow> nat \<Rightarrow> bool" where
  "waiting l x \<longleftrightarrow> ready l x \<and> locked l x \<and> (pc l (owner x) = S_link \<or> pc l (owner x) = S_spin)"

definition link :: "('x, 'r, 's) DSMSynchStruct \<Rightarrow> nat \<Rightarrow> nat \<Rightarrow> bool" where
  "link l a b \<longleftrightarrow> pc l (owner b) = S_link \<and> mypred l (owner b) = Some a \<and> nxt l a = None
     \<or> pc l (owner b) = S_spin \<and> nxt l a = Some b"

fun chain :: "('x, 'r, 's) DSMSynchStruct \<Rightarrow> nat list \<Rightarrow> bool" where
  "chain l [] = True"
| "chain l [a] = (nxt l a = None)"
| "chain l (a # b # xs) = (link l a b \<and> chain l (b # xs))"

definition result :: "('x, 'r, 's) DSMSynchStruct \<Rightarrow> nat \<Rightarrow> bool" where
  "result l x \<longleftrightarrow> (\<exists>r. arg_ret l x = Res r)"

text \<open>The request at the head belongs to the combiner or to a thread that spins.\<close>

definition served :: "('x, 'r, 's) DSMSynchStruct \<Rightarrow> tid \<Rightarrow> bool" where
  "served l c \<longleftrightarrow> wp l c = hd (arr l) \<and> mynode l (owner (wp l c)) = wp l c \<and>
     (owner (wp l c) \<noteq> c \<longrightarrow> pc l (owner (wp l c)) = S_spin \<and> locked l (wp l c) \<and> result l (mynode l c))"

definition moving :: "('x, 'r, 's) DSMSynchStruct \<Rightarrow> tid \<Rightarrow> bool" where
  "moving l c \<longleftrightarrow> wp l c = hd (arr l) \<and> result l (mynode l c)"

definition combiner_ok :: "dsm_pc \<Rightarrow> ('x, 'r, 's) DSMSynchStruct \<Rightarrow> tid \<Rightarrow> bool" where
  "combiner_ok s l c =
     (case s of
        S_spin \<Rightarrow> mynode l c = hd (arr l) \<and> ready l (hd (arr l)) \<and> \<not> locked l (hd (arr l))
      | S_check \<Rightarrow> mynode l c = hd (arr l) \<and> ready l (hd (arr l))
      | S_apply \<Rightarrow> served l c \<and> ready l (wp l c)
      | S_done \<Rightarrow> served l c \<and> result l (wp l c)
      | S_unlock \<Rightarrow> served l c \<and> result l (wp l c) \<and> completed l (wp l c)
      | S_cond1 \<Rightarrow> moving l c
      | S_cond2 \<Rightarrow> moving l c \<and> nxt l (wp l c) \<noteq> None
      | S_cond3 \<Rightarrow> moving l c \<and> nxt l (wp l c) \<noteq> None \<and> tmp l c \<noteq> None
      | S_adv \<Rightarrow> moving l c \<and> nxt l (wp l c) \<noteq> None
      | S_end \<Rightarrow> moving l c
      | S_tail \<Rightarrow> moving l c
      | S_cas \<Rightarrow> moving l c
      | S_wait \<Rightarrow> moving l c
      | S_load \<Rightarrow> moving l c \<and> nxt l (wp l c) \<noteq> None
      | S_pass \<Rightarrow> moving l c \<and> nxt l (wp l c) \<noteq> None \<and> tmp l c = nxt l (wp l c)
      | _ \<Rightarrow> False)"

definition rest_ok :: "dsm_pc \<Rightarrow> ('x, 'r, 's) DSMSynchStruct \<Rightarrow> tid \<Rightarrow> bool" where
  "rest_ok s l p =
     (case s of
        S_out \<Rightarrow> True | S_next \<Rightarrow> True
      | S_arg \<Rightarrow> nxt l (mynode l p) = None
      | S_pid \<Rightarrow> nxt l (mynode l p) = None \<and> arg_ret l (mynode l p) = Arg (arg l p)
      | S_lock \<Rightarrow> nxt l (mynode l p) = None \<and> arg_ret l (mynode l p) = Arg (arg l p) \<and> npid l (mynode l p) = p
      | S_compl \<Rightarrow> nxt l (mynode l p) = None \<and> arg_ret l (mynode l p) = Arg (arg l p) \<and> npid l (mynode l p) = p
                     \<and> locked l (mynode l p)
      | S_swap \<Rightarrow> nxt l (mynode l p) = None \<and> ready l (mynode l p) \<and> locked l (mynode l p)
      | S_spin \<Rightarrow> \<not> locked l (mynode l p) \<and> completed l (mynode l p) \<and> result l (mynode l p)
      | S_check \<Rightarrow> completed l (mynode l p) \<and> result l (mynode l p)
      | S_helped \<Rightarrow> result l (mynode l p)
      | S_return \<Rightarrow> result l (mynode l p)
      | _ \<Rightarrow> False)"

definition at_rest :: "('x, 'r, 's) DSMSynchStruct \<Rightarrow> tid \<Rightarrow> tid \<Rightarrow> bool" where
  "at_rest l c p \<longleftrightarrow> mynode l p \<notin> set (tl (arr l)) \<and>
     (arr l = [] \<or> p \<noteq> c \<and> (mynode l p = hd (arr l) \<longrightarrow> \<not> serving (pc l c)))"

definition dsm_inv_at :: "tid \<Rightarrow> ('x, 'r, 's) DSMSynchStruct \<Rightarrow> bool" where
  "dsm_inv_at c l \<longleftrightarrow> Tail l = (if arr l = [] then None else Some (last (arr l))) \<and> distinct (arr l)
     \<and> (\<forall>p. toggle l p \<le> 1 \<and> mynode l p = 2 * p + toggle l p)
     \<and> (\<forall>x \<in> set (tl (arr l)). waiting l x) \<and> chain l (arr l)
     \<and> (arr l \<noteq> [] \<longrightarrow> combiner_ok (pc l c) l c) \<and> (\<forall>p. at_rest l c p \<longrightarrow> rest_ok (pc l p) l p)
     \<and> (\<forall>p. preswap (pc l p) \<longrightarrow> mynode l p \<notin> set (arr l))
     \<and> (\<forall>p. \<not> preswap (pc l p) \<and> mynode l p \<notin> set (tl (arr l)) \<longrightarrow> spare l p \<notin> set (arr l))"

definition dsm_inv :: "('x, 'r, 's) DSMSynchStruct \<Rightarrow> bool" where
  "dsm_inv l \<longleftrightarrow> (\<exists>c. dsm_inv_at c l)"

lemma dsm_invD:
  assumes "dsm_inv_at c l"
  shows "Tail l = (if arr l = [] then None else Some (last (arr l)))" "distinct (arr l)"
    "toggle l p \<le> 1" "mynode l p = 2 * p + toggle l p" "x \<in> set (tl (arr l)) \<Longrightarrow> waiting l x" "chain l (arr l)"
    "arr l \<noteq> [] \<Longrightarrow> combiner_ok (pc l c) l c" "at_rest l c p \<Longrightarrow> rest_ok (pc l p) l p"
    "preswap (pc l p) \<Longrightarrow> mynode l p \<notin> set (arr l)"
    "\<not> preswap (pc l p) \<Longrightarrow> mynode l p \<notin> set (tl (arr l)) \<Longrightarrow> spare l p \<notin> set (arr l)"
  using assms unfolding dsm_inv_at_def by blast+

lemma dsm_invI:
  assumes "Tail l = (if arr l = [] then None else Some (last (arr l)))" "distinct (arr l)"
    "\<And>p. toggle l p \<le> 1 \<and> mynode l p = 2 * p + toggle l p" "\<And>x. x \<in> set (tl (arr l)) \<Longrightarrow> waiting l x" "chain l (arr l)"
    "arr l \<noteq> [] \<Longrightarrow> combiner_ok (pc l c) l c" "\<And>p. at_rest l c p \<Longrightarrow> rest_ok (pc l p) l p"
    "\<And>p. preswap (pc l p) \<Longrightarrow> mynode l p \<notin> set (arr l)"
    "\<And>p. \<not> preswap (pc l p) \<Longrightarrow> mynode l p \<notin> set (tl (arr l)) \<Longrightarrow> spare l p \<notin> set (arr l)"
  shows "dsm_inv_at c l"
  using assms unfolding dsm_inv_at_def by blast

lemma owner_mynode: "dsm_inv_at c l \<Longrightarrow> owner (mynode l p) = p"
  using dsm_invD(3,4) [of c l p] by simp

lemma dsm_waiting_pc: "waiting l x \<Longrightarrow> mynode l (owner x) = x \<and> locked l x \<and> (pc l (owner x) = S_link \<or> pc l (owner x) = S_spin)"
  by (simp add: waiting_def ready_def)

text \<open>A thread is waiting when its node is behind the head.\<close>

lemma waiting_thread: "\<lbrakk>dsm_inv_at c l; mynode l p \<in> set (tl (arr l))\<rbrakk> \<Longrightarrow> waiting l (mynode l p) \<and> (pc l p = S_link \<or> pc l p = S_spin)"
  using dsm_invD(5) [of c l "mynode l p"] dsm_waiting_pc [of l "mynode l p"] owner_mynode [of c l p] by simp

lemma waiting_owner: "\<lbrakk>dsm_inv_at c l; x \<in> set (tl (arr l)); mynode l p \<notin> set (tl (arr l))\<rbrakk> \<Longrightarrow> owner x \<noteq> p"
  using dsm_invD(5) [of c l x] dsm_waiting_pc [of l x] by auto

lemma combiner_not_waiting:
  assumes "dsm_inv_at c l" "arr l \<noteq> []"
  shows "mynode l c \<notin> set (tl (arr l))"
proof
  assume m: "mynode l c \<in> set (tl (arr l))"
  from waiting_thread [OF assms(1) m] have "pc l c = S_link \<or> pc l c = S_spin" "locked l (mynode l c)"
    by (simp_all add: waiting_def)
  with dsm_invD(7) [OF assms] show False by (elim disjE) (auto simp: combiner_ok_def)
qed

lemma ready_cong:
  "\<lbrakk>arg_ret l' x = arg_ret l x; npid l' x = npid l x; completed l' x = completed l x;
    arg l' (owner x) = arg l (owner x); mynode l' (owner x) = mynode l (owner x)\<rbrakk> \<Longrightarrow> ready l' x = ready l x"
  by (simp add: ready_def)

lemma dsm_waiting_cong:
  "\<lbrakk>arg_ret l' x = arg_ret l x; npid l' x = npid l x; completed l' x = completed l x; locked l' x = locked l x;
    arg l' (owner x) = arg l (owner x); mynode l' (owner x) = mynode l (owner x); pc l' (owner x) = pc l (owner x)\<rbrakk>
   \<Longrightarrow> waiting l' x = waiting l x"
  by (simp add: waiting_def ready_def)

lemma dsm_chain_cong:
  assumes "\<And>a. a \<in> set xs \<Longrightarrow> nxt l' a = nxt l a"
    and "\<And>b. b \<in> set (tl xs) \<Longrightarrow> pc l' (owner b) = pc l (owner b) \<and> mypred l' (owner b) = mypred l (owner b)"
  shows "chain l' xs = chain l xs"
  using assms
proof (induction xs rule: chain.induct [case_names 1 2 3])
  case (3 l a b xs)
  have "chain l' (b # xs) = chain l (b # xs)" by (rule 3) (use 3 in \<open>auto dest: list.set_sel(2)\<close>)
  with 3(2) [of a] 3(3) [of b] show ?case by (simp add: link_def)
qed simp_all

text \<open>A step of a thread that is not in the queue, or has been served: it only touches its own node,
  and only when that is not in the queue.\<close>

lemma dsm_rest_step:
  assumes inv: "dsm_inv_at c l" and rest: "at_rest l c p"
    and same: "arr l' = arr l" "Tail l' = Tail l"
      "\<And>q. q \<noteq> p \<Longrightarrow> pc l' q = pc l q \<and> arg l' q = arg l q \<and> mynode l' q = mynode l q \<and> toggle l' q = toggle l q
         \<and> mypred l' q = mypred l q \<and> wp l' q = wp l q \<and> tmp l' q = tmp l q"
    and node: "\<And>y. y \<noteq> mynode l' p \<or> mynode l' p \<in> set (arr l) \<Longrightarrow> nxt l' y = nxt l y \<and> arg_ret l' y = arg_ret l y
         \<and> npid l' y = npid l y \<and> locked l' y = locked l y \<and> completed l' y = completed l y"
    and own: "toggle l' p \<le> 1" "mynode l' p = 2 * p + toggle l' p" "rest_ok (pc l' p) l' p"
      "preswap (pc l' p) \<Longrightarrow> mynode l' p \<notin> set (arr l)" "\<not> preswap (pc l' p) \<Longrightarrow> spare l' p \<notin> set (arr l)"
      "mynode l' p \<notin> set (tl (arr l))"
  shows "dsm_inv_at c l'"
proof -
  note i = dsm_invD [OF inv]
  have ow: "owner (mynode l' q) = q" for q using own(1,2) i(3,4) [of q] same(3) [of q] by (cases "q = p") auto
  have arrnode: "nxt l' y = nxt l y" "arg_ret l' y = arg_ret l y" "npid l' y = npid l y" "locked l' y = locked l y"
      "completed l' y = completed l y" if "y \<in> set (arr l)" for y using node [of y] that by (cases "y = mynode l' p"; simp)+
  have other: "nxt l' (mynode l q) = nxt l (mynode l q)" "arg_ret l' (mynode l q) = arg_ret l (mynode l q)"
      "npid l' (mynode l q) = npid l (mynode l q)" "locked l' (mynode l q) = locked l (mynode l q)"
      "completed l' (mynode l q) = completed l (mynode l q)" if "q \<noteq> p" for q
    using node [of "mynode l q"] ow [of p] owner_mynode [OF inv, of q] that by (metis)+
  have np: "mynode l p \<notin> set (tl (arr l))" using rest by (simp add: at_rest_def)
  have tlo: "owner x \<noteq> p" if "x \<in> set (tl (arr l))" for x using waiting_owner [OF inv that np] .
  have sub: "x \<in> set (tl (arr l)) \<Longrightarrow> x \<in> set (arr l)" for x by (cases "arr l") auto
  show ?thesis
  proof (rule dsm_invI)
    show "Tail l' = (if arr l' = [] then None else Some (last (arr l')))" "distinct (arr l')" using i(1,2) same by simp_all
    show "toggle l' q \<le> 1 \<and> mynode l' q = 2 * q + toggle l' q" for q
      using own(1,2) i(3,4) [of q] same(3) [of q] by (cases "q = p") auto
    show "waiting l' x" if "x \<in> set (tl (arr l'))" for x
      using that same tlo [of x] arrnode [OF sub, of x] i(5) [of x] by (subst dsm_waiting_cong [of _ _ l]) auto
    show "chain l' (arr l')" using same tlo arrnode i(6) by (subst dsm_chain_cong [of _ _ l]) auto
    show "combiner_ok (pc l' c) l' c" if "arr l' \<noteq> []"
    proof -
      have ne: "arr l \<noteq> []" and pc: "p \<noteq> c" using that same rest by (auto simp: at_rest_def)
      note k = i(7) [OF ne]
      have hd: "hd (arr l) \<in> set (arr l)" using ne by simp
      have sc: "pc l' c = pc l c" "mynode l' c = mynode l c" "wp l' c = wp l c" "tmp l' c = tmp l c" using same(3) pc by auto
      have res: "result l' (mynode l c) = result l (mynode l c)" using other(2) [of c] pc by (simp add: result_def)
      have nxts: "wp l c = hd (arr l) \<Longrightarrow> nxt l' (wp l c) = nxt l (wp l c)" using arrnode(1) hd by simp
      have mine: "mynode l c = hd (arr l) \<Longrightarrow> ready l' (hd (arr l)) = ready l (hd (arr l)) \<and> locked l' (hd (arr l)) = locked l (hd (arr l))"
        using arrnode [OF hd] same(3) [of c] pc owner_mynode [OF inv, of c] by (simp add: ready_def)
      have sv: "served l' c \<and> ready l' (wp l c) = ready l (wp l c) \<and> result l' (wp l c) = result l (wp l c)
          \<and> completed l' (wp l c) = completed l (wp l c)" if "serving (pc l c)" "served l c"
      proof -
        have h: "wp l c = hd (arr l)" "mynode l (owner (hd (arr l))) = hd (arr l)"
            "owner (hd (arr l)) \<noteq> c \<longrightarrow> pc l (owner (hd (arr l))) = S_spin \<and> locked l (hd (arr l)) \<and> result l (mynode l c)"
          using that(2) unfolding served_def by metis+
        have op: "owner (wp l c) \<noteq> p" using rest that(1) h ne by (auto simp: at_rest_def)
        note sq = same(3) [OF op]
        have "ready l' (wp l c) = ready l (wp l c)" using arrnode [OF hd] sq h(1) by (intro ready_cong) auto
        moreover have "served l' c" using h sq res sc arrnode [OF hd] same(1) unfolding served_def by simp
        ultimately show ?thesis using arrnode [OF hd] h(1) by (simp add: result_def)
      qed
      have mv: "moving l c \<Longrightarrow> moving l' c" using res sc same(1) by (simp add: moving_def)
      have wh: "moving l c \<Longrightarrow> nxt l' (wp l c) = nxt l (wp l c)" using nxts by (simp add: moving_def)
      show ?thesis using k mine sv mv wh unfolding combiner_ok_def sc same(1) by (cases "pc l c") simp_all
    qed
    show "rest_ok (pc l' q) l' q" if "at_rest l' c q" for q
    proof (cases "q = p")
      case True
      then show ?thesis using own(3) by simp
    next
      case False
      note sq = same(3) [OF False]
      have "at_rest l c q" using that same(1) sq rest same(3) [of c] unfolding at_rest_def by metis
      from i(8) [OF this] show ?thesis using other [OF False] sq owner_mynode [OF inv, of q]
        by (simp add: rest_ok_def result_def ready_def split: dsm_pc.splits)
    qed
    show "mynode l' q \<notin> set (arr l')" if "preswap (pc l' q)" for q
      using that same(1) own(4) i(9) [of q] same(3) [of q] by (cases "q = p") auto
    show "spare l' q \<notin> set (arr l')" if "\<not> preswap (pc l' q)" "mynode l' q \<notin> set (tl (arr l'))" for q
      using that same(1) own(5) i(10) [of q] same(3) [of q] by (cases "q = p") (auto simp: spare_def)
  qed
qed

lemma combiner_pc: "combiner_ok s l c \<Longrightarrow> \<not> preswap s \<and> s \<noteq> S_out \<and> s \<noteq> S_fault \<and> s \<noteq> S_link \<and> s \<noteq> S_return
    \<and> s \<noteq> S_next \<and> s \<noteq> S_helped"
  by (cases s) (simp_all add: combiner_ok_def)

text \<open>A step of the combiner that keeps the queue: it may write to the node at the head.\<close>

lemma dsm_combiner_step:
  assumes inv: "dsm_inv_at c l" and ne: "arr l \<noteq> []"
    and same: "arr l' = arr l" "Tail l' = Tail l" "mynode l' = mynode l" "toggle l' = toggle l" "arg l' = arg l"
      "mypred l' = mypred l" "nxt l' = nxt l" "\<And>q. q \<noteq> c \<Longrightarrow> pc l' q = pc l q"
    and node: "\<And>y. y \<noteq> hd (arr l) \<Longrightarrow> arg_ret l' y = arg_ret l y
         \<and> npid l' y = npid l y \<and> locked l' y = locked l y \<and> completed l' y = completed l y"
    and ok: "combiner_ok (pc l' c) l' c"
    and hd: "\<And>q. \<lbrakk>q \<noteq> c; mynode l q = hd (arr l); \<not> serving (pc l' c)\<rbrakk> \<Longrightarrow> rest_ok (pc l q) l' q"
  shows "dsm_inv_at c l'"
proof -
  note i = dsm_invD [OF inv]
  have cw: "mynode l c \<notin> set (tl (arr l))" by (rule combiner_not_waiting [OF inv ne])
  have tln: "x \<noteq> hd (arr l)" if "x \<in> set (tl (arr l))" for x using that i(2) ne by (cases "arr l") auto
  show ?thesis
  proof (rule dsm_invI)
    show "Tail l' = (if arr l' = [] then None else Some (last (arr l')))" "distinct (arr l')" using i(1,2) same by simp_all
    show "toggle l' q \<le> 1 \<and> mynode l' q = 2 * q + toggle l' q" for q using i(3,4) [of q] same by simp
    show "waiting l' x" if "x \<in> set (tl (arr l'))" for x
      using that same waiting_owner [OF inv _ cw, of x] node [OF tln, of x] i(5) [of x]
      by (subst dsm_waiting_cong [of _ _ l]) auto
    show "chain l' (arr l')" using same waiting_owner [OF inv _ cw] i(6) by (subst dsm_chain_cong [of _ _ l]) auto
    show "combiner_ok (pc l' c) l' c" by (rule ok)
    show "rest_ok (pc l' q) l' q" if r: "at_rest l' c q" for q
    proof -
      have q: "q \<noteq> c" "mynode l q \<notin> set (tl (arr l))" "mynode l q = hd (arr l) \<Longrightarrow> \<not> serving (pc l' c)"
        using r ne same by (auto simp: at_rest_def)
      show ?thesis
      proof (cases "mynode l q = hd (arr l)")
        case True
        then show ?thesis using hd q same(8) by simp
      next
        case False
        then have "at_rest l c q" using q by (simp add: at_rest_def)
        from i(8) [OF this] show ?thesis using node [OF False] same q(1) owner_mynode [OF inv, of q]
          by (simp add: rest_ok_def result_def ready_def split: dsm_pc.splits)
      qed
    qed
    have "\<not> preswap (pc l' c)" "\<not> preswap (pc l c)" using ok i(7) [OF ne] combiner_pc by blast+
    then show "mynode l' q \<notin> set (arr l')" if "preswap (pc l' q)" for q
      using that same i(9) [of q] by (cases "q = c") auto
    show "spare l' q \<notin> set (arr l')" if "\<not> preswap (pc l' q)" "mynode l' q \<notin> set (tl (arr l'))" for q
      using that same i(10) [of q] \<open>\<not> preswap (pc l c)\<close> by (cases "q = c") (auto simp: spare_def)
  qed
qed

text \<open>The successor in the queue, once it is linked.\<close>

lemma chain_second: "chain l (a # xs) \<Longrightarrow> nxt l a = Some b \<Longrightarrow> \<exists>ys. xs = b # ys \<and> pc l (owner b) = S_spin"
  by (cases xs) (auto simp: link_def)

lemma chain_tl: "chain l xs \<Longrightarrow> chain l (tl xs)"
  by (cases xs rule: remdups_adj.cases) auto

lemma chain_snoc:
  "\<lbrakk>chain l xs; xs \<noteq> []; pc l (owner b) = S_link; mypred l (owner b) = Some (last xs); nxt l b = None\<rbrakk>
   \<Longrightarrow> chain l (xs @ [b])"
proof (induction xs rule: chain.induct [case_names 1 2 3])
  case (2 l a)
  then show ?case by (simp add: link_def)
next
  case (3 l a c xs)
  then show ?case by simp
qed simp

lemma chain_link:
  assumes "chain l xs" "distinct xs" "\<And>x. x \<in> set (tl xs) \<Longrightarrow> mynode l (owner x) = x"
    "mynode l p \<in> set (tl xs)" "owner (mynode l p) = p" "pc l p = S_link"
    "\<And>a. nxt l' a = (if mypred l p = Some a then Some (mynode l p) else nxt l a)"
    "pc l' = (pc l)(p := S_spin)" "mypred l' = mypred l"
  shows "chain l' xs \<and> (\<exists>a \<in> set xs. mypred l p = Some a \<and> nxt l a = None)"
  using assms
proof (induction xs rule: chain.induct [case_names 1 2 3])
  case (3 l a b xs)
  show ?case
  proof (cases "b = mynode l p")
    case True
    with 3 have b: "mypred l p = Some a" "nxt l a = None" by (auto simp: link_def)
    have "chain l' (b # xs) = chain l (b # xs)"
    proof (rule dsm_chain_cong)
      show "nxt l' y = nxt l y" if "y \<in> set (b # xs)" for y using that b 3(3,8) by auto
      show "pc l' (owner y) = pc l (owner y) \<and> mypred l' (owner y) = mypred l (owner y)" if "y \<in> set (tl (b # xs))" for y
      proof -
        have "mynode l (owner y) = y" "y \<noteq> b" using that 3(4) [of y] 3(3) by auto
        then have "owner y \<noteq> p" using True by auto
        then show ?thesis using 3(9,10) by simp
      qed
    qed
    moreover have "link l' a b" using b True 3(6,8,9) by (simp add: link_def)
    ultimately show ?thesis using 3(2) b by simp
  next
    case False
    then have inxs: "mynode l p \<in> set (tl (b # xs))" using 3(5) by simp
    have "chain l' (b # xs) \<and> (\<exists>a \<in> set (b # xs). mypred l p = Some a \<and> nxt l a = None)"
      by (rule 3(1)) (use 3 inxs in \<open>auto dest: list.set_sel(2)\<close>)
    moreover have "owner b \<noteq> p" using False 3(4) [of b] by auto
    moreover have "mypred l p \<noteq> Some a" using calculation 3(3) by auto
    ultimately show ?thesis using 3(2,8,9,10) by (simp add: link_def)
  qed
qed simp_all

section \<open>Steps outside the queue\<close>

lemma rest_by_pc:
  assumes inv: "dsm_inv_at c l" and "pc l p \<noteq> S_link" "pc l p \<noteq> S_spin" "arr l \<noteq> [] \<longrightarrow> p \<noteq> c"
  shows "at_rest l c p"
proof -
  have "\<not> serving (pc l c)" if ne: "arr l \<noteq> []" and h: "mynode l p = hd (arr l)"
  proof
    assume "serving (pc l c)"
    with dsm_invD(7) [OF inv ne] have "served l c" by (cases "pc l c") (simp_all add: combiner_ok_def)
    moreover have "owner (hd (arr l)) = p" using owner_mynode [OF inv, of p] h by simp
    ultimately show False using assms(3,4) ne by (auto simp: served_def)
  qed
  with waiting_thread [OF inv, of p] assms(2-4) show ?thesis by (auto simp: at_rest_def)
qed

lemma outside_rest:
  "\<lbrakk>dsm_inv_at c l; preswap (pc l p) \<or> pc l p \<in> {S_out, S_next, S_helped, S_return}\<rbrakk> \<Longrightarrow> at_rest l c p"
  using combiner_pc [OF dsm_invD(7) [of c l]] by (intro rest_by_pc) auto

lemma dsm_invoke:
  assumes inv: "dsm_inv_at c l" and pcl: "pc l p = S_out"
  shows "dsm_inv_at c (goto p S_next (l\<lparr>arg := (arg l)(p := x)\<rparr>))"
proof -
  have r: "at_rest l c p" using pcl by (intro outside_rest [OF inv]) simp
  note i = dsm_invD [OF inv]
  show ?thesis
    by (rule dsm_rest_step [OF inv r]) (use i(3,4,10) [of p] r pcl in \<open>auto simp: rest_ok_def at_rest_def spare_def\<close>)
qed

lemma dsm_prepare:
  assumes inv: "dsm_inv_at c l" and pcl: "pc l p \<in> {S_next, S_arg, S_pid, S_lock, S_compl}"
  shows "dsm_inv_at c (DSMSynchApplyOp f p l)"
proof -
  have r: "at_rest l c p" using pcl by (intro outside_rest [OF inv]) auto
  note i = dsm_invD [OF inv]
  note ok = i(8) [OF r]
  have ow: "owner (mynode l p) = p" by (rule owner_mynode [OF inv])
  show ?thesis
  proof (cases "pc l p = S_next")
    case True
    have sp: "2 * p + (1 - toggle l p) \<notin> set (arr l)"
      using i(10) [of p] True r by (simp add: at_rest_def spare_def)
    have tl: "2 * p + (1 - toggle l p) \<notin> set (tl (arr l))" using sp by (cases "arr l") auto
    show ?thesis
      by (rule dsm_rest_step [OF inv r]) (use True sp tl i(3) [of p] in \<open>auto simp: rest_ok_def Let_def\<close>)
  next
    case False
    then have n: "mynode l p \<notin> set (arr l)" using i(9) [of p] pcl by auto
    have tl: "mynode l p \<notin> set (tl (arr l))" using n by (cases "arr l") auto
    from False pcl consider "pc l p = S_arg" | "pc l p = S_pid" | "pc l p = S_lock" | "pc l p = S_compl" by blast
    then show ?thesis
      by cases (rule dsm_rest_step [OF inv r]; use ok n tl ow i(3,4) [of p] in \<open>auto simp: rest_ok_def ready_def\<close>)+
  qed
qed

lemma dsm_finish:
  assumes inv: "dsm_inv_at c l" and pcl: "pc l p = S_helped \<or> pc l p = S_return"
  shows "dsm_inv_at c (DSMSynchApplyOp f p l) \<and> (\<exists>r. arg_ret l (mynode l p) = Res r)"
proof -
  have r: "at_rest l c p" using pcl by (intro outside_rest [OF inv]) auto
  note i = dsm_invD [OF inv]
  from i(8) [OF r] pcl have res: "result l (mynode l p)" by (auto simp: rest_ok_def)
  then obtain v where v: "arg_ret l (mynode l p) = Res v" by (auto simp: result_def)
  have "DSMSynchApplyOp f p l = goto p S_out l" using pcl v by auto
  moreover have "dsm_inv_at c (goto p S_out l)"
    by (rule dsm_rest_step [OF inv r]) (use i(3,4,10) [of p] r pcl in \<open>auto simp: rest_ok_def at_rest_def spare_def\<close>)
  ultimately show ?thesis using v by auto
qed

text \<open>A thread that spins or looks at its node.\<close>

lemma dsm_look:
  assumes inv: "dsm_inv_at c l" and pcl: "pc l p = S_spin \<or> pc l p = S_check"
  shows "dsm_inv_at c (DSMSynchApplyOp f p l)"
proof -
  note i = dsm_invD [OF inv]
  consider (wait) "mynode l p \<in> set (tl (arr l))" | (comb) "arr l \<noteq> []" "p = c" | (rest) "at_rest l c p"
    | (srv) "arr l \<noteq> []" "p \<noteq> c" "mynode l p = hd (arr l)" "serving (pc l c)"
    unfolding at_rest_def by blast
  then show ?thesis
  proof cases
    case wait
    from waiting_thread [OF inv wait] pcl have "DSMSynchApplyOp f p l = l" by (auto simp: waiting_def)
    with inv show ?thesis by simp
  next
    case srv
    with i(7) have "served l c" by (cases "pc l c") (simp_all add: combiner_ok_def)
    moreover have "owner (hd (arr l)) = p" using owner_mynode [OF inv, of p] srv by simp
    ultimately have "pc l p = S_spin" "locked l (mynode l p)" using srv by (auto simp: served_def)
    with inv show ?thesis by simp
  next
    case rest
    have ok: "rest_ok (pc l p) l p" by (rule i(8) [OF rest])
    show ?thesis using pcl
    proof
      assume s: "pc l p = S_spin"
      show ?thesis
        by (rule dsm_rest_step [OF inv rest]) (use i(3,4,10) [of p] rest s ok in \<open>auto simp: rest_ok_def at_rest_def spare_def result_def\<close>)
    next
      assume s: "pc l p = S_check"
      show ?thesis
        by (rule dsm_rest_step [OF inv rest]) (use i(3,4,10) [of p] rest s ok in \<open>auto simp: rest_ok_def at_rest_def spare_def result_def\<close>)
    qed
  next
    case comb
    note ok = i(7) [OF comb(1)]
    have uniq: "mynode l q \<noteq> hd (arr l)" if "q \<noteq> c" "mynode l c = hd (arr l)" for q
      using owner_mynode [OF inv, of q] owner_mynode [OF inv, of c] that by auto
    show ?thesis using pcl
    proof
      assume s: "pc l p = S_spin"
      show ?thesis
        by (rule dsm_combiner_step [OF inv comb(1)]) (use s ok comb(2) uniq in \<open>auto simp: combiner_ok_def ready_def\<close>)
    next
      assume s: "pc l p = S_check"
      have "owner (hd (arr l)) = c" using ok s comb(2) owner_mynode [OF inv, of c] by (simp add: combiner_ok_def)
      then show ?thesis
        by (intro dsm_combiner_step [OF inv comb(1)])
          (use s ok comb(2) uniq in \<open>auto simp: combiner_ok_def ready_def served_def\<close>)
    qed
  qed
qed

section \<open>Steps of the combiner\<close>

lemma combiner_by_pc:
  assumes inv: "dsm_inv_at c l" and pcl: "serving (pc l p) \<or> pc l p \<in> {S_cond1, S_cond2, S_cond3, S_adv, S_end, S_tail, S_cas,
      S_wait, S_load, S_pass}"
  shows "arr l \<noteq> [] \<and> p = c"
proof (rule ccontr)
  assume "\<not> ?thesis"
  then have "at_rest l c p" using pcl by (intro rest_by_pc [OF inv]) auto
  from dsm_invD(8) [OF inv this] pcl show False by (cases "pc l p") (simp_all add: rest_ok_def)
qed

lemma dsm_serve:
  assumes inv: "dsm_inv_at c l" and pcl: "serving (pc l p)"
  shows "dsm_inv_at c (DSMSynchApplyOp f p l)"
proof -
  from combiner_by_pc [OF inv] pcl have ne: "arr l \<noteq> []" and p: "p = c" by blast+
  note ok = dsm_invD(7) [OF inv ne]
  from ok pcl p have sv: "served l c" by (cases "pc l c") (simp_all add: combiner_ok_def)
  then have h: "wp l c = hd (arr l)" "mynode l (owner (hd (arr l))) = hd (arr l)"
      "owner (hd (arr l)) \<noteq> c \<Longrightarrow> pc l (owner (hd (arr l))) = S_spin \<and> locked l (hd (arr l)) \<and> result l (mynode l c)"
    unfolding served_def by metis+
  have cn: "owner (mynode l c) = c" by (rule owner_mynode [OF inv])
  have qo: "owner (hd (arr l)) = q" if "mynode l q = hd (arr l)" for q using owner_mynode [OF inv, of q] that by simp
  have own: "owner (hd (arr l)) \<noteq> c \<Longrightarrow> mynode l c \<noteq> hd (arr l)" using cn by auto
  show ?thesis
  proof (cases "pc l c")
    case S_apply
    with ok have "ready l (hd (arr l))" using h(1) by (simp add: combiner_ok_def)
    then obtain x where x: "arg_ret l (hd (arr l)) = Arg x" by (simp add: ready_def)
    show ?thesis unfolding p
      by (rule dsm_combiner_step [OF inv ne])
        (use S_apply h x own in \<open>auto simp: combiner_ok_def served_def result_def split: prod.splits\<close>)
  next
    case S_done
    then show ?thesis unfolding p using ok h
      by (intro dsm_combiner_step [OF inv ne]) (auto simp: combiner_ok_def served_def result_def)
  next
    case S_unlock
    have eq: "DSMSynchApplyOp f c l = goto c S_cond1 (l\<lparr>locked := (locked l)(wp l c := False)\<rparr>)" using S_unlock by simp
    have r: "result l (hd (arr l))" "completed l (hd (arr l))" using ok S_unlock h(1) by (simp_all add: combiner_ok_def)
    have rc: "result l (mynode l c)" using h r(1) by (cases "owner (hd (arr l)) = c") auto
    show ?thesis unfolding p eq
    proof (rule dsm_combiner_step [OF inv ne])
      fix q assume q: "q \<noteq> c" "mynode l q = hd (arr l)"
      then have "pc l q = S_spin" using h(3) qo [OF q(2)] by auto
      then show "rest_ok (pc l q) (goto c S_cond1 (l\<lparr>locked := (locked l)(wp l c := False)\<rparr>)) q"
        using r q h(1) by (simp add: rest_ok_def result_def)
    qed (use h(1) rc in \<open>auto simp: combiner_ok_def moving_def result_def\<close>)
  qed (use pcl p in simp_all)
qed

lemma dsm_move:
  assumes inv: "dsm_inv_at c l" and pcl: "pc l p \<in> {S_cond1, S_cond2, S_cond3, S_end, S_tail, S_wait, S_load}
      \<or> pc l p = S_cas \<and> Tail l \<noteq> Some (wp l p)"
  shows "dsm_inv_at c (DSMSynchApplyOp f p l)"
proof -
  from combiner_by_pc [OF inv] pcl have ne: "arr l \<noteq> []" and p: "p = c" by blast+
  note ok = dsm_invD(7) [OF inv ne]
  have ns: "\<not> serving (pc l c)" using pcl p by auto
  have mv: "moving l c" using ok pcl p by (auto simp: combiner_ok_def)
  define k where "k = DSMSynchApplyOp f c l"
  have local: "dsm_inv_at c k" if k: "arr k = arr l" "Tail k = Tail l" "mynode k = mynode l" "toggle k = toggle l" "arg k = arg l"
      "mypred k = mypred l" "nxt k = nxt l" "\<And>q. q \<noteq> c \<Longrightarrow> pc k q = pc l q" "arg_ret k = arg_ret l" "npid k = npid l"
      "locked k = locked l" "completed k = completed l" "combiner_ok (pc k c) k c"
  proof (rule dsm_combiner_step [OF inv ne])
    fix q assume q: "q \<noteq> c" "mynode l q = hd (arr l)"
    have "hd (arr l) \<notin> set (tl (arr l))" using dsm_invD(2) [OF inv] ne by (cases "arr l") auto
    then have "at_rest l c q" using q ns ne by (simp add: at_rest_def)
    from dsm_invD(8) [OF inv this] show "rest_ok (pc l q) k q"
      using k by (simp add: rest_ok_def result_def ready_def split: dsm_pc.splits)
  qed (use k in simp_all)
  have "dsm_inv_at c k"
    using pcl p ok mv ns
    by (elim disjE insertE emptyE conjE)
      (intro local; simp add: k_def combiner_ok_def moving_def result_def split: option.splits)+
  then show ?thesis unfolding p k_def .
qed

section \<open>Steps that change the queue\<close>

lemma dsm_next_node:
  assumes inv: "dsm_inv_at c l" and ne: "arr l \<noteq> []" and w: "wp l c = hd (arr l)" and n: "nxt l (wp l c) = Some m"
  obtains ys where "arr l = wp l c # m # ys" "waiting l m" "pc l (owner m) = S_spin" "owner m \<noteq> c" "mynode l (owner m) = m"
proof -
  note i = dsm_invD [OF inv]
  obtain xs where xs: "arr l = wp l c # xs" using ne w by (cases "arr l") auto
  with i(6) n chain_second obtain ys where ys: "xs = m # ys" "pc l (owner m) = S_spin" by metis
  then have m: "m \<in> set (tl (arr l))" using xs by simp
  have "owner m \<noteq> c" using waiting_owner [OF inv m combiner_not_waiting [OF inv ne]] .
  moreover have "waiting l m" by (rule i(5) [OF m])
  ultimately show ?thesis using that xs ys dsm_waiting_pc by metis
qed

text \<open>The unused node of a thread whose other node is behind the head is not in the queue.\<close>

lemma spare_free:
  assumes inv: "dsm_inv_at c l" and m: "mynode l q \<in> set (tl (arr l))"
  shows "spare l q \<notin> set (tl (arr l))"
proof
  note i = dsm_invD [OF inv]
  assume "spare l q \<in> set (tl (arr l))"
  from dsm_waiting_pc [OF i(5) [OF this]] have "mynode l (owner (spare l q)) = spare l q" by simp
  moreover have "owner (spare l q) = q" by (auto simp: spare_def)
  ultimately show False using i(3,4) [of q] by (auto simp: spare_def) arith
qed

lemma dsm_advance:
  assumes inv: "dsm_inv_at c l" and pcl: "pc l p = S_adv"
  shows "dsm_inv_at c (DSMSynchApplyOp f p l)"
proof -
  note i = dsm_invD [OF inv]
  from combiner_by_pc [OF inv, of p] pcl have ne: "arr l \<noteq> []" and p: "p = c" by simp_all
  from i(7) [OF ne] pcl p have "moving l c \<and> nxt l (wp l c) \<noteq> None" by (simp add: combiner_ok_def)
  then have mv: "wp l c = hd (arr l)" "result l (mynode l c)" "nxt l (wp l c) \<noteq> None" unfolding moving_def by metis+
  then obtain m where m: "nxt l (wp l c) = Some m" by blast
  from dsm_next_node [OF inv ne mv(1) m] obtain ys where ys: "arr l = wp l c # m # ys" and
    w: "waiting l m" "pc l (owner m) = S_spin" "owner m \<noteq> c" "mynode l (owner m) = m" by blast
  define k where "k = goto c S_apply (l\<lparr>wp := (wp l)(c := m), arr := m # ys\<rparr>)"
  have eq: "DSMSynchApplyOp f p l = k" using pcl p m ys by (simp add: k_def)
  have cw: "mynode l c \<notin> set (tl (arr l))" by (rule combiner_not_waiting [OF inv ne])
  have "dsm_inv_at c k"
  proof (rule dsm_invI)
    show "Tail k = (if arr k = [] then None else Some (last (arr k)))" "distinct (arr k)" using i(1,2) ys by (simp_all add: k_def)
    show "toggle k q \<le> 1 \<and> mynode k q = 2 * q + toggle k q" for q using i(3,4) [of q] by (simp add: k_def)
    show "waiting k x" if "x \<in> set (tl (arr k))" for x
      using that ys i(5) [of x] waiting_owner [OF inv _ cw, of x] by (subst dsm_waiting_cong [of _ _ l]) (auto simp: k_def)
    show "chain k (arr k)"
      using chain_tl [OF i(6)] ys waiting_owner [OF inv _ cw] by (subst dsm_chain_cong [of _ _ l]) (auto simp: k_def)
    show "combiner_ok (pc k c) k c"
      using w mv(2) by (simp add: k_def combiner_ok_def served_def result_def waiting_def ready_def)
    show "rest_ok (pc k q) k q" if r: "at_rest k c q" for q
    proof -
      have "mynode l q \<noteq> m" "mynode l q \<notin> set ys" "q \<noteq> c" using r by (auto simp: at_rest_def k_def)
      then have "at_rest l c q" using ys pcl p by (simp add: at_rest_def)
      from i(8) [OF this] show ?thesis using \<open>q \<noteq> c\<close>
        by (simp add: k_def rest_ok_def result_def ready_def split: dsm_pc.splits)
    qed
    show "mynode k q \<notin> set (arr k)" if "preswap (pc k q)" for q
      using that i(9) [of q] ys by (cases "q = c") (auto simp: k_def)
    show "spare k q \<notin> set (arr k)" if "\<not> preswap (pc k q)" "mynode k q \<notin> set (tl (arr k))" for q
    proof (cases "mynode l q = m")
      case True
      then show ?thesis using spare_free [OF inv, of q] ys by (simp add: k_def spare_def)
    next
      case False
      have "\<not> preswap (pc l q)" using that(1) pcl p by (cases "q = c") (simp_all add: k_def)
      then show ?thesis using that(2) i(10) [of q] ys False by (simp add: k_def spare_def)
    qed
  qed
  then show ?thesis unfolding eq .
qed

lemma dsm_pass:
  assumes inv: "dsm_inv_at c l" and pcl: "pc l p = S_pass"
  shows "\<exists>d. dsm_inv_at d (DSMSynchApplyOp f p l)"
proof -
  note i = dsm_invD [OF inv]
  from combiner_by_pc [OF inv, of p] pcl have ne: "arr l \<noteq> []" and p: "p = c" by simp_all
  from i(7) [OF ne] pcl p have "moving l c \<and> nxt l (wp l c) \<noteq> None \<and> tmp l c = nxt l (wp l c)" by (simp add: combiner_ok_def)
  then have mv: "wp l c = hd (arr l)" "result l (mynode l c)" "nxt l (wp l c) \<noteq> None" "tmp l c = nxt l (wp l c)"
    unfolding moving_def by metis+
  then obtain m where m: "nxt l (wp l c) = Some m" by blast
  from dsm_next_node [OF inv ne mv(1) m] obtain ys where ys: "arr l = wp l c # m # ys" and
    w: "waiting l m" "pc l (owner m) = S_spin" "owner m \<noteq> c" "mynode l (owner m) = m" by blast
  define k where "k = goto c S_return (l\<lparr>locked := (locked l)(m := False), arr := m # ys\<rparr>)"
  have eq: "DSMSynchApplyOp f p l = k" using pcl p m mv(4) ys by (simp add: k_def)
  have cw: "mynode l c \<notin> set (tl (arr l))" by (rule combiner_not_waiting [OF inv ne])
  have my: "m \<notin> set ys" using i(2) ys by simp
  have "dsm_inv_at (owner m) k"
  proof (rule dsm_invI)
    show "Tail k = (if arr k = [] then None else Some (last (arr k)))" "distinct (arr k)" using i(1,2) ys by (simp_all add: k_def)
    show "toggle k q \<le> 1 \<and> mynode k q = 2 * q + toggle k q" for q using i(3,4) [of q] by (simp add: k_def)
    show "waiting k x" if "x \<in> set (tl (arr k))" for x
      using that ys my i(5) [of x] waiting_owner [OF inv _ cw, of x] by (subst dsm_waiting_cong [of _ _ l]) (auto simp: k_def)
    show "chain k (arr k)"
      using chain_tl [OF i(6)] ys waiting_owner [OF inv _ cw] by (subst dsm_chain_cong [of _ _ l]) (auto simp: k_def)
    show "combiner_ok (pc k (owner m)) k (owner m)"
      using w by (simp add: k_def combiner_ok_def waiting_def ready_def)
    show "rest_ok (pc k q) k q" if r: "at_rest k (owner m) q" for q
    proof (cases "q = c")
      case True
      then show ?thesis using mv(2) by (simp add: k_def rest_ok_def result_def)
    next
      case False
      have qm: "mynode l q \<noteq> m" using r owner_mynode [OF inv, of q] by (auto simp: at_rest_def k_def)
      then have "at_rest l c q" using r False ys pcl p by (simp add: at_rest_def k_def)
      from i(8) [OF this] show ?thesis using False qm
        by (simp add: k_def rest_ok_def result_def ready_def split: dsm_pc.splits)
    qed
    show "mynode k q \<notin> set (arr k)" if "preswap (pc k q)" for q
      using that i(9) [of q] ys by (cases "q = c") (auto simp: k_def)
    show "spare k q \<notin> set (arr k)" if "\<not> preswap (pc k q)" "mynode k q \<notin> set (tl (arr k))" for q
    proof (cases "mynode l q = m")
      case True
      then show ?thesis using spare_free [OF inv, of q] ys by (simp add: k_def spare_def)
    next
      case False
      have "\<not> preswap (pc l q)" using that(1) pcl p by (cases "q = c") (simp_all add: k_def)
      then show ?thesis using that(2) i(10) [of q] ys False by (simp add: k_def spare_def)
    qed
  qed
  then show ?thesis unfolding eq by blast
qed

lemma dsm_leave:
  assumes inv: "dsm_inv_at c l" and pcl: "pc l p = S_cas" "Tail l = Some (wp l p)"
  shows "dsm_inv_at c (DSMSynchApplyOp f p l)"
proof -
  note i = dsm_invD [OF inv]
  from combiner_by_pc [OF inv, of p] pcl have ne: "arr l \<noteq> []" and p: "p = c" by simp_all
  from i(7) [OF ne] pcl p have mv: "wp l c = hd (arr l)" "result l (mynode l c)"
    by (simp_all add: combiner_ok_def moving_def)
  have "hd (arr l) = last (arr l)" using i(1) ne pcl(2) p mv(1) by simp
  then have a: "tl (arr l) = []" using i(2) ne by (cases "arr l") (auto split: if_splits)
  define k where "k = goto c S_return (l\<lparr>Tail := None, arr := []\<rparr>)"
  have eq: "DSMSynchApplyOp f p l = k" using pcl p by (simp add: k_def)
  have "dsm_inv_at c k"
  proof (rule dsm_invI)
    show "toggle k q \<le> 1 \<and> mynode k q = 2 * q + toggle k q" for q using i(3,4) [of q] by (simp add: k_def)
    show "rest_ok (pc k q) k q" if r: "at_rest k c q" for q
    proof (cases "q = c")
      case True
      then show ?thesis using mv(2) by (simp add: k_def rest_ok_def result_def)
    next
      case False
      then have "at_rest l c q" using a pcl p ne by (simp add: at_rest_def)
      from i(8) [OF this] show ?thesis using False
        by (simp add: k_def rest_ok_def result_def ready_def split: dsm_pc.splits)
    qed
  qed (simp_all add: k_def)
  then show ?thesis unfolding eq .
qed

lemma dsm_swap_empty:
  assumes inv: "dsm_inv_at c l" and pcl: "pc l p = S_swap" and e: "arr l = []"
  shows "dsm_inv_at p (DSMSynchApplyOp f p l)"
proof -
  note i = dsm_invD [OF inv]
  have r: "at_rest l c q" for q using e by (simp add: at_rest_def)
  have ok: "rest_ok (pc l q) l q" for q by (rule i(8) [OF r])
  have rd: "nxt l (mynode l p) = None" "ready l (mynode l p)" using ok [of p] pcl by (simp_all add: rest_ok_def)
  note ow = owner_mynode [OF inv]
  define k where "k = goto p S_apply (l\<lparr>mypred := (mypred l)(p := None), Tail := Some (mynode l p), arr := [mynode l p],
      counter := (counter l)(p := 0), wp := (wp l)(p := mynode l p)\<rparr>)"
  have eq: "DSMSynchApplyOp f p l = k" using pcl e i(1) by (simp add: k_def)
  have "dsm_inv_at p k"
  proof (rule dsm_invI)
    show "toggle k q \<le> 1 \<and> mynode k q = 2 * q + toggle k q" for q using i(3,4) [of q] by (simp add: k_def)
    show "combiner_ok (pc k p) k p" using rd(2) ow [of p] by (simp add: k_def combiner_ok_def served_def ready_def)
    show "rest_ok (pc k q) k q" if "at_rest k p q" for q
      using that ok [of q] by (simp add: k_def at_rest_def rest_ok_def result_def ready_def split: dsm_pc.splits)
    show "mynode k q \<notin> set (arr k)" if "preswap (pc k q)" for q
      using that ow [of p] ow [of q] by (cases "q = p") (auto simp: k_def)
    show "spare k q \<notin> set (arr k)" for q
      using ow [of p] i(3,4) [of p] i(3) [of q] by (cases "q = p") (auto simp: k_def spare_def, presburger+)
  qed (use rd(1) in \<open>simp_all add: k_def\<close>)
  then show ?thesis unfolding eq .
qed

text \<open>The combiner does not notice a thread that joins the queue.\<close>

lemma combiner_ok_keep:
  assumes ok: "combiner_ok (pc l c) l c"
    and k: "pc k c = pc l c" "hd (arr k) = hd (arr l)" "wp k c = wp l c" "tmp k c = tmp l c" "mynode k = mynode l" "arg k = arg l"
      "arg_ret k = arg_ret l" "npid k = npid l" "locked k = locked l" "completed k = completed l"
    and nx: "\<And>x. nxt l x \<noteq> None \<Longrightarrow> nxt k x = nxt l x" and sp: "\<And>q. pc l q = S_spin \<Longrightarrow> pc k q = S_spin"
  shows "combiner_ok (pc k c) k c"
proof -
  have mv: "moving l c \<Longrightarrow> moving k c" "result k x = result l x" "ready k x = ready l x" for x
    using k by (simp_all add: moving_def result_def ready_def)
  have sv: "served k c" if "served l c"
  proof -
    have "wp l c = hd (arr l)" "mynode l (owner (hd (arr l))) = hd (arr l)"
      "owner (hd (arr l)) \<noteq> c \<longrightarrow> pc l (owner (hd (arr l))) = S_spin \<and> locked l (hd (arr l)) \<and> result l (mynode l c)"
      using that unfolding served_def by metis+
    then show ?thesis using k mv(2) sp by (simp add: served_def)
  qed
  show ?thesis using ok k mv sv nx by (cases "pc l c") (auto simp: combiner_ok_def)
qed

lemma dsm_swap_queue:
  assumes inv: "dsm_inv_at c l" and pcl: "pc l p = S_swap" and ne: "arr l \<noteq> []"
  shows "dsm_inv_at c (DSMSynchApplyOp f p l)"
proof -
  note i = dsm_invD [OF inv]
  have r: "at_rest l c p" using pcl by (intro outside_rest [OF inv]) simp
  have pc: "p \<noteq> c" using r ne by (simp add: at_rest_def)
  define m where "m = mynode l p"
  have rd: "nxt l m = None" "ready l m" "locked l m" using i(8) [OF r] pcl by (simp_all add: rest_ok_def m_def)
  note ow = owner_mynode [OF inv]
  have om: "owner m = p" using ow [of p] by (simp add: m_def)
  have nin: "m \<notin> set (arr l)" using i(9) [of p] pcl by (simp add: m_def)
  define k where "k = goto p S_link (l\<lparr>mypred := (mypred l)(p := Tail l), Tail := Some m, arr := arr l @ [m],
      counter := (counter l)(p := 0), wp := (wp l)(p := m)\<rparr>)"
  have eq: "DSMSynchApplyOp f p l = k" using pcl ne i(1) by (simp add: k_def m_def)
  have hd: "hd (arr k) = hd (arr l)" "tl (arr k) = tl (arr l) @ [m]" using ne by (simp_all add: k_def)
  have tlo: "owner x \<noteq> p" if "x \<in> set (tl (arr l))" for x using waiting_owner [OF inv that] r by (simp add: at_rest_def)
  have fields: "nxt k = nxt l" "arg_ret k = arg_ret l" "npid k = npid l" "locked k = locked l" "completed k = completed l"
    "mynode k = mynode l" "toggle k = toggle l" "arg k = arg l" "tmp k = tmp l" "\<And>q. q \<noteq> p \<Longrightarrow> pc k q = pc l q"
    "\<And>q. q \<noteq> p \<Longrightarrow> wp k q = wp l q" "pc k p = S_link" "mypred k p = Tail l" "\<And>q. q \<noteq> p \<Longrightarrow> mypred k q = mypred l q"
    "arr k = arr l @ [m]" "Tail k = Some m"
    by (simp_all add: k_def)
  have "dsm_inv_at c k"
  proof (rule dsm_invI)
    show "Tail k = (if arr k = [] then None else Some (last (arr k)))" "distinct (arr k)" using i(2) nin fields by simp_all
    show "toggle k q \<le> 1 \<and> mynode k q = 2 * q + toggle k q" for q using i(3,4) [of q] fields by simp
    show "waiting k x" if x: "x \<in> set (tl (arr k))" for x
    proof (cases "x = m")
      case True
      then show ?thesis using rd om fields by (simp add: waiting_def ready_def)
    next
      case False
      then have "x \<in> set (tl (arr l))" using x hd by simp
      then show ?thesis using fields tlo [of x] i(5) [of x] by (subst dsm_waiting_cong [of _ _ l]) auto
    qed
    have "chain k (arr l)" using fields tlo i(6) by (subst dsm_chain_cong [of _ _ l]) auto
    then show "chain k (arr k)" using chain_snoc [of k "arr l" m] ne om rd(1) i(1) fields by simp
    have sp: "pc l q = S_spin \<Longrightarrow> pc k q = S_spin" for q using fields(10) [of q] pcl by (cases "q = p") simp_all
    show "combiner_ok (pc k c) k c"
      by (rule combiner_ok_keep [OF i(7) [OF ne]]) (use fields pc hd sp in simp_all)
    show "rest_ok (pc k q) k q" if q: "at_rest k c q" for q
    proof -
      have "q \<noteq> p" "at_rest l c q" using q hd fields ne pc by (auto simp: at_rest_def m_def)
      with i(8) [of q] fields show ?thesis by (simp add: rest_ok_def result_def ready_def split: dsm_pc.splits)
    qed
    show "mynode k q \<notin> set (arr k)" if "preswap (pc k q)" for q
      using that fields i(9) [of q] ow [of q] om by (cases "q = p") auto
    show "spare k q \<notin> set (arr k)" if "\<not> preswap (pc k q)" "mynode k q \<notin> set (tl (arr k))" for q
    proof -
      have q: "q \<noteq> p" using that(2) hd fields by (auto simp: m_def)
      then have "owner (spare l q) \<noteq> p" by (auto simp: spare_def)
      then show ?thesis using q that fields hd i(10) [of q] om by (auto simp: spare_def)
    qed
  qed
  then show ?thesis unfolding eq .
qed

lemma dsm_link_queued:
  assumes inv: "dsm_inv_at c l" and pcl: "pc l p = S_link"
  shows "mynode l p \<in> set (tl (arr l))"
proof (rule ccontr)
  note i = dsm_invD [OF inv]
  assume n: "mynode l p \<notin> set (tl (arr l))"
  have pc: "arr l \<noteq> [] \<Longrightarrow> p \<noteq> c" using combiner_pc [OF i(7)] pcl by auto
  have "at_rest l c p"
  proof -
    have "\<not> serving (pc l c)" if "arr l \<noteq> []" "mynode l p = hd (arr l)"
    proof
      assume "serving (pc l c)"
      with i(7) [OF that(1)] have "served l c" by (cases "pc l c") (simp_all add: combiner_ok_def)
      moreover have "owner (hd (arr l)) = p" using owner_mynode [OF inv, of p] that by simp
      ultimately show False using pc [OF that(1)] pcl by (auto simp: served_def)
    qed
    then show ?thesis using n pc by (auto simp: at_rest_def)
  qed
  from i(8) [OF this] pcl show False by (simp add: rest_ok_def)
qed

lemma dsm_link_at:
  assumes inv: "dsm_inv_at c l" and pcl: "pc l p = S_link"
  shows "\<exists>a \<in> set (arr l). mypred l p = Some a \<and> nxt l a = None"
proof -
  note i = dsm_invD [OF inv]
  have own: "x \<in> set (tl (arr l)) \<Longrightarrow> mynode l (owner x) = x" for x using dsm_waiting_pc [OF i(5)] by blast
  show ?thesis
    by (rule chain_link [where l = l and l' = "l\<lparr>pc := (pc l)(p := S_spin),
            nxt := \<lambda>a. if mypred l p = Some a then Some (mynode l p) else nxt l a\<rparr>", THEN conjunct2,
          OF i(6,2) own dsm_link_queued [OF inv pcl] owner_mynode [OF inv] pcl]) simp_all
qed

lemma dsm_link:
  assumes inv: "dsm_inv_at c l" and pcl: "pc l p = S_link"
  shows "dsm_inv_at c (DSMSynchApplyOp f p l)" "mypred l p \<noteq> None"
proof -
  note i = dsm_invD [OF inv]
  have tlp: "mynode l p \<in> set (tl (arr l))" by (rule dsm_link_queued [OF inv pcl])
  then have ne: "arr l \<noteq> []" by auto
  have own: "x \<in> set (tl (arr l)) \<Longrightarrow> mynode l (owner x) = x" for x using dsm_waiting_pc [OF i(5)] by blast
  have pc: "p \<noteq> c" using tlp combiner_not_waiting [OF inv ne] by auto
  define k where "k = goto p S_spin (l\<lparr>nxt := \<lambda>a. if mypred l p = Some a then Some (mynode l p) else nxt l a\<rparr>)"
  have fields: "arg_ret k = arg_ret l" "npid k = npid l" "locked k = locked l" "completed k = completed l"
    "mynode k = mynode l" "toggle k = toggle l" "arg k = arg l" "tmp k = tmp l" "\<And>q. q \<noteq> p \<Longrightarrow> pc k q = pc l q"
    "wp k = wp l" "pc k p = S_spin" "mypred k = mypred l" "arr k = arr l" "Tail k = Tail l"
    "\<And>a. mypred l p \<noteq> Some a \<Longrightarrow> nxt k a = nxt l a"
    by (simp_all add: k_def)
  have ch: "chain k (arr l) \<and> (\<exists>a \<in> set (arr l). mypred l p = Some a \<and> nxt l a = None)"
    by (rule chain_link [OF i(6,2) own tlp owner_mynode [OF inv] pcl]) (simp_all add: k_def)
  then obtain a where a: "a \<in> set (arr l)" "mypred l p = Some a" "nxt l a = None" by blast
  show "mypred l p \<noteq> None" using a by simp
  have nx: "nxt k x = nxt l x" if "nxt l x \<noteq> None" for x using that a by (auto simp: k_def)
  have eq: "DSMSynchApplyOp f p l = k" using pcl a(2) by (auto simp: k_def fun_eq_iff)
  have "dsm_inv_at c k"
  proof (rule dsm_invI)
    show "Tail k = (if arr k = [] then None else Some (last (arr k)))" "distinct (arr k)" using i(1,2) fields by simp_all
    show "toggle k q \<le> 1 \<and> mynode k q = 2 * q + toggle k q" for q using i(3,4) [of q] fields by simp
    show "waiting k x" if x: "x \<in> set (tl (arr k))" for x
      using i(5) [of x] x fields by (cases "owner x = p") (auto simp: waiting_def ready_def)
    show "chain k (arr k)" using ch fields by simp
    have sp: "pc l q = S_spin \<Longrightarrow> pc k q = S_spin" for q using fields(9) [of q] pcl by (cases "q = p") simp_all
    show "combiner_ok (pc k c) k c"
      by (rule combiner_ok_keep [OF i(7) [OF ne]]) (use fields pc nx sp in simp_all)
    show "rest_ok (pc k q) k q" if q: "at_rest k c q" for q
    proof -
      have q: "q \<noteq> p" "at_rest l c q" using q fields pc tlp by (auto simp: at_rest_def)
      have "nxt k (mynode l q) = nxt l (mynode l q)" if "preswap (pc l q)"
      proof -
        have "mynode l q \<noteq> a" using i(9) [OF that] a(1) by auto
        then show ?thesis using a(2) by (intro fields(15)) auto
      qed
      then show ?thesis using q(1) i(8) [OF q(2)] fields
        by (cases "pc l q") (simp_all add: rest_ok_def result_def ready_def)
    qed
    show "mynode k q \<notin> set (arr k)" if "preswap (pc k q)" for q
      using that fields i(9) [of q] by (cases "q = p") auto
    show "spare k q \<notin> set (arr k)" if "\<not> preswap (pc k q)" "mynode k q \<notin> set (tl (arr k))" for q
      using that fields i(10) [of q] tlp by (cases "q = p") (auto simp: spare_def)
  qed
  then show "dsm_inv_at c (DSMSynchApplyOp f p l)" unfolding eq .
qed

lemma dsm_inv_step:
  assumes "dsm_inv l" and pcl: "pc l p \<noteq> S_out" "pc l p \<noteq> S_fault"
  shows "dsm_inv (DSMSynchApplyOp f p l)"
proof -
  from assms(1) obtain c where inv: "dsm_inv_at c l" unfolding dsm_inv_def by blast
  have ex: "dsm_inv_at d k \<Longrightarrow> dsm_inv k" for d and k :: "('a, 'b, 'c) DSMSynchStruct" unfolding dsm_inv_def by blast
  have rest: "pc l p \<in> {S_next, S_arg, S_pid, S_lock, S_compl} \<Longrightarrow> dsm_inv (DSMSynchApplyOp f p l)"
    "pc l p = S_spin \<or> pc l p = S_check \<Longrightarrow> dsm_inv (DSMSynchApplyOp f p l)"
    "pc l p = S_helped \<or> pc l p = S_return \<Longrightarrow> dsm_inv (DSMSynchApplyOp f p l)"
    "serving (pc l p) \<Longrightarrow> dsm_inv (DSMSynchApplyOp f p l)"
    "pc l p \<in> {S_cond1, S_cond2, S_cond3, S_end, S_tail, S_wait, S_load} \<Longrightarrow> dsm_inv (DSMSynchApplyOp f p l)"
    using ex dsm_prepare [OF inv, of p f] dsm_look [OF inv, of p f] dsm_finish [OF inv, of p f] dsm_serve [OF inv, of p f]
      dsm_move [OF inv, of p f] by blast+
  show ?thesis
  proof (cases "pc l p")
    case S_swap
    then show ?thesis using dsm_swap_empty [OF inv S_swap] dsm_swap_queue [OF inv S_swap] ex by blast
  next
    case S_pass
    then show ?thesis using dsm_pass [OF inv S_pass] ex by blast
  next
    case S_cas
    then show ?thesis using dsm_leave [OF inv S_cas] dsm_move [OF inv, of p] ex by blast
  next
    case S_link
    then show ?thesis using dsm_link [OF inv S_link] ex by blast
  next
    case S_adv
    then show ?thesis using dsm_advance [OF inv S_adv] ex by blast
  qed (use pcl rest in \<open>simp_all del: DSMSynchApplyOp.simps\<close>)
qed

lemma dsm_inv_exec:
  assumes "dsm_inv l" and "dsm_ok n l a"
  shows "dsm_inv (dsm_exec f a l)"
proof (cases a)
  case (Invoke p x)
  from assms(1) obtain c where "dsm_inv_at c l" unfolding dsm_inv_def by blast
  with dsm_invoke [OF this, of p x] assms(2) Invoke show ?thesis unfolding dsm_inv_def by auto
next
  case (Step p)
  with dsm_inv_step [OF assms(1)] assms(2) show ?thesis by (simp del: DSMSynchApplyOp.simps)
qed

lemma dsm_no_fault:
  assumes "dsm_inv l"
  shows "pc l p \<noteq> S_fault"
proof
  assume s: "pc l p = S_fault"
  obtain c where inv: "dsm_inv_at c l" using assms unfolding dsm_inv_def by blast
  have "at_rest l c p" using combiner_pc [OF dsm_invD(7) [OF inv]] s by (intro rest_by_pc [OF inv]) auto
  from dsm_invD(8) [OF inv this] s show False by (simp add: rest_ok_def)
qed

lemma dsm_inv_init: "dsm_inv (DSMSynchStructInit n x0 s0)"
proof -
  have "dsm_inv_at 0 (DSMSynchStructInit n x0 s0)"
    by (rule dsm_invI) (simp_all add: DSMSynchStructInit_def rest_ok_def)
  then show ?thesis unfolding dsm_inv_def by blast
qed

section \<open>Simulation\<close>

lemma dsm_status_eq:
  assumes "\<And>q. q \<noteq> p \<Longrightarrow> pc l' q = pc l q \<and> arg l' q = arg l q \<and> mynode l' q = mynode l q
      \<and> arg_ret l' (mynode l q) = arg_ret l (mynode l q)"
    and "dsm_status l' p = v"
  shows "dsm_status l' = (dsm_status l)(p := v)"
  using assms by (auto simp: dsm_status_def fun_eq_iff)

lemma dsm_quiet:
  assumes inv: "dsm_inv_at c l" and pcl: "pc l p \<notin> {S_out, S_fault, S_apply, S_helped, S_return}"
  shows "dsm_abs (DSMSynchApplyOp f p l) = dsm_abs l"
proof -
  let ?k = "DSMSynchApplyOp f p l"
  have ow: "owner (mynode l q) = q" for q by (rule owner_mynode [OF inv])
  have m: "mynode l p = mynode l q \<Longrightarrow> p = q" for q using ow by metis
  have "dsm_status ?k = (dsm_status l)(p := dsm_status l p)"
  proof (rule dsm_status_eq)
    show "pc ?k q = pc l q \<and> arg ?k q = arg l q \<and> mynode ?k q = mynode l q \<and> arg_ret ?k (mynode l q) = arg_ret l (mynode l q)"
      if q: "q \<noteq> p" for q
      using pcl q m [of q] by (cases "pc l p") (auto simp: Let_def split: option.split)
    show "dsm_status ?k p = dsm_status l p"
      using pcl by (cases "pc l p") (simp_all add: dsm_status_def Let_def split: option.split)
  qed
  moreover have "obj ?k = obj l" using pcl by (cases "pc l p") (simp_all add: Let_def split: option.split)
  ultimately show ?thesis by (simp add: dsm_abs_def)
qed

lemma dsm_abs_apply:
  assumes inv: "dsm_inv_at c l" and pcl: "pc l p = S_apply"
  shows "asteps f (dsm_abs l) [] (dsm_abs (DSMSynchApplyOp f p l))"
proof -
  note ow = owner_mynode [OF inv]
  from combiner_by_pc [OF inv, of p] pcl have ne: "arr l \<noteq> []" and p: "p = c" by simp_all
  from dsm_invD(7) [OF inv ne] pcl p have "served l c" and rd: "ready l (wp l c)" by (simp_all add: combiner_ok_def)
  define h where "h = owner (wp l c)"
  have h: "mynode l h = wp l c" "arg_ret l (wp l c) = Arg (arg l h)" "npid l (wp l c) = h"
    using rd by (simp_all add: ready_def h_def)
  have pch: "pc l h = S_spin \<or> h = p" using \<open>served l c\<close> p by (auto simp: served_def h_def)
  let ?r = "f h (arg l h) (obj l)"
  define k where "k = goto p S_done (l\<lparr>counter := (counter l)(p := counter l p + 1), obj := snd ?r,
      arg_ret := (arg_ret l)(wp l c := Res (fst ?r))\<rparr>)"
  have eq: "DSMSynchApplyOp f p l = k" using pcl p h by (simp add: k_def split_beta)
  have hs: "dsm_status l h = Pend (arg l h)" using pch pcl h by (auto simp: dsm_status_def)
  have "dsm_status k q = ((dsm_status l)(h := Done (fst ?r))) q" for q
  proof (cases "q = h")
    case True
    then show ?thesis using pch pcl h by (auto simp: k_def dsm_status_def)
  next
    case False
    then have "mynode l q \<noteq> wp l c" using ow [of q] h_def by auto
    then show ?thesis using False pcl by (cases "q = p") (simp_all add: k_def dsm_status_def)
  qed
  then have st: "dsm_status k = (dsm_status l)(h := Done (fst ?r))" by (rule ext)
  have "obj k = snd ?r" by (simp add: k_def)
  then show ?thesis using hs unfolding eq dsm_abs_def
    by (intro step_lin [of _ h "arg l h"]) (simp_all only: fst_conv snd_conv st)
qed

lemma dsm_abs_exec:
  assumes "dsm_inv l" and "dsm_ok n l a"
  shows "asteps f (dsm_abs l) (dsm_obs a l) (dsm_abs (dsm_exec f a l))"
proof (cases a)
  case (Invoke p x)
  then have p: "pc l p = S_out" using assms(2) by simp
  have "dsm_status (dsm_exec f (Invoke p x) l) = (dsm_status l)(p := Pend x)"
    by (rule dsm_status_eq) (simp_all add: dsm_status_def)
  then show ?thesis using Invoke p
    by (intro step_call [of _ p _ x]) (simp_all add: dsm_abs_def dsm_status_def)
next
  case (Step p)
  from assms(1) obtain c where inv: "dsm_inv_at c l" unfolding dsm_inv_def by blast
  have pcl: "pc l p \<noteq> S_out" "pc l p \<noteq> S_fault" using assms(2) Step by auto
  consider "pc l p = S_apply" | "pc l p = S_helped \<or> pc l p = S_return" | "pc l p \<notin> {S_out, S_fault, S_apply, S_helped, S_return}"
    using pcl by blast
  then show ?thesis
  proof cases
    case 1
    with dsm_abs_apply [OF inv 1, of f] Step show ?thesis by (simp del: DSMSynchApplyOp.simps)
  next
    case 2
    with dsm_finish [OF inv, of p f] obtain r where r: "arg_ret l (mynode l p) = Res r" by blast
    have eq: "DSMSynchApplyOp f p l = goto p S_out l" using 2 r by (elim disjE) simp_all
    have "dsm_status (goto p S_out l) = (dsm_status l)(p := Idle)"
      by (rule dsm_status_eq) (simp_all add: dsm_status_def)
    moreover have "dsm_status l p = Done r" using 2 r by (elim disjE) (simp_all add: dsm_status_def)
    moreover have "dsm_obs a l = [Ret p r]" using 2 r Step by (elim disjE) simp_all
    ultimately show ?thesis unfolding Step dsm_exec.simps eq
      by (intro step_ret [of _ p r]) (simp_all add: dsm_abs_def)
  next
    case 3
    with dsm_quiet [OF inv 3, of f] Step show ?thesis
      by (intro step_skip) (simp_all del: DSMSynchApplyOp.simps)
  qed
qed

interpretation dsm: linearization "DSMSynchStructInit n x0 s0" "dsm_ok n" "dsm_exec f" dsm_obs f s0 dsm_inv dsm_abs
  for n x0 s0 f
proof
  show "dsm_inv (DSMSynchStructInit n x0 s0)" by (rule dsm_inv_init)
  show "dsm_abs (DSMSynchStructInit n x0 s0) = aconf0 s0"
    by (simp add: dsm_abs_def aconf0_def DSMSynchStructInit_def dsm_status_def fun_eq_iff)
qed (fact dsm_inv_exec, fact dsm_abs_exec)

section \<open>Properties\<close>

text \<open>The threads that may be between the swap of line 23 and the return of their operation with
  the right to run \<^verbatim>\<open>sfunc\<close>.\<close>

fun combining :: "dsm_pc \<Rightarrow> bool" where
  "combining S_apply = True" | "combining S_done = True" | "combining S_unlock = True" | "combining S_cond1 = True"
| "combining S_cond2 = True" | "combining S_cond3 = True" | "combining S_adv = True" | "combining S_end = True"
| "combining S_tail = True" | "combining S_cas = True" | "combining S_wait = True" | "combining S_load = True"
| "combining S_pass = True" | "combining _ = False"

text \<open>C7. DSM-Synch is linearizable: in every interleaving the calls and returns of
  \<^verbatim>\<open>DSMSynchApplyOp\<close> are those of an atomic object that runs \<^verbatim>\<open>sfunc\<close> once for every request.\<close>

theorem dsmsynch_linearizable:
  assumes "traces (DSMSynchStructInit n x0 s0) (dsm_ok n) (dsm_exec f) dsm_obs l h"
  shows "linearizable f s0 h"
  using assms by (rule dsm.linearizable_traces)

text \<open>At most one thread of DSM-Synch combines, and none follows a null pointer.\<close>

lemma dsm_safe:
  assumes "reach (DSMSynchStructInit n x0 s0) (act_step (dsm_ok n) (dsm_exec f)) l"
  shows "\<forall>p q. pc l p \<noteq> S_fault \<and> (combining (pc l p) \<and> combining (pc l q) \<longrightarrow> p = q)"
proof -
  from dsm.reach_inv [OF assms] obtain c where inv: "dsm_inv_at c l" unfolding dsm_inv_def by blast
  have "p = c" if "combining (pc l p)" for p
    using combiner_by_pc [OF inv, of p] that by (cases "pc l p") auto
  moreover have "pc l p \<noteq> S_fault" for p by (rule dsm_no_fault [OF dsm.reach_inv [OF assms]])
  ultimately show ?thesis by blast
qed

lemma dsm_exclusive:
  "\<lbrakk>reach (DSMSynchStructInit n x0 s0) (act_step (dsm_ok n) (dsm_exec f)) l; combining (pc l p) \<and> combining (pc l q)\<rbrakk> \<Longrightarrow> p = q"
  by (drule dsm_safe) blast

section \<open>The properties at work\<close>

definition dsm_fetch_add :: "tid \<Rightarrow> nat \<Rightarrow> nat \<Rightarrow> nat \<times> nat" where
  "dsm_fetch_add p x s = (s, s + x)"

text \<open>Thread 1 announces its request while thread 0 is a combiner, which serves both.\<close>

definition dsm_demo :: "nat dsm_act list" where
  "dsm_demo = Invoke 0 5 # replicate 6 (Step 0) @ Invoke 1 7 # replicate 7 (Step 1) @ Invoke 2 9 # replicate 7 (Step 2)"

lemmas dsm_eval = dsm_demo_def DSMSynchStructInit_def DSMSYNCH_HELP_FACTOR_def dsm_fetch_add_def replicate_num

theorem dsmsynch_linearizable_witness:
  "linearizable dsm_fetch_add 100 [Call 0 5, Call 1 7, Call 2 9, Ret 0 100, Ret 1 105, Ret 2 112]"
proof -
  obtain l where "run_trace (dsm_ok 3) (dsm_exec dsm_fetch_add) dsm_obs
      (dsm_demo @ replicate 17 (Step 0) @ replicate 3 (Step 1) @ replicate 10 (Step 2)) (DSMSynchStructInit 3 0 (100 :: nat))
      = Some (l, [Call 0 5, Call 1 7, Call 2 9, Ret 0 100, Ret 1 105, Ret 2 112])"
    by (simp add: dsm_eval)
  from dsmsynch_linearizable [OF run_trace_traces [OF this]] show ?thesis .
qed

end
