(* ===== verification/Osci.thy ===== *)
theory Osci
  imports DsmSynch
begin

text \<open>
  The Osci combining object of libconcurrent/concurrent/osci.c. The fibers of one posix thread put
  their requests into one node, the combining point of their group, which the fiber that opened it
  appends to a queue of nodes like that of DSM-Synch. Every fiber owns two nodes and uses them in
  turn: node \<open>2 * pid + t\<close> is \<^verbatim>\<open>st_thread->next_node[t]\<close> of fiber \<open>pid\<close>, and \<open>o\<close> in
  \<^verbatim>\<open>rec[o]\<close> is the fiber's place in its group. A step is one access to shared memory. The fibers
  of a group run on one posix thread: only the fiber \<open>active g\<close> of a group moves, until it calls
  \<^verbatim>\<open>synchResched\<close> or is outside of an operation, where the action \<open>Yield p q\<close> passes
  control to any other fiber of the group. The local variables \<^verbatim>\<open>counter\<close> and \<^verbatim>\<open>p\<close> get their
  first values at the swap.
\<close>

section \<open>State and steps\<close>

datatype door = DOOR_INIT | DOOR_OPENED | DOOR_LOCKED

datatype osci_pc =
    O_out
  | O_start    \<comment> \<open>\<^verbatim>\<open>mynode = &st_thread->next_node[st_thread->toggle]\<close>\<close>
  | O_null     \<comment> \<open>\<^verbatim>\<open>if (l->current_node[group].ptr == NULL)\<close>\<close>
  | O_cas      \<comment> \<open>\<^verbatim>\<open>CASPTR(&l->current_node[group].ptr, NULL, mynode)\<close>\<close>
  | O_cur      \<comment> \<open>\<^verbatim>\<open>cur = l->current_node[group].ptr\<close>; \<^verbatim>\<open>if (cur == mynode)\<close>\<close>
  | O_toggle   \<comment> \<open>\<^verbatim>\<open>st_thread->toggle = 1 - st_thread->toggle\<close>\<close>
  | O_arg      \<comment> \<open>\<^verbatim>\<open>cur->rec[offset_id].arg_ret = arg\<close>\<close>
  | O_pid
  | O_lock
  | O_compl    \<comment> \<open>\<^verbatim>\<open>cur->rec[offset_id].completed = false\<close>\<close>
  | O_next     \<comment> \<open>\<^verbatim>\<open>cur->next = NULL\<close>\<close>
  | O_open     \<comment> \<open>\<^verbatim>\<open>cur->door = _OSCI_DOOR_OPENED\<close>\<close>
  | O_yield    \<comment> \<open>the scheduling point of line 48\<close>
  | O_release  \<comment> \<open>\<^verbatim>\<open>l->current_node[group].ptr = NULL\<close>\<close>
  | O_close    \<comment> \<open>\<^verbatim>\<open>while (!CAS32(&cur->door, OPENED, INIT))\<close>\<close>
  | O_cyield
  | O_swap     \<comment> \<open>\<^verbatim>\<open>pred = SWAP(&l->Tail, cur)\<close>\<close>
  | O_link     \<comment> \<open>\<^verbatim>\<open>pred->next = cur\<close>\<close>
  | O_spin     \<comment> \<open>\<^verbatim>\<open>while (cur->rec[offset_id].locked)\<close>\<close>
  | O_syield
  | O_check    \<comment> \<open>\<^verbatim>\<open>if (cur->rec[offset_id].completed)\<close>\<close>
  | O_helped   \<comment> \<open>\<^verbatim>\<open>return cur->rec[offset_id].arg_ret\<close>, lines 60 and 79\<close>
  | O_door     \<comment> \<open>\<^verbatim>\<open>while (!CAS32(&cur->door, OPENED, LOCKED))\<close>\<close>
  | O_dinit    \<comment> \<open>\<^verbatim>\<open>if (cur->door == _OSCI_DOOR_INIT) goto osci_start\<close>\<close>
  | O_dyield
  | J_arg      \<comment> \<open>the announcement of lines 68 to 73 into the node of another fiber\<close>
  | J_pid
  | J_lock
  | J_compl
  | J_open
  | O_for      \<comment> \<open>\<^verbatim>\<open>for (i = 0; i < l->fibers_per_thread; i++)\<close>\<close>
  | O_test     \<comment> \<open>\<^verbatim>\<open>if (p->rec[i].completed == false)\<close>\<close>
  | O_apply    \<comment> \<open>\<^verbatim>\<open>p->rec[i].arg_ret = sfunc(state, p->rec[i].arg_ret, p->rec[i].pid)\<close>\<close>
  | O_done     \<comment> \<open>\<^verbatim>\<open>p->rec[i].completed = true\<close>\<close>
  | O_unlock   \<comment> \<open>\<^verbatim>\<open>p->rec[i].locked = false\<close>\<close>
  | O_cond1    \<comment> \<open>\<^verbatim>\<open>p->next == NULL\<close>, line 100\<close>
  | O_cond2    \<comment> \<open>the second \<^verbatim>\<open>p->next\<close> of line 100\<close>
  | O_cond3    \<comment> \<open>\<^verbatim>\<open>p->next->next == NULL || counter >= help_bound\<close>\<close>
  | O_adv      \<comment> \<open>\<^verbatim>\<open>p = p->next\<close>\<close>
  | O_end      \<comment> \<open>\<^verbatim>\<open>if (p->next == NULL)\<close>, line 105\<close>
  | O_tail     \<comment> \<open>\<^verbatim>\<open>l->Tail == p\<close>\<close>
  | O_leave    \<comment> \<open>\<^verbatim>\<open>CASPTR(&l->Tail, p, NULL)\<close>\<close>
  | O_wait     \<comment> \<open>\<^verbatim>\<open>while (p->next == NULL)\<close>\<close>
  | O_wyield
  | O_seek     \<comment> \<open>\<^verbatim>\<open>while (i < l->fibers_per_thread)\<close>\<close>
  | O_seek1    \<comment> \<open>the \<^verbatim>\<open>p->next\<close> of line 114\<close>
  | O_seek2    \<comment> \<open>\<^verbatim>\<open>if (p->next->rec[i].completed == false)\<close>\<close>
  | O_seek3    \<comment> \<open>the \<^verbatim>\<open>p->next\<close> of line 115\<close>
  | O_pass     \<comment> \<open>\<^verbatim>\<open>p->next->rec[i].locked = false\<close>\<close>
  | O_return   \<comment> \<open>\<^verbatim>\<open>return cur->rec[offset_id].arg_ret\<close>, lines 106 and 122\<close>
  | O_fault

record ('x, 'r) OsciNode =
  o_next :: "nat \<Rightarrow> ptr"
  o_door :: "nat \<Rightarrow> door"
  \<comment> \<open>the fields of \<^verbatim>\<open>rec[o]\<close>\<close>
  o_arg_ret :: "nat \<Rightarrow> nat \<Rightarrow> ('x, 'r) slot"
  o_npid :: "nat \<Rightarrow> nat \<Rightarrow> tid"
  o_locked :: "nat \<Rightarrow> nat \<Rightarrow> bool"
  o_completed :: "nat \<Rightarrow> nat \<Rightarrow> bool"

record ('x, 'r, 's) OsciStruct = "('x, 'r) OsciNode" +
  o_nthreads :: nat
  fibers_per_thread :: nat
  groups_of_fibers :: nat
  current_node :: "nat \<Rightarrow> ptr"
  o_tail :: ptr
  o_obj :: 's
  active :: "nat \<Rightarrow> tid"
  \<comment> \<open>per fiber: \<^verbatim>\<open>st_thread->toggle\<close> and the local variables\<close>
  o_toggle :: "tid \<Rightarrow> nat"
  o_mynode :: "tid \<Rightarrow> nat"
  o_cur :: "tid \<Rightarrow> nat"
  o_pred :: "tid \<Rightarrow> ptr"
  o_p :: "tid \<Rightarrow> nat"
  o_tmp :: "tid \<Rightarrow> ptr"
  o_i :: "tid \<Rightarrow> nat"
  o_counter :: "tid \<Rightarrow> nat"
  o_arg :: "tid \<Rightarrow> 'x"
  o_pc :: "tid \<Rightarrow> osci_pc"
  o_arr :: "nat list"

definition OSCI_HELP_FACTOR :: nat where "OSCI_HELP_FACTOR = 10"

text \<open>\<open>None\<close>: a division by zero. The nodes hold whatever is in their memory, \<open>m\<close>, until
  \<^verbatim>\<open>OsciThreadStateInit\<close> has run; the \<^verbatim>\<open>pid\<close> of an empty record, -1, is never read.\<close>

definition OsciInit :: "nat \<Rightarrow> nat \<Rightarrow> ('x, 'r) OsciNode \<Rightarrow> 'x \<Rightarrow> 's \<Rightarrow> ('x, 'r, 's) OsciStruct option" where
  "OsciInit n f m x0 s0 =
     (if f = 0 then None
      else (let fpt = (if f \<le> n then f else 1)
            in Some \<lparr>o_next = o_next m, o_door = o_door m, o_arg_ret = o_arg_ret m, o_npid = o_npid m,
                 o_locked = o_locked m, o_completed = o_completed m,
                 o_nthreads = n, fibers_per_thread = fpt, groups_of_fibers = n div f + (if n mod f \<noteq> 0 then 1 else 0),
                 current_node = (\<lambda>_. None), o_tail = None, o_obj = s0, active = (\<lambda>g. g * fpt),
                 o_toggle = (\<lambda>_. 0), o_mynode = (\<lambda>_. 0), o_cur = (\<lambda>_. 0), o_pred = (\<lambda>_. None), o_p = (\<lambda>_. 0),
                 o_tmp = (\<lambda>_. None), o_i = (\<lambda>_. 0), o_counter = (\<lambda>_. 0), o_arg = (\<lambda>_. x0), o_pc = (\<lambda>_. O_out), o_arr = []\<rparr>))"

definition OsciThreadStateInit :: "'x \<Rightarrow> tid \<Rightarrow> ('x, 'r, 's) OsciStruct \<Rightarrow> ('x, 'r, 's) OsciStruct" where
  "OsciThreadStateInit x0 pid l =
     (let mine = (\<lambda>x. x = 2 * pid \<or> x = 2 * pid + 1); rec = (\<lambda>x j. mine x \<and> j < fibers_per_thread l)
      in l\<lparr>o_toggle := (o_toggle l)(pid := 0),
           o_arg_ret := (\<lambda>x j. if rec x j then Arg x0 else o_arg_ret l x j),
           o_completed := (\<lambda>x j. if rec x j then True else o_completed l x j),
           o_locked := (\<lambda>x j. if rec x j then True else o_locked l x j),
           o_next := (\<lambda>x. if mine x then None else o_next l x),
           o_door := (\<lambda>x. if mine x then DOOR_INIT else o_door l x)\<rparr>)"

definition osci_init :: "nat \<Rightarrow> nat \<Rightarrow> ('x, 'r) OsciNode \<Rightarrow> 'x \<Rightarrow> 's \<Rightarrow> ('x, 'r, 's) OsciStruct option" where
  "osci_init n f m x0 s0 = map_option (fold (OsciThreadStateInit x0) [0..<n]) (OsciInit n f m x0 s0)"

abbreviation o_goto :: "tid \<Rightarrow> osci_pc \<Rightarrow> ('x, 'r, 's) OsciStruct \<Rightarrow> ('x, 'r, 's) OsciStruct" where
  "o_goto p c l \<equiv> l\<lparr>o_pc := (o_pc l)(p := c)\<rparr>"

abbreviation upd_rec :: "(nat \<Rightarrow> nat \<Rightarrow> 'v) \<Rightarrow> nat \<Rightarrow> nat \<Rightarrow> 'v \<Rightarrow> nat \<Rightarrow> nat \<Rightarrow> 'v" where
  "upd_rec f x i v \<equiv> f(x := (f x)(i := v))"

definition OsciApplyOp :: "('x, 'r, 's) sfunc \<Rightarrow> tid \<Rightarrow> ('x, 'r, 's) OsciStruct \<Rightarrow> ('x, 'r, 's) OsciStruct" where
  "OsciApplyOp sfunc pid l =
     (let grp = pid div fibers_per_thread l; ofs = pid mod fibers_per_thread l in
      case o_pc l pid of
        O_start \<Rightarrow> o_goto pid O_null (l\<lparr>o_mynode := (o_mynode l)(pid := 2 * pid + o_toggle l pid)\<rparr>)
      | O_null \<Rightarrow> if grp \<ge> groups_of_fibers l then o_goto pid O_fault l
                  else o_goto pid (if current_node l grp = None then O_cas else O_cur) l
      | O_cas \<Rightarrow> o_goto pid O_cur (l\<lparr>current_node := (current_node l)(grp :=
                    (if current_node l grp = None then Some (o_mynode l pid) else current_node l grp))\<rparr>)
      | O_cur \<Rightarrow> (case current_node l grp of
                    None \<Rightarrow> o_goto pid O_null l
                  | Some c \<Rightarrow> o_goto pid (if c = o_mynode l pid then O_toggle else O_door) (l\<lparr>o_cur := (o_cur l)(pid := c)\<rparr>))
      | O_toggle \<Rightarrow> o_goto pid O_arg (l\<lparr>o_toggle := (o_toggle l)(pid := 1 - o_toggle l pid)\<rparr>)
      | O_arg \<Rightarrow> o_goto pid O_pid (l\<lparr>o_arg_ret := upd_rec (o_arg_ret l) (o_cur l pid) ofs (Arg (o_arg l pid))\<rparr>)
      | O_pid \<Rightarrow> o_goto pid O_lock (l\<lparr>o_npid := upd_rec (o_npid l) (o_cur l pid) ofs pid\<rparr>)
      | O_lock \<Rightarrow> o_goto pid O_compl (l\<lparr>o_locked := upd_rec (o_locked l) (o_cur l pid) ofs True\<rparr>)
      | O_compl \<Rightarrow> o_goto pid O_next (l\<lparr>o_completed := upd_rec (o_completed l) (o_cur l pid) ofs False\<rparr>)
      | O_next \<Rightarrow> o_goto pid O_open (l\<lparr>o_next := (o_next l)(o_cur l pid := None)\<rparr>)
      | O_open \<Rightarrow> o_goto pid O_yield (l\<lparr>o_door := (o_door l)(o_cur l pid := DOOR_OPENED)\<rparr>)
      | O_release \<Rightarrow> o_goto pid O_close (l\<lparr>current_node := (current_node l)(grp := None)\<rparr>)
      | O_close \<Rightarrow> if o_door l (o_cur l pid) = DOOR_OPENED
                   then o_goto pid O_swap (l\<lparr>o_door := (o_door l)(o_cur l pid := DOOR_INIT)\<rparr>)
                   else o_goto pid O_cyield l
      | O_swap \<Rightarrow> o_goto pid (if o_tail l = None then O_for else O_link)
                    (l\<lparr>o_pred := (o_pred l)(pid := o_tail l), o_tail := Some (o_cur l pid), o_arr := o_arr l @ [o_cur l pid],
                       o_counter := (o_counter l)(pid := 0), o_p := (o_p l)(pid := o_cur l pid), o_i := (o_i l)(pid := 0)\<rparr>)
      | O_link \<Rightarrow> (case o_pred l pid of
                     None \<Rightarrow> o_goto pid O_fault l
                   | Some m \<Rightarrow> o_goto pid O_spin (l\<lparr>o_next := (o_next l)(m := Some (o_cur l pid))\<rparr>))
      | O_spin \<Rightarrow> if o_locked l (o_cur l pid) ofs then o_goto pid O_syield l else o_goto pid O_check l
      | O_check \<Rightarrow> if o_completed l (o_cur l pid) ofs then o_goto pid O_helped l
                   else o_goto pid O_for (l\<lparr>o_counter := (o_counter l)(pid := 0), o_p := (o_p l)(pid := o_cur l pid),
                                            o_i := (o_i l)(pid := 0)\<rparr>)
      | O_door \<Rightarrow> if o_door l (o_cur l pid) = DOOR_OPENED
                  then o_goto pid J_arg (l\<lparr>o_door := (o_door l)(o_cur l pid := DOOR_LOCKED)\<rparr>)
                  else o_goto pid O_dinit l
      | O_dinit \<Rightarrow> o_goto pid (if o_door l (o_cur l pid) = DOOR_INIT then O_null else O_dyield) l
      | J_arg \<Rightarrow> o_goto pid J_pid (l\<lparr>o_arg_ret := upd_rec (o_arg_ret l) (o_cur l pid) ofs (Arg (o_arg l pid))\<rparr>)
      | J_pid \<Rightarrow> o_goto pid J_lock (l\<lparr>o_npid := upd_rec (o_npid l) (o_cur l pid) ofs pid\<rparr>)
      | J_lock \<Rightarrow> o_goto pid J_compl (l\<lparr>o_locked := upd_rec (o_locked l) (o_cur l pid) ofs True\<rparr>)
      | J_compl \<Rightarrow> o_goto pid J_open (l\<lparr>o_completed := upd_rec (o_completed l) (o_cur l pid) ofs False\<rparr>)
      | J_open \<Rightarrow> o_goto pid O_syield (l\<lparr>o_door := (o_door l)(o_cur l pid := DOOR_OPENED)\<rparr>)
      | O_for \<Rightarrow> if o_i l pid < fibers_per_thread l then o_goto pid O_test l
                 else o_goto pid O_cond1 (l\<lparr>o_counter := (o_counter l)(pid := o_counter l pid + o_i l pid)\<rparr>)
      | O_test \<Rightarrow> if o_completed l (o_p l pid) (o_i l pid)
                  then o_goto pid O_for (l\<lparr>o_i := (o_i l)(pid := o_i l pid + 1)\<rparr>)
                  else o_goto pid O_apply l
      | O_apply \<Rightarrow> (case o_arg_ret l (o_p l pid) (o_i l pid) of
                      Res r \<Rightarrow> o_goto pid O_fault l
                    | Arg x \<Rightarrow> (let (r, s) = sfunc (o_npid l (o_p l pid) (o_i l pid)) x (o_obj l)
                               in o_goto pid O_done (l\<lparr>o_obj := s, o_arg_ret := upd_rec (o_arg_ret l) (o_p l pid) (o_i l pid) (Res r)\<rparr>)))
      | O_done \<Rightarrow> o_goto pid O_unlock (l\<lparr>o_completed := upd_rec (o_completed l) (o_p l pid) (o_i l pid) True\<rparr>)
      | O_unlock \<Rightarrow> o_goto pid O_for (l\<lparr>o_locked := upd_rec (o_locked l) (o_p l pid) (o_i l pid) False,
                                        o_i := (o_i l)(pid := o_i l pid + 1)\<rparr>)
      | O_cond1 \<Rightarrow> o_goto pid (if o_next l (o_p l pid) = None then O_end else O_cond2) l
      | O_cond2 \<Rightarrow> o_goto pid O_cond3 (l\<lparr>o_tmp := (o_tmp l)(pid := o_next l (o_p l pid))\<rparr>)
      | O_cond3 \<Rightarrow> (case o_tmp l pid of
                      None \<Rightarrow> o_goto pid O_fault l
                    | Some m \<Rightarrow> o_goto pid (if o_next l m = None \<or> o_counter l pid \<ge> OSCI_HELP_FACTOR * o_nthreads l
                                            then O_end else O_adv) l)
      | O_adv \<Rightarrow> (case o_next l (o_p l pid) of
                    None \<Rightarrow> o_goto pid O_fault l
                  | Some m \<Rightarrow> o_goto pid O_for (l\<lparr>o_p := (o_p l)(pid := m), o_i := (o_i l)(pid := 0), o_arr := tl (o_arr l)\<rparr>))
      | O_end \<Rightarrow> if o_next l (o_p l pid) = None then o_goto pid O_tail l
                 else o_goto pid O_seek (l\<lparr>o_i := (o_i l)(pid := 0)\<rparr>)
      | O_tail \<Rightarrow> o_goto pid (if o_tail l = Some (o_p l pid) then O_leave else O_wait) l
      | O_leave \<Rightarrow> (if o_tail l = Some (o_p l pid) then o_goto pid O_return (l\<lparr>o_tail := None, o_arr := []\<rparr>)
                    else o_goto pid O_wait l)
      | O_wait \<Rightarrow> if o_next l (o_p l pid) = None then o_goto pid O_wyield l
                  else o_goto pid O_seek (l\<lparr>o_i := (o_i l)(pid := 0)\<rparr>)
      | O_seek \<Rightarrow> o_goto pid (if o_i l pid < fibers_per_thread l then O_seek1 else O_return) l
      | O_seek1 \<Rightarrow> o_goto pid O_seek2 (l\<lparr>o_tmp := (o_tmp l)(pid := o_next l (o_p l pid))\<rparr>)
      | O_seek2 \<Rightarrow> (case o_tmp l pid of
                      None \<Rightarrow> o_goto pid O_fault l
                    | Some m \<Rightarrow> if o_completed l m (o_i l pid)
                                then o_goto pid O_seek (l\<lparr>o_i := (o_i l)(pid := o_i l pid + 1)\<rparr>)
                                else o_goto pid O_seek3 l)
      | O_seek3 \<Rightarrow> o_goto pid O_pass (l\<lparr>o_tmp := (o_tmp l)(pid := o_next l (o_p l pid))\<rparr>)
      | O_pass \<Rightarrow> (case o_tmp l pid of
                     None \<Rightarrow> o_goto pid O_fault l
                   | Some m \<Rightarrow> o_goto pid O_return (l\<lparr>o_locked := upd_rec (o_locked l) m (o_i l pid) False, o_arr := tl (o_arr l)\<rparr>))
      | O_helped \<Rightarrow> (case o_arg_ret l (o_cur l pid) ofs of Arg x \<Rightarrow> o_goto pid O_fault l | Res r \<Rightarrow> o_goto pid O_out l)
      | O_return \<Rightarrow> (case o_arg_ret l (o_cur l pid) ofs of Arg x \<Rightarrow> o_goto pid O_fault l | Res r \<Rightarrow> o_goto pid O_out l)
      | _ \<Rightarrow> l)"

text \<open>Where \<^verbatim>\<open>synchResched\<close> goes on.\<close>

fun after_yield :: "osci_pc \<Rightarrow> osci_pc option" where
  "after_yield O_out = Some O_out"
| "after_yield O_yield = Some O_release"
| "after_yield O_cyield = Some O_close"
| "after_yield O_syield = Some O_spin"
| "after_yield O_dyield = Some O_door"
| "after_yield O_wyield = Some O_wait"
| "after_yield _ = None"

datatype 'x osci_act = OInvoke tid 'x | OStep tid | OYield tid tid

fun osci_ok :: "('x, 'r, 's) OsciStruct \<Rightarrow> 'x osci_act \<Rightarrow> bool" where
  "osci_ok l (OInvoke p x) \<longleftrightarrow> p < o_nthreads l \<and> active l (p div fibers_per_thread l) = p \<and> o_pc l p = O_out"
| "osci_ok l (OStep p) \<longleftrightarrow> p < o_nthreads l \<and> active l (p div fibers_per_thread l) = p
     \<and> after_yield (o_pc l p) = None \<and> o_pc l p \<noteq> O_fault"
| "osci_ok l (OYield p q) \<longleftrightarrow> p < o_nthreads l \<and> active l (p div fibers_per_thread l) = p \<and> after_yield (o_pc l p) \<noteq> None
     \<and> q < o_nthreads l \<and> q div fibers_per_thread l = p div fibers_per_thread l"

fun osci_exec :: "('x, 'r, 's) sfunc \<Rightarrow> 'x osci_act \<Rightarrow> ('x, 'r, 's) OsciStruct \<Rightarrow> ('x, 'r, 's) OsciStruct" where
  "osci_exec sfunc (OInvoke p x) l = o_goto p O_start (l\<lparr>o_arg := (o_arg l)(p := x)\<rparr>)"
| "osci_exec sfunc (OStep p) l = OsciApplyOp sfunc p l"
| "osci_exec sfunc (OYield p q) l =
     l\<lparr>o_pc := (o_pc l)(p := the (after_yield (o_pc l p))), active := (active l)(p div fibers_per_thread l := q)\<rparr>"

fun osci_obs :: "'x osci_act \<Rightarrow> ('x, 'r, 's) OsciStruct \<Rightarrow> ('x, 'r) event list" where
  "osci_obs (OInvoke p x) l = [Call p x]"
| "osci_obs (OStep p) l =
     (if o_pc l p = O_helped \<or> o_pc l p = O_return
      then (case o_arg_ret l (o_cur l p) (p mod fibers_per_thread l) of Res r \<Rightarrow> [Ret p r] | Arg x \<Rightarrow> []) else [])"
| "osci_obs (OYield p q) l = []"

end
