(* ===== verification/OsciCorrect.thy ===== *)
theory OsciCorrect
  imports Osci
begin

text \<open>
  Osci with one fiber per thread is DSM-Synch with a detour through the combining point: the state
  is read as a DSM-Synch state, in which the accesses to \<^verbatim>\<open>current_node\<close> and to the door, the
  tests of the loops over the fibers and the reset of \<^verbatim>\<open>next\<close> do not show. The reset comes
  last here and first in DSM-Synch, so \<open>o_proj\<close> reads the pointer as already reset.
\<close>

section \<open>Reading the state as a DSM-Synch state\<close>

fun dsm_pc_of :: "nat \<Rightarrow> osci_pc \<Rightarrow> dsm_pc" where
  "dsm_pc_of i O_out = S_out"
| "dsm_pc_of i O_start = S_next"
| "dsm_pc_of i O_null = S_next"
| "dsm_pc_of i O_cas = S_next"
| "dsm_pc_of i O_cur = S_next"
| "dsm_pc_of i O_toggle = S_next"
| "dsm_pc_of i O_arg = S_arg"
| "dsm_pc_of i O_pid = S_pid"
| "dsm_pc_of i O_lock = S_lock"
| "dsm_pc_of i O_compl = S_compl"
| "dsm_pc_of i O_next = S_swap"
| "dsm_pc_of i O_open = S_swap"
| "dsm_pc_of i O_yield = S_swap"
| "dsm_pc_of i O_release = S_swap"
| "dsm_pc_of i O_close = S_swap"
| "dsm_pc_of i O_swap = S_swap"
| "dsm_pc_of i O_link = S_link"
| "dsm_pc_of i O_spin = S_spin"
| "dsm_pc_of i O_syield = S_spin"
| "dsm_pc_of i O_check = S_check"
| "dsm_pc_of i O_helped = S_helped"
| "dsm_pc_of i O_for = (if i = 0 then S_apply else S_cond1)"
| "dsm_pc_of i O_test = S_apply"
| "dsm_pc_of i O_apply = S_apply"
| "dsm_pc_of i O_done = S_done"
| "dsm_pc_of i O_unlock = S_unlock"
| "dsm_pc_of i O_cond1 = S_cond1"
| "dsm_pc_of i O_cond2 = S_cond2"
| "dsm_pc_of i O_cond3 = S_cond3"
| "dsm_pc_of i O_adv = S_adv"
| "dsm_pc_of i O_end = S_end"
| "dsm_pc_of i O_tail = S_tail"
| "dsm_pc_of i O_leave = S_cas"
| "dsm_pc_of i O_wait = S_wait"
| "dsm_pc_of i O_wyield = S_wait"
| "dsm_pc_of i O_seek = S_load"
| "dsm_pc_of i O_seek1 = S_load"
| "dsm_pc_of i O_seek2 = S_pass"
| "dsm_pc_of i O_seek3 = S_pass"
| "dsm_pc_of i O_pass = S_pass"
| "dsm_pc_of i O_return = S_return"
| "dsm_pc_of i _ = S_fault"

text \<open>The program points at which the announcement is written and \<^verbatim>\<open>next\<close> not yet reset.\<close>

fun announcing :: "osci_pc \<Rightarrow> bool" where
  "announcing O_arg = True" | "announcing O_pid = True" | "announcing O_lock = True" | "announcing O_compl = True"
| "announcing O_next = True" | "announcing _ = False"

text \<open>The request of this round of the loop is counted later than in DSM-Synch.\<close>

fun uncounted :: "nat \<Rightarrow> osci_pc \<Rightarrow> nat" where
  "uncounted i O_done = 1" | "uncounted i O_unlock = 1" | "uncounted i O_for = i" | "uncounted i _ = 0"

definition o_proj :: "('x, 'r, 's) OsciStruct \<Rightarrow> ('x, 'r, 's) DSMSynchStruct" where
  "o_proj l = \<lparr>nxt = (\<lambda>x. if announcing (o_pc l (owner x)) \<and> o_cur l (owner x) = x then None else o_next l x),
     arg_ret = (\<lambda>x. o_arg_ret l x 0), npid = (\<lambda>x. o_npid l x 0), locked = (\<lambda>x. o_locked l x 0),
     completed = (\<lambda>x. o_completed l x 0), nthreads = o_nthreads l, Tail = o_tail l, obj = o_obj l,
     toggle = (\<lambda>p. 1 - o_toggle l p), mynode = (\<lambda>p. 2 * p + (1 - o_toggle l p)), mypred = o_pred l, wp = o_p l, tmp = o_tmp l,
     counter = (\<lambda>p. o_counter l p + uncounted (o_i l p) (o_pc l p)), arg = o_arg l,
     pc = (\<lambda>p. dsm_pc_of (o_i l p) (o_pc l p)), arr = o_arr l\<rparr>"

text \<open>What holds of a fiber in addition: the combining point of its group is its own node while it is
  open, and no other fiber ever joins.\<close>

definition point_of :: "osci_pc \<Rightarrow> nat \<Rightarrow> ptr" where
  "point_of c x = (if c \<in> {O_cur, O_toggle, O_arg, O_pid, O_lock, O_compl, O_next, O_open, O_yield, O_release} then Some x else None)"

definition fiber_ok :: "('x, 'r, 's) OsciStruct \<Rightarrow> tid \<Rightarrow> bool" where
  "fiber_ok l p \<longleftrightarrow> o_toggle l p \<le> 1 \<and> active l p = p
   \<and> current_node l p = point_of (o_pc l p) (o_mynode l p)
   \<and> o_pc l p \<notin> {O_cyield, O_door, O_dinit, O_dyield, J_arg, J_pid, J_lock, J_compl, J_open, O_fault}
   \<and> (o_pc l p \<in> {O_null, O_cas, O_cur, O_toggle} \<longrightarrow> o_mynode l p = 2 * p + o_toggle l p)
   \<and> (o_pc l p = O_toggle \<longrightarrow> o_cur l p = o_mynode l p)
   \<and> (o_pc l p \<notin> {O_out, O_start, O_null, O_cas, O_cur, O_toggle} \<longrightarrow> o_cur l p = 2 * p + (1 - o_toggle l p))
   \<and> (o_pc l p \<in> {O_yield, O_release, O_close} \<longrightarrow> o_door l (o_cur l p) = DOOR_OPENED)
   \<and> (o_pc l p \<in> {O_test, O_apply, O_done, O_unlock, O_seek, O_seek1, O_seek2, O_seek3, O_pass} \<longrightarrow> o_i l p = 0)
   \<and> (o_pc l p = O_for \<longrightarrow> o_i l p \<le> 1)"

text \<open>The steps that DSM-Synch does not see.\<close>

fun hidden :: "nat \<Rightarrow> osci_pc \<Rightarrow> bool" where
  "hidden i O_start = True" | "hidden i O_null = True" | "hidden i O_cas = True" | "hidden i O_cur = True"
| "hidden i O_next = True" | "hidden i O_open = True" | "hidden i O_release = True" | "hidden i O_close = True"
| "hidden i O_for = True" | "hidden i O_test = True" | "hidden i O_seek = True" | "hidden i O_seek2 = True"
| "hidden i O_seek3 = True" | "hidden i _ = False"

lemma o_proj_pc: "DSMSynchStruct.pc (o_proj l) p = dsm_pc_of (o_i l p) (o_pc l p)"
  by (simp add: o_proj_def)

text \<open>The steps when a group has one fiber.\<close>

lemma o_steps:
  assumes "fibers_per_thread l = 1"
  shows "o_pc l p = O_start \<Longrightarrow> OsciApplyOp f p l = (o_goto p O_null (l\<lparr>o_mynode := (o_mynode l)(p := 2 * p + o_toggle l p)\<rparr>))"
    "o_pc l p = O_null \<Longrightarrow> OsciApplyOp f p l = (if p \<ge> groups_of_fibers l then o_goto p O_fault l else o_goto p (if current_node l p = None then O_cas else O_cur) l)"
    "o_pc l p = O_cas \<Longrightarrow> OsciApplyOp f p l = (o_goto p O_cur (l\<lparr>current_node := (current_node l)(p := (if current_node l p = None then Some (o_mynode l p) else current_node l p))\<rparr>))"
    "o_pc l p = O_cur \<Longrightarrow> OsciApplyOp f p l = ((case current_node l p of None \<Rightarrow> o_goto p O_null l | Some c \<Rightarrow> o_goto p (if c = o_mynode l p then O_toggle else O_door) (l\<lparr>o_cur := (o_cur l)(p := c)\<rparr>)))"
    "o_pc l p = O_toggle \<Longrightarrow> OsciApplyOp f p l = (o_goto p O_arg (l\<lparr>o_toggle := (o_toggle l)(p := 1 - o_toggle l p)\<rparr>))"
    "o_pc l p = O_arg \<Longrightarrow> OsciApplyOp f p l = (o_goto p O_pid (l\<lparr>o_arg_ret := upd_rec (o_arg_ret l) (o_cur l p) 0 (Arg (o_arg l p))\<rparr>))"
    "o_pc l p = O_pid \<Longrightarrow> OsciApplyOp f p l = (o_goto p O_lock (l\<lparr>o_npid := upd_rec (o_npid l) (o_cur l p) 0 p\<rparr>))"
    "o_pc l p = O_lock \<Longrightarrow> OsciApplyOp f p l = (o_goto p O_compl (l\<lparr>o_locked := upd_rec (o_locked l) (o_cur l p) 0 True\<rparr>))"
    "o_pc l p = O_compl \<Longrightarrow> OsciApplyOp f p l = (o_goto p O_next (l\<lparr>o_completed := upd_rec (o_completed l) (o_cur l p) 0 False\<rparr>))"
    "o_pc l p = O_next \<Longrightarrow> OsciApplyOp f p l = (o_goto p O_open (l\<lparr>o_next := (o_next l)(o_cur l p := None)\<rparr>))"
    "o_pc l p = O_open \<Longrightarrow> OsciApplyOp f p l = (o_goto p O_yield (l\<lparr>o_door := (o_door l)(o_cur l p := DOOR_OPENED)\<rparr>))"
    "o_pc l p = O_release \<Longrightarrow> OsciApplyOp f p l = (o_goto p O_close (l\<lparr>current_node := (current_node l)(p := None)\<rparr>))"
    "o_pc l p = O_close \<Longrightarrow> OsciApplyOp f p l = (if o_door l (o_cur l p) = DOOR_OPENED then o_goto p O_swap (l\<lparr>o_door := (o_door l)(o_cur l p := DOOR_INIT)\<rparr>) else o_goto p O_cyield l)"
    "o_pc l p = O_swap \<Longrightarrow> OsciApplyOp f p l = (o_goto p (if o_tail l = None then O_for else O_link) (l\<lparr>o_pred := (o_pred l)(p := o_tail l), o_tail := Some (o_cur l p), o_arr := o_arr l @ [o_cur l p], o_counter := (o_counter l)(p := 0), o_p := (o_p l)(p := o_cur l p), o_i := (o_i l)(p := 0)\<rparr>))"
    "o_pc l p = O_link \<Longrightarrow> OsciApplyOp f p l = ((case o_pred l p of None \<Rightarrow> o_goto p O_fault l | Some m \<Rightarrow> o_goto p O_spin (l\<lparr>o_next := (o_next l)(m := Some (o_cur l p))\<rparr>)))"
    "o_pc l p = O_spin \<Longrightarrow> OsciApplyOp f p l = (if o_locked l (o_cur l p) 0 then o_goto p O_syield l else o_goto p O_check l)"
    "o_pc l p = O_check \<Longrightarrow> OsciApplyOp f p l = (if o_completed l (o_cur l p) 0 then o_goto p O_helped l else o_goto p O_for (l\<lparr>o_counter := (o_counter l)(p := 0), o_p := (o_p l)(p := o_cur l p), o_i := (o_i l)(p := 0)\<rparr>))"
    "o_pc l p = O_for \<Longrightarrow> OsciApplyOp f p l = (if o_i l p < 1 then o_goto p O_test l else o_goto p O_cond1 (l\<lparr>o_counter := (o_counter l)(p := o_counter l p + o_i l p)\<rparr>))"
    "o_pc l p = O_test \<Longrightarrow> OsciApplyOp f p l = (if o_completed l (o_p l p) (o_i l p) then o_goto p O_for (l\<lparr>o_i := (o_i l)(p := o_i l p + 1)\<rparr>) else o_goto p O_apply l)"
    "o_pc l p = O_apply \<Longrightarrow> OsciApplyOp f p l = ((case o_arg_ret l (o_p l p) (o_i l p) of Res r \<Rightarrow> o_goto p O_fault l | Arg x \<Rightarrow> (let (r, s) = f (o_npid l (o_p l p) (o_i l p)) x (o_obj l) in o_goto p O_done (l\<lparr>o_obj := s, o_arg_ret := upd_rec (o_arg_ret l) (o_p l p) (o_i l p) (Res r)\<rparr>))))"
    "o_pc l p = O_done \<Longrightarrow> OsciApplyOp f p l = (o_goto p O_unlock (l\<lparr>o_completed := upd_rec (o_completed l) (o_p l p) (o_i l p) True\<rparr>))"
    "o_pc l p = O_unlock \<Longrightarrow> OsciApplyOp f p l = (o_goto p O_for (l\<lparr>o_locked := upd_rec (o_locked l) (o_p l p) (o_i l p) False, o_i := (o_i l)(p := o_i l p + 1)\<rparr>))"
    "o_pc l p = O_cond1 \<Longrightarrow> OsciApplyOp f p l = (o_goto p (if o_next l (o_p l p) = None then O_end else O_cond2) l)"
    "o_pc l p = O_cond2 \<Longrightarrow> OsciApplyOp f p l = (o_goto p O_cond3 (l\<lparr>o_tmp := (o_tmp l)(p := o_next l (o_p l p))\<rparr>))"
    "o_pc l p = O_cond3 \<Longrightarrow> OsciApplyOp f p l = ((case o_tmp l p of None \<Rightarrow> o_goto p O_fault l | Some m \<Rightarrow> o_goto p (if o_next l m = None \<or> o_counter l p \<ge> OSCI_HELP_FACTOR * o_nthreads l then O_end else O_adv) l))"
    "o_pc l p = O_adv \<Longrightarrow> OsciApplyOp f p l = ((case o_next l (o_p l p) of None \<Rightarrow> o_goto p O_fault l | Some m \<Rightarrow> o_goto p O_for (l\<lparr>o_p := (o_p l)(p := m), o_i := (o_i l)(p := 0), o_arr := tl (o_arr l)\<rparr>)))"
    "o_pc l p = O_end \<Longrightarrow> OsciApplyOp f p l = (if o_next l (o_p l p) = None then o_goto p O_tail l else o_goto p O_seek (l\<lparr>o_i := (o_i l)(p := 0)\<rparr>))"
    "o_pc l p = O_tail \<Longrightarrow> OsciApplyOp f p l = (o_goto p (if o_tail l = Some (o_p l p) then O_leave else O_wait) l)"
    "o_pc l p = O_leave \<Longrightarrow> OsciApplyOp f p l = ((if o_tail l = Some (o_p l p) then o_goto p O_return (l\<lparr>o_tail := None, o_arr := []\<rparr>) else o_goto p O_wait l))"
    "o_pc l p = O_wait \<Longrightarrow> OsciApplyOp f p l = (if o_next l (o_p l p) = None then o_goto p O_wyield l else o_goto p O_seek (l\<lparr>o_i := (o_i l)(p := 0)\<rparr>))"
    "o_pc l p = O_seek \<Longrightarrow> OsciApplyOp f p l = (o_goto p (if o_i l p < 1 then O_seek1 else O_return) l)"
    "o_pc l p = O_seek1 \<Longrightarrow> OsciApplyOp f p l = (o_goto p O_seek2 (l\<lparr>o_tmp := (o_tmp l)(p := o_next l (o_p l p))\<rparr>))"
    "o_pc l p = O_seek2 \<Longrightarrow> OsciApplyOp f p l = ((case o_tmp l p of None \<Rightarrow> o_goto p O_fault l | Some m \<Rightarrow> if o_completed l m (o_i l p) then o_goto p O_seek (l\<lparr>o_i := (o_i l)(p := o_i l p + 1)\<rparr>) else o_goto p O_seek3 l))"
    "o_pc l p = O_seek3 \<Longrightarrow> OsciApplyOp f p l = (o_goto p O_pass (l\<lparr>o_tmp := (o_tmp l)(p := o_next l (o_p l p))\<rparr>))"
    "o_pc l p = O_pass \<Longrightarrow> OsciApplyOp f p l = ((case o_tmp l p of None \<Rightarrow> o_goto p O_fault l | Some m \<Rightarrow> o_goto p O_return (l\<lparr>o_locked := upd_rec (o_locked l) m (o_i l p) False, o_arr := tl (o_arr l)\<rparr>)))"
    "o_pc l p = O_helped \<Longrightarrow> OsciApplyOp f p l = ((case o_arg_ret l (o_cur l p) 0 of Arg x \<Rightarrow> o_goto p O_fault l | Res r \<Rightarrow> o_goto p O_out l))"
    "o_pc l p = O_return \<Longrightarrow> OsciApplyOp f p l = ((case o_arg_ret l (o_cur l p) 0 of Arg x \<Rightarrow> o_goto p O_fault l | Res r \<Rightarrow> o_goto p O_out l))"
  using assms by (simp_all add: OsciApplyOp_def)

lemma o_proj_eqI:
  assumes "\<And>q. q \<noteq> p \<Longrightarrow> o_pc l' q = o_pc l q \<and> o_i l' q = o_i l q \<and> o_cur l' q = o_cur l q \<and> o_counter l' q = o_counter l q"
    and pc: "dsm_pc_of (o_i l' p) (o_pc l' p) = dsm_pc_of (o_i l p) (o_pc l p)"
    and "o_counter l' p + uncounted (o_i l' p) (o_pc l' p) = o_counter l p + uncounted (o_i l p) (o_pc l p)"
    and nx: "\<And>x. owner x = p \<Longrightarrow> (if announcing (o_pc l' p) \<and> o_cur l' p = x then None else o_next l' x) =
         (if announcing (o_pc l p) \<and> o_cur l p = x then None else o_next l x)"
      "\<And>x. owner x \<noteq> p \<Longrightarrow> o_next l' x = o_next l x"
    and "o_arg_ret l' = o_arg_ret l" "o_npid l' = o_npid l" "o_locked l' = o_locked l" "o_completed l' = o_completed l"
      "o_nthreads l' = o_nthreads l" "o_tail l' = o_tail l" "o_obj l' = o_obj l" "o_toggle l' = o_toggle l" "o_pred l' = o_pred l"
      "o_p l' = o_p l" "o_tmp l' = o_tmp l" "o_arg l' = o_arg l" "o_arr l' = o_arr l"
  shows "o_proj l' = o_proj l"
proof -
  have "dsm_pc_of (o_i l' q) (o_pc l' q) = dsm_pc_of (o_i l q) (o_pc l q)" for q using assms(1) [of q] pc by (cases "q = p") auto
  moreover have "o_counter l' q + uncounted (o_i l' q) (o_pc l' q) = o_counter l q + uncounted (o_i l q) (o_pc l q)" for q
    using assms(1) [of q] assms(3) by (cases "q = p") auto
  moreover have "(if announcing (o_pc l' (owner x)) \<and> o_cur l' (owner x) = x then None else o_next l' x) =
      (if announcing (o_pc l (owner x)) \<and> o_cur l (owner x) = x then None else o_next l x)" for x
    using assms(1) [of "owner x"] nx [of x] by (cases "owner x = p") auto
  ultimately show ?thesis using assms(6-) by (simp add: o_proj_def)
qed

lemma fiber_okD:
  assumes "fiber_ok l p"
  shows "o_toggle l p \<le> 1" "active l p = p" "current_node l p = point_of (o_pc l p) (o_mynode l p)"
    "o_pc l p \<notin> {O_cyield, O_door, O_dinit, O_dyield, J_arg, J_pid, J_lock, J_compl, J_open, O_fault}"
    "o_pc l p \<in> {O_null, O_cas, O_cur, O_toggle} \<Longrightarrow> o_mynode l p = 2 * p + o_toggle l p"
    "o_pc l p = O_toggle \<Longrightarrow> o_cur l p = o_mynode l p"
    "o_pc l p \<notin> {O_out, O_start, O_null, O_cas, O_cur, O_toggle} \<Longrightarrow> o_cur l p = 2 * p + (1 - o_toggle l p)"
    "o_pc l p \<in> {O_yield, O_release, O_close} \<Longrightarrow> o_door l (o_cur l p) = DOOR_OPENED"
    "o_pc l p \<in> {O_test, O_apply, O_done, O_unlock, O_seek, O_seek1, O_seek2, O_seek3, O_pass} \<Longrightarrow> o_i l p = 0"
    "o_pc l p = O_for \<Longrightarrow> o_i l p \<le> 1"
  using assms unfolding fiber_ok_def by (elim conjE; blast)+

lemma owner_of: "t \<le> 1 \<Longrightarrow> owner (2 * p + t) = p" "owner (2 * p + (1 - t)) = p"
  by simp_all

lemma o_cur_owner:
  assumes ok: "fiber_ok l p" and "o_pc l p \<notin> {O_out, O_start, O_null, O_cas, O_cur}"
  shows "owner (o_cur l p) = p"
proof (cases "o_pc l p = O_toggle")
  case True
  have "o_cur l p = 2 * p + o_toggle l p" using fiber_okD(5,6) [OF ok] True by simp
  then show ?thesis using owner_of(1) [OF fiber_okD(1) [OF ok]] by simp
next
  case False
  then have "o_cur l p = 2 * p + (1 - o_toggle l p)" using fiber_okD(7) [OF ok] assms(2) by blast
  then show ?thesis using owner_of(2) by simp
qed

lemma o_hidden_a:
  assumes pcs: "o_pc l p \<in> {O_start, O_null, O_cas, O_cur, O_open, O_release, O_close}" and F: "fibers_per_thread l = 1" "p < groups_of_fibers l"
    and ok: "fiber_ok l p"
  shows "o_proj (OsciApplyOp f p l) = o_proj l"
proof -
  note st = o_steps [OF F(1), of p f]
  have cn: "current_node l p = point_of (o_pc l p) (o_mynode l p)" "o_pc l p = O_close \<Longrightarrow> o_door l (o_cur l p) = DOOR_OPENED"
    using fiber_okD(3,8) [OF ok] by blast+
  consider "o_pc l p = O_start" | "o_pc l p = O_null" | "o_pc l p = O_cas" | "o_pc l p = O_cur" | "o_pc l p = O_open"
    | "o_pc l p = O_release" | "o_pc l p = O_close" using pcs by blast
  then show ?thesis
    using F(2) by cases (rule o_proj_eqI [of p]; simp add: st cn point_of_def)+
qed

lemma o_hidden_b:
  assumes F: "fibers_per_thread l = 1" and ok: "fiber_ok l p"
  shows "o_pc l p = O_next \<Longrightarrow> o_proj (OsciApplyOp f p l) = o_proj l"
    and "o_pc l p = O_for \<Longrightarrow> o_proj (OsciApplyOp f p l) = o_proj l"
    and "o_pc l p = O_test \<Longrightarrow> \<not> o_completed l (o_p l p) 0 \<Longrightarrow> o_proj (OsciApplyOp f p l) = o_proj l"
    and "o_pc l p = O_seek \<Longrightarrow> o_proj (OsciApplyOp f p l) = o_proj l"
    and "o_pc l p = O_seek2 \<Longrightarrow> o_tmp l p = Some m \<Longrightarrow> \<not> o_completed l m 0 \<Longrightarrow> o_proj (OsciApplyOp f p l) = o_proj l"
    and "o_pc l p = O_seek3 \<Longrightarrow> o_tmp l p = o_next l (o_p l p) \<Longrightarrow> o_proj (OsciApplyOp f p l) = o_proj l"
proof -
  note st = o_steps [OF F, of p f]
  have i: "o_pc l p \<in> {O_test, O_seek, O_seek2} \<Longrightarrow> o_i l p = 0" "o_pc l p = O_for \<Longrightarrow> o_i l p = 0 \<or> o_i l p = 1"
    using fiber_okD(9,10) [OF ok] by (blast, linarith)
  show "o_proj (OsciApplyOp f p l) = o_proj l" if "o_pc l p = O_next"
  proof (rule o_proj_eqI [of p])
    have "owner (o_cur l p) = p" using o_cur_owner [OF ok] that by simp
    then show "owner x \<noteq> p \<Longrightarrow> o_next (OsciApplyOp f p l) x = o_next l x" for x using that by (auto simp: st)
  qed (use that in \<open>auto simp: st\<close>)
  show "o_proj (OsciApplyOp f p l) = o_proj l" if "o_pc l p = O_for"
    using i(2) [OF that] by (elim disjE; intro o_proj_eqI [of p]; simp add: st that)
  show "o_proj (OsciApplyOp f p l) = o_proj l" if "o_pc l p = O_test" "\<not> o_completed l (o_p l p) 0"
    using i(1) by (intro o_proj_eqI [of p]; simp add: st that)
  show "o_proj (OsciApplyOp f p l) = o_proj l" if "o_pc l p = O_seek"
    using i(1) by (intro o_proj_eqI [of p]; simp add: st that)
  show "o_proj (OsciApplyOp f p l) = o_proj l" if "o_pc l p = O_seek2" "o_tmp l p = Some m" "\<not> o_completed l m 0"
    using i(1) by (intro o_proj_eqI [of p]; simp add: st that)
  show "o_proj (OsciApplyOp f p l) = o_proj l" if "o_pc l p = O_seek3" "o_tmp l p = o_next l (o_p l p)"
    by (intro o_proj_eqI [of p]; simp add: st that fun_upd_idem)
qed

lemma o_yield_proj:
  assumes "after_yield (o_pc l p) = Some c" and "o_pc l p \<notin> {O_cyield, O_dyield}"
  shows "o_proj (osci_exec f (OYield p q) l) = o_proj l"
  using assms by (intro o_proj_eqI [of p]; cases "o_pc l p"; simp)

lemma o_proj_invoke:
  assumes "o_pc l p = O_out"
  shows "o_proj (osci_exec f (OInvoke p x) l) = dsm_exec f (dsm_act.Invoke p x) (o_proj l)"
  using assms by (auto simp: o_proj_def fun_eq_iff)

text \<open>A node whose \<^verbatim>\<open>next\<close> is read as it is.\<close>

definition seen :: "('x, 'r, 's) OsciStruct \<Rightarrow> nat \<Rightarrow> bool" where
  "seen l x \<longleftrightarrow> \<not> (announcing (o_pc l (owner x)) \<and> o_cur l (owner x) = x)"

lemma seen_next: "seen l x \<Longrightarrow> nxt (o_proj l) x = o_next l x"
  by (auto simp: seen_def o_proj_def)

definition o_nxt :: "('x, 'r, 's) OsciStruct \<Rightarrow> nat \<Rightarrow> ptr" where
  "o_nxt l = (\<lambda>x. if announcing (o_pc l (owner x)) \<and> o_cur l (owner x) = x then None else o_next l x)"

definition o_count :: "('x, 'r, 's) OsciStruct \<Rightarrow> tid \<Rightarrow> nat" where
  "o_count l = (\<lambda>p. o_counter l p + uncounted (o_i l p) (o_pc l p))"

definition o_dpc :: "('x, 'r, 's) OsciStruct \<Rightarrow> tid \<Rightarrow> dsm_pc" where
  "o_dpc l = (\<lambda>p. dsm_pc_of (o_i l p) (o_pc l p))"

lemma o_proj_alt: "o_proj l = \<lparr>nxt = o_nxt l,
     arg_ret = (\<lambda>x. o_arg_ret l x 0), npid = (\<lambda>x. o_npid l x 0), locked = (\<lambda>x. o_locked l x 0),
     completed = (\<lambda>x. o_completed l x 0), nthreads = o_nthreads l, Tail = o_tail l, obj = o_obj l,
     toggle = (\<lambda>p. 1 - o_toggle l p), mynode = (\<lambda>p. 2 * p + (1 - o_toggle l p)), mypred = o_pred l, wp = o_p l, tmp = o_tmp l,
     counter = o_count l, arg = o_arg l, pc = o_dpc l, arr = o_arr l\<rparr>"
  by (simp add: o_proj_def o_nxt_def o_count_def o_dpc_def)

text \<open>How these three change in a step of fiber \<open>p\<close>.\<close>

lemma o_dpc_upd: "\<lbrakk>\<And>q. q \<noteq> p \<Longrightarrow> o_pc l' q = o_pc l q \<and> o_i l' q = o_i l q\<rbrakk> \<Longrightarrow>
    o_dpc l' = (o_dpc l)(p := dsm_pc_of (o_i l' p) (o_pc l' p))"
  by (auto simp: o_dpc_def fun_eq_iff)

lemma o_count_upd: "\<lbrakk>\<And>q. q \<noteq> p \<Longrightarrow> o_pc l' q = o_pc l q \<and> o_i l' q = o_i l q \<and> o_counter l' q = o_counter l q\<rbrakk> \<Longrightarrow>
    o_count l' = (o_count l)(p := o_counter l' p + uncounted (o_i l' p) (o_pc l' p))"
  by (auto simp: o_count_def fun_eq_iff)

lemma o_nxt_same: "\<lbrakk>\<And>q. q \<noteq> p \<Longrightarrow> o_pc l' q = o_pc l q \<and> o_cur l' q = o_cur l q;
    announcing (o_pc l' p) = announcing (o_pc l p); o_cur l' p = o_cur l p; o_next l' = o_next l\<rbrakk> \<Longrightarrow> o_nxt l' = o_nxt l"
  by (auto simp: o_nxt_def fun_eq_iff) (metis+)?

lemma o_others:
  assumes "fibers_per_thread l = 1" and "o_pc l p \<notin> {O_door, O_dinit, J_arg, J_pid, J_lock, J_compl, J_open}" and "q \<noteq> p"
  shows "o_pc (OsciApplyOp f p l) q = o_pc l q \<and> o_i (OsciApplyOp f p l) q = o_i l q \<and> o_cur (OsciApplyOp f p l) q = o_cur l q
     \<and> o_counter (OsciApplyOp f p l) q = o_counter l q"
  using assms by (cases "o_pc l p") (simp_all add: OsciApplyOp_def split_beta split: option.split slot.split)

lemma o_visible_simple:
  assumes F: "fibers_per_thread l = 1" and ok: "fiber_ok l p"
    and pcs: "o_pc l p \<in> {O_arg, O_pid, O_lock, O_compl, O_spin, O_check, O_helped, O_return, O_apply, O_done, O_unlock}"
  shows "o_proj (OsciApplyOp f p l) = DSMSynchApplyOp f p (o_proj l)"
proof -
  note st = o_steps [OF F, of p f]
  let ?l = "OsciApplyOp f p l"
  have cur: "o_cur l p = 2 * p + (1 - o_toggle l p)" using fiber_okD(7) [OF ok] pcs by auto
  have i: "o_pc l p \<in> {O_apply, O_done, O_unlock} \<Longrightarrow> o_i l p = 0" using fiber_okD(9) [OF ok] by blast
  have oth: "q \<noteq> p \<Longrightarrow> o_pc ?l q = o_pc l q \<and> o_i ?l q = o_i l q \<and> o_cur ?l q = o_cur l q \<and> o_counter ?l q = o_counter l q" for q
    by (rule o_others [OF F]) (use fiber_okD(4) [OF ok] in blast)
  have nx: "o_nxt ?l = o_nxt l" using pcs
    by (intro o_nxt_same [of p]) (elim insertE emptyE; simp add: st split_beta split: slot.split)+
  have dp: "o_dpc ?l = (o_dpc l)(p := dsm_pc_of (o_i ?l p) (o_pc ?l p))" by (rule o_dpc_upd) (use oth in blast)
  have ct: "o_count ?l = (o_count l)(p := o_counter ?l p + uncounted (o_i ?l p) (o_pc ?l p))" by (rule o_count_upd) (use oth in blast)
  have at: "o_dpc l p = dsm_pc_of (o_i l p) (o_pc l p)" "o_count l p = o_counter l p + uncounted (o_i l p) (o_pc l p)"
    by (simp_all add: o_dpc_def o_count_def)
  show ?thesis unfolding o_proj_alt nx dp ct using pcs i
    by (elim insertE emptyE; simp add: st at cur split_beta fun_eq_iff split: slot.split)
qed

lemma seen_nxt: "seen l x \<Longrightarrow> o_nxt l x = o_next l x"
  by (auto simp: seen_def o_nxt_def)

lemma o_visible_queue:
  assumes F: "fibers_per_thread l = 1" and ok: "fiber_ok l p"
    and pcs: "o_pc l p \<in> {O_swap, O_cond1, O_cond2, O_cond3, O_adv, O_end, O_tail, O_leave, O_wait, O_seek1, O_pass}"
    and w: "o_pc l p \<in> {O_cond1, O_cond2, O_adv, O_end, O_wait, O_seek1} \<Longrightarrow> seen l (o_p l p)"
    and t: "\<And>m. o_pc l p = O_cond3 \<Longrightarrow> o_tmp l p = Some m \<Longrightarrow> seen l m"
  shows "o_proj (OsciApplyOp f p l) = DSMSynchApplyOp f p (o_proj l)"
proof -
  note st = o_steps [OF F, of p f]
  let ?l = "OsciApplyOp f p l"
  have cur: "o_cur l p = 2 * p + (1 - o_toggle l p)" using fiber_okD(7) [OF ok] pcs by auto
  have i: "o_pc l p \<in> {O_seek1, O_pass} \<Longrightarrow> o_i l p = 0" using fiber_okD(9) [OF ok] by blast
  have oth: "q \<noteq> p \<Longrightarrow> o_pc ?l q = o_pc l q \<and> o_i ?l q = o_i l q \<and> o_cur ?l q = o_cur l q \<and> o_counter ?l q = o_counter l q" for q
    by (rule o_others [OF F]) (use fiber_okD(4) [OF ok] in blast)
  have nx: "o_nxt ?l = o_nxt l" using pcs
    by (intro o_nxt_same [of p]) (elim insertE emptyE; simp add: st split: option.split)+
  have dp: "o_dpc ?l = (o_dpc l)(p := dsm_pc_of (o_i ?l p) (o_pc ?l p))" by (rule o_dpc_upd) (use oth in blast)
  have ct: "o_count ?l = (o_count l)(p := o_counter ?l p + uncounted (o_i ?l p) (o_pc ?l p))" by (rule o_count_upd) (use oth in blast)
  have at: "o_dpc l p = dsm_pc_of (o_i l p) (o_pc l p)" "o_count l p = o_counter l p + uncounted (o_i l p) (o_pc l p)"
    by (simp_all add: o_dpc_def o_count_def)
  have sw: "o_pc l p \<in> {O_cond1, O_cond2, O_adv, O_end, O_wait, O_seek1} \<Longrightarrow> o_nxt l (o_p l p) = o_next l (o_p l p)"
    using seen_nxt [OF w] .
  have sm: "o_pc l p = O_cond3 \<Longrightarrow> o_tmp l p = Some m \<Longrightarrow> o_nxt l m = o_next l m" for m using seen_nxt [OF t] .
  show ?thesis unfolding o_proj_alt nx dp ct using pcs i sw sm
    by (elim insertE emptyE; simp add: st at cur fun_eq_iff OSCI_HELP_FACTOR_def DSMSYNCH_HELP_FACTOR_def split: option.split)
qed

lemma o_visible_toggle:
  assumes F: "fibers_per_thread l = 1" and ok: "fiber_ok l p" and pcs: "o_pc l p = O_toggle"
  shows "o_proj (OsciApplyOp f p l) = DSMSynchApplyOp f p (o_proj l)"
proof -
  note st = o_steps [OF F, of p f]
  let ?l = "OsciApplyOp f p l"
  have cur: "o_cur l p = 2 * p + o_toggle l p" "o_toggle l p \<le> 1" using fiber_okD(1,5,6) [OF ok] pcs by auto
  have oth: "q \<noteq> p \<Longrightarrow> o_pc ?l q = o_pc l q \<and> o_i ?l q = o_i l q \<and> o_cur ?l q = o_cur l q \<and> o_counter ?l q = o_counter l q" for q
    by (rule o_others [OF F]) (use pcs in simp)
  have nx: "o_nxt ?l = (o_nxt l)(o_cur l p := None)"
  proof
    fix x
    show "o_nxt ?l x = ((o_nxt l)(o_cur l p := None)) x"
      using cur pcs by (cases "owner x = p") (auto simp: o_nxt_def st)
  qed
  have dp: "o_dpc ?l = (o_dpc l)(p := S_arg)" using o_dpc_upd [of p ?l l] oth pcs by (simp add: st)
  have ct: "o_count ?l = (o_count l)(p := o_count l p)"
    using o_count_upd [of p ?l l] oth pcs by (simp add: st o_count_def)
  have at: "o_dpc l p = S_next" using pcs by (simp add: o_dpc_def)
  have tg: "o_toggle ?l = (o_toggle l)(p := 1 - o_toggle l p)" using pcs by (simp add: st)
  show ?thesis unfolding o_proj_alt nx dp ct tg using cur pcs by (auto simp: st at fun_eq_iff Let_def)
qed

lemma o_visible_link:
  assumes F: "fibers_per_thread l = 1" and ok: "fiber_ok l p" and pcs: "o_pc l p = O_link"
    and m: "o_pred l p = Some m" "seen l m"
  shows "o_proj (OsciApplyOp f p l) = DSMSynchApplyOp f p (o_proj l)"
proof -
  note st = o_steps [OF F, of p f]
  let ?l = "OsciApplyOp f p l"
  have cur: "o_cur l p = 2 * p + (1 - o_toggle l p)" using fiber_okD(7) [OF ok] pcs by auto
  have oth: "q \<noteq> p \<Longrightarrow> o_pc ?l q = o_pc l q \<and> o_i ?l q = o_i l q \<and> o_cur ?l q = o_cur l q \<and> o_counter ?l q = o_counter l q" for q
    by (rule o_others [OF F]) (use pcs in simp)
  have nx: "o_nxt ?l = (o_nxt l)(m := Some (o_cur l p))"
  proof
    fix x
    show "o_nxt ?l x = ((o_nxt l)(m := Some (o_cur l p))) x"
      using m pcs by (cases "x = m") (auto simp: o_nxt_def st seen_def)
  qed
  have dp: "o_dpc ?l = (o_dpc l)(p := S_spin)" using o_dpc_upd [of p ?l l] oth pcs m by (simp add: st)
  have ct: "o_count ?l = o_count l"
    using o_count_upd [of p ?l l] oth pcs m by (simp add: st o_count_def fun_eq_iff)
  have at: "o_dpc l p = S_link" using pcs by (simp add: o_dpc_def)
  show ?thesis unfolding o_proj_alt nx dp ct using cur pcs m by (simp add: st at)
qed

section \<open>Invariant\<close>

definition osci_inv :: "('x, 'r, 's) OsciStruct \<Rightarrow> bool" where
  "osci_inv l \<longleftrightarrow> dsm_inv (o_proj l) \<and> fibers_per_thread l = 1 \<and> o_nthreads l \<le> groups_of_fibers l
     \<and> (\<forall>p. fiber_ok l p) \<and> (\<forall>p. o_pc l p = O_cond3 \<longrightarrow> o_tmp l p = o_next l (o_p l p))"

text \<open>What the queue says about the node the combiner is at.\<close>

lemma osci_queue_seen:
  assumes inv: "dsm_inv_at c (o_proj l)" and ok: "\<And>p. fiber_ok l p" and x: "x \<in> set (o_arr l)"
  shows "seen l x"
  unfolding seen_def
proof
  assume a: "announcing (o_pc l (owner x)) \<and> o_cur l (owner x) = x"
  then have pc: "preswap (pc (o_proj l) (owner x))" "o_pc l (owner x) \<notin> {O_out, O_start, O_null, O_cas, O_cur, O_toggle}"
    by (cases "o_pc l (owner x)"; simp add: o_proj_pc)+
  have "mynode (o_proj l) (owner x) = x" using fiber_okD(7) [OF ok pc(2)] a by (simp add: o_proj_def)
  with dsm_invD(9) [OF inv pc(1)] x show False by (simp add: o_proj_def)
qed

lemma osci_at_head:
  assumes inv: "dsm_inv_at c (o_proj l)"
    and pcs: "pc (o_proj l) p \<in> {S_apply, S_cond1, S_cond2, S_cond3, S_adv, S_end, S_tail, S_cas, S_wait, S_load, S_pass}"
  shows "p = c" "o_arr l \<noteq> []" "o_p l p = hd (o_arr l)"
proof -
  have "arr (o_proj l) \<noteq> [] \<and> p = c" by (rule combiner_by_pc [OF inv]) (use pcs in auto)
  then show "p = c" "o_arr l \<noteq> []" by (simp_all add: o_proj_def)
  with dsm_invD(7) [OF inv] pcs have "wp (o_proj l) p = hd (arr (o_proj l))"
    by (auto simp: combiner_ok_def moving_def served_def o_proj_def)
  then show "o_p l p = hd (o_arr l)" by (simp add: o_proj_def)
qed

lemma osci_successor:
  assumes inv: "dsm_inv_at c (o_proj l)" and ok: "\<And>p. fiber_ok l p" and "o_arr l \<noteq> []" and m: "o_next l (hd (o_arr l)) = Some m"
  shows "m \<in> set (tl (o_arr l))" "\<not> o_completed l m 0"
proof -
  obtain a xs where a: "o_arr l = a # xs" using assms(3) by (cases "o_arr l") auto
  have "seen l a" using a by (intro osci_queue_seen [OF inv ok]) simp
  then have "nxt (o_proj l) a = Some m" using m a seen_next [of l a] by simp
  moreover have "chain (o_proj l) (a # xs)" using dsm_invD(6) [OF inv] a by (simp add: o_proj_def)
  ultimately obtain ys where "xs = m # ys" using chain_second by blast
  then show m': "m \<in> set (tl (o_arr l))" using a by simp
  then have "waiting (o_proj l) m" using dsm_invD(5) [OF inv, of m] by (simp add: o_proj_def)
  then show "\<not> o_completed l m 0" by (simp add: waiting_def ready_def o_proj_def)
qed

text \<open>What the combiner finds: its request open, the next one in the queue open too.\<close>

lemma osci_tests:
  assumes inv: "osci_inv l"
  shows "o_pc l p = O_test \<Longrightarrow> \<not> o_completed l (o_p l p) 0"
    and "o_pc l p \<in> {O_seek2, O_seek3} \<Longrightarrow> \<exists>m. o_tmp l p = Some m \<and> \<not> o_completed l m 0"
    and "o_pc l p \<in> {O_seek2, O_seek3} \<Longrightarrow> o_tmp l p = o_next l (o_p l p)"
proof -
  have ok: "\<And>p. fiber_ok l p" using inv by (simp add: osci_inv_def)
  obtain c where c: "dsm_inv_at c (o_proj l)" using inv unfolding osci_inv_def dsm_inv_def by blast
  note head = osci_at_head [OF c, of p, unfolded o_proj_pc]
  show "\<not> o_completed l (o_p l p) 0" if "o_pc l p = O_test"
  proof -
    have "combiner_ok S_apply (o_proj l) p"
      using dsm_invD(7) [OF c] head(1,2) that by (simp add: o_proj_pc) (simp add: o_proj_def)
    then show ?thesis by (simp add: combiner_ok_def ready_def o_proj_def)
  qed
  have s2: "\<exists>m. o_tmp l p = Some m \<and> \<not> o_completed l m 0" "o_tmp l p = o_next l (o_p l p)" if "o_pc l p \<in> {O_seek2, O_seek3}"
  proof -
    have h: "o_arr l \<noteq> []" "o_p l p = hd (o_arr l)" "p = c" using head that by auto
    have "combiner_ok S_pass (o_proj l) p"
      using dsm_invD(7) [OF c] h that by (auto simp: o_proj_pc) (simp_all add: o_proj_def)
    then have t: "nxt (o_proj l) (hd (o_arr l)) \<noteq> None" "o_tmp l p = nxt (o_proj l) (hd (o_arr l))"
      using h by (auto simp: combiner_ok_def) (simp_all add: o_proj_def)
    have "seen l (hd (o_arr l))" using h by (intro osci_queue_seen [OF c ok]) simp
    then have n: "nxt (o_proj l) (hd (o_arr l)) = o_next l (hd (o_arr l))" by (rule seen_next)
    with t h show "o_tmp l p = o_next l (o_p l p)" by simp
    from t n obtain m where "o_next l (hd (o_arr l)) = Some m" "o_tmp l p = Some m" by auto
    with osci_successor(2) [OF c ok h(1)] show "\<exists>m. o_tmp l p = Some m \<and> \<not> o_completed l m 0" by blast
  qed
  then show "o_pc l p \<in> {O_seek2, O_seek3} \<Longrightarrow> \<exists>m. o_tmp l p = Some m \<and> \<not> o_completed l m 0"
    "o_pc l p \<in> {O_seek2, O_seek3} \<Longrightarrow> o_tmp l p = o_next l (o_p l p)" by blast+
qed

text \<open>Every step is one of DSM-Synch or does not show.\<close>

lemma osci_step_dsm:
  assumes inv: "osci_inv l" and p: "p < o_nthreads l" and pcs: "after_yield (o_pc l p) = None" "o_pc l p \<noteq> O_fault"
  shows "o_proj (OsciApplyOp f p l) = o_proj l \<and> (o_pc l p \<notin> {O_helped, O_return, O_apply})
       \<or> o_proj (OsciApplyOp f p l) = DSMSynchApplyOp f p (o_proj l) \<and> pc (o_proj l) p \<noteq> S_out \<and> pc (o_proj l) p \<noteq> S_fault"
proof -
  have F: "fibers_per_thread l = 1" "p < groups_of_fibers l" and ok: "\<And>p. fiber_ok l p"
    and c3: "o_pc l p = O_cond3 \<Longrightarrow> o_tmp l p = o_next l (o_p l p)" and di: "dsm_inv (o_proj l)"
    using inv p by (auto simp: osci_inv_def)
  obtain c where c: "dsm_inv_at c (o_proj l)" using di unfolding dsm_inv_def by blast
  note head = osci_at_head [OF c, of p, unfolded o_proj_pc]
  note tests = osci_tests [OF inv, of p]
  have w: "seen l (o_p l p)" if "o_pc l p \<in> {O_cond1, O_cond2, O_adv, O_end, O_wait, O_seek1}"
    using head that by (intro osci_queue_seen [OF c ok]) auto
  have t: "seen l m" if "o_pc l p = O_cond3" "o_tmp l p = Some m" for m
  proof -
    have h: "o_arr l \<noteq> []" "o_p l p = hd (o_arr l)" using head that by auto
    then have "m \<in> set (tl (o_arr l))" using osci_successor(1) [OF c ok] c3 that by simp
    from list.set_sel(2) [OF h(1) this] show ?thesis by (rule osci_queue_seen [OF c ok])
  qed
  have lk: "\<exists>m. o_pred l p = Some m \<and> seen l m" if "o_pc l p = O_link"
  proof -
    have "pc (o_proj l) p = S_link" using that by (simp add: o_proj_pc)
    from dsm_link_at [OF c this] obtain a where "a \<in> set (o_arr l)" "o_pred l p = Some a" by (auto simp: o_proj_def)
    with osci_queue_seen [OF c ok] show ?thesis by blast
  qed
  have nf: "pc (o_proj l) p \<noteq> S_fault" by (rule dsm_no_fault [OF di])
  show ?thesis
  proof (cases "o_pc l p \<in> {O_toggle, O_arg, O_pid, O_lock, O_compl, O_swap, O_link, O_spin, O_check, O_helped, O_return, O_apply, O_done, O_unlock,
      O_cond1, O_cond2, O_cond3, O_adv, O_end, O_tail, O_leave, O_wait, O_seek1, O_pass}")
    case True
    have so: "pc (o_proj l) p \<noteq> S_out" using True by (auto simp: o_proj_pc)
    from True consider "o_pc l p = O_toggle" | "o_pc l p = O_link"
      | "o_pc l p \<in> {O_arg, O_pid, O_lock, O_compl, O_spin, O_check, O_helped, O_return, O_apply, O_done, O_unlock}"
      | "o_pc l p \<in> {O_swap, O_cond1, O_cond2, O_cond3, O_adv, O_end, O_tail, O_leave, O_wait, O_seek1, O_pass}" by blast
    then have "o_proj (OsciApplyOp f p l) = DSMSynchApplyOp f p (o_proj l)"
    proof cases
      case 2
      with lk o_visible_link [OF F(1) ok] show ?thesis by blast
    qed (rule o_visible_toggle [OF F(1) ok] o_visible_simple [OF F(1) ok] o_visible_queue [OF F(1) ok _ w t]; assumption)+
    with so nf show ?thesis by blast
  next
    case False
    then have "o_pc l p \<in> {O_start, O_null, O_cas, O_cur, O_open, O_release, O_close} \<or> o_pc l p \<in> {O_next, O_for, O_test, O_seek, O_seek2, O_seek3}"
      using pcs fiber_okD(4) [OF ok, of p] by (cases "o_pc l p") simp_all
    then have "o_proj (OsciApplyOp f p l) = o_proj l"
      using o_hidden_a [OF _ F ok [of p], of f] o_hidden_b [OF F(1) ok [of p], where f = f] tests by (elim disjE insertE emptyE) blast+
    moreover have "o_pc l p \<notin> {O_helped, O_return, O_apply}" using False by blast
    ultimately show ?thesis by blast
  qed
qed

lemma o_others2:
  assumes "fibers_per_thread l = 1" and "o_pc l p \<notin> {O_door, O_dinit, J_arg, J_pid, J_lock, J_compl, J_open}" and "q \<noteq> p"
  shows "o_toggle (OsciApplyOp f p l) q = o_toggle l q \<and> o_mynode (OsciApplyOp f p l) q = o_mynode l q
     \<and> o_tmp (OsciApplyOp f p l) q = o_tmp l q \<and> o_p (OsciApplyOp f p l) q = o_p l q
     \<and> current_node (OsciApplyOp f p l) q = current_node l q \<and> active (OsciApplyOp f p l) = active l"
    "o_door (OsciApplyOp f p l) x = o_door l x \<or> x = o_cur l p \<and> (o_pc l p = O_open \<or> o_pc l p = O_close)"
  using assms by (cases "o_pc l p"; simp add: OsciApplyOp_def split_beta split: option.split slot.split)+

lemma o_consts: "fibers_per_thread (OsciApplyOp f p l) = fibers_per_thread l" "groups_of_fibers (OsciApplyOp f p l) = groups_of_fibers l"
    "o_nthreads (OsciApplyOp f p l) = o_nthreads l"
  by (cases "o_pc l p"; simp add: OsciApplyOp_def Let_def split_beta split: option.split slot.split)+

lemma fiber_ok_other:
  assumes F: "fibers_per_thread l = 1" and ok: "\<And>q. fiber_ok l q" and "q \<noteq> p"
  shows "fiber_ok (OsciApplyOp f p l) q"
proof -
  let ?l = "OsciApplyOp f p l"
  have np: "o_pc l p \<notin> {O_door, O_dinit, J_arg, J_pid, J_lock, J_compl, J_open}" using fiber_okD(4) [OF ok [of p]] by blast
  note o = o_others [OF F np assms(3), of f] o_others2(1) [OF F np assms(3), of f]
  have "o_door ?l (o_cur l q) = o_door l (o_cur l q)" if "o_pc l q \<in> {O_yield, O_release, O_close}"
  proof -
    have "owner (o_cur l q) = q" using that by (intro o_cur_owner [OF ok]) auto
    moreover have "owner (o_cur l p) = p" if "o_pc l p = O_open \<or> o_pc l p = O_close" using that by (intro o_cur_owner [OF ok]) auto
    ultimately show ?thesis using o_others2(2) [OF F np assms(3), of f "o_cur l q"] assms(3) by metis
  qed
  then show ?thesis using ok [of q] o unfolding fiber_ok_def by auto
qed

lemma fiber_ok_step:
  assumes F: "fibers_per_thread l = 1" "p < groups_of_fibers l" and ok: "fiber_ok l p"
    and nf: "o_pc (OsciApplyOp f p l) p \<noteq> O_fault" and pcs: "after_yield (o_pc l p) = None" "o_pc l p \<noteq> O_fault"
    and rd: "o_pc l p = O_test \<Longrightarrow> \<not> o_completed l (o_p l p) 0"
    and s2: "\<And>m. o_pc l p = O_seek2 \<Longrightarrow> o_tmp l p = Some m \<Longrightarrow> \<not> o_completed l m 0"
  shows "fiber_ok (OsciApplyOp f p l) p"
proof -
  note st = o_steps [OF F(1), of p f]
  note k = fiber_okD [OF ok]
  have "o_pc l p \<notin> {O_cyield, O_door, O_dinit, O_dyield, J_arg, J_pid, J_lock, J_compl, J_open, O_fault, O_out, O_yield, O_syield, O_wyield}"
    using k(4) pcs by (cases "o_pc l p") simp_all
  then show ?thesis using F(2) k nf rd s2
    by (cases "o_pc l p") (simp_all add: fiber_ok_def point_of_def st split_beta split: option.splits slot.splits if_splits)
qed

text \<open>The successor that is about to be looked at stays the same.\<close>

lemma cond3_step:
  assumes inv: "osci_inv l" and p: "p < o_nthreads l" and pcs: "after_yield (o_pc l p) = None" "o_pc l p \<noteq> O_fault"
    and q: "o_pc (OsciApplyOp f p l) q = O_cond3"
  shows "o_tmp (OsciApplyOp f p l) q = o_next (OsciApplyOp f p l) (o_p (OsciApplyOp f p l) q)"
proof (cases "q = p")
  case True
  have F: "fibers_per_thread l = 1" and ok: "\<And>p. fiber_ok l p" using inv by (simp_all add: osci_inv_def)
  have "o_pc l p \<notin> {O_door, O_dinit, J_arg, J_pid, J_lock, J_compl, J_open}" using fiber_okD(4) [OF ok [of p]] by blast
  then show ?thesis using True q pcs
    by (cases "o_pc l p") (simp_all add: o_steps [OF F] split_beta split: if_splits option.splits slot.splits)
next
  case False
  have F: "fibers_per_thread l = 1" and ok: "\<And>p. fiber_ok l p" using inv by (simp_all add: osci_inv_def)
  obtain c where c: "dsm_inv_at c (o_proj l)" using inv unfolding osci_inv_def dsm_inv_def by blast
  have np: "o_pc l p \<notin> {O_door, O_dinit, J_arg, J_pid, J_lock, J_compl, J_open}" using fiber_okD(4) [OF ok [of p]] by blast
  note o = o_others [OF F np False, of f] o_others2(1) [OF F np False, of f]
  have pq: "o_pc l q = O_cond3" using q o by simp
  note head = osci_at_head [OF c, of q, unfolded o_proj_pc]
  have h: "o_arr l \<noteq> []" "o_p l q = hd (o_arr l)" "q = c" using head pq by auto
  then have sn: "seen l (o_p l q)" by (intro osci_queue_seen [OF c ok]) simp
  have t: "o_tmp l q = o_next l (o_p l q)" using inv pq by (simp add: osci_inv_def)
  have "combiner_ok S_cond3 (o_proj l) q"
    using dsm_invD(7) [OF c] h pq by (simp add: o_proj_pc) (simp add: o_proj_def)
  then have "o_tmp l q \<noteq> None" by (simp add: combiner_ok_def o_proj_def)
  then have ne: "o_next l (o_p l q) \<noteq> None" using t by simp
  have "o_next (OsciApplyOp f p l) (o_p l q) = o_next l (o_p l q)"
  proof (cases "o_pc l p = O_next \<or> o_pc l p = O_link")
    case True
    then show ?thesis
    proof
      assume a: "o_pc l p = O_next"
      have "owner (o_cur l p) = p" using a by (intro o_cur_owner [OF ok]) simp
      then have "o_p l q \<noteq> o_cur l p" using sn a by (auto simp: seen_def)
      then show ?thesis using a by (simp add: o_steps [OF F])
    next
      assume a: "o_pc l p = O_link"
      then have "pc (o_proj l) p = S_link" by (simp add: o_proj_pc)
      from dsm_link_at [OF c this] obtain m where m: "m \<in> set (o_arr l)" "o_pred l p = Some m" "nxt (o_proj l) m = None"
        by (auto simp: o_proj_def)
      then have "o_next l m = None" using seen_next [OF osci_queue_seen [OF c ok m(1)]] by simp
      then have "o_p l q \<noteq> m" using ne by auto
      then show ?thesis using a m(2) by (simp add: o_steps [OF F])
    qed
  next
    case nl: False
    then show ?thesis using np by (cases "o_pc l p") (simp_all add: OsciApplyOp_def Let_def split_beta split: option.split slot.split)
  qed
  then show ?thesis using o t by simp
qed

lemma osci_inv_step:
  assumes inv: "osci_inv l" and p: "p < o_nthreads l" and pcs: "after_yield (o_pc l p) = None" "o_pc l p \<noteq> O_fault"
  shows "osci_inv (OsciApplyOp f p l)"
proof -
  let ?l = "OsciApplyOp f p l"
  have F: "fibers_per_thread l = 1" "p < groups_of_fibers l" and ok: "\<And>p. fiber_ok l p" and di: "dsm_inv (o_proj l)"
    using inv p by (auto simp: osci_inv_def)
  have d: "dsm_inv (o_proj ?l)" using osci_step_dsm [OF inv p pcs, of f] di dsm_inv_step [OF di, of p f] by auto
  then have nf: "o_pc ?l p \<noteq> O_fault" using dsm_no_fault [OF d, of p] by (auto simp: o_proj_pc)
  have "\<not> o_completed l m 0" if "o_pc l p = O_seek2" "o_tmp l p = Some m" for m
    using osci_tests(2) [OF inv, of p] that by auto
  from fiber_ok_step [OF F ok nf pcs osci_tests(1) [OF inv] this] have "fiber_ok ?l p" by blast
  then have "fiber_ok ?l q" for q using fiber_ok_other [OF F(1) ok, of q p f] by (cases "q = p") auto
  with d cond3_step [OF inv p pcs, of f] inv show ?thesis unfolding osci_inv_def o_consts by auto
qed

end
