(* ===== verification/OsciRuns.thy ===== *)
theory OsciRuns
  imports OsciCorrect
begin

text \<open>
  The runs of Osci: with one fiber per thread they are runs of the atomic object. At the end, the
  groups of fibers that the initialisation makes room for, and a run with several fibers per thread.
\<close>

section \<open>The other actions\<close>

lemma osci_inv_yield:
  assumes inv: "osci_inv l" and a: "osci_ok l (OYield p q)"
  shows "osci_inv (osci_exec f (OYield p q) l)" "o_proj (osci_exec f (OYield p q) l) = o_proj l"
proof -
  let ?l = "osci_exec f (OYield p q) l"
  have F: "fibers_per_thread l = 1" and ok: "\<And>p. fiber_ok l p" using inv by (simp_all add: osci_inv_def)
  obtain c where c: "after_yield (o_pc l p) = Some c" using a by auto
  have q: "q = p" "active l p = p" using a F by simp_all
  have pcs: "o_pc l p \<in> {O_out, O_yield, O_syield, O_wyield}" "o_pc l p \<notin> {O_cyield, O_dyield}"
    using fiber_okD(4) [OF ok, of p] c by (cases "o_pc l p"; simp)+
  show pr: "o_proj ?l = o_proj l" by (rule o_yield_proj [OF c pcs(2)])
  have "fiber_ok ?l x" for x
  proof (cases "x = p")
    case True
    then show ?thesis using fiber_okD [OF ok, of p] pcs(1) q F
      by (elim insertE emptyE) (simp_all add: fiber_ok_def point_of_def)
  next
    case False
    then have e: "o_pc ?l x = o_pc l x" "active ?l x = active l x" "o_toggle ?l = o_toggle l" "o_mynode ?l = o_mynode l"
        "o_cur ?l = o_cur l" "current_node ?l = current_node l" "o_door ?l = o_door l" "o_i ?l = o_i l"
      using q F by simp_all
    show ?thesis using ok [of x] unfolding fiber_ok_def e .
  qed
  moreover have "o_pc ?l x = O_cond3 \<Longrightarrow> o_pc l x = O_cond3" for x using pcs(1) c by (cases "x = p") auto
  moreover have "o_nthreads ?l = o_nthreads l \<and> groups_of_fibers ?l = groups_of_fibers l \<and> fibers_per_thread ?l = fibers_per_thread l
      \<and> o_tmp ?l = o_tmp l \<and> o_p ?l = o_p l \<and> o_next ?l = o_next l" by simp
  ultimately show "osci_inv ?l" using inv unfolding osci_inv_def pr by (simp only:) blast
qed

lemma osci_inv_invoke:
  assumes inv: "osci_inv l" and a: "osci_ok l (OInvoke p x)"
  shows "osci_inv (osci_exec f (OInvoke p x) l)"
proof -
  let ?l = "osci_exec f (OInvoke p x) l"
  have ok: "\<And>p. fiber_ok l p" and di: "dsm_inv (o_proj l)" using inv by (simp_all add: osci_inv_def)
  have "dsm_ok (o_nthreads l) (o_proj l) (Invoke p x)" using a by (simp add: o_proj_pc)
  from dsm_inv_exec [OF di this] have "dsm_inv (o_proj ?l)" using o_proj_invoke [of l p f x] a by simp
  moreover have "fiber_ok ?l q" for q
    using fiber_okD [OF ok, of q] ok [of q] a by (cases "q = p") (simp_all add: fiber_ok_def point_of_def)
  then have "\<forall>q. fiber_ok ?l q" by blast
  ultimately show ?thesis using inv unfolding osci_inv_def by simp
qed

lemma osci_inv_exec:
  assumes "osci_inv l" and "osci_ok l a"
  shows "osci_inv (osci_exec f a l)"
proof (cases a)
  case (OStep p)
  with assms show ?thesis using osci_inv_step [OF assms(1), of p f] by simp
next
  case (OInvoke p x)
  show ?thesis unfolding OInvoke by (rule osci_inv_invoke) (use assms OInvoke in simp_all)
next
  case (OYield p q)
  show ?thesis unfolding OYield by (rule osci_inv_yield(1)) (use assms OYield in simp_all)
qed

section \<open>Simulation\<close>

lemma osci_obs_dsm:
  assumes inv: "osci_inv l" and o: "osci_ok l (OStep p)"
  shows "osci_obs (OStep p) l = dsm_obs (dsm_act.Step p) (o_proj l)"
proof (cases "o_pc l p = O_helped \<or> o_pc l p = O_return")
  case True
  have F: "fibers_per_thread l = 1" and ok: "fiber_ok l p" using inv by (simp_all add: osci_inv_def)
  have "o_cur l p = 2 * p + (1 - o_toggle l p)" using fiber_okD(7) [OF ok] True by auto
  then show ?thesis using True F by (auto simp: o_proj_def)
next
  case False
  then have "pc (o_proj l) p \<notin> {S_helped, S_return}" by (cases "o_pc l p") (simp_all add: o_proj_pc)
  with False show ?thesis by simp
qed

definition osci_abs :: "('x, 'r, 's) OsciStruct \<Rightarrow> ('x, 'r, 's) config" where
  "osci_abs l = dsm_abs (o_proj l)"

lemma osci_abs_exec:
  assumes inv: "osci_inv l" and a: "osci_ok l a"
  shows "asteps f (osci_abs l) (osci_obs a l) (osci_abs (osci_exec f a l))"
proof (cases a)
  case (OInvoke p x)
  have di: "dsm_inv (o_proj l)" using inv by (simp add: osci_inv_def)
  have "dsm_ok (o_nthreads l) (o_proj l) (Invoke p x)" using a OInvoke by (simp add: o_proj_pc)
  from dsm_abs_exec [OF di this, of f] show ?thesis using o_proj_invoke [of l p f x] a OInvoke by (simp add: osci_abs_def)
next
  case (OStep p)
  have di: "dsm_inv (o_proj l)" using inv by (simp add: osci_inv_def)
  have p: "p < o_nthreads l" "after_yield (o_pc l p) = None" "o_pc l p \<noteq> O_fault" using a OStep by simp_all
  from osci_step_dsm [OF inv p, of f] show ?thesis
  proof
    assume "o_proj (OsciApplyOp f p l) = o_proj l \<and> o_pc l p \<notin> {O_helped, O_return, O_apply}"
    then show ?thesis using OStep by (intro step_skip) (simp_all add: osci_abs_def)
  next
    assume v: "o_proj (OsciApplyOp f p l) = DSMSynchApplyOp f p (o_proj l) \<and> pc (o_proj l) p \<noteq> S_out \<and> pc (o_proj l) p \<noteq> S_fault"
    then have "dsm_ok (o_nthreads l) (o_proj l) (dsm_act.Step p)" using p by simp
    from dsm_abs_exec [OF di this, of f] have "asteps f (osci_abs l) (dsm_obs (dsm_act.Step p) (o_proj l)) (osci_abs (OsciApplyOp f p l))"
      using v unfolding osci_abs_def dsm_exec.simps by simp
    then show ?thesis using osci_obs_dsm [OF inv, of p] a OStep by (simp del: osci_obs.simps dsm_obs.simps)
  qed
next
  case (OYield p q)
  then show ?thesis using osci_inv_yield(2) [OF inv, of p q f] a
    by (intro step_skip) (simp_all add: osci_abs_def del: osci_exec.simps)
qed

text \<open>One fiber per thread.\<close>

lemma osci_init_fields:
  assumes "osci_init n f m x0 s0 = Some l"
  shows "0 < f" "fibers_per_thread l = (if f \<le> n then f else 1)" "groups_of_fibers l = n div f + (if n mod f \<noteq> 0 then 1 else 0)"
    "o_nthreads l = n" "current_node l = (\<lambda>_. None)" "o_tail l = None" "o_obj l = s0" "active l = (\<lambda>g. g * fibers_per_thread l)"
    "o_toggle l = (\<lambda>_. 0)" "o_pc l = (\<lambda>_. O_out)" "o_arr l = []"
proof -
  have fields: "fibers_per_thread (fold (OsciThreadStateInit x0) ps k) = fibers_per_thread k
     \<and> groups_of_fibers (fold (OsciThreadStateInit x0) ps k) = groups_of_fibers k
     \<and> o_nthreads (fold (OsciThreadStateInit x0) ps k) = o_nthreads k \<and> current_node (fold (OsciThreadStateInit x0) ps k) = current_node k
     \<and> o_tail (fold (OsciThreadStateInit x0) ps k) = o_tail k \<and> o_obj (fold (OsciThreadStateInit x0) ps k) = o_obj k
     \<and> active (fold (OsciThreadStateInit x0) ps k) = active k
     \<and> o_toggle (fold (OsciThreadStateInit x0) ps k) = (\<lambda>p. if p \<in> set ps then 0 else o_toggle k p)
     \<and> o_pc (fold (OsciThreadStateInit x0) ps k) = o_pc k \<and> o_arr (fold (OsciThreadStateInit x0) ps k) = o_arr k"
    for ps and k :: "('a, 'b, 'c) OsciStruct"
    by (induction ps arbitrary: k) (simp_all add: OsciThreadStateInit_def Let_def fun_eq_iff)
  obtain k where k: "OsciInit n f m x0 s0 = Some k" "l = fold (OsciThreadStateInit x0) [0..<n] k"
    using assms by (auto simp: osci_init_def)
  then have "k = the (OsciInit n f m x0 s0)" by simp
  with k(1) show "0 < f" "fibers_per_thread l = (if f \<le> n then f else 1)" "groups_of_fibers l = n div f + (if n mod f \<noteq> 0 then 1 else 0)"
    "o_nthreads l = n" "current_node l = (\<lambda>_. None)" "o_tail l = None" "o_obj l = s0" "active l = (\<lambda>g. g * fibers_per_thread l)"
    "o_toggle l = (\<lambda>_. 0)" "o_pc l = (\<lambda>_. O_out)" "o_arr l = []"
    unfolding k(2) by (auto simp: fields OsciInit_def Let_def fun_eq_iff split: if_splits)
qed

lemma osci_inv_init:
  assumes "osci_init n 1 m x0 s0 = Some l"
  shows "osci_inv l" "osci_abs l = aconf0 s0"
proof -
  note fields = osci_init_fields [OF assms]
  have F: "fibers_per_thread l = 1" "groups_of_fibers l = n" using fields(2,3) by simp_all
  have "dsm_inv_at 0 (o_proj l)" by (rule dsm_invI) (simp_all add: o_proj_def rest_ok_def fields(4-))
  then have "dsm_inv (o_proj l)" unfolding dsm_inv_def by blast
  moreover have "fiber_ok l p" for p by (simp add: fiber_ok_def point_of_def fields(4-) F)
  ultimately show "osci_inv l" by (simp add: osci_inv_def F fields(4,10))
  show "osci_abs l = aconf0 s0"
    by (simp add: osci_abs_def dsm_abs_def aconf0_def o_proj_def dsm_status_def fun_eq_iff fields(4-))
qed

definition osci_start :: "nat \<Rightarrow> ('x, 'r) OsciNode \<Rightarrow> 'x \<Rightarrow> 's \<Rightarrow> ('x, 'r, 's) OsciStruct" where
  "osci_start n m x0 s0 = the (osci_init n 1 m x0 s0)"

lemma osci_init_one: "osci_init n 1 m x0 s0 = Some (osci_start n m x0 s0)"
  by (simp add: osci_start_def osci_init_def OsciInit_def Let_def)

lemma osci_init_start: "osci_init n 1 m x0 s0 = Some l0 \<Longrightarrow> l0 = osci_start n m x0 s0"
  by (simp add: osci_start_def)

interpretation osci: linearization "osci_start n m x0 s0" osci_ok "osci_exec f" osci_obs f s0 osci_inv osci_abs
  for n m x0 s0 f
  by unfold_locales (fact osci_inv_init(1) [OF osci_init_one], fact osci_inv_exec, fact osci_inv_init(2) [OF osci_init_one],
    fact osci_abs_exec)

section \<open>Properties\<close>

text \<open>C8. Osci with one fiber per thread is linearizable: in every interleaving the calls and returns
  of \<^verbatim>\<open>OsciApplyOp\<close> are those of an atomic object that runs \<^verbatim>\<open>sfunc\<close> once for every request.\<close>

theorem osci_linearizable:
  assumes "osci_init n 1 m x0 s0 = Some l0" and "traces l0 osci_ok (osci_exec f) osci_obs l h"
  shows "linearizable f s0 h"
  by (rule osci.linearizable_traces) (use assms(2) osci_init_start [OF assms(1)] in simp)

text \<open>At most one fiber combines, and none follows a null pointer or finds a locked door.\<close>

definition o_combining :: "osci_pc \<Rightarrow> bool" where
  "o_combining c \<longleftrightarrow> c \<in> {O_for, O_test, O_apply, O_done, O_unlock, O_cond1, O_cond2, O_cond3, O_adv, O_end, O_tail, O_leave,
     O_wait, O_wyield, O_seek1, O_seek2, O_seek3, O_pass}"

lemma osci_exclusive:
  assumes "osci_init n 1 m x0 s0 = Some l0" and "reach l0 (act_step osci_ok (osci_exec f)) l"
  shows "o_combining (o_pc l p) \<and> o_combining (o_pc l q) \<Longrightarrow> p = q"
proof -
  have "osci_inv l" by (rule osci.reach_inv) (use assms(2) osci_init_start [OF assms(1)] in simp)
  then obtain c where c: "dsm_inv_at c (o_proj l)" unfolding osci_inv_def dsm_inv_def by blast
  have "p = c" if "o_combining (o_pc l p)" for p
    using combiner_by_pc [OF c, of p] that by (cases "o_pc l p") (auto simp: o_combining_def o_proj_pc)
  then show "o_combining (o_pc l p) \<and> o_combining (o_pc l q) \<Longrightarrow> p = q" by blast
qed

lemma osci_no_fault:
  assumes "osci_init n 1 m x0 s0 = Some l0" and "reach l0 (act_step osci_ok (osci_exec f)) l"
  shows "o_pc l p \<notin> {O_fault, O_cyield, O_dyield}"
proof -
  have "osci_inv l" by (rule osci.reach_inv) (use assms(2) osci_init_start [OF assms(1)] in simp)
  then have "fiber_ok l p" by (simp add: osci_inv_def)
  from fiber_okD(4) [OF this] show ?thesis by blast
qed

lemma quotient_bounds:
  fixes d r n :: nat
  shows "\<lbrakk>e + r = n; r < f; pid < n\<rbrakk> \<Longrightarrow> pid < e + (if r \<noteq> 0 then f else 0)"
    and "\<lbrakk>2 * d \<le> e; e + r = n; 2 \<le> n\<rbrakk> \<Longrightarrow> d + (if r \<noteq> 0 then 1 else 0) < n"
  by auto

lemma groups_enough: "\<lbrakk>pid < (n :: nat); 0 < f\<rbrakk> \<Longrightarrow> pid div f < n div f + (if n mod f \<noteq> 0 then 1 else 0)"
  using quotient_bounds(1) [OF div_mult_mod_eq [of n f], of f pid]
  by (intro less_mult_imp_div_less) (simp add: add_mult_distrib split: if_splits)

lemma groups_fewer: "\<lbrakk>2 \<le> (n :: nat); 2 \<le> f\<rbrakk> \<Longrightarrow> n div f + (if n mod f \<noteq> 0 then 1 else 0) < n"
  using quotient_bounds(2) [OF _ mult_div_mod_eq [of f n], of "n div f"] by simp

lemma osci_fault_run:
  assumes "osci_init n f m x0 s0 = Some l" and "n < f" "1 \<le> p" "p < n"
  shows "\<exists>l'. run_trace osci_ok (osci_exec sfunc) osci_obs [OInvoke p x, OStep p, OStep p] l = Some (l', [Call p x]) \<and> o_pc l' p = O_fault"
  using assms(2-) osci_init_fields [OF assms(1)] by (auto simp: OsciApplyOp_def)

lemma osci_groups:
  assumes "osci_init n f m x0 s0 = Some l"
  shows "(\<forall>pid < n. pid div fibers_per_thread l < groups_of_fibers l) \<longleftrightarrow> f \<le> n \<or> n \<le> 1"
proof -
  note f = osci_init_fields(1) [OF assms]
  note l = osci_init_fields(2,3) [OF assms]
  show ?thesis
  proof (cases "f \<le> n")
    case True
    then show ?thesis using groups_enough [OF _ f, of _ n] by (simp add: l)
  next
    case False
    have "(\<forall>pid < n. pid = 0) \<longleftrightarrow> n \<le> 1" by (auto dest: spec [of _ 1])
    with False show ?thesis by (simp add: l)
  qed
qed

section \<open>The properties at work\<close>

definition osci_mem :: "('x, 'r) slot \<Rightarrow> ('x, 'r) OsciNode" where
  "osci_mem v = \<lparr>o_next = (\<lambda>x. Some x), o_door = (\<lambda>_. DOOR_LOCKED), o_arg_ret = (\<lambda>_ _. v), o_npid = (\<lambda>_ _. 9),
     o_locked = (\<lambda>_ _. False), o_completed = (\<lambda>_ _. False)\<rparr>"

definition osci_demo :: "nat \<Rightarrow> nat \<Rightarrow> (nat, nat, nat) OsciStruct" where
  "osci_demo n f = the (osci_init n f (osci_mem (Res 3)) 0 100)"

lemma osci_demo_init: "0 < f \<Longrightarrow> osci_init n f (osci_mem (Res 3)) 0 100 = Some (osci_demo n f)"
  by (simp add: osci_demo_def osci_init_def OsciInit_def Let_def)

lemma osci_demo_eq: "0 < f \<Longrightarrow> osci_demo n f = \<lparr>o_next = (\<lambda>x. if x < 2 * n then None else Some x),
     o_door = (\<lambda>x. if x < 2 * n then DOOR_INIT else DOOR_LOCKED),
     o_arg_ret = (\<lambda>x j. if x < 2 * n \<and> j < (if f \<le> n then f else 1) then Arg 0 else Res 3), o_npid = (\<lambda>_ _. 9),
     o_locked = (\<lambda>x j. x < 2 * n \<and> j < (if f \<le> n then f else 1)), o_completed = (\<lambda>x j. x < 2 * n \<and> j < (if f \<le> n then f else 1)),
     o_nthreads = n, fibers_per_thread = (if f \<le> n then f else 1), groups_of_fibers = n div f + (if n mod f \<noteq> 0 then 1 else 0),
     current_node = (\<lambda>_. None), o_tail = None, o_obj = 100, active = (\<lambda>g. g * (if f \<le> n then f else 1)),
     o_toggle = (\<lambda>_. 0), o_mynode = (\<lambda>_. 0), o_cur = (\<lambda>_. 0), o_pred = (\<lambda>_. None), o_p = (\<lambda>_. 0),
     o_tmp = (\<lambda>_. None), o_i = (\<lambda>_. 0), o_counter = (\<lambda>_. 0), o_arg = (\<lambda>_. 0), o_pc = (\<lambda>_. O_out), o_arr = []\<rparr>"
proof -
  assume "0 < f"
  let ?F = "if f \<le> n then f else 1"
  have "fold (OsciThreadStateInit 0) [0..<k] (the (OsciInit n f (osci_mem (Res 3)) 0 (100 :: nat)) :: (nat, nat, nat) OsciStruct) =
    \<lparr>o_next = (\<lambda>x. if x < 2 * k then None else Some x), o_door = (\<lambda>x. if x < 2 * k then DOOR_INIT else DOOR_LOCKED),
     o_arg_ret = (\<lambda>x j. if x < 2 * k \<and> j < ?F then Arg 0 else Res 3), o_npid = (\<lambda>_ _. 9),
     o_locked = (\<lambda>x j. x < 2 * k \<and> j < ?F), o_completed = (\<lambda>x j. x < 2 * k \<and> j < ?F),
     o_nthreads = n, fibers_per_thread = ?F, groups_of_fibers = n div f + (if n mod f \<noteq> 0 then 1 else 0),
     current_node = (\<lambda>_. None), o_tail = None, o_obj = 100, active = (\<lambda>g. g * ?F),
     o_toggle = (\<lambda>_. 0), o_mynode = (\<lambda>_. 0), o_cur = (\<lambda>_. 0), o_pred = (\<lambda>_. None), o_p = (\<lambda>_. 0),
     o_tmp = (\<lambda>_. None), o_i = (\<lambda>_. 0), o_counter = (\<lambda>_. 0), o_arg = (\<lambda>_. 0), o_pc = (\<lambda>_. O_out), o_arr = []\<rparr>" for k
    using \<open>0 < f\<close> by (induction k) (auto simp: OsciInit_def osci_mem_def OsciThreadStateInit_def Let_def fun_eq_iff)
  note run = this [of n]
  have "OsciInit n f (osci_mem (Res 3)) 0 (100 :: nat) \<noteq> (None :: (nat, nat, nat) OsciStruct option)"
    using \<open>0 < f\<close> by (simp add: OsciInit_def Let_def)
  then have "osci_demo n f = fold (OsciThreadStateInit 0) [0..<n] (the (OsciInit n f (osci_mem (Res 3)) 0 100))"
    unfolding osci_demo_def osci_init_def by (rule option.map_sel)
  then show ?thesis unfolding run .
qed

text \<open>Thread 1 announces its request while thread 0 combines, and is handed the combiner's role.\<close>

definition osci_run1 :: "nat osci_act list" where
  "osci_run1 = OInvoke 0 5 # replicate 11 (OStep 0) @ OYield 0 0 # replicate 3 (OStep 0)
     @ OInvoke 1 7 # replicate 11 (OStep 1) @ OYield 1 1 # replicate 4 (OStep 1) @ replicate 16 (OStep 0) @ replicate 13 (OStep 1)"

lemmas osci_eval = osci_run1_def osci_demo_eq OsciApplyOp_def
  OSCI_HELP_FACTOR_def replicate_num dsm_fetch_add_def

theorem osci_linearizable_witness: "linearizable dsm_fetch_add 100 [Call 0 5, Call 1 7, Ret 0 100, Ret 1 105]"
proof -
  let ?h = "[Call 0 5, Call 1 7, Ret 0 100, Ret 1 105] :: (nat, nat) event list"
  have "map_option snd (run_trace osci_ok (osci_exec dsm_fetch_add) osci_obs osci_run1 (osci_demo 2 1)) = Some ?h"
    by (simp add: osci_eval)
  then obtain l where r: "run_trace osci_ok (osci_exec dsm_fetch_add) osci_obs osci_run1 (osci_demo 2 1) = Some (l, ?h)" by auto
  from osci_linearizable [OF osci_demo_init run_trace_traces [OF r]] show ?thesis by simp
qed

text \<open>Two fibers of one thread: fiber 1 joins the node that fiber 0 has opened, and fiber 0 serves both.\<close>

definition osci_run2 :: "nat osci_act list" where
  "osci_run2 = OInvoke 0 5 # replicate 11 (OStep 0) @ [OYield 0 1, OInvoke 1 7] @ replicate 9 (OStep 1) @ [OYield 1 0]
     @ replicate 19 (OStep 0) @ [OYield 0 1] @ replicate 3 (OStep 1)"

lemma osci_fibers_combine: "map_option snd (run_trace osci_ok (osci_exec dsm_fetch_add) osci_obs osci_run2 (osci_demo 3 2)) =
    Some [Call 0 5, Call 1 7, Ret 0 100, Ret 1 105]"
  by (simp add: osci_eval osci_run2_def)

end
