(* ===== verification/Fibers.thy ===== *)
theory Fibers
  imports Prelude
begin

text \<open>
  The user-level threads of one posix thread, primitives/uthreads.c. The variables are
  \<^verbatim>\<open>__thread\<close>, so one record describes one posix thread and nothing runs in parallel: control
  moves from fiber to fiber only in \<^verbatim>\<open>synchFiberYield\<close> and when a fiber's function returns. What
  the saved contexts hold is kept as the point where a fiber goes on: inside its own call of
  \<^verbatim>\<open>synchFiberYield\<close>, or at the start of its function. The search for the next active fiber
  has no bound in the code and is a partial function. Stacks of fibers are numbers.
\<close>

section \<open>State and operations\<close>

datatype resume = AtStart | InYield

record fibers =
  N_FIBERS :: nat
  MAX_FIBERS :: nat
  currentFiber :: nat
  active :: "bool list"
  ctx :: "nat \<Rightarrow> resume"
  farg :: "nat \<Rightarrow> int"
  ss_sp :: "nat \<Rightarrow> nat"
  FIBER_RECYCLE :: "nat option"
  next_stack :: nat
  freed :: "nat list"

text \<open>The thread-local variables before \<^verbatim>\<open>synchInitFibers\<close>.\<close>

definition fibers_static :: fibers where
  "fibers_static = \<lparr>N_FIBERS = 1, MAX_FIBERS = 1, currentFiber = 0, active = [], ctx = (\<lambda>_. InYield), farg = (\<lambda>_. 0),
     ss_sp = (\<lambda>_. 0), FIBER_RECYCLE = None, next_stack = 0, freed = []\<rparr>"

definition synchInitFibers :: "nat \<Rightarrow> fibers \<Rightarrow> fibers" where
  "synchInitFibers n st = st\<lparr>MAX_FIBERS := n, active := True # replicate (n - 1) False\<rparr>"

text \<open>\<^verbatim>\<open>do currentFiber = (currentFiber + 1) % MAX_FIBERS; while (!FIBER_LIST[currentFiber].active)\<close>\<close>

partial_function (option) next_active :: "bool list \<Rightarrow> nat \<Rightarrow> nat \<Rightarrow> nat option" where
  "next_active act m cur =
     (let c = (cur + 1) mod m in if act ! c then Some c else next_active act m c)"

text \<open>The longjmp to fiber \<open>c\<close>; a fiber that was inside \<^verbatim>\<open>synchFiberYield\<close> frees the stack of the
  fiber that ended last.\<close>

definition switch_to_fiber :: "nat \<Rightarrow> fibers \<Rightarrow> fibers" where
  "switch_to_fiber c st =
     (let st' = st\<lparr>ctx := (ctx st)(currentFiber st := InYield), currentFiber := c\<rparr>
      in if ctx st' c = InYield
         then (case FIBER_RECYCLE st' of
                 None \<Rightarrow> st'
               | Some s \<Rightarrow> st'\<lparr>FIBER_RECYCLE := None, freed := s # freed st'\<rparr>)
         else st')"

definition synchFiberYield :: "fibers \<Rightarrow> fibers option" where
  "synchFiberYield st =
     (if N_FIBERS st = 1 then Some st
      else map_option (\<lambda>c. switch_to_fiber c st) (next_active (active st) (MAX_FIBERS st) (currentFiber st)))"

text \<open>The part of \<^verbatim>\<open>fiber_start_func\<close> after the fiber's function has returned.\<close>

definition fiber_end :: "fibers \<Rightarrow> fibers option" where
  "fiber_end st =
     (if N_FIBERS st = 1 then Some st
      else let st' = st\<lparr>FIBER_RECYCLE := Some (ss_sp st (currentFiber st)), active := (active st)[currentFiber st := False],
                     N_FIBERS := N_FIBERS st - 1\<rparr>
           in map_option (\<lambda>c. switch_to_fiber c st') (next_active (active st') (MAX_FIBERS st') (currentFiber st')))"

definition synchSpawnFiber :: "int \<Rightarrow> fibers \<Rightarrow> int \<times> fibers" where
  "synchSpawnFiber arg st =
     (if N_FIBERS st = MAX_FIBERS st then (- 1, st)
      else (1, st\<lparr>active := (active st)[N_FIBERS st := True], ss_sp := (ss_sp st)(N_FIBERS st := next_stack st),
                  next_stack := next_stack st + 1, farg := (farg st)(N_FIBERS st := arg),
                  ctx := (ctx st)(N_FIBERS st := AtStart), N_FIBERS := N_FIBERS st + 1\<rparr>))"

definition synchCurrentFiberIndex :: "fibers \<Rightarrow> nat" where
  "synchCurrentFiberIndex st = currentFiber st"

text \<open>The main fiber in \<^verbatim>\<open>synchWaitForAllFibers\<close> and the other fibers as they get control:
  fiber \<open>i\<close> calls \<^verbatim>\<open>synchFiberYield\<close> \<open>w i\<close> times before its function returns.\<close>

partial_function (option) synchWaitForAllFibers :: "(nat \<Rightarrow> nat) \<Rightarrow> fibers \<Rightarrow> fibers option" where
  "synchWaitForAllFibers w st =
     (if currentFiber st = 0 then
        (if N_FIBERS st > 1 then Option.bind (synchFiberYield st) (synchWaitForAllFibers w) else Some st)
      else if w (currentFiber st) = 0 then Option.bind (fiber_end st) (synchWaitForAllFibers w)
      else Option.bind (synchFiberYield st)
             (synchWaitForAllFibers (w(currentFiber st := w (currentFiber st) - 1))))"

text \<open>The fibers that \<^verbatim>\<open>uthreadWrapper\<close> starts: index \<open>i\<close> runs with argument \<open>pid + i\<close>.\<close>

fun spawn_all :: "int \<Rightarrow> nat \<Rightarrow> fibers \<Rightarrow> fibers" where
  "spawn_all pid 0 st = st"
| "spawn_all pid (Suc i) st = snd (synchSpawnFiber (pid + int i + 1) (spawn_all pid i st))"

section \<open>Invariant\<close>

definition live :: "fibers \<Rightarrow> nat set" where
  "live st = {i. i < length (active st) \<and> active st ! i}"

definition fibers_inv :: "fibers \<Rightarrow> bool" where
  "fibers_inv st \<longleftrightarrow> length (active st) = MAX_FIBERS st \<and> 0 \<in> live st \<and> currentFiber st \<in> live st
     \<and> N_FIBERS st = card (live st)"

lemma finite_live [simp]: "finite (live st)"
  by (rule finite_subset [of _ "{..<length (active st)}"]) (auto simp: live_def)

lemma live_lt: "fibers_inv st \<Longrightarrow> i \<in> live st \<Longrightarrow> i < MAX_FIBERS st"
  by (simp add: fibers_inv_def live_def)

section \<open>The search for the next fiber\<close>

lemma next_active_at:
  "\<lbrakk>act ! ((cur + Suc d) mod m); \<And>e. e < d \<Longrightarrow> \<not> act ! ((cur + Suc e) mod m)\<rbrakk>
   \<Longrightarrow> next_active act m cur = Some ((cur + Suc d) mod m)"
proof (induction d arbitrary: cur)
  case 0
  then show ?case by (subst next_active.simps) (simp add: Let_def)
next
  case (Suc d)
  have a: "\<not> act ! (Suc cur mod m)" using Suc.prems(2) [of 0] by simp
  have sh: "(Suc cur mod m + Suc e) mod m = (cur + Suc (Suc e)) mod m" for e
    using mod_add_left_eq [of "Suc cur" m "Suc e"] by simp
  have "next_active act m (Suc cur mod m) = Some ((Suc cur mod m + Suc d) mod m)"
    by (rule Suc.IH) (use Suc.prems sh in \<open>simp_all only:, force\<close>)
  with a show ?case by (subst next_active.simps) (simp only: Let_def sh, simp)
qed

text \<open>How far ahead of \<open>a\<close> the index \<open>b\<close> is on the ring.\<close>

definition ahead :: "nat \<Rightarrow> nat \<Rightarrow> nat \<Rightarrow> nat" where
  "ahead m a b = (if a < b then b - a else b + m - a)"

lemma ring_add: "a < m \<Longrightarrow> d \<le> m \<Longrightarrow> (a + d) mod m = (if a + d < m then a + d else a + d - m)" for m :: nat
  by (auto simp: le_mod_geq)

lemma ahead_less: "a < m \<Longrightarrow> b < m \<Longrightarrow> 0 < ahead m a b \<and> ahead m a b \<le> m"
  by (auto simp: ahead_def)

lemma ahead_mod: "a < m \<Longrightarrow> b < m \<Longrightarrow> (a + ahead m a b) mod m = b"
  using ring_add [of a m "ahead m a b"] ahead_less [of a m b] by (auto simp: ahead_def)

lemma ahead_ring: "a < m \<Longrightarrow> 0 < d \<Longrightarrow> d \<le> m \<Longrightarrow> ahead m a ((a + d) mod m) = d"
  using ring_add [of a m d] by (auto simp: ahead_def)

lemma ahead_step: "\<lbrakk>a < m; b < m; 0 < d; d < ahead m a b\<rbrakk> \<Longrightarrow> ahead m ((a + d) mod m) b = ahead m a b - d"
  using ring_add [of a m d] ahead_less [of a m b] by (auto simp: ahead_def split: if_splits)

text \<open>The search stops at the first active fiber ahead; it never passes an active one.\<close>

lemma next_active_first:
  assumes "a < m" "b < m" "act ! b"
  obtains c where "next_active act m a = Some c" "c < m" "act ! c" "ahead m a c \<le> ahead m a b"
    "c = b \<or> ahead m c b < ahead m a b"
proof -
  define P where "P d = act ! ((a + Suc d) mod m)" for d
  define d where "d = (LEAST d. P d)"
  from ahead_less [OF assms(1,2)] obtain e where e: "ahead m a b = Suc e" by (cases "ahead m a b") auto
  have "P e" using assms(3) ahead_mod [OF assms(1,2)] e by (simp add: P_def)
  then have d: "P d" "d \<le> e" and least: "\<And>x. x < d \<Longrightarrow> \<not> P x"
    unfolding d_def by (auto intro: LeastI Least_le dest: not_less_Least)
  define c where "c = (a + Suc d) mod m"
  have n: "next_active act m a = Some c" unfolding c_def
    by (rule next_active_at) (use d(1) least in \<open>simp_all add: P_def\<close>)
  have cm: "c < m" using assms(1) by (simp add: c_def)
  have ac: "ahead m a c = Suc d"
    unfolding c_def by (rule ahead_ring) (use assms(1) d(2) e ahead_less [OF assms(1,2)] in simp_all)
  show thesis
  proof
    show "c = b \<or> ahead m c b < ahead m a b"
    proof (cases "d = e")
      case True
      then show ?thesis using ahead_mod [OF assms(1,2)] e by (simp add: c_def)
    next
      case False
      then have "ahead m c b = ahead m a b - Suc d" unfolding c_def
        using ahead_step [OF assms(1,2), of "Suc d"] d(2) e by simp
      then show ?thesis using e by (simp add: less_Suc_eq_le)
    qed
  qed (use n cm ac d e in \<open>simp_all add: P_def c_def\<close>)
qed

lemma next_live:
  assumes "length (active st) = MAX_FIBERS st" "currentFiber st < MAX_FIBERS st" "b \<in> live st"
  obtains c where "next_active (active st) (MAX_FIBERS st) (currentFiber st) = Some c" "c \<in> live st"
    "c = b \<or> ahead (MAX_FIBERS st) c b < ahead (MAX_FIBERS st) (currentFiber st) b"
proof -
  have "b < MAX_FIBERS st" "active st ! b" using assms by (auto simp: live_def)
  with next_active_first [of "currentFiber st" "MAX_FIBERS st" b "active st"] assms that show thesis
    by (metis (mono_tags, lifting) live_def mem_Collect_eq)
qed

section \<open>Every operation keeps the invariant\<close>

lemma switch_fields [simp]:
  "N_FIBERS (switch_to_fiber c st) = N_FIBERS st" "MAX_FIBERS (switch_to_fiber c st) = MAX_FIBERS st"
  "active (switch_to_fiber c st) = active st" "currentFiber (switch_to_fiber c st) = c"
  "farg (switch_to_fiber c st) = farg st" "live (switch_to_fiber c st) = live st"
  by (simp_all add: switch_to_fiber_def live_def Let_def split: option.split)

lemma fibers_invD:
  assumes "fibers_inv st"
  shows "length (active st) = MAX_FIBERS st" "0 \<in> live st" "currentFiber st \<in> live st" "N_FIBERS st = card (live st)"
    "currentFiber st < MAX_FIBERS st"
  using assms by (auto simp: fibers_inv_def live_def)

lemma live_alone: "fibers_inv st \<Longrightarrow> N_FIBERS st = 1 \<longleftrightarrow> live st = {0}"
  using fibers_invD [of st] by (auto simp: card_1_singleton_iff)

text \<open>A yield reaches an active fiber, which is closer to (or is) any given active fiber.\<close>

lemma yield_step:
  assumes inv: "fibers_inv st" and b: "b \<in> live st"
  obtains st' where "synchFiberYield st = Some st'" "fibers_inv st'" "live st' = live st" "MAX_FIBERS st' = MAX_FIBERS st"
    "currentFiber st' = b \<or> ahead (MAX_FIBERS st) (currentFiber st') b < ahead (MAX_FIBERS st) (currentFiber st) b"
proof (cases "N_FIBERS st = 1")
  case True
  then have "live st = {0}" using live_alone [OF inv] by simp
  then have "currentFiber st = b" using b fibers_invD(3) [OF inv] by auto
  with that [of st] True inv show thesis by (simp add: synchFiberYield_def)
next
  case False
  note i = fibers_invD [OF inv]
  from next_live [OF i(1,5) b] obtain c where
    c: "next_active (active st) (MAX_FIBERS st) (currentFiber st) = Some c" "c \<in> live st"
      "c = b \<or> ahead (MAX_FIBERS st) c b < ahead (MAX_FIBERS st) (currentFiber st) b" .
  show thesis
    by (rule that [of "switch_to_fiber c st"]) (use False c i in \<open>simp_all add: synchFiberYield_def fibers_inv_def\<close>)
qed

lemma end_step:
  assumes inv: "fibers_inv st" and cur: "currentFiber st \<noteq> 0"
  obtains st' where "fiber_end st = Some st'" "fibers_inv st'" "live st' = live st - {currentFiber st}"
    "MAX_FIBERS st' = MAX_FIBERS st"
proof -
  note i = fibers_invD [OF inv]
  have n: "N_FIBERS st \<noteq> 1" using live_alone [OF inv] i(3) cur by (metis singletonD)
  define st1 where "st1 = st\<lparr>FIBER_RECYCLE := Some (ss_sp st (currentFiber st)),
      active := (active st)[currentFiber st := False], N_FIBERS := N_FIBERS st - 1\<rparr>"
  have eq: "fiber_end st = map_option (\<lambda>c. switch_to_fiber c st1) (next_active (active st1) (MAX_FIBERS st1) (currentFiber st1))"
    unfolding fiber_end_def Let_def st1_def using n by (simp only: if_False)
  have l1: "live st1 = live st - {currentFiber st}" using i(1,5) by (auto simp: st1_def live_def nth_list_update split: if_splits)
  have f1: "length (active st1) = MAX_FIBERS st1" "MAX_FIBERS st1 = MAX_FIBERS st" "currentFiber st1 = currentFiber st"
    "N_FIBERS st1 = N_FIBERS st - 1" using i(1) by (simp_all add: st1_def)
  have z: "0 \<in> live st1" using l1 i(2) cur by simp
  have len: "currentFiber st1 < MAX_FIBERS st1" using i(5) f1 by simp
  from next_live [OF f1(1) len z] obtain c where
    c: "next_active (active st1) (MAX_FIBERS st1) (currentFiber st1) = Some c" "c \<in> live st1" by blast
  have cd: "card (live st1) = N_FIBERS st - 1" unfolding l1 using i(3,4) by simp
  show thesis
  proof (rule that)
    show "fiber_end st = Some (switch_to_fiber c st1)" using eq c(1) by simp
    show "fibers_inv (switch_to_fiber c st1)" using f1 z c(2) cd by (simp add: fibers_inv_def)
  qed (use l1 f1 in simp_all)
qed

lemma spawn_step:
  assumes inv: "fibers_inv st" and l: "live st = {..<N_FIBERS st}" and n: "N_FIBERS st < MAX_FIBERS st"
  shows "fibers_inv (snd (synchSpawnFiber x st)) \<and> live (snd (synchSpawnFiber x st)) = {..<Suc (N_FIBERS st)}"
proof -
  let ?s = "snd (synchSpawnFiber x st)"
  have "live ?s = insert (N_FIBERS st) (live st)"
    using n fibers_invD(1) [OF inv] by (auto simp: live_def synchSpawnFiber_def nth_list_update)
  then have l': "live ?s = {..<Suc (N_FIBERS st)}" using l by auto
  have f: "N_FIBERS ?s = Suc (N_FIBERS st)" "MAX_FIBERS ?s = MAX_FIBERS st" "currentFiber ?s = currentFiber st"
    "length (active ?s) = length (active st)" using n by (simp_all add: synchSpawnFiber_def)
  have "currentFiber st < N_FIBERS st" using fibers_invD(3) [OF inv] l by simp
  then show ?thesis unfolding fibers_inv_def l' using f fibers_invD(1) [OF inv] by simp
qed

lemma spawn_all_state:
  assumes "0 < u" "i < u"
  shows "fibers_inv (spawn_all pid i (synchInitFibers u fibers_static)) \<and>
    live (spawn_all pid i (synchInitFibers u fibers_static)) = {..<Suc i} \<and>
    N_FIBERS (spawn_all pid i (synchInitFibers u fibers_static)) = Suc i \<and>
    MAX_FIBERS (spawn_all pid i (synchInitFibers u fibers_static)) = u \<and>
    currentFiber (spawn_all pid i (synchInitFibers u fibers_static)) = 0 \<and>
    (\<forall>j. 0 < j \<and> j \<le> i \<longrightarrow> farg (spawn_all pid i (synchInitFibers u fibers_static)) j = pid + int j)"
  using assms(2)
proof (induction i)
  case 0
  have "i < length (True # replicate k False) \<and> (True # replicate k False) ! i \<longleftrightarrow> i = 0" for i k
    by (cases i) auto
  then have "live (synchInitFibers u fibers_static) = {..<Suc 0}"
    unfolding live_def synchInitFibers_def by auto
  then show ?case using assms(1) by (simp add: fibers_inv_def) (simp add: synchInitFibers_def fibers_static_def)
next
  case (Suc i)
  let ?s = "spawn_all pid i (synchInitFibers u fibers_static)"
  have ih: "fibers_inv ?s" "live ?s = {..<Suc i}" "N_FIBERS ?s = Suc i" "MAX_FIBERS ?s = u" "currentFiber ?s = 0"
    "\<forall>j. 0 < j \<and> j \<le> i \<longrightarrow> farg ?s j = pid + int j" using Suc by simp_all
  from spawn_step [OF ih(1), of "pid + int i + 1"] ih Suc.prems show ?case
    by (simp add: synchSpawnFiber_def le_Suc_eq)
qed

section \<open>Round robin\<close>

fun yields :: "nat \<Rightarrow> fibers \<Rightarrow> fibers option" where
  "yields 0 st = Some st"
| "yields (Suc k) st = Option.bind (synchFiberYield st) (yields k)"

lemma yields_reach:
  assumes "fibers_inv st" "b \<in> live st"
  shows "\<exists>k st'. k \<le> ahead (MAX_FIBERS st) (currentFiber st) b \<and> yields k st = Some st' \<and> currentFiber st' = b"
  using assms
proof (induction "ahead (MAX_FIBERS st) (currentFiber st) b" arbitrary: st rule: less_induct)
  case less
  from yield_step [OF less.prems] obtain st1 where
    s: "synchFiberYield st = Some st1" "fibers_inv st1" "live st1 = live st" "MAX_FIBERS st1 = MAX_FIBERS st" and
    d: "currentFiber st1 = b \<or> ahead (MAX_FIBERS st) (currentFiber st1) b < ahead (MAX_FIBERS st) (currentFiber st) b" .
  from d show ?case
  proof
    assume "currentFiber st1 = b"
    moreover have "0 < ahead (MAX_FIBERS st) (currentFiber st) b"
      using ahead_less fibers_invD(5) [OF less.prems(1)] live_lt [OF less.prems] by blast
    ultimately show ?thesis using s(1) by (intro exI [of _ "Suc 0"] exI [of _ st1]) simp
  next
    assume lt: "ahead (MAX_FIBERS st) (currentFiber st1) b < ahead (MAX_FIBERS st) (currentFiber st) b"
    from less.hyps [of st1] lt s less.prems(2) obtain k st' where
      "k \<le> ahead (MAX_FIBERS st) (currentFiber st1) b" "yields k st1 = Some st'" "currentFiber st' = b" by auto
    with lt s(1) show ?thesis by (intro exI [of _ "Suc k"] exI [of _ st']) simp
  qed
qed

text \<open>C32. Fibers are scheduled in turn: whichever fiber runs, after at most \<^verbatim>\<open>MAX_FIBERS\<close> calls of
  \<^verbatim>\<open>synchFiberYield\<close> by the fibers that get control, any given active fiber has run; the search
  for an active fiber ends every time.\<close>

theorem fibers_round_robin:
  assumes "fibers_inv st" and "i < MAX_FIBERS st" and "active st ! i"
  shows "\<exists>k \<le> MAX_FIBERS st. \<exists>st'. yields k st = Some st' \<and> currentFiber st' = i"
proof -
  have "i \<in> live st" using assms by (simp add: live_def fibers_inv_def)
  from yields_reach [OF assms(1) this] obtain k st' where
    k: "k \<le> ahead (MAX_FIBERS st) (currentFiber st) i" "yields k st = Some st'" "currentFiber st' = i" by blast
  have "ahead (MAX_FIBERS st) (currentFiber st) i \<le> MAX_FIBERS st"
    using ahead_less [OF fibers_invD(5) [OF assms(1)] assms(2)] by simp
  with k show ?thesis by (intro exI [of _ k]) simp
qed

section \<open>All fibers end\<close>

text \<open>Twice the yields and returns that are left, and one more when the main fiber runs.\<close>

definition work :: "(nat \<Rightarrow> nat) \<Rightarrow> fibers \<Rightarrow> nat" where
  "work w st = 2 * (\<Sum>i \<in> live st - {0}. Suc (w i)) + of_bool (currentFiber st = 0)"

lemma work_yield: "\<lbrakk>i \<in> live st - {0}; 0 < w i; live st' = live st; currentFiber st = i\<rbrakk>
    \<Longrightarrow> work (w(i := w i - 1)) st' < work w st"
  by (simp add: work_def sum.remove [of _ i])

lemma work_end: "\<lbrakk>i \<in> live st - {0}; live st' = live st - {i}; currentFiber st = i\<rbrakk> \<Longrightarrow> work w st' < work w st"
proof -
  assume a: "i \<in> live st - {0}" "live st' = live st - {i}" "currentFiber st = i"
  have "live st' - {0} = (live st - {0}) - {i}" using a(2) by blast
  then show ?thesis using a(1,3) by (simp add: work_def sum.remove [of "live st - {0}" i])
qed

lemma main_yields:
  assumes inv: "fibers_inv st" and cur: "currentFiber st = 0" and n: "N_FIBERS st > 1"
  obtains st' where "synchFiberYield st = Some st'" "fibers_inv st'" "work w st' < work w st"
proof -
  have "live st \<noteq> {0}" using live_alone [OF inv] n by simp
  then obtain b where b: "b \<in> live st" "b \<noteq> 0" using fibers_invD(2) [OF inv] by blast
  from yield_step [OF inv b(1)] obtain st' where s: "synchFiberYield st = Some st'" "fibers_inv st'" "live st' = live st" and
    d: "currentFiber st' = b \<or> ahead (MAX_FIBERS st) (currentFiber st') b < ahead (MAX_FIBERS st) (currentFiber st) b" .
  have "currentFiber st' \<noteq> 0" using d b(2) cur by (metis less_irrefl)
  with s cur that show thesis by (simp add: work_def)
qed

text \<open>C31. If every other fiber's function returns after finitely many yields,
  \<^verbatim>\<open>synchWaitForAllFibers\<close> returns in the main fiber, with no other fiber left.\<close>

theorem wait_for_all_returns:
  assumes "fibers_inv st"
  shows "\<exists>st'. synchWaitForAllFibers w st = Some st' \<and> N_FIBERS st' = 1 \<and> currentFiber st' = 0"
  using assms
proof (induction "work w st" arbitrary: w st rule: less_induct)
  case less
  note inv = less.prems
  show ?case
  proof (cases "currentFiber st = 0")
    case True
    show ?thesis
    proof (cases "N_FIBERS st > 1")
      case more: True
      from main_yields [OF inv True more, of w] obtain st1 where
        "synchFiberYield st = Some st1" "fibers_inv st1" "work w st1 < work w st" .
      with less.hyps [of w st1] obtain st2 where "synchWaitForAllFibers w st1 = Some st2 \<and> N_FIBERS st2 = 1 \<and> currentFiber st2 = 0"
        by blast
      moreover have "synchWaitForAllFibers w st = synchWaitForAllFibers w st1"
        using True more \<open>synchFiberYield st = Some st1\<close> by (subst synchWaitForAllFibers.simps) simp
      ultimately show ?thesis by auto
    next
      case False
      have "N_FIBERS st = 1" using False fibers_invD(2,4) [OF inv] card_gt_0_iff [of "live st"] by fastforce
      with True show ?thesis by (subst synchWaitForAllFibers.simps) simp
    qed
  next
    case cur: False
    define c where "c = currentFiber st"
    have c: "c \<in> live st - {0}" using fibers_invD(3) [OF inv] cur by (simp add: c_def)
    show ?thesis
    proof (cases "w c = 0")
      case True
      from end_step [OF inv cur] obtain st1 where
        s: "fiber_end st = Some st1" "fibers_inv st1" "live st1 = live st - {c}" unfolding c_def by blast
      have "synchWaitForAllFibers w st = synchWaitForAllFibers w st1"
        using True cur s(1) by (subst synchWaitForAllFibers.simps) (simp add: c_def)
      then show ?thesis using less.hyps [OF work_end [OF c s(3) c_def [symmetric]] s(2)] by (simp only:)
    next
      case False
      from yield_step [OF inv fibers_invD(2) [OF inv]] obtain st1 where
        s: "synchFiberYield st = Some st1" "fibers_inv st1" "live st1 = live st" by blast
      have "synchWaitForAllFibers w st = synchWaitForAllFibers (w(c := w c - 1)) st1"
        using False cur s(1) by (subst synchWaitForAllFibers.simps) (simp add: c_def)
      moreover have "work (w(c := w c - 1)) st1 < work w st"
        by (rule work_yield [OF c _ s(3) c_def [symmetric]]) (use False in simp)
      ultimately show ?thesis using less.hyps [OF _ s(2), of "w(c := w c - 1)"] by (simp only:)
    qed
  qed
qed

text \<open>A fiber that is spawned after an inner one has ended takes the slot of a fiber that still
  runs: the counter is used as the index of a free slot.\<close>

lemma spawn_overwrites:
  assumes "fibers_inv st" "N_FIBERS st \<in> live st"
  shows "fst (synchSpawnFiber x st) = 1 \<and> live (snd (synchSpawnFiber x st)) = live st
    \<and> farg (snd (synchSpawnFiber x st)) (N_FIBERS st) = x \<and> \<not> fibers_inv (snd (synchSpawnFiber x st))"
proof -
  let ?s = "snd (synchSpawnFiber x st)"
  have n: "N_FIBERS st \<noteq> MAX_FIBERS st" using live_lt [OF assms] by simp
  have l: "live ?s = live st" using n assms(2) by (auto simp: live_def synchSpawnFiber_def nth_list_update)
  have "N_FIBERS ?s = Suc (N_FIBERS st)" using n by (simp add: synchSpawnFiber_def)
  then have "\<not> fibers_inv ?s" using l fibers_invD(4) [OF assms(1)] fibers_invD(4) [of ?s] by auto
  with l n show ?thesis by (simp add: synchSpawnFiber_def)
qed

section \<open>The properties at work\<close>

definition fibers_demo :: fibers where
  "fibers_demo = spawn_all 0 2 (synchInitFibers 3 fibers_static)"

lemma fibers_demo_state: "fibers_inv fibers_demo" "MAX_FIBERS fibers_demo = 3" "active fibers_demo ! 2"
  using spawn_all_state [of 3 2 0] unfolding fibers_demo_def [symmetric] by (auto simp: live_def set_eq_iff)

theorem fibers_round_robin_witness: "\<exists>k \<le> 3. \<exists>st'. yields k fibers_demo = Some st' \<and> currentFiber st' = 2"
  using fibers_round_robin [of fibers_demo 2] fibers_demo_state by simp

theorem wait_for_all_returns_witness:
  "\<exists>st'. synchWaitForAllFibers (\<lambda>i. 5 * i) fibers_demo = Some st' \<and> N_FIBERS st' = 1 \<and> currentFiber st' = 0"
  by (rule wait_for_all_returns [OF fibers_demo_state(1)])

end
