(* ===== verification/Threads.thy ===== *)
theory Threads
  imports Fibers
begin

text \<open>
  Starting threads and placing them on processing cores, primitives/threadtools.c. The operating
  system and libnuma are parameters: the number of processors that are online, the number of NUMA
  nodes, the node of a processor, what \<^verbatim>\<open>pthread_create\<close> and \<^verbatim>\<open>sched_setaffinity\<close> return. The
  arithmetic is that of \<^verbatim>\<open>uint32_t\<close>; a division by zero is \<open>None\<close>.
\<close>

section \<open>State\<close>

definition SYNCH_THREAD_PLACEMENT_FLAT :: u32 where "SYNCH_THREAD_PLACEMENT_FLAT = 1"
definition SYNCH_THREAD_PLACEMENT_NUMA_SPARSE :: u32 where "SYNCH_THREAD_PLACEMENT_NUMA_SPARSE = 2"
definition SYNCH_THREAD_PLACEMENT_NUMA_DENSE :: u32 where "SYNCH_THREAD_PLACEMENT_NUMA_DENSE = 3"
definition SYNCH_THREAD_PLACEMENT_NUMA_SPARSE_SMT_PREFER :: u32 where
  "SYNCH_THREAD_PLACEMENT_NUMA_SPARSE_SMT_PREFER = 4"
definition SYNCH_THREAD_PLACEMENT_NUMA_DENSE_SMT_PREFER :: u32 where
  "SYNCH_THREAD_PLACEMENT_NUMA_DENSE_SMT_PREFER = 5"
definition SYNCH_THREAD_PLACEMENT_POLICY_MAX :: u32 where
  "SYNCH_THREAD_PLACEMENT_POLICY_MAX = SYNCH_THREAD_PLACEMENT_NUMA_DENSE_SMT_PREFER"
definition SYNCH_THREAD_PLACEMENT_DEFAULT :: u32 where
  "SYNCH_THREAD_PLACEMENT_DEFAULT = SYNCH_THREAD_PLACEMENT_NUMA_SPARSE_SMT_PREFER"
definition SYNCH_DONT_USE_UTHREADS :: u32 where "SYNCH_DONT_USE_UTHREADS = 1"

lemmas placement_defs = SYNCH_THREAD_PLACEMENT_FLAT_def SYNCH_THREAD_PLACEMENT_NUMA_SPARSE_def
  SYNCH_THREAD_PLACEMENT_NUMA_DENSE_def SYNCH_THREAD_PLACEMENT_NUMA_SPARSE_SMT_PREFER_def
  SYNCH_THREAD_PLACEMENT_NUMA_DENSE_SMT_PREFER_def SYNCH_THREAD_PLACEMENT_POLICY_MAX_def
  SYNCH_THREAD_PLACEMENT_DEFAULT_def

record machine =
  online :: u32
  numa_support :: bool
  task_nodes :: u32
  node_of_cpu :: "u32 \<Rightarrow> int"

record threads =
  schedule_policy :: u32
  uthreads :: u32
  nthreads :: u32
  ncores :: u32
  uthread_sched :: bool
  system_oversubscription :: bool
  noop_resched :: bool

record thread_local =
  thread_id :: u32
  preferred_core :: u32
  preferred_numa_node :: u32

definition threads_static :: threads where
  "threads_static = \<lparr>schedule_policy = SYNCH_THREAD_PLACEMENT_DEFAULT, uthreads = 0, nthreads = 0, ncores = 0,
     uthread_sched = False, system_oversubscription = False, noop_resched = False\<rparr>"

definition thread_static :: thread_local where
  "thread_static = \<lparr>thread_id = 0, preferred_core = 0, preferred_numa_node = 0\<rparr>"

section \<open>Placement\<close>

definition synchSetThreadPlacementPolicy :: "u32 \<Rightarrow> threads \<Rightarrow> threads" where
  "synchSetThreadPlacementPolicy policy st =
     st\<lparr>schedule_policy := (if policy > SYNCH_THREAD_PLACEMENT_POLICY_MAX then SYNCH_THREAD_PLACEMENT_POLICY_MAX else policy)\<rparr>"

definition synchGetThreadPlacementPolicy :: "threads \<Rightarrow> u32" where
  "synchGetThreadPlacementPolicy st = schedule_policy st"

text \<open>The number of cores is cached; the value does not depend on when.\<close>

definition synchGetNCores :: "machine \<Rightarrow> threads \<Rightarrow> u32 \<times> threads" where
  "synchGetNCores m st = (let st' = (if ncores st = 0 then st\<lparr>ncores := online m\<rparr> else st) in (ncores st', st'))"

abbreviation cores :: "machine \<Rightarrow> threads \<Rightarrow> u32" where
  "cores m st \<equiv> fst (synchGetNCores m st)"

text \<open>\<^verbatim>\<open>numa_node_of_cpu(0) == numa_node_of_cpu(ncpus / 2)\<close>\<close>

definition smt :: "machine \<Rightarrow> u32 \<Rightarrow> bool" where
  "smt m ncpus \<longleftrightarrow> node_of_cpu m 0 = node_of_cpu m (ncpus div 2)"

definition synchPreferredCoreOfThread :: "machine \<Rightarrow> threads \<Rightarrow> u32 \<Rightarrow> u32 option" where
  "synchPreferredCoreOfThread m st pid =
     (let ncpus = cores m st;
          core =
            (if schedule_policy st = SYNCH_THREAD_PLACEMENT_FLAT then Some pid
             else if \<not> numa_support m then Some pid
             else if task_nodes m = 0 then None
             else
               let nodes = task_nodes m; node_size = ncpus div nodes
               in if schedule_policy st = SYNCH_THREAD_PLACEMENT_NUMA_SPARSE then
                    (if smt m ncpus then
                       let half_node_size = node_size div 2;
                           half_cpu_id = (if pid \<ge> ncpus div 2 then pid - ncpus div 2 else pid);
                           offset = (if pid \<ge> ncpus div 2 then ncpus div 2 else 0)
                       in Some ((half_cpu_id mod nodes) * half_node_size + half_cpu_id div nodes + offset)
                     else Some (pid div nodes + (pid mod nodes) * node_size))
                  else if schedule_policy st = SYNCH_THREAD_PLACEMENT_NUMA_SPARSE_SMT_PREFER then
                    (if smt m ncpus then
                       let double_nodes = 2 * nodes; half_node_size = node_size div 2
                       in if node_size = 0 \<or> double_nodes = 0 then None
                          else Some ((pid mod node_size) * half_node_size + pid div double_nodes)
                     else Some (pid div nodes + (pid mod nodes) * node_size))
                  else if schedule_policy st = SYNCH_THREAD_PLACEMENT_NUMA_DENSE then Some pid
                  else Some (pid div nodes + (pid mod nodes) * node_size))
      in case core of None \<Rightarrow> None | Some c \<Rightarrow> if ncpus = 0 then None else Some (c mod ncpus))"

definition synchPreferredNumaNodeOfThread :: "machine \<Rightarrow> threads \<Rightarrow> u32 \<Rightarrow> u32 option" where
  "synchPreferredNumaNodeOfThread m st pid =
     (if \<not> numa_support m then Some 0
      else case synchPreferredCoreOfThread m st pid of
        None \<Rightarrow> None
      | Some core \<Rightarrow>
          (let ncpus = cores m st; nodes = task_nodes m
           in if nodes = 0 then None
              else let node_size = ncpus div nodes
                   in if smt m ncpus then
                        let half_node_size = node_size div 2
                        in if half_node_size = 0 then None
                           else if core < ncpus div 2 then Some (core div half_node_size)
                           else Some ((core - ncpus div 2) div half_node_size)
                      else if node_size = 0 then None else Some (core div node_size)))"

text \<open>The result of \<^verbatim>\<open>sched_setaffinity\<close> for a core is \<open>affinity core\<close>; the callers ignore it.\<close>

definition synchThreadPin :: "machine \<Rightarrow> threads \<Rightarrow> (u32 \<Rightarrow> int) \<Rightarrow> u32 \<Rightarrow> thread_local \<Rightarrow> (int \<times> thread_local) option" where
  "synchThreadPin m st affinity cpu_id t =
     (case (synchPreferredCoreOfThread m st cpu_id, synchPreferredNumaNodeOfThread m st cpu_id) of
        (Some c, Some n) \<Rightarrow> Some (affinity c, t\<lparr>preferred_core := c, preferred_numa_node := n\<rparr>)
      | _ \<Rightarrow> None)"

definition setThreadId :: "u32 \<Rightarrow> thread_local \<Rightarrow> thread_local" where
  "setThreadId i t = t\<lparr>thread_id := i\<rparr>"

definition synchGetThreadId :: "thread_local \<Rightarrow> fibers \<Rightarrow> u32" where
  "synchGetThreadId t fs = thread_id t + of_nat (synchCurrentFiberIndex fs)"

section \<open>Starting threads\<close>

text \<open>What a posix thread does before its work: where it is pinned, and for each of its fibers the
  identifier that \<^verbatim>\<open>synchGetThreadId\<close> reports there together with the argument that the
  user's function gets.\<close>

definition kthreadWrapper :: "machine \<Rightarrow> threads \<Rightarrow> (u32 \<Rightarrow> int) \<Rightarrow> int \<Rightarrow> (thread_local \<times> (u32 \<times> int) list) option" where
  "kthreadWrapper m st affinity pid =
     (if cores m st = 0 then None
      else case synchThreadPin m st affinity (word_of_int (pid mod uint (cores m st))) thread_static of
        None \<Rightarrow> None
      | Some (_, t) \<Rightarrow>
          (let t' = setThreadId (word_of_int pid) t in Some (t', [(synchGetThreadId t' fibers_static, pid)])))"

definition uthreadWrapper :: "machine \<Rightarrow> threads \<Rightarrow> (u32 \<Rightarrow> int) \<Rightarrow> int \<Rightarrow> (thread_local \<times> (u32 \<times> int) list) option" where
  "uthreadWrapper m st affinity pid =
     (if cores m st = 0 \<or> uthreads st = 0 then None
      else let kernel_id = (pid div uint (uthreads st)) mod uint (cores m st)
           in case synchThreadPin m st affinity (word_of_int kernel_id) thread_static of
             None \<Rightarrow> None
           | Some (_, t) \<Rightarrow>
               (let t' = setThreadId (word_of_int pid) t; u = unat (uthreads st);
                    fs = spawn_all pid (u - 1) (synchInitFibers u fibers_static)
                in Some (t', map (\<lambda>j. (synchGetThreadId t' (fs\<lparr>currentFiber := j\<rparr>), if j = 0 then pid else farg fs j))
                               [0..<N_FIBERS fs])))"

text \<open>The loops that create \<open>k\<close> posix threads: \<open>Inl i\<close> when the creation of thread \<open>i\<close> fails, which
  ends the process, and the result of the last creation otherwise.\<close>

fun create_loop :: "(nat \<Rightarrow> int) \<Rightarrow> nat \<Rightarrow> nat \<Rightarrow> int \<Rightarrow> nat + int" where
  "create_loop create 0 i last_id = Inr last_id"
| "create_loop create (Suc k) i last_id = (if create i \<noteq> 0 then Inl i else create_loop create k (Suc i) (create i))"

record started =
  last_thread_id :: int
  pids :: "int list"      \<comment> \<open>arguments of the wrappers, the calling thread's last\<close>
  barrier_for :: u32
  gstate :: threads

definition synchStartThreadsN :: "machine \<Rightarrow> (nat \<Rightarrow> int) \<Rightarrow> threads \<Rightarrow> u32 \<Rightarrow> u32 \<Rightarrow> nat + started" where
  "synchStartThreadsN m create st n u =
     (let st1 = st\<lparr>ncores := online m, nthreads := n\<rparr>
      in if u \<noteq> SYNCH_DONT_USE_UTHREADS \<and> u > 1 then
           let st2 = st1\<lparr>uthreads := u, uthread_sched := True, system_oversubscription := True\<rparr>;
               k = unat (n div u - 1)
           in case create_loop create k 0 (- 1) of
                Inl i \<Rightarrow> Inl i
              | Inr r \<Rightarrow> Inr \<lparr>last_thread_id = r, pids = map (\<lambda>i. int i * uint u) [0..<k + 1],
                             barrier_for = n div u + 1, gstate = st2\<rparr>
         else
           let st2 = (if n > ncores st1 then st1\<lparr>uthread_sched := False, system_oversubscription := True\<rparr>
                      else st1\<lparr>uthread_sched := False, noop_resched := True\<rparr>);
               k = unat (n - 1)
           in case create_loop create k 0 (- 1) of
                Inl i \<Rightarrow> Inl i
              | Inr r \<Rightarrow> Inr \<lparr>last_thread_id = r, pids = map int [0..<k + 1], barrier_for = n + 1, gstate = st2\<rparr>)"

text \<open>All threads and fibers that a start leads to: identifier and argument of each.\<close>

definition all_threads :: "machine \<Rightarrow> (u32 \<Rightarrow> int) \<Rightarrow> started \<Rightarrow> (u32 \<times> int) list option" where
  "all_threads m affinity s =
     (let run = (if uthread_sched (gstate s) then uthreadWrapper else kthreadWrapper) m (gstate s) affinity
      in if \<exists>p \<in> set (pids s). run p = None then None
         else Some (concat (map (\<lambda>p. snd (the (run p))) (pids s))))"

datatype resched = Pause | FiberYield | SchedYield

definition synchResched :: "threads \<Rightarrow> resched" where
  "synchResched st = (if noop_resched st then Pause else if uthread_sched st then FiberYield else SchedYield)"

definition synchIsSystemOversubscribed :: "threads \<Rightarrow> bool" where
  "synchIsSystemOversubscribed st = system_oversubscription st"

section \<open>Every thread gets its own core\<close>

text \<open>A machine on which every division of the placement is defined.\<close>

definition machine_ok :: "machine \<Rightarrow> bool" where
  "machine_ok m \<longleftrightarrow> online m \<noteq> 0 \<and> (numa_support m \<longrightarrow> task_nodes m \<noteq> 0 \<and> 2 * unat (task_nodes m) \<le> unat (online m))"

text \<open>Walking through an \<open>n\<close> by \<open>s\<close> array by columns.\<close>

definition spread :: "nat \<Rightarrow> nat \<Rightarrow> nat \<Rightarrow> nat" where
  "spread n s p = p div n + (p mod n) * s"

lemma spread_less:
  assumes "p < n * s"
  shows "spread n s p < n * s"
proof -
  have n: "0 < n" using assms by (cases n) auto
  have "p div n < s" using assms by (simp add: less_mult_imp_div_less mult.commute)
  moreover have "Suc (p mod n) * s \<le> n * s" using n by (intro mult_le_mono1) (simp add: Suc_le_eq)
  ultimately show ?thesis by (simp add: spread_def)
qed

lemma spread_inverse:
  assumes "p < n * s"
  shows "spread n s p mod s = p div n" "spread n s p div s = p mod n"
proof -
  have "p div n < s" using assms by (simp add: less_mult_imp_div_less mult.commute)
  then show "spread n s p mod s = p div n" "spread n s p div s = p mod n" by (simp_all add: spread_def)
qed

lemma spread_inj: "inj_on (spread n s) {..<n * s}"
proof (rule inj_onI)
  fix p q assume "p \<in> {..<n * s}" "q \<in> {..<n * s}" "spread n s p = spread n s q"
  then have "p div n = q div n" "p mod n = q mod n" using spread_inverse [of p n s] spread_inverse [of q n s] by simp_all
  then show "p = q" by (metis div_mult_mod_eq)
qed

text \<open>The same on \<^verbatim>\<open>uint32_t\<close>: nothing wraps below the number of cores.\<close>

lemma unat_spread:
  fixes pid nodes size :: u32
  assumes "unat pid < unat nodes * unat size" "unat nodes * unat size < 2 ^ 32"
  shows "unat (pid div nodes + (pid mod nodes) * size) = spread (unat nodes) (unat size) (unat pid)"
proof -
  have "pid div nodes + (pid mod nodes) * size = of_nat (spread (unat nodes) (unat size) (unat pid))"
    by (simp add: spread_def unat_div unat_mod flip: unat_div unat_mod)
  then show ?thesis using spread_less [OF assms(1)] assms(2) by (simp add: unat_of_nat)
qed

lemma unat_spread':
  fixes pid nodes size :: u32
  assumes "unat pid < unat nodes * unat size" "unat nodes * unat size < 2 ^ 32"
  shows "unat ((pid mod nodes) * size + pid div nodes) = spread (unat nodes) (unat size) (unat pid)"
  using unat_spread [OF assms] by (simp add: add.commute)

text \<open>A machine whose cores are shared evenly among the nodes, in two halves when it has SMT.\<close>

definition even_machine :: "machine \<Rightarrow> bool" where
  "even_machine m \<longleftrightarrow> online m \<noteq> 0 \<and> (numa_support m \<longrightarrow> unat (online m) = unat (task_nodes m) * (unat (online m) div unat (task_nodes m))
     \<and> (smt m (online m) \<longrightarrow> even (unat (online m) div unat (task_nodes m))))"

text \<open>The core a thread gets on a machine with SMT under the sparse policy.\<close>

definition sparse_smt :: "nat \<Rightarrow> nat \<Rightarrow> nat \<Rightarrow> nat" where
  "sparse_smt n h p = (if p \<ge> n * h then spread n h (p - n * h) + n * h else spread n h p)"

lemma sparse_smt_less: "p < 2 * (n * h) \<Longrightarrow> sparse_smt n h p < 2 * (n * h)"
proof -
  assume p: "p < 2 * (n * h)"
  show ?thesis
  proof (cases "n * h \<le> p")
    case True
    then have "p - n * h < n * h" using p by linarith
    from spread_less [OF this] True show ?thesis unfolding sparse_smt_def by (simp only: if_True)
  next
    case False
    then have "spread n h p < n * h" by (intro spread_less) simp
    then show ?thesis using False p unfolding sparse_smt_def by (simp only: if_False)
  qed
qed

lemma sparse_smt_inj: "inj_on (sparse_smt n h) {..<2 * (n * h)}"
proof (rule inj_onI)
  fix p q assume a: "p \<in> {..<2 * (n * h)}" "q \<in> {..<2 * (n * h)}" "sparse_smt n h p = sparse_smt n h q"
  have lt: "x < n * h \<Longrightarrow> spread n h x < n * h" for x by (rule spread_less)
  have inj: "x < n * h \<Longrightarrow> y < n * h \<Longrightarrow> spread n h x = spread n h y \<Longrightarrow> x = y" for x y
    using spread_inj [of n h] by (simp add: inj_on_def)
  show "p = q"
  proof (cases "p \<ge> n * h"; cases "q \<ge> n * h")
    assume "n * h \<le> p" "n * h \<le> q"
    moreover have "p - n * h < n * h" "q - n * h < n * h" using a calculation by auto
    moreover have "spread n h (p - n * h) = spread n h (q - n * h)" using a(3) calculation by (simp add: sparse_smt_def)
    ultimately show ?thesis using inj [of "p - n * h" "q - n * h"] by linarith
  next
    assume "n * h \<le> p" "\<not> n * h \<le> q"
    then show ?thesis using a lt [of q] by (simp add: sparse_smt_def)
  next
    assume "\<not> n * h \<le> p" "n * h \<le> q"
    then show ?thesis using a lt [of p] by (simp add: sparse_smt_def)
  next
    assume "\<not> n * h \<le> p" "\<not> n * h \<le> q"
    then show ?thesis using a inj [of p q] by (simp add: sparse_smt_def)
  qed
qed

lemma u32_mod_less: "c < N \<Longrightarrow> c mod N = c" for c N :: u32
  by (simp add: word_unat_eq_iff unat_mod word_less_nat_alt)

lemma bij_by_nat:
  fixes N :: u32
  assumes "\<And>pid. pid < N \<Longrightarrow> \<exists>c. f pid = Some c \<and> unat c = G (unat pid)"
    and "inj_on G {..<unat N}" and "\<And>p. p < unat N \<Longrightarrow> G p < unat N"
  shows "bij_betw f {..<N} (Some ` {..<N})"
proof -
  have inj: "inj_on f {..<N}"
  proof (rule inj_onI)
    fix p q assume a: "p \<in> {..<N}" "q \<in> {..<N}" "f p = f q"
    then have "G (unat p) = G (unat q)" using assms(1) [of p] assms(1) [of q] by auto
    moreover have "unat p \<in> {..<unat N}" "unat q \<in> {..<unat N}" using a(1,2) by (simp_all add: word_less_nat_alt)
    ultimately have "unat p = unat q" by (rule inj_onD [OF assms(2)])
    then show "p = q" by (simp only: word_unat_eq_iff)
  qed
  have sub: "f ` {..<N} \<subseteq> Some ` {..<N}"
  proof
    fix y assume "y \<in> f ` {..<N}"
    then obtain p where p: "p < N" "y = f p" by auto
    with assms(1) [of p] assms(3) [of "unat p"] show "y \<in> Some ` {..<N}" by (auto simp: word_less_nat_alt)
  qed
  have "f ` {..<N} = Some ` {..<N}"
    by (rule card_subset_eq [OF _ sub]) (simp_all add: card_image [OF inj] card_image)
  with inj show ?thesis by (simp add: bij_betw_def)
qed

lemma sparse_smt_core:
  fixes pid :: u32
  assumes nc: "cores m st = online m" "online m \<noteq> 0" "task_nodes m \<noteq> 0" "numa_support m"
    and pol: "schedule_policy st = SYNCH_THREAD_PLACEMENT_NUMA_SPARSE" "smt m (online m)"
    and h: "h = online m div task_nodes m div 2" "unat (online m) = 2 * (unat (task_nodes m) * unat h)"
    and half: "unat (online m div 2) = unat (task_nodes m) * unat h"
    and p: "unat pid < 2 * (unat (task_nodes m) * unat h)"
  shows "\<exists>c. synchPreferredCoreOfThread m st pid = Some c \<and> unat c = sparse_smt (unat (task_nodes m)) (unat h) (unat pid)"
proof -
  let ?n = "task_nodes m" and ?H = "online m div 2"
  have lt: "2 * (unat ?n * unat h) < 2 ^ 32" using h(2) unat_u32_less [of "online m"] by simp
  define q where "q = (if pid \<ge> ?H then pid - ?H else pid)"
  define off where "off = (if pid \<ge> ?H then ?H else 0)"
  define c0 where "c0 = (q mod ?n) * h + q div ?n"
  have uq: "unat q = (if unat pid \<ge> unat ?n * unat h then unat pid - unat ?n * unat h else unat pid)"
    using half by (auto simp: q_def word_le_nat_alt unat_sub)
  then have ql: "unat q < unat ?n * unat h" using p by auto
  have uc0: "unat c0 = spread (unat ?n) (unat h) (unat q)" unfolding c0_def
    by (rule unat_spread' [OF ql]) (use lt in linarith)
  have c0l: "unat c0 < unat ?n * unat h" using uc0 spread_less [OF ql] by simp
  have uoff: "unat off = (if unat pid \<ge> unat ?n * unat h then unat ?n * unat h else 0)"
    using half by (simp add: off_def word_le_nat_alt)
  have "unat off \<le> unat ?n * unat h" using uoff by auto
  then have "unat c0 + unat off < 2 ^ 32" using c0l lt by linarith
  then have "unat (c0 + off) = unat c0 + unat off" by (simp add: unat_word_ariths)
  then have uc: "unat (c0 + off) = sparse_smt (unat ?n) (unat h) (unat pid)"
    using uc0 uq uoff by (simp add: sparse_smt_def)
  then have "c0 + off < online m" using sparse_smt_less [OF p] h(2) by (simp add: word_less_nat_alt)
  then have "(c0 + off) mod online m = c0 + off" by (rule u32_mod_less)
  moreover have "synchPreferredCoreOfThread m st pid = Some ((c0 + off) mod online m)"
    using nc pol unfolding synchPreferredCoreOfThread_def Let_def c0_def q_def off_def h(1)
    by (simp add: placement_defs)
  ultimately show ?thesis using uc by simp
qed

text \<open>C30. On a machine whose cores are shared evenly among its nodes, every placement policy gives the
  first threads, one per core, each a core of its own; for the default policy this is so only where
  no simultaneous multithreading is found.\<close>

theorem placement_distinct_cores:
  assumes even: "even_machine m" and nc: "ncores st = online m"
    and pol: "schedule_policy st = SYNCH_THREAD_PLACEMENT_NUMA_SPARSE_SMT_PREFER \<Longrightarrow> \<not> numa_support m \<or> \<not> smt m (online m)"
  shows "bij_betw (synchPreferredCoreOfThread m st) {..<online m} (Some ` {..<online m})"
proof -
  let ?N = "online m" and ?n = "task_nodes m" and ?P = "schedule_policy st"
  have N: "?N \<noteq> 0" "cores m st = ?N" using even nc by (simp_all add: even_machine_def synchGetNCores_def)
  have id: ?thesis if "\<And>pid. synchPreferredCoreOfThread m st pid = Some (pid mod ?N)"
    by (rule bij_by_nat [where G = "\<lambda>p. p"]) (use that in \<open>simp_all add: word_less_nat_alt unat_mod\<close>)
  note def = synchPreferredCoreOfThread_def N placement_defs Let_def
  show ?thesis
  proof (cases "?P = 1 \<or> \<not> numa_support m \<or> ?P = 3 \<and> ?n \<noteq> 0")
    case True
    then show ?thesis using N(1) by (intro id) (auto simp: def)
  next
    case False
    define k where "k = ?N div ?n"
    have k: "unat ?N = unat ?n * unat k" using even False by (simp add: even_machine_def k_def unat_div)
    have n: "?n \<noteq> 0" using k N(1) by (metis mult_0 unat_0 unat_eq_zero)
    have lt: "unat ?n * unat k < 2 ^ 32" using k unat_u32_less [of ?N] by simp
    show ?thesis
    proof (cases "?P = 2 \<and> smt m ?N")
      case True
      define h where "h = k div 2"
      have "unat k = 2 * unat h" using even True False by (simp add: even_machine_def k_def h_def unat_div)
      then have nh: "unat ?N = 2 * (unat ?n * unat h)" using k by simp
      then have half: "unat (?N div 2) = unat ?n * unat h" by (simp add: unat_div)
      show ?thesis
      proof (rule bij_by_nat [where G = "sparse_smt (unat ?n) (unat h)"])
        fix pid assume "pid < ?N"
        then have p: "unat pid < 2 * (unat ?n * unat h)" using nh by (simp add: word_less_nat_alt)
        show "\<exists>c. synchPreferredCoreOfThread m st pid = Some c \<and> unat c = sparse_smt (unat ?n) (unat h) (unat pid)"
          by (rule sparse_smt_core) (use True False n N nh half p in \<open>simp_all add: h_def k_def placement_defs\<close>)
      qed (use nh sparse_smt_less sparse_smt_inj in \<open>simp_all\<close>)
    next
      case other: False
      show ?thesis
      proof (rule bij_by_nat [where G = "spread (unat ?n) (unat k)"])
        fix pid assume "pid < ?N"
        then have p: "unat pid < unat ?n * unat k" using k by (simp add: word_less_nat_alt)
        define c where "c = pid div ?n + (pid mod ?n) * k"
        have u: "unat c = spread (unat ?n) (unat k) (unat pid)" unfolding c_def by (rule unat_spread [OF p lt])
        then have "c < ?N" using spread_less [OF p] k by (simp add: word_less_nat_alt)
        then have "c mod ?N = c" by (rule u32_mod_less)
        moreover have "synchPreferredCoreOfThread m st pid = Some (c mod ?N)"
          using False other n N(1) pol by (auto simp: def c_def k_def)
        ultimately show "\<exists>c. synchPreferredCoreOfThread m st pid = Some c \<and> unat c = spread (unat ?n) (unat k) (unat pid)"
          using u by simp
      qed (use k spread_less spread_inj in \<open>simp_all\<close>)
    qed
  qed
qed

text \<open>C33. The default policy takes the remainder by the size of a node where the number of nodes is meant:
  on a machine with simultaneous multithreading and more nodes than half the cores of a node, thread 0
  and thread \<open>node_size\<close> are put on core 0, although there is a core for each of them.\<close>

theorem default_placement_collides:
  assumes "numa_support m" "smt m (online m)" "ncores st = online m" "online m \<noteq> 0"
    and "schedule_policy st = SYNCH_THREAD_PLACEMENT_DEFAULT" "task_nodes m \<noteq> 0" "2 * task_nodes m \<noteq> 0"
    and "node_size = online m div task_nodes m" "0 < node_size" "node_size < 2 * task_nodes m"
  shows "synchPreferredCoreOfThread m st 0 = Some 0 \<and> synchPreferredCoreOfThread m st node_size = Some 0"
proof -
  have "node_size div (2 * task_nodes m) = 0" using assms(10) by (simp add: word_unat_eq_iff unat_div word_less_nat_alt)
  moreover have "cores m st = online m" "node_size \<noteq> 0" using assms(3,4,9) by (auto simp: synchGetNCores_def)
  ultimately show ?thesis using assms unfolding synchPreferredCoreOfThread_def Let_def by (simp add: placement_defs)
qed

section \<open>Every thread gets its own identifier\<close>

lemma pin_ok:
  assumes "machine_ok m" "ncores st = online m"
  shows "\<exists>r. synchThreadPin m st affinity cpu t = Some r"
proof -
  let ?k = "online m div task_nodes m"
  have N: "cores m st = online m" "online m \<noteq> 0" using assms by (simp_all add: machine_ok_def synchGetNCores_def)
  have sz: "task_nodes m \<noteq> 0 \<and> ?k \<noteq> 0 \<and> ?k div 2 \<noteq> 0 \<and> 2 * task_nodes m \<noteq> 0" if "numa_support m"
  proof -
    have t: "task_nodes m \<noteq> 0" "2 * unat (task_nodes m) \<le> unat (online m)" using assms(1) that by (simp_all add: machine_ok_def)
    have pos: "0 < unat (task_nodes m)" using t(1) by (simp add: unat_gt_0)
    have k: "2 \<le> unat ?k" using div_le_mono [OF t(2), of "unat (task_nodes m)"] pos by (simp add: unat_div)
    then have "?k \<noteq> 0" by (metis not_numeral_le_zero unat_0)
    moreover have "1 \<le> unat (?k div 2)" using div_le_mono [OF k, of 2] unfolding unat_div [of ?k] by simp
    moreover have "unat (2 * task_nodes m) = 2 * unat (task_nodes m)"
      using t(2) unat_u32_less [of "online m"] by (simp add: unat_word_ariths)
    then have "2 * task_nodes m \<noteq> 0" using pos by auto
    ultimately show ?thesis using t(1) by auto
  qed
  have "synchPreferredCoreOfThread m st cpu \<noteq> None"
    unfolding synchPreferredCoreOfThread_def Let_def using N sz by (cases "numa_support m") simp_all
  then obtain c where c: "synchPreferredCoreOfThread m st cpu = Some c" by blast
  have "synchPreferredNumaNodeOfThread m st cpu \<noteq> None"
    unfolding synchPreferredNumaNodeOfThread_def Let_def using N sz c by (cases "numa_support m") simp_all
  with c show ?thesis by (auto simp: synchThreadPin_def)
qed

lemma create_all: "(\<And>i. create i = 0) \<Longrightarrow> \<exists>r. create_loop create k i l = Inr r"
  by (induction k arbitrary: i l) simp_all

lemma kthread_ids:
  assumes "machine_ok m" "ncores st = online m"
  shows "\<exists>t. kthreadWrapper m st affinity (int p) = Some (t, [(of_nat p, int p)])"
proof -
  have "cores m st \<noteq> 0" using assms by (simp add: machine_ok_def synchGetNCores_def)
  moreover obtain r where "synchThreadPin m st affinity (word_of_int (int p mod uint (cores m st))) thread_static = Some r"
    using pin_ok [OF assms] by blast
  ultimately show ?thesis
    by (cases r) (simp add: kthreadWrapper_def Let_def synchGetThreadId_def setThreadId_def fibers_static_def synchCurrentFiberIndex_def)
qed

lemma uthread_ids:
  assumes "machine_ok m" "ncores st = online m" "unat (uthreads st) = u" "0 < u"
  shows "\<exists>t. uthreadWrapper m st affinity (int p) = Some (t, map (\<lambda>j. (of_nat (p + j), int (p + j))) [0..<u])"
proof -
  have c: "cores m st \<noteq> 0" "uthreads st \<noteq> 0" using assms by (auto simp: machine_ok_def synchGetNCores_def)
  obtain r t where r: "synchThreadPin m st affinity (word_of_int ((int p div uint (uthreads st)) mod uint (cores m st))) thread_static = Some (r, t)"
    using pin_ok [OF assms(1,2)] by (metis surj_pair)
  define fs where "fs = spawn_all (int p) (u - 1) (synchInitFibers u fibers_static)"
  have fs: "N_FIBERS fs = u" "0 < j \<Longrightarrow> j < u \<Longrightarrow> farg fs j = int p + int j" for j
    using spawn_all_state [of u "u - 1" "int p"] assms(4) unfolding fs_def by auto
  have "uthreadWrapper m st affinity (int p) = Some (setThreadId (word_of_int (int p)) t,
      map (\<lambda>j. (synchGetThreadId (setThreadId (word_of_int (int p)) t) (fs\<lparr>currentFiber := j\<rparr>), if j = 0 then int p else farg fs j)) [0..<u])"
    using c r fs(1) unfolding uthreadWrapper_def assms(3) Let_def fs_def [symmetric] by simp
  moreover have "map (\<lambda>j. (synchGetThreadId (setThreadId (word_of_int (int p)) t) (fs\<lparr>currentFiber := j\<rparr>), if j = 0 then int p else farg fs j)) [0..<u]
      = map (\<lambda>j. (of_nat (p + j), int (p + j))) [0..<u]"
    by (rule map_cong) (auto simp: fs(2) synchGetThreadId_def setThreadId_def synchCurrentFiberIndex_def)
  ultimately show ?thesis by auto
qed

lemma concat_blocks: "concat (map (\<lambda>i. map (\<lambda>j. f (i * u + j)) [0..<u]) [0..<k]) = map f [0..<k * u]"
proof (induction k)
  case (Suc k)
  have "map (\<lambda>j. f (k * u + j)) [0..<u] = map f [k * u..<k * u + u]"
    by (rule nth_equalityI) simp_all
  then show ?case using Suc upt_add_eq_append [of 0 "k * u" u] by (simp add: add.commute)
qed simp

lemma all_threads_eq:
  assumes "\<And>p. p \<in> set ps \<Longrightarrow> \<exists>t. (if uthread_sched (gstate s) then uthreadWrapper else kthreadWrapper) m (gstate s) affinity p = Some (t, g p)"
    and "pids s = ps"
  shows "all_threads m affinity s = Some (concat (map g ps))"
proof -
  define run where "run = (if uthread_sched (gstate s) then uthreadWrapper else kthreadWrapper) m (gstate s) affinity"
  have r: "run p \<noteq> None \<and> snd (the (run p)) = g p" if "p \<in> set ps" for p
    using assms(1) [OF that] unfolding run_def [symmetric] by auto
  then have mp: "map (\<lambda>p. snd (the (run p))) ps = map g ps" by simp
  have "\<not> (\<exists>p \<in> set ps. run p = None)" using r by blast
  then show ?thesis unfolding all_threads_def Let_def run_def [symmetric] assms(2) mp by (simp only: if_False)
qed

text \<open>What \<open>synchStartThreadsN\<close> promises: the threads and fibers \<open>0, \<dots>, N - 1\<close>.\<close>

definition starts :: "machine \<Rightarrow> (u32 \<Rightarrow> int) \<Rightarrow> (nat + started) \<Rightarrow> nat \<Rightarrow> bool" where
  "starts m affinity r N \<longleftrightarrow> (\<exists>s. r = Inr s \<and> barrier_for s = of_nat (length (pids s) + 1)
     \<and> all_threads m affinity s = Some (map (\<lambda>k. (of_nat k, int k)) [0..<N]))"

lemma start_fibers_ids:
  assumes m: "machine_ok m" and create: "\<And>i. create i = 0" and n: "u \<le> n" and True: "1 < u"
  shows "starts m affinity (synchStartThreadsN m create st n u) (unat (n div u) * unat u)"
proof -
  define q where "q = n div u"
  have un: "0 < unat u" "unat u \<le> unat n" using True n by (simp_all add: word_less_nat_alt word_le_nat_alt)
  have uq: "1 \<le> unat q" using div_le_mono [OF un(2), of "unat u"] un(1) by (simp add: q_def unat_div)
  then have "q \<noteq> 0" by auto
  from unat_minus_one [OF this] uq have q1: "unat (q - 1) + 1 = unat q" by linarith
  obtain r where r: "create_loop create (unat (q - 1)) 0 (- 1) = Inr r" using create_all [of create, OF create] by blast
  define s where "s = \<lparr>last_thread_id = r, pids = map (\<lambda>i. int i * uint u) [0..<unat q], barrier_for = q + 1,
      gstate = st\<lparr>ncores := online m, nthreads := n, uthreads := u, uthread_sched := True, system_oversubscription := True\<rparr>\<rparr>"
  have eq: "synchStartThreadsN m create st n u = Inr s"
    using True r q1 unfolding synchStartThreadsN_def Let_def q_def [symmetric] s_def
    by (auto simp: SYNCH_DONT_USE_UTHREADS_def simp del: upt_Suc)
  have ps: "pids s = map (\<lambda>i. int (i * unat u)) [0..<unat q]" by (simp only: s_def started.simps of_nat_mult uint_nat)
  have "all_threads m affinity s = Some (concat (map (\<lambda>p. map (\<lambda>j. (of_nat (nat p + j), int (nat p + j))) [0..<unat u]) (pids s)))"
  proof (rule all_threads_eq [OF _ refl])
    fix p assume "p \<in> set (pids s)"
    then obtain i where "p = int i" unfolding ps by (auto simp del: of_nat_mult)
    with uthread_ids [OF m, of "gstate s" "unat u" affinity i] un(1)
    show "\<exists>t. (if uthread_sched (gstate s) then uthreadWrapper else kthreadWrapper) m (gstate s) affinity p
        = Some (t, map (\<lambda>j. (of_nat (nat p + j), int (nat p + j))) [0..<unat u])"
      by (simp add: s_def)
  qed
  also have "map (\<lambda>p. map (\<lambda>j. (of_nat (nat p + j) :: u32, int (nat p + j))) [0..<unat u]) (pids s)
      = map (\<lambda>i. map (\<lambda>j. (of_nat (i * unat u + j), int (i * unat u + j))) [0..<unat u]) [0..<unat q]"
    unfolding ps by (simp add: comp_def del: of_nat_mult of_nat_add)
  also have "concat \<dots> = map (\<lambda>k. (of_nat k, int k)) [0..<unat q * unat u]"
    by (rule concat_blocks)
  finally show ?thesis unfolding starts_def using eq True by (intro exI [of _ s]) (simp add: s_def q_def)
qed

lemma start_posix_ids:
  assumes m: "machine_ok m" and create: "\<And>i. create i = 0" and n: "0 < n" and False: "\<not> 1 < u"
  shows "starts m affinity (synchStartThreadsN m create st n u) (unat n)"
proof -
  have "n \<noteq> 0" "0 < unat n" using n by (auto simp: word_less_nat_alt)
  from unat_minus_one [OF this(1)] this(2) have n1: "unat (n - 1) + 1 = unat n" by linarith
  obtain r where r: "create_loop create (unat (n - 1)) 0 (- 1) = Inr r" using create_all [of create, OF create] by blast
  let ?st1 = "st\<lparr>ncores := online m, nthreads := n\<rparr>"
  define s where "s = \<lparr>last_thread_id = r, pids = map int [0..<unat n], barrier_for = n + 1,
      gstate = (if n > ncores ?st1 then ?st1\<lparr>uthread_sched := False, system_oversubscription := True\<rparr>
                else ?st1\<lparr>uthread_sched := False, noop_resched := True\<rparr>)\<rparr>"
  have eq: "synchStartThreadsN m create st n u = Inr s"
    using False r n1 unfolding synchStartThreadsN_def Let_def s_def by (auto simp del: upt_Suc)
  have "all_threads m affinity s = Some (concat (map (\<lambda>p. [(of_nat (nat p), p)]) (pids s)))"
  proof (rule all_threads_eq [OF _ refl])
    fix p assume "p \<in> set (pids s)"
    then obtain i where "p = int i" by (auto simp: s_def)
    with kthread_ids [OF m, of "gstate s" affinity i]
    show "\<exists>t. (if uthread_sched (gstate s) then uthreadWrapper else kthreadWrapper) m (gstate s) affinity p
        = Some (t, [(of_nat (nat p), p)])"
      by (simp add: s_def)
  qed
  then show ?thesis unfolding starts_def using eq False by (intro exI [of _ s]) (simp add: s_def comp_def concat_map_singleton)
qed

text \<open>With more fibers to a posix thread than threads, \<^verbatim>\<open>(nthreads / uthreads) - 1\<close> wraps around:
  the loop creates \<^verbatim>\<open>2^32 - 1\<close> posix threads for a barrier that expects none of them.\<close>

lemma start_fibers_underflow:
  assumes "\<And>i. create i = 0" "n < u" "1 < u"
  shows "\<exists>s. synchStartThreadsN m create st n u = Inr s \<and> length (pids s) = 2 ^ 32 \<and> barrier_for s = 1"
proof -
  have q: "n div u = 0" using assms(2) by (simp add: word_unat_eq_iff unat_div word_less_nat_alt)
  have k: "unat (0 - 1 :: u32) = 2 ^ 32 - 1" by (simp add: unsigned_minus_1_eq_mask mask_eq_exp_minus_1)
  obtain r where "create_loop create (2 ^ 32 - 1) 0 (- 1) = Inr r" using create_all [of create, OF assms(1)] by blast
  then show ?thesis using assms(3) unfolding synchStartThreadsN_def Let_def q k
    by (auto simp: SYNCH_DONT_USE_UTHREADS_def simp del: upt_Suc create_loop.simps)
qed

lemma create_fails:
  "\<lbrakk>\<And>i. i < j \<Longrightarrow> create (i0 + i) = 0; create (i0 + j) \<noteq> 0; j < k\<rbrakk> \<Longrightarrow> create_loop create k i0 l = Inl (i0 + j)"
proof (induction k arbitrary: i0 j l)
  case (Suc k)
  show ?case
  proof (cases j)
    case 0
    then show ?thesis using Suc.prems by simp
  next
    case (Suc j')
    have "create_loop create k (Suc i0) (create i0) = Inl (Suc i0 + j')"
      using Suc Suc.prems by (intro Suc.IH) (simp, use Suc.prems(1) [of "Suc i" for i] in force, simp_all)
    then show ?thesis using Suc Suc.prems(1) [of 0] by simp
  qed
qed simp

text \<open>The posix threads that \<^verbatim>\<open>synchStartThreadsN\<close> creates besides the calling one.\<close>

definition created :: "u32 \<Rightarrow> u32 \<Rightarrow> nat" where
  "created n u = (if 1 < u then unat (n div u - 1) else unat (n - 1))"

lemma start_fails:
  assumes "\<And>i. i < j \<Longrightarrow> create i = 0" "create j \<noteq> 0" "j < created n u"
  shows "synchStartThreadsN m create st n u = Inl j"
  using create_fails [of j create 0, OF _ _ assms(3)] assms(1,2)
  by (auto simp: synchStartThreadsN_def Let_def created_def SYNCH_DONT_USE_UTHREADS_def simp del: upt_Suc create_loop.simps)


section \<open>The properties at work\<close>

definition demo_machine :: "u32 \<Rightarrow> u32 \<Rightarrow> machine" where
  "demo_machine n k = \<lparr>online = n, numa_support = True, task_nodes = k, node_of_cpu = (\<lambda>_. 0)\<rparr>"

theorem placement_distinct_cores_witness:
  "bij_betw (synchPreferredCoreOfThread (demo_machine 8 2)
     (threads_static\<lparr>ncores := 8, schedule_policy := SYNCH_THREAD_PLACEMENT_NUMA_SPARSE\<rparr>)) {..<8} (Some ` {..<8})"
  using placement_distinct_cores [of "demo_machine 8 2"
      "threads_static\<lparr>ncores := 8, schedule_policy := SYNCH_THREAD_PLACEMENT_NUMA_SPARSE\<rparr>"]
  by (simp add: demo_machine_def even_machine_def placement_defs)

theorem default_placement_collides_witness:
  "synchPreferredCoreOfThread (demo_machine 16 4) (threads_static\<lparr>ncores := 16\<rparr>) 0 = Some 0
   \<and> synchPreferredCoreOfThread (demo_machine 16 4) (threads_static\<lparr>ncores := 16\<rparr>) 4 = Some 0"
  using default_placement_collides [of "demo_machine 16 4" "threads_static\<lparr>ncores := 16\<rparr>" 4]
  by (simp add: demo_machine_def smt_def threads_static_def)


lemma start_fibers_underflow_witness:
  "\<exists>s. synchStartThreadsN (demo_machine 8 2) (\<lambda>_. 0) threads_static 2 4 = Inr s \<and> length (pids s) = 2 ^ 32 \<and> barrier_for s = 1"
  by (rule start_fibers_underflow) simp_all

end
