(* ===== verification/OsciPools.thy ===== *)
theory OsciPools
  imports OsciRuns Pool Threads
begin

text \<open>
  What the initialisation of Osci makes room for: the combining points of osci.c and the pools of nodes
  of oscistack.c and osciqueue.c, one for each group of fibers, and who uses which of them. The threads
  are those that \<^verbatim>\<open>synchStartThreadsN\<close> starts. The list and the queue themselves are in StackObjects
  and QueueObjects.
\<close>

section \<open>The pools of the stack and of the queue\<close>

record ('x, 'r, 's) OsciStackStruct =
  object_struct :: "('x, 'r, 's) OsciStruct"
  stack_pools :: "SynchPoolStruct list"

record ('x, 'r, 's) OsciQueueStruct =
  enqueue_struct :: "('x, 'r, 's) OsciStruct"
  dequeue_struct :: "('x, 'r, 's) OsciStruct"
  queue_pools :: "SynchPoolStruct list"

text \<open>\<^verbatim>\<open>pool_node = synchGetAlignedMemory(..., groups_of_fibers * sizeof(SynchPoolStruct))\<close>: the
  memory holds \<open>raw\<close>.\<close>

definition OsciStackInit_pools ::
    "nat \<Rightarrow> nat \<Rightarrow> ('x, 'r) OsciNode \<Rightarrow> (nat \<Rightarrow> SynchPoolStruct) \<Rightarrow> 'x \<Rightarrow> 's \<Rightarrow> ('x, 'r, 's) OsciStackStruct option" where
  "OsciStackInit_pools n f m raw x0 s0 =
     map_option (\<lambda>l. \<lparr>object_struct = l, stack_pools = map raw [0..<groups_of_fibers l]\<rparr>) (OsciInit n f m x0 s0)"

definition OsciQueueInit_pools ::
    "nat \<Rightarrow> nat \<Rightarrow> ('x, 'r) OsciNode \<Rightarrow> (nat \<Rightarrow> SynchPoolStruct) \<Rightarrow> 'x \<Rightarrow> 's \<Rightarrow> ('x, 'r, 's) OsciQueueStruct option" where
  "OsciQueueInit_pools n f m raw x0 s0 =
     (case (OsciInit n f m x0 s0, OsciInit n f m x0 s0) of
        (Some e, Some d) \<Rightarrow> Some \<lparr>enqueue_struct = e, dequeue_struct = d, queue_pools = map raw [0..<groups_of_fibers e]\<rparr>
      | _ \<Rightarrow> None)"

text \<open>\<^verbatim>\<open>synchInitPool(&(pool_node[synchGetThreadId()]), sizeof(Node))\<close>, whose result is ignored; \<open>gid\<close>
  is what \<^verbatim>\<open>synchGetThreadId\<close> returns, and \<open>None\<close> an access outside of the array.\<close>

definition init_pool_at :: "u32 \<Rightarrow> SynchPoolStruct list \<Rightarrow> SynchPoolStruct list option" where
  "init_pool_at gid ps =
     (if unat gid < length ps
      then Some (case synchInitPool (ps ! unat gid) 16 of None \<Rightarrow> ps | Some q \<Rightarrow> ps[unat gid := q])
      else None)"

definition OsciStackThreadStateInit ::
    "'x \<Rightarrow> u32 \<Rightarrow> tid \<Rightarrow> ('x, 'r, 's) OsciStackStruct \<Rightarrow> ('x, 'r, 's) OsciStackStruct option" where
  "OsciStackThreadStateInit x0 gid pid st =
     (let st1 = st\<lparr>object_struct := OsciThreadStateInit x0 pid (object_struct st)\<rparr>
      in case init_pool_at gid (stack_pools st1) of None \<Rightarrow> None | Some ps \<Rightarrow> Some (st1\<lparr>stack_pools := ps\<rparr>))"

definition OsciQueueThreadStateInit ::
    "'x \<Rightarrow> u32 \<Rightarrow> tid \<Rightarrow> ('x, 'r, 's) OsciQueueStruct \<Rightarrow> ('x, 'r, 's) OsciQueueStruct option" where
  "OsciQueueThreadStateInit x0 gid pid st =
     (let st1 = st\<lparr>enqueue_struct := OsciThreadStateInit x0 pid (enqueue_struct st)\<rparr>;
          st2 = st1\<lparr>dequeue_struct := OsciThreadStateInit x0 pid (dequeue_struct st1)\<rparr>
      in case init_pool_at gid (queue_pools st2) of None \<Rightarrow> None | Some ps \<Rightarrow> Some (st2\<lparr>queue_pools := ps\<rparr>))"

text \<open>All threads and fibers of a list initialise, one after the other: the identifier and the
  argument of each.\<close>

definition init_each :: "(u32 \<Rightarrow> tid \<Rightarrow> 'c \<Rightarrow> 'c option) \<Rightarrow> (u32 \<times> int) list \<Rightarrow> 'c \<Rightarrow> 'c option" where
  "init_each f ts st = fold (\<lambda>(gid, pid) s. Option.bind s (f gid (nat pid))) ts (Some st)"

section \<open>Who is within the array\<close>

lemma init_pool_at_length: "init_pool_at gid ps = Some qs \<Longrightarrow> length qs = length ps"
  by (auto simp: init_pool_at_def split: if_splits option.splits)

lemma init_each_bounds:
  fixes pools :: "'c \<Rightarrow> SynchPoolStruct list"
  assumes step: "\<And>gid pid s. f gid pid s = None \<longleftrightarrow> \<not> unat gid < length (pools s)"
    and len: "\<And>gid pid s t. f gid pid s = Some t \<Longrightarrow> length (pools t) = length (pools s)"
  shows "init_each f ts st \<noteq> None \<longleftrightarrow> (\<forall>(gid, pid) \<in> set ts. unat gid < length (pools st))"
proof -
  have none: "fold (\<lambda>(gid, pid) s. Option.bind s (f gid (nat pid))) us None = None" for us
    by (induction us) (simp_all add: split_beta)
  show ?thesis unfolding init_each_def
  proof (induction ts arbitrary: st)
    case (Cons t ts)
    obtain gid pid where t: "t = (gid, pid)" by fastforce
    show ?case
    proof (cases "f gid (nat pid) st")
      case None
      then have "fold (\<lambda>(gid, pid) s. Option.bind s (f gid (nat pid))) (t # ts) (Some st) = None" using none [of ts] t by simp
      with None show ?thesis using step [of gid "nat pid" st] t by auto
    next
      case (Some s)
      then show ?thesis using step [of gid "nat pid" st] len [OF Some] Cons.IH [of s] t by simp
    qed
  qed simp
qed

lemma init_each_stack: "init_each (OsciStackThreadStateInit x0) ts st \<noteq> None \<longleftrightarrow> (\<forall>(gid, pid) \<in> set ts. unat gid < length (stack_pools st))"
  by (rule init_each_bounds)
    (auto simp: OsciStackThreadStateInit_def Let_def init_pool_at_def dest: init_pool_at_length split: option.splits if_splits)

lemma init_each_queue: "init_each (OsciQueueThreadStateInit x0) ts st \<noteq> None \<longleftrightarrow> (\<forall>(gid, pid) \<in> set ts. unat gid < length (queue_pools st))"
  by (rule init_each_bounds)
    (auto simp: OsciQueueThreadStateInit_def Let_def init_pool_at_def dest: init_pool_at_length split: option.splits if_splits)

lemma start_ids:
  assumes "machine_ok mc" "\<And>i. create i = 0" "0 < n" "n < 2 ^ 32" "0 < f" "f dvd n"
  shows "\<exists>s. synchStartThreadsN mc create g (of_nat n) (of_nat f) = Inr s
     \<and> all_threads mc affinity s = Some (map (\<lambda>k. (of_nat k, int k)) [0..<n])"
proof -
  have f: "f \<le> n" using assms(3,6) by (simp add: dvd_imp_le)
  have u: "unat (of_nat n :: u32) = n" "unat (of_nat f :: u32) = f" using f assms(4) by (simp_all add: unsigned_of_nat take_bit_nat_eq_self)
  show ?thesis
  proof (cases "f = 1")
    case True
    have "(0 :: u32) < of_nat n" using u(1) assms(3) by (simp add: word_less_nat_alt)
    from start_posix_ids [OF assms(1) _ this, of create "of_nat f" affinity g] assms(2) True u(1) show ?thesis
      unfolding starts_def by auto
  next
    case False
    have "(of_nat f :: u32) \<le> of_nat n" "(1 :: u32) < of_nat f" using u f assms(5) False by (simp_all add: word_le_nat_alt word_less_nat_alt)
    from start_fibers_ids [OF assms(1) _ this, of create affinity g] assms(2,6) u show ?thesis
      unfolding starts_def by (auto simp: unat_div)
  qed
qed

lemma OsciInit_groups: "OsciInit n f m x0 s0 = Some l \<Longrightarrow> 0 < f \<and> groups_of_fibers l = n div f + (if n mod f \<noteq> 0 then 1 else 0)"
  by (auto simp: OsciInit_def Let_def split: if_splits)

lemma thread_ids_bounded:
  assumes "n < 2 ^ 32"
  shows "(\<forall>(gid :: u32, pid) \<in> set (map (\<lambda>k. (of_nat k, int k)) [0..<n]). unat gid < b) \<longleftrightarrow> n \<le> b"
proof -
  have u: "unat (of_nat k :: u32) = k" if "k < n" for k using that assms by (simp add: unsigned_of_nat take_bit_nat_eq_self)
  have "(\<forall>(gid :: u32, pid) \<in> (\<lambda>k. (of_nat k, int k)) ` {0..<n}. unat gid < b) \<longleftrightarrow> (\<forall>k \<in> {0..<n}. unat (of_nat k :: u32) < b)"
    unfolding ball_simps by simp
  also have "\<dots> \<longleftrightarrow> (\<forall>k \<in> {0..<n}. k < b)" by (rule ball_cong) (simp_all only: atLeastLessThan_iff u)
  also have "\<dots> \<longleftrightarrow> n \<le> b" using less_le_trans [of _ n b] by (cases "n \<le> b") (auto dest!: bspec [of _ _ b])
  finally show ?thesis by simp
qed

text \<open>C9. The arrays with one entry per group of fibers. The combining points (osci.c): those of all \<open>n\<close>
  fibers are within the array exactly when there are not more fibers per thread than fibers (or at
  most one fiber); otherwise \<^verbatim>\<open>groups_of_fibers\<close> is computed from the argument while the fibers are
  grouped by the corrected \<^verbatim>\<open>fibers_per_thread\<close>, and the first access of every fiber but 0 is
  out of bounds. The pools of the stack and the queue (oscistack.c, osciqueue.c): when
  \<^verbatim>\<open>synchStartThreadsN\<close> has started \<open>n\<close> fibers, \<open>f\<close> on each thread (\<open>f\<close> divides \<open>n\<close>, every \<^verbatim>\<open>pthread_create\<close>
  succeeds), the initialisation of the pools, which are indexed by the fiber's \<^verbatim>\<open>synchGetThreadId\<close>, stays
  within the array exactly when \<open>f = 1\<close>.\<close>

theorem osci_init_bounds:
  shows "(osci_init n f m x0 s0 = Some l \<longrightarrow>
       ((\<forall>pid < n. pid div fibers_per_thread l < groups_of_fibers l) \<longleftrightarrow> f \<le> n \<or> n \<le> 1)
     \<and> (n < f \<and> 1 \<le> p \<and> p < n \<longrightarrow>
         (\<exists>l'. run_trace osci_ok (osci_exec sfunc) osci_obs [OInvoke p x, OStep p, OStep p] l = Some (l', [Call p x])
            \<and> o_pc l' p = O_fault)))
   \<and> (OsciStackInit_pools n f m raw x0 s0 = Some st \<and> OsciQueueInit_pools n f m raw x0 s0 = Some qt
        \<and> machine_ok mc \<and> (\<forall>i. create i = 0) \<and> 0 < n \<and> n < 2 ^ 32 \<and> f dvd n \<longrightarrow>
      (\<exists>s ts. synchStartThreadsN mc create g (of_nat n) (of_nat f) = Inr s \<and> all_threads mc affinity s = Some ts
         \<and> (init_each (OsciStackThreadStateInit x0) ts st \<noteq> None \<longleftrightarrow> f = 1)
         \<and> (init_each (OsciQueueThreadStateInit x0) ts qt \<noteq> None \<longleftrightarrow> f = 1)))"
proof (intro conjI impI; (elim conjE)?)
  assume *: "osci_init n f m x0 s0 = Some l"
  show "(\<forall>pid < n. pid div fibers_per_thread l < groups_of_fibers l) \<longleftrightarrow> f \<le> n \<or> n \<le> 1" by (rule osci_groups [OF *])
  show "\<exists>l'. run_trace osci_ok (osci_exec sfunc) osci_obs [OInvoke p x, OStep p, OStep p] l = Some (l', [Call p x]) \<and> o_pc l' p = O_fault"
    if "n < f" "1 \<le> p" "p < n" by (rule osci_fault_run [OF * that])
next
  assume st: "OsciStackInit_pools n f m raw x0 s0 = Some st" and qt: "OsciQueueInit_pools n f m raw x0 s0 = Some qt"
    and *: "machine_ok mc" "\<forall>i. create i = 0" "0 < n" "n < 2 ^ 32" "f dvd n"
  let ?g = "n div f + (if n mod f \<noteq> 0 then 1 else 0)"
  have f: "0 < f" and len: "length (stack_pools st) = ?g" "length (queue_pools qt) = ?g"
    using st qt by (auto simp: OsciStackInit_pools_def OsciQueueInit_pools_def dest!: OsciInit_groups split: option.splits)
  have g: "n \<le> ?g \<longleftrightarrow> f = 1"
  proof (cases "f = 1")
    case False
    then have "2 \<le> f" "2 \<le> n" using f *(3,5) dvd_imp_le [OF *(5,3)] by linarith+
    with groups_fewer [of n f] False show ?thesis by simp
  qed simp
  obtain s where s: "synchStartThreadsN mc create g (of_nat n) (of_nat f) = Inr s"
      "all_threads mc affinity s = Some (map (\<lambda>k. (of_nat k, int k)) [0..<n])"
    using start_ids [OF *(1) _ *(3,4) f *(5), of create] *(2) by blast
  show "\<exists>s ts. synchStartThreadsN mc create g (of_nat n) (of_nat f) = Inr s \<and> all_threads mc affinity s = Some ts
         \<and> (init_each (OsciStackThreadStateInit x0) ts st \<noteq> None \<longleftrightarrow> f = 1)
         \<and> (init_each (OsciQueueThreadStateInit x0) ts qt \<noteq> None \<longleftrightarrow> f = 1)"
    using s thread_ids_bounded [OF *(4), of ?g] g unfolding init_each_stack init_each_queue len
    by (intro exI [of _ s] exI [of _ "map (\<lambda>k. (of_nat k, int k)) [0..<n]"]) simp
qed

section \<open>The property at work\<close>

text \<open>Eight fibers per thread for four fibers; four fibers on two threads, where fibers 2 and 3 have no pool.\<close>

theorem osci_init_bounds_witness:
  "(\<exists>l'. run_trace osci_ok (osci_exec dsm_fetch_add) osci_obs [OInvoke 2 7, OStep 2, OStep 2] (osci_demo 4 8) = Some (l', [Call 2 7])
      \<and> o_pc l' 2 = O_fault)
   \<and> (\<exists>s ts st. OsciStackInit_pools 4 2 (osci_mem (Res (3 :: nat))) (\<lambda>_. raw_pool) (0 :: nat) (0 :: nat) = Some st
      \<and> synchStartThreadsN (demo_machine 8 2) (\<lambda>_. 0) threads_static 4 2 = Inr s
      \<and> all_threads (demo_machine 8 2) (\<lambda>_. 0) s = Some ts \<and> init_each (OsciStackThreadStateInit 0) ts st = None)"
proof
  show "\<exists>l'. run_trace osci_ok (osci_exec dsm_fetch_add) osci_obs [OInvoke 2 7, OStep 2, OStep 2] (osci_demo 4 8) = Some (l', [Call 2 7])
      \<and> o_pc l' 2 = O_fault"
    using osci_init_bounds [of 4 8 "osci_mem (Res 3)" 0 100 "osci_demo 4 8" 2 dsm_fetch_add 7] osci_demo_init [of 8 4] by simp
  obtain st where st: "OsciStackInit_pools 4 2 (osci_mem (Res (3 :: nat))) (\<lambda>_. raw_pool) (0 :: nat) (0 :: nat) = Some st"
    by (simp add: OsciStackInit_pools_def OsciInit_def)
  obtain qt where qt: "OsciQueueInit_pools 4 2 (osci_mem (Res (3 :: nat))) (\<lambda>_. raw_pool) (0 :: nat) (0 :: nat) = Some qt"
    by (simp add: OsciQueueInit_pools_def OsciInit_def)
  have "machine_ok (demo_machine 8 2)" by (simp add: machine_ok_def demo_machine_def)
  then have "\<exists>s ts. synchStartThreadsN (demo_machine 8 2) (\<lambda>_. 0) threads_static (of_nat 4) (of_nat 2) = Inr s
      \<and> all_threads (demo_machine 8 2) (\<lambda>_. 0) s = Some ts
      \<and> (init_each (OsciStackThreadStateInit 0) ts st \<noteq> None \<longleftrightarrow> (2 :: nat) = 1) \<and> (init_each (OsciQueueThreadStateInit 0) ts qt \<noteq> None \<longleftrightarrow> (2 :: nat) = 1)"
    using osci_init_bounds [THEN conjunct2, THEN mp, OF conjI [OF st conjI [OF qt]], of "demo_machine 8 2" "\<lambda>_. 0" threads_static "\<lambda>_. 0"]
    by simp
  then have "\<exists>s ts. synchStartThreadsN (demo_machine 8 2) (\<lambda>_. 0) threads_static 4 2 = Inr s
      \<and> all_threads (demo_machine 8 2) (\<lambda>_. 0) s = Some ts \<and> init_each (OsciStackThreadStateInit 0) ts st = None" by auto
  with st show "\<exists>s ts st. OsciStackInit_pools 4 2 (osci_mem (Res (3 :: nat))) (\<lambda>_. raw_pool) (0 :: nat) (0 :: nat) = Some st
      \<and> synchStartThreadsN (demo_machine 8 2) (\<lambda>_. 0) threads_static 4 2 = Inr s
      \<and> all_threads (demo_machine 8 2) (\<lambda>_. 0) s = Some ts \<and> init_each (OsciStackThreadStateInit 0) ts st = None" by blast
qed

end
