(* ===== verification/FlatCombining.thy ===== *)
theory FlatCombining
  imports Linearizability
begin

text \<open>
  Flat combining, libconcurrent/concurrent/fc.c. Every thread owns one request record, which it
  pushes on a list once; a thread that takes the lock goes through the list a few times and runs the
  pending requests. A step is one access to shared memory; reading the argument of a pending request
  and writing its result are one step, since the owner does not touch it in between. The record of
  thread \<open>pid\<close> is \<open>pid\<close>, as in \<^verbatim>\<open>l->nodes[pid]\<close>. The combiner runs \<^verbatim>\<open>sfunc\<close> with its own
  \<^verbatim>\<open>pid\<close>, not the one of the thread that made the request.
\<close>

section \<open>State and steps\<close>

datatype ('x, 'r) slot = Arg 'x | Res 'r

datatype fc_pc =
    F_out
  | F_val      \<comment> \<open>\<^verbatim>\<open>request->val = arg\<close>\<close>
  | F_pend     \<comment> \<open>\<^verbatim>\<open>request->pending = true\<close>\<close>
  | F_test     \<comment> \<open>\<^verbatim>\<open>lock->lock == 0\<close>, line 61\<close>
  | F_cas      \<comment> \<open>\<^verbatim>\<open>synchCAS64(&lock->lock, 0, 1)\<close>\<close>
  | F_spin1    \<comment> \<open>\<^verbatim>\<open>while (lock->lock\<close> \<dots>\<close>
  | F_spin2    \<comment> \<open>\<dots> \<^verbatim>\<open>&& request->pending\<close> \<dots>\<close>
  | F_spin3    \<comment> \<open>\<dots> \<^verbatim>\<open>&& request->active)\<close>\<close>
  | F_check    \<comment> \<open>\<^verbatim>\<open>if (request->pending == false)\<close>\<close>
  | F_check2   \<comment> \<open>\<^verbatim>\<open>else if (request->active == false)\<close>\<close>
  | F_eact bool  \<comment> \<open>\<^verbatim>\<open>FCEnqueueRequest\<close>: \<^verbatim>\<open>request->active = true\<close>; called by the lock holder?\<close>
  | F_ehead bool \<comment> \<open>\<^verbatim>\<open>supposed = lock->head\<close>\<close>
  | F_enext bool \<comment> \<open>\<^verbatim>\<open>request->next = supposed\<close>\<close>
  | F_ecas bool  \<comment> \<open>\<^verbatim>\<open>synchCASPTR(&lock->head, supposed, request)\<close>\<close>
  | F_locked   \<comment> \<open>\<^verbatim>\<open>if (request->active == false)\<close>, line 74\<close>
  | F_count    \<comment> \<open>\<^verbatim>\<open>lock->count = 1\<close>\<close>
  | F_count2   \<comment> \<open>\<^verbatim>\<open>count = lock->count; i = 0\<close>\<close>
  | F_head     \<comment> \<open>\<^verbatim>\<open>i < FC_COMBINING_ROUNDS; cur = lock->head\<close>\<close>
  | F_cur      \<comment> \<open>\<^verbatim>\<open>cur != NULL; if (cur->pending)\<close>\<close>
  | F_apply    \<comment> \<open>\<^verbatim>\<open>cur->val = sfunc(state, cur->val, pid)\<close>\<close>
  | F_done     \<comment> \<open>\<^verbatim>\<open>cur->pending = false\<close>\<close>
  | F_age      \<comment> \<open>\<^verbatim>\<open>cur->age = count\<close>\<close>
  | F_next     \<comment> \<open>\<^verbatim>\<open>cur = cur->next\<close>\<close>
  | F_clean    \<comment> \<open>\<^verbatim>\<open>if (!(count % FC_CLEANUP_FREQUENCY)) prev = lock->head\<close>\<close>
  | F_cload    \<comment> \<open>\<^verbatim>\<open>while ((cur = prev->next))\<close>\<close>
  | F_cage     \<comment> \<open>\<^verbatim>\<open>if ((cur->age + FC_CLEANUP_OLD_THRESHOLD) < count)\<close>\<close>
  | F_cnext    \<comment> \<open>the load of \<^verbatim>\<open>prev->next = cur->next\<close>\<close>
  | F_cset     \<comment> \<open>its store\<close>
  | F_cact     \<comment> \<open>\<^verbatim>\<open>cur->active = 0\<close>\<close>
  | F_unlock   \<comment> \<open>\<^verbatim>\<open>lock->lock = 0\<close>\<close>
  | F_ret      \<comment> \<open>\<^verbatim>\<open>return request->val\<close>, lines 68 and 112\<close>
  | F_fault

record ('x, 'r) FCRequest =
  nxt :: "nat \<Rightarrow> ptr"
  val :: "nat \<Rightarrow> ('x, 'r) slot"
  age :: "nat \<Rightarrow> int"
  active :: "nat \<Rightarrow> bool"
  pending :: "nat \<Rightarrow> bool"

record ('x, 'r, 's) FCStruct = "('x, 'r) FCRequest" +
  head :: ptr
  lock :: nat
  count :: int
  obj :: 's
  \<comment> \<open>per thread\<close>
  supposed :: "tid \<Rightarrow> ptr"
  cur :: "tid \<Rightarrow> ptr"
  prev :: "tid \<Rightarrow> ptr"
  tmp :: "tid \<Rightarrow> ptr"
  round :: "tid \<Rightarrow> nat"
  cnt :: "tid \<Rightarrow> int"
  arg :: "tid \<Rightarrow> 'x"
  pc :: "tid \<Rightarrow> fc_pc"

definition FC_CLEANUP_FREQUENCY :: int where "FC_CLEANUP_FREQUENCY = 100"
definition FC_CLEANUP_OLD_THRESHOLD :: int where "FC_CLEANUP_OLD_THRESHOLD = 100"
definition FC_COMBINING_ROUNDS :: nat where "FC_COMBINING_ROUNDS = 3"

text \<open>The records come from memory that is not cleared: \<open>m\<close> is what is in it.
  \<^verbatim>\<open>FCThreadStateInit\<close> clears \<^verbatim>\<open>age\<close> and \<^verbatim>\<open>active\<close> of the thread's record.\<close>

definition FCStructInit :: "('x, 'r) FCRequest \<Rightarrow> 'x \<Rightarrow> 's \<Rightarrow> ('x, 'r, 's) FCStruct" where
  "FCStructInit m x0 s0 = \<lparr>nxt = nxt m, val = val m, age = age m, active = active m, pending = pending m, head = None,
     lock = 0, count = 0, obj = s0, supposed = (\<lambda>_. None), cur = (\<lambda>_. None), prev = (\<lambda>_. None), tmp = (\<lambda>_. None),
     round = (\<lambda>_. 0), cnt = (\<lambda>_. 0), arg = (\<lambda>_. x0), pc = (\<lambda>_. F_out)\<rparr>"

definition FCThreadStateInit :: "tid \<Rightarrow> ('x, 'r, 's) FCStruct \<Rightarrow> ('x, 'r, 's) FCStruct" where
  "FCThreadStateInit pid l = l\<lparr>age := (age l)(pid := 0), active := (active l)(pid := False)\<rparr>"

definition FCInit :: "nat \<Rightarrow> ('x, 'r) FCRequest \<Rightarrow> 'x \<Rightarrow> 's \<Rightarrow> ('x, 'r, 's) FCStruct" where
  "FCInit n m x0 s0 = fold FCThreadStateInit [0..<n] (FCStructInit m x0 s0)"

abbreviation goto :: "tid \<Rightarrow> fc_pc \<Rightarrow> ('x, 'r, 's) FCStruct \<Rightarrow> ('x, 'r, 's) FCStruct" where
  "goto p c l \<equiv> l\<lparr>pc := (pc l)(p := c)\<rparr>"

fun FCEnqueueRequest :: "tid \<Rightarrow> ('x, 'r, 's) FCStruct \<Rightarrow> ('x, 'r, 's) FCStruct" where
  "FCEnqueueRequest pid l =
     (case pc l pid of
        F_eact d \<Rightarrow> goto pid (F_ehead d) (l\<lparr>active := (active l)(pid := True)\<rparr>)
      | F_ehead d \<Rightarrow> goto pid (F_enext d) (l\<lparr>supposed := (supposed l)(pid := head l)\<rparr>)
      | F_enext d \<Rightarrow> goto pid (F_ecas d) (l\<lparr>nxt := (nxt l)(pid := supposed l pid)\<rparr>)
      | F_ecas d \<Rightarrow> (if head l = supposed l pid then goto pid (if d then F_count else F_test) (l\<lparr>head := Some pid\<rparr>)
                    else goto pid (F_ehead d) l)
      | _ \<Rightarrow> l)"

fun fc_combine :: "('x, 'r, 's) sfunc \<Rightarrow> tid \<Rightarrow> ('x, 'r, 's) FCStruct \<Rightarrow> ('x, 'r, 's) FCStruct" where
  "fc_combine sfunc pid l =
     (case pc l pid of
        F_locked \<Rightarrow> goto pid (if active l pid then F_count else F_eact True) l
      | F_count \<Rightarrow> goto pid F_count2 (l\<lparr>count := 1\<rparr>)
      | F_count2 \<Rightarrow> goto pid F_head (l\<lparr>cnt := (cnt l)(pid := count l), round := (round l)(pid := 0)\<rparr>)
      | F_head \<Rightarrow> (if round l pid < FC_COMBINING_ROUNDS then goto pid F_cur (l\<lparr>cur := (cur l)(pid := head l)\<rparr>)
                  else goto pid F_clean l)
      | F_cur \<Rightarrow> (case cur l pid of
                    None \<Rightarrow> goto pid F_head (l\<lparr>round := (round l)(pid := round l pid + 1)\<rparr>)
                  | Some q \<Rightarrow> goto pid (if pending l q then F_apply else F_next) l)
      | F_apply \<Rightarrow> (case cur l pid of
                      None \<Rightarrow> goto pid F_fault l
                    | Some q \<Rightarrow> (case val l q of
                          Res r \<Rightarrow> goto pid F_fault l
                        | Arg x \<Rightarrow> (let (r, s) = sfunc pid x (obj l)
                                   in goto pid F_done (l\<lparr>obj := s, val := (val l)(q := Res r)\<rparr>))))
      | F_done \<Rightarrow> (case cur l pid of None \<Rightarrow> goto pid F_fault l
                  | Some q \<Rightarrow> goto pid F_age (l\<lparr>pending := (pending l)(q := False)\<rparr>))
      | F_age \<Rightarrow> (case cur l pid of None \<Rightarrow> goto pid F_fault l
                  | Some q \<Rightarrow> goto pid F_next (l\<lparr>age := (age l)(q := cnt l pid)\<rparr>))
      | F_next \<Rightarrow> (case cur l pid of None \<Rightarrow> goto pid F_fault l
                  | Some q \<Rightarrow> goto pid F_cur (l\<lparr>cur := (cur l)(pid := nxt l q)\<rparr>))
      | _ \<Rightarrow> l)"

fun fc_cleanup :: "tid \<Rightarrow> ('x, 'r, 's) FCStruct \<Rightarrow> ('x, 'r, 's) FCStruct" where
  "fc_cleanup pid l =
     (case pc l pid of
        F_clean \<Rightarrow> (if cnt l pid mod FC_CLEANUP_FREQUENCY = 0 then goto pid F_cload (l\<lparr>prev := (prev l)(pid := head l)\<rparr>)
                   else goto pid F_unlock l)
      | F_cload \<Rightarrow> (case prev l pid of None \<Rightarrow> goto pid F_fault l
                   | Some q \<Rightarrow> goto pid (if nxt l q = None then F_unlock else F_cage) (l\<lparr>cur := (cur l)(pid := nxt l q)\<rparr>))
      | F_cage \<Rightarrow> (case cur l pid of None \<Rightarrow> goto pid F_fault l
                   | Some q \<Rightarrow> (if age l q + FC_CLEANUP_OLD_THRESHOLD < cnt l pid then goto pid F_cnext l
                               else goto pid F_cload (l\<lparr>prev := (prev l)(pid := cur l pid)\<rparr>)))
      | F_cnext \<Rightarrow> (case cur l pid of None \<Rightarrow> goto pid F_fault l
                   | Some q \<Rightarrow> goto pid F_cset (l\<lparr>tmp := (tmp l)(pid := nxt l q)\<rparr>))
      | F_cset \<Rightarrow> (case prev l pid of None \<Rightarrow> goto pid F_fault l
                   | Some q \<Rightarrow> goto pid F_cact (l\<lparr>nxt := (nxt l)(q := tmp l pid)\<rparr>))
      | F_cact \<Rightarrow> (case cur l pid of None \<Rightarrow> goto pid F_fault l
                   | Some q \<Rightarrow> goto pid F_cload (l\<lparr>active := (active l)(q := False)\<rparr>))
      | _ \<Rightarrow> l)"

fun FCApplyOp :: "('x, 'r, 's) sfunc \<Rightarrow> tid \<Rightarrow> ('x, 'r, 's) FCStruct \<Rightarrow> ('x, 'r, 's) FCStruct" where
  "FCApplyOp sfunc pid l =
     (case pc l pid of
        F_val \<Rightarrow> goto pid F_pend (l\<lparr>val := (val l)(pid := Arg (arg l pid))\<rparr>)
      | F_pend \<Rightarrow> goto pid F_test (l\<lparr>pending := (pending l)(pid := True)\<rparr>)
      | F_test \<Rightarrow> goto pid (if lock l = 0 then F_cas else F_spin1) l
      | F_cas \<Rightarrow> (if lock l = 0 then goto pid F_locked (l\<lparr>lock := 1\<rparr>) else goto pid F_spin1 l)
      | F_spin1 \<Rightarrow> goto pid (if lock l \<noteq> 0 then F_spin2 else F_check) l
      | F_spin2 \<Rightarrow> goto pid (if pending l pid then F_spin3 else F_check) l
      | F_spin3 \<Rightarrow> goto pid (if active l pid then F_spin1 else F_check) l
      | F_check \<Rightarrow> goto pid (if pending l pid then F_check2 else F_ret) l
      | F_check2 \<Rightarrow> goto pid (if active l pid then F_test else F_eact False) l
      | F_eact d \<Rightarrow> FCEnqueueRequest pid l
      | F_ehead d \<Rightarrow> FCEnqueueRequest pid l
      | F_enext d \<Rightarrow> FCEnqueueRequest pid l
      | F_ecas d \<Rightarrow> FCEnqueueRequest pid l
      | F_clean \<Rightarrow> fc_cleanup pid l | F_cload \<Rightarrow> fc_cleanup pid l | F_cage \<Rightarrow> fc_cleanup pid l
      | F_cnext \<Rightarrow> fc_cleanup pid l | F_cset \<Rightarrow> fc_cleanup pid l | F_cact \<Rightarrow> fc_cleanup pid l
      | F_unlock \<Rightarrow> goto pid F_ret (l\<lparr>lock := 0\<rparr>)
      | F_ret \<Rightarrow> (case val l pid of Arg x \<Rightarrow> goto pid F_fault l | Res r \<Rightarrow> goto pid F_out l)
      | F_out \<Rightarrow> l | F_fault \<Rightarrow> l
      | _ \<Rightarrow> fc_combine sfunc pid l)"

datatype 'x fc_act = Invoke tid 'x | Step tid

fun fc_ok :: "nat \<Rightarrow> ('x, 'r, 's) FCStruct \<Rightarrow> 'x fc_act \<Rightarrow> bool" where
  "fc_ok n l (Invoke p x) \<longleftrightarrow> p < n \<and> pc l p = F_out"
| "fc_ok n l (Step p) \<longleftrightarrow> p < n \<and> pc l p \<notin> {F_out, F_fault}"

fun fc_exec :: "('x, 'r, 's) sfunc \<Rightarrow> 'x fc_act \<Rightarrow> ('x, 'r, 's) FCStruct \<Rightarrow> ('x, 'r, 's) FCStruct" where
  "fc_exec sfunc (Invoke p x) l = goto p F_val (l\<lparr>arg := (arg l)(p := x)\<rparr>)"
| "fc_exec sfunc (Step p) l = FCApplyOp sfunc p l"

fun fc_obs :: "'x fc_act \<Rightarrow> ('x, 'r, 's) FCStruct \<Rightarrow> ('x, 'r) event list" where
  "fc_obs (Invoke p x) l = [Call p x]"
| "fc_obs (Step p) l =
     (if pc l p = F_ret then (case val l p of Res r \<Rightarrow> [Ret p r] | Arg x \<Rightarrow> []) else [])"

section \<open>Abstraction\<close>

fun slot_status :: "('x, 'r) slot \<Rightarrow> ('x, 'r) status" where
  "slot_status (Arg x) = Pend x" | "slot_status (Res r) = Done r"

definition fc_status :: "('x, 'r, 's) FCStruct \<Rightarrow> tid \<Rightarrow> ('x, 'r) status" where
  "fc_status l p = (if pc l p = F_out then Idle else if pc l p = F_val then Pend (arg l p) else slot_status (val l p))"

definition fc_abs :: "('x, 'r, 's) FCStruct \<Rightarrow> ('x, 'r, 's) config" where
  "fc_abs l = (obj l, fc_status l)"

section \<open>Invariant\<close>

fun holding :: "fc_pc \<Rightarrow> bool" where
  "holding (F_eact d) = d" | "holding (F_ehead d) = d" | "holding (F_enext d) = d" | "holding (F_ecas d) = d"
| "holding F_out = False" | "holding F_val = False" | "holding F_pend = False" | "holding F_test = False"
| "holding F_cas = False" | "holding F_spin1 = False" | "holding F_spin2 = False" | "holding F_spin3 = False"
| "holding F_check = False" | "holding F_check2 = False" | "holding F_ret = False" | "holding F_fault = False"
| "holding _ = True"

fun enqueuing :: "fc_pc \<Rightarrow> bool" where
  "enqueuing (F_ehead d) = True" | "enqueuing (F_enext d) = True" | "enqueuing (F_ecas d) = True" | "enqueuing _ = False"

text \<open>What the record of a thread holds: its pc, whether its record is active, pending, what it
  contains, its argument, and whether a combiner is between writing the result and clearing
  \<^verbatim>\<open>pending\<close>.\<close>

fun request_ok :: "fc_pc \<Rightarrow> bool \<Rightarrow> bool \<Rightarrow> ('x, 'r) slot \<Rightarrow> 'x \<Rightarrow> bool \<Rightarrow> bool" where
  "request_ok F_out a pe v x b \<longleftrightarrow> \<not> b \<and> (a \<longrightarrow> \<not> pe)"
| "request_ok F_val a pe v x b \<longleftrightarrow> \<not> b \<and> (a \<longrightarrow> \<not> pe)"
| "request_ok F_pend a pe v x b \<longleftrightarrow> \<not> b \<and> (a \<longrightarrow> \<not> pe) \<and> v = Arg x"
| "request_ok F_ret a pe v x b \<longleftrightarrow> \<not> b \<and> \<not> pe \<and> (\<exists>r. v = Res r)"
| "request_ok F_fault a pe v x b \<longleftrightarrow> False"
| "request_ok c a pe v x b \<longleftrightarrow> (if b then pe \<and> (\<exists>r. v = Res r) else if pe then v = Arg x else (\<exists>r. v = Res r))
     \<and> (\<forall>d. c = F_eact d \<longrightarrow> \<not> a) \<and> (enqueuing c \<longrightarrow> a)"

definition busy :: "tid option \<Rightarrow> ('x, 'r, 's) FCStruct \<Rightarrow> tid \<Rightarrow> bool" where
  "busy h l q \<longleftrightarrow> (\<exists>c. h = Some c \<and> pc l c = F_done \<and> cur l c = Some q)"

text \<open>The combiner's position: the records still ahead of it, and its own among them as long as it
  is pending.\<close>

definition ahead :: "nat list \<Rightarrow> ('x, 'r, 's) FCStruct \<Rightarrow> ptr \<Rightarrow> tid \<Rightarrow> bool" where
  "ahead R l h c \<longleftrightarrow> (\<exists>xs ys. R = xs @ ys \<and> path (nxt l) h ys \<and> (pending l c \<longrightarrow> round l c = 0 \<and> c \<in> set ys))"

fun holder_ok :: "fc_pc \<Rightarrow> nat list \<Rightarrow> ('x, 'r, 's) FCStruct \<Rightarrow> tid \<Rightarrow> bool" where
  "holder_ok F_count R l c \<longleftrightarrow> active l c"
| "holder_ok F_count2 R l c \<longleftrightarrow> active l c \<and> count l = 1"
| "holder_ok F_head R l c \<longleftrightarrow> active l c \<and> cnt l c = 1 \<and> (0 < round l c \<longrightarrow> \<not> pending l c)"
| "holder_ok F_cur R l c \<longleftrightarrow> active l c \<and> cnt l c = 1 \<and> ahead R l (cur l c) c"
| "holder_ok F_apply R l c \<longleftrightarrow> active l c \<and> cnt l c = 1 \<and> ahead R l (cur l c) c \<and> (\<exists>q. cur l c = Some q \<and> pending l q)"
| "holder_ok F_done R l c \<longleftrightarrow> active l c \<and> cnt l c = 1 \<and> ahead R l (cur l c) c \<and> cur l c \<noteq> None"
| "holder_ok F_age R l c \<longleftrightarrow> active l c \<and> cnt l c = 1 \<and> (\<exists>q \<in> set R. cur l c = Some q \<and> ahead R l (nxt l q) c)"
| "holder_ok F_next R l c \<longleftrightarrow> active l c \<and> cnt l c = 1 \<and> (\<exists>q \<in> set R. cur l c = Some q \<and> ahead R l (nxt l q) c)"
| "holder_ok F_clean R l c \<longleftrightarrow> cnt l c = 1 \<and> \<not> pending l c"
| "holder_ok F_unlock R l c \<longleftrightarrow> \<not> pending l c"
| "holder_ok F_cload R l c \<longleftrightarrow> False" | "holder_ok F_cage R l c \<longleftrightarrow> False" | "holder_ok F_cnext R l c \<longleftrightarrow> False"
| "holder_ok F_cset R l c \<longleftrightarrow> False" | "holder_ok F_cact R l c \<longleftrightarrow> False"
| "holder_ok _ R l c \<longleftrightarrow> True"

definition fc_inv_at :: "nat list \<Rightarrow> tid option \<Rightarrow> nat \<Rightarrow> ('x, 'r, 's) FCStruct \<Rightarrow> bool" where
  "fc_inv_at R h n l \<longleftrightarrow> path (nxt l) (head l) R \<and> distinct R
     \<and> (\<forall>p < n. p \<in> set R \<longleftrightarrow> active l p \<and> \<not> enqueuing (pc l p)) \<and> set R \<subseteq> {..<n}
     \<and> lock l = (if h = None then 0 else 1) \<and> (\<forall>p. holding (pc l p) \<longleftrightarrow> h = Some p)
     \<and> (\<forall>p < n. request_ok (pc l p) (active l p) (pending l p) (val l p) (arg l p) (busy h l p))
     \<and> (\<forall>p \<ge> n. pc l p = F_out)
     \<and> (\<forall>c. h = Some c \<longrightarrow> holder_ok (pc l c) R l c)
     \<and> (\<forall>p d. pc l p = F_ecas d \<longrightarrow> nxt l p = supposed l p)"

definition fc_inv :: "nat \<Rightarrow> ('x, 'r, 's) FCStruct \<Rightarrow> bool" where
  "fc_inv n l \<longleftrightarrow> (\<exists>R h. fc_inv_at R h n l)"

lemma fc_invD:
  assumes "fc_inv_at R h n l"
  shows "path (nxt l) (head l) R" "distinct R" "p < n \<Longrightarrow> p \<in> set R \<longleftrightarrow> active l p \<and> \<not> enqueuing (pc l p)"
    "set R \<subseteq> {..<n}" "lock l = (if h = None then 0 else 1)" "holding (pc l p) \<longleftrightarrow> h = Some p"
    "p < n \<Longrightarrow> request_ok (pc l p) (active l p) (pending l p) (val l p) (arg l p) (busy h l p)"
    "p \<ge> n \<Longrightarrow> pc l p = F_out" "h = Some c \<Longrightarrow> holder_ok (pc l c) R l c" "pc l p = F_ecas d \<Longrightarrow> nxt l p = supposed l p"
  using assms unfolding fc_inv_at_def by blast+

lemma fc_invI:
  assumes "path (nxt l) (head l) R" "distinct R" "\<And>p. p < n \<Longrightarrow> p \<in> set R \<longleftrightarrow> active l p \<and> \<not> enqueuing (pc l p)"
    "set R \<subseteq> {..<n}" "lock l = (if h = None then 0 else 1)" "\<And>p. holding (pc l p) \<longleftrightarrow> h = Some p"
    "\<And>p. p < n \<Longrightarrow> request_ok (pc l p) (active l p) (pending l p) (val l p) (arg l p) (busy h l p)"
    "\<And>p. p \<ge> n \<Longrightarrow> pc l p = F_out" "\<And>c. h = Some c \<Longrightarrow> holder_ok (pc l c) R l c"
    "\<And>p d. pc l p = F_ecas d \<Longrightarrow> nxt l p = supposed l p"
  shows "fc_inv_at R h n l"
  using assms unfolding fc_inv_at_def by blast

lemma ahead_cong:
  "\<lbrakk>\<And>x. x \<in> set R \<Longrightarrow> nxt l' x = nxt l x; pending l' c = pending l c; round l' c = round l c\<rbrakk>
   \<Longrightarrow> ahead R l' h c = ahead R l h c"
  unfolding ahead_def by (metis (no_types, lifting) UnCI path_cong set_append)

lemma ahead_Cons: "ahead R l h c \<Longrightarrow> ahead (p # R) l h c"
  unfolding ahead_def by (metis append_Cons)

text \<open>The position of the combiner depends on its own variables, its flag and the links in the list.\<close>

lemma holder_cong:
  assumes "\<And>x. x \<in> set R \<Longrightarrow> nxt l' x = nxt l x" "active l' c = active l c" "pending l' c = pending l c" "count l' = count l"
    "round l' c = round l c" "cnt l' c = cnt l c" "cur l' c = cur l c" "\<And>q. pending l q \<Longrightarrow> pending l' q"
    "holder_ok s R l c"
  shows "holder_ok s R l' c"
  using assms(2-9) ahead_cong [OF assms(1,3,5)] assms(1) by (cases s) auto

text \<open>A step of thread \<open>p\<close> that leaves the list of records, the lock and other threads' records alone.\<close>

lemma fc_local:
  assumes inv: "fc_inv_at R h n l" and p: "p < n"
    and same: "nxt l' = nxt l" "head l' = head l" "active l' = active l" "lock l' = lock l" "pc l' = (pc l)(p := c')"
      "\<And>q. q \<noteq> p \<Longrightarrow> pending l' q = pending l q \<and> val l' q = val l q \<and> arg l' q = arg l q \<and> supposed l' q = supposed l q
         \<and> cur l' q = cur l q \<and> round l' q = round l q \<and> cnt l' q = cnt l q"
    and c': "holding c' = holding (pc l p)" "enqueuing c' = enqueuing (pc l p)" "pc l p \<noteq> F_done" "c' \<noteq> F_done" "\<forall>d. c' \<noteq> F_ecas d"
    and flags: "pending l p \<Longrightarrow> pending l' p"
    and ok: "request_ok c' (active l p) (pending l' p) (val l' p) (arg l' p) (busy h l p)"
    and hold: "h = Some p \<Longrightarrow> holder_ok c' R l' p" "h \<noteq> Some p \<Longrightarrow> count l' = count l"
  shows "fc_inv_at R h n l'"
proof -
  note i = fc_invD [OF inv]
  have busy: "busy h l' q = busy h l q" for q
    using same(5,6) c'(3,4) unfolding busy_def by (metis fun_upd_other fun_upd_same)
  show ?thesis
  proof (rule fc_invI)
    show "path (nxt l') (head l') R" "distinct R" "set R \<subseteq> {..<n}" "lock l' = (if h = None then 0 else 1)"
      using i(1,2,4,5) same by simp_all
    show "q \<in> set R \<longleftrightarrow> active l' q \<and> \<not> enqueuing (pc l' q)" if "q < n" for q
      using i(3) [OF that] same c'(2) by simp
    show "holding (pc l' q) \<longleftrightarrow> h = Some q" for q using i(6) [of q] i(6) [of p] same(5) c'(1) by simp
    show "request_ok (pc l' q) (active l' q) (pending l' q) (val l' q) (arg l' q) (busy h l' q)" if "q < n" for q
      using i(7) [OF that] ok same(3,5) same(6) [of q] busy by (cases "q = p") simp_all
    show "pc l' q = F_out" if "q \<ge> n" for q using i(8) [OF that] p that same(5) by simp
    show "nxt l' q = supposed l' q" if "pc l' q = F_ecas d" for q d
      using that i(10) [of q d] same(1,5) same(6) [of q] c'(5) by (cases "q = p") auto
    show "holder_ok (pc l' c) R l' c" if c: "h = Some c" for c
    proof (cases "c = p")
      case True
      then show ?thesis using hold(1) c same(5) by simp
    next
      case False
      note s = same(6) [OF False]
      have "holder_ok (pc l c) R l' c"
      proof (rule holder_cong [OF _ _ _ _ _ _ _ _ i(9) [OF c]])
        show "count l' = count l" using hold(2) c False by simp
        show "pending l' q" if "pending l q" for q using that flags same(6) [of q] by (cases "q = p") simp_all
      qed (use s same in simp_all)
      then show ?thesis using False same(5) by simp
    qed
  qed
qed

lemma fc_live: "fc_inv_at R h n l \<Longrightarrow> pc l p \<noteq> F_out \<Longrightarrow> p < n"
  using fc_invD(8) [of R h n l p] by (meson not_le)

lemma fc_invoke:
  assumes inv: "fc_inv_at R h n l" and p: "p < n" "pc l p = F_out"
  shows "fc_inv_at R h n (goto p F_val (l\<lparr>arg := (arg l)(p := x)\<rparr>))"
  by (rule fc_local [OF inv p(1)]) (use p fc_invD(6,7) [OF inv, of p] in auto)

text \<open>Steps that keep the list, outside and inside the lock.\<close>

lemma fc_outside:
  assumes inv: "fc_inv_at R h n l" and pcl: "pc l p \<in> {F_val, F_pend, F_test, F_spin1, F_spin2, F_spin3, F_check, F_check2, F_ret}
      \<or> (\<exists>d. pc l p = F_ehead d) \<or> (\<exists>d. pc l p = F_ecas d) \<and> head l \<noteq> supposed l p \<or> pc l p = F_cas \<and> lock l \<noteq> 0"
  shows "fc_inv_at R h n (FCApplyOp f p l)"
proof -
  have p: "p < n" using fc_live [OF inv, of p] pcl by auto
  note i = fc_invD(6,7) [OF inv, of p]
  define k where "k = FCApplyOp f p l"
  have ok: "request_ok (pc l p) (active l p) (pending l p) (val l p) (arg l p) (busy h l p)" by (rule i(2) [OF p])
  have "fc_inv_at R h n k"
    using pcl
    by (elim disjE insertE emptyE exE conjE)
      (rule fc_local [OF inv p, where c' = "pc k p"]; use ok i(1) in \<open>auto simp: k_def split: if_splits slot.splits\<close>)+
  then show ?thesis by (simp only: k_def)
qed

lemma ahead_Some:
  assumes "ahead R l (Some q) c"
  shows "q \<in> set R" "\<not> (pending l c \<and> q = c) \<Longrightarrow> ahead R l (nxt l q) c"
proof -
  from assms obtain xs ys where a: "R = xs @ ys" "path (nxt l) (Some q) ys" "pending l c \<longrightarrow> round l c = 0 \<and> c \<in> set ys"
    unfolding ahead_def by blast
  then obtain zs where z: "ys = q # zs" "path (nxt l) (nxt l q) zs" by (cases ys) auto
  show "q \<in> set R" using a(1) z(1) by simp
  assume "\<not> (pending l c \<and> q = c)"
  then show "ahead R l (nxt l q) c" unfolding ahead_def using a z by (intro exI [of _ "xs @ [q]"] exI [of _ zs]) auto
qed

lemma fc_inside:
  assumes inv: "fc_inv_at R h n l" and pcl: "pc l p \<in> {F_locked, F_count, F_count2, F_head, F_cur, F_age, F_next, F_clean}"
  shows "fc_inv_at R h n (FCApplyOp f p l)"
proof -
  note i = fc_invD [OF inv]
  have p: "p < n" using fc_live [OF inv, of p] pcl by auto
  have hp: "h = Some p" using i(6) [of p] pcl by auto
  have hold: "holder_ok (pc l p) R l p" by (rule i(9) [OF hp])
  have ok: "request_ok (pc l p) (active l p) (pending l p) (val l p) (arg l p) (busy h l p)" by (rule i(7) [OF p])
  define k where "k = FCApplyOp f p l"
  have local: "fc_inv_at R h n k" if "nxt k = nxt l" "head k = head l" "active k = active l" "lock k = lock l" "pc k = (pc l)(p := c')"
      "\<And>q. q \<noteq> p \<Longrightarrow> cur k q = cur l q \<and> round k q = round l q \<and> cnt k q = cnt l q" "pending k = pending l" "val k = val l"
      "arg k = arg l" "supposed k = supposed l" "holding c'" "\<not> enqueuing c'" "c' \<noteq> F_done"
      "request_ok c' (active l p) (pending l p) (val l p) (arg l p) (busy h l p)" "holder_ok c' R k p" for c'
    by (rule fc_local [OF inv p that(1-5)]) (use that pcl hp in auto)
  have keep: "ahead R k x p = ahead R l x p" if "nxt k = nxt l" "pending k = pending l" "round k p = round l p" for x
    using that by (intro ahead_cong) simp_all
  have whole: "active l p \<Longrightarrow> ahead R k (head k) p" if "nxt k = nxt l" "head k = head l" "round k p = 0 \<or> \<not> pending k p" "\<not> enqueuing (pc l p)"
    unfolding ahead_def using i(1) i(3) [OF p] that by (intro exI [of _ "[]"] exI [of _ R]) auto
  have "fc_inv_at R h n k"
  proof (cases "pc l p")
    case F_head
    then show ?thesis using hold ok whole
      by (intro local [where c' = "pc k p"]) (auto simp: k_def FC_COMBINING_ROUNDS_def split: if_splits)
  next
    case F_cur
    show ?thesis
    proof (cases "cur l p")
      case None
      then have "\<not> pending l p" using F_cur hold path.simps(2) by (auto simp: ahead_def neq_Nil_conv elim: path.elims)
      with F_cur None show ?thesis using hold ok by (intro local [where c' = F_head]) (auto simp: k_def)
    next
      case (Some q)
      then have "\<not> pending l q \<Longrightarrow> ahead R l (nxt l q) p \<and> q \<in> set R"
        using F_cur hold ahead_Some [of R l q p] by auto
      then show ?thesis using F_cur hold ok keep Some
        by (intro local [where c' = "pc k p"]) (auto simp: k_def split: if_splits)
    qed
  next
    case F_age
    then show ?thesis using hold ok keep by (intro local [where c' = F_next]) (auto simp: k_def)
  next
    case F_next
    then show ?thesis using hold ok keep by (intro local [where c' = F_cur]) (auto simp: k_def)
  next
    case F_clean
    then show ?thesis using hold ok by (intro local [where c' = F_unlock]) (auto simp: k_def FC_CLEANUP_FREQUENCY_def)
  qed (use pcl hold ok in \<open>intro local [where c' = "pc k p"]; auto simp: k_def split: if_splits\<close>)+
  then show ?thesis by (simp only: k_def)
qed

section \<open>Steps on shared data\<close>

lemma fc_lock:
  assumes inv: "fc_inv_at R h n l" and pcl: "pc l p = F_cas" "lock l = 0"
  shows "fc_inv_at R (Some p) n (FCApplyOp f p l)"
proof -
  note i = fc_invD [OF inv]
  have p: "p < n" using fc_live [OF inv, of p] pcl by auto
  have h: "h = None" using i(5) pcl(2) by (simp split: if_splits)
  show ?thesis
  proof (rule fc_invI)
    fix q assume q: "q < n"
    show "request_ok (pc (FCApplyOp f p l) q) (active (FCApplyOp f p l) q) (pending (FCApplyOp f p l) q) (val (FCApplyOp f p l) q)
        (arg (FCApplyOp f p l) q) (busy (Some p) (FCApplyOp f p l) q)"
      using i(7) [OF q] pcl h by (cases "q = p") (auto simp: busy_def)
  qed (use i pcl h p in \<open>auto split: if_splits\<close>)
qed

lemma fc_unlock:
  assumes inv: "fc_inv_at R h n l" and pcl: "pc l p = F_unlock"
  shows "fc_inv_at R None n (FCApplyOp f p l)"
proof -
  note i = fc_invD [OF inv]
  have p: "p < n" using fc_live [OF inv, of p] pcl by auto
  have hp: "h = Some p" using i(6) [of p] pcl by auto
  have np: "\<not> pending l p" using i(9) [OF hp] pcl by simp
  have b: "\<not> busy h l q" for q using pcl hp by (simp add: busy_def)
  show ?thesis
  proof (rule fc_invI)
    fix q assume q: "q < n"
    show "request_ok (pc (FCApplyOp f p l) q) (active (FCApplyOp f p l) q) (pending (FCApplyOp f p l) q) (val (FCApplyOp f p l) q)
        (arg (FCApplyOp f p l) q) (busy None (FCApplyOp f p l) q)"
    proof -
      have "request_ok (pc l q) (active l q) (pending l q) (val l q) (arg l q) False" using i(7) [OF q] b [of q] by simp
      then show ?thesis using pcl np by (cases "q = p") (auto simp: busy_def)
    qed
  next
    fix q show "holding (pc (FCApplyOp f p l) q) \<longleftrightarrow> None = Some q" using i(6) [of q] hp pcl by (cases "q = p") auto
  qed (use i pcl p in \<open>auto split: if_splits\<close>)
qed

lemma busy_cong: "\<lbrakk>cur l' = cur l; \<And>c. pc l' c = F_done \<longleftrightarrow> pc l c = F_done\<rbrakk> \<Longrightarrow> busy h l' q = busy h l q"
  by (simp add: busy_def)

text \<open>The three steps of an enqueue that change the record or the list.\<close>

lemma fc_enqueue:
  assumes inv: "fc_inv_at R h n l" and pcl: "pc l p = F_eact d \<or> pc l p = F_enext d"
  shows "fc_inv_at R h n (FCApplyOp f p l)"
proof -
  note i = fc_invD [OF inv]
  have p: "p < n" using fc_live [OF inv, of p] pcl by auto
  have ok: "request_ok (pc l p) (active l p) (pending l p) (val l p) (arg l p) (busy h l p)" by (rule i(7) [OF p])
  have nR: "p \<notin> set R" using i(3) [OF p] ok pcl by auto
  define k where "k = FCApplyOp f p l"
  have k: "head k = head l" "lock k = lock l" "pending k = pending l" "val k = val l" "arg k = arg l" "count k = count l"
    "round k = round l" "cnt k = cnt l" "cur k = cur l" "supposed k = supposed l" "\<And>q. q \<noteq> p \<Longrightarrow> nxt k q = nxt l q"
    "\<And>q. q \<noteq> p \<Longrightarrow> active k q = active l q" "\<And>q. q \<noteq> p \<Longrightarrow> pc k q = pc l q" "active k p"
    using pcl ok by (auto simp: k_def)
  have kp: "pc k p = (if pc l p = F_eact d then F_ehead d else F_ecas d)" "pc l p = F_enext d \<Longrightarrow> nxt k p = supposed k p"
    using pcl by (auto simp: k_def)
  have nx: "x \<in> set R \<Longrightarrow> nxt k x = nxt l x" for x using k(11) nR by metis
  have busy: "busy h k q = busy h l q" for q 
  proof (rule busy_cong [OF k(9)])
    show "pc k c = F_done \<longleftrightarrow> pc l c = F_done" for c using k(13) [of c] kp(1) pcl by (cases "c = p") auto
  qed
  have "fc_inv_at R h n k"
  proof (rule fc_invI)
    show "path (nxt k) (head k) R" using i(1) k(1) path_cong [of R "nxt k" "nxt l"] nx by simp
    show "q \<in> set R \<longleftrightarrow> active k q \<and> \<not> enqueuing (pc k q)" if "q < n" for q
      using i(3) [OF that] nR k(12-14) kp(1) pcl by (cases "q = p") auto
    show "holding (pc k q) \<longleftrightarrow> h = Some q" for q using i(6) [of q] k(13) kp(1) pcl by (cases "q = p") auto
    show "request_ok (pc k q) (active k q) (pending k q) (val k q) (arg k q) (busy h k q)" if "q < n" for q
      using i(7) [OF that] k kp(1) pcl busy by (cases "q = p") auto
    show "holder_ok (pc k c) R k c" if c: "h = Some c" for c
    proof (cases "c = p")
      case False
      have "holder_ok (pc l c) R k c"
        by (rule holder_cong [OF nx _ _ _ _ _ _ _ i(9) [OF c]]) (use k False in simp_all)
      then show ?thesis using k(13) False by simp
    qed (use kp(1) in simp)
    show "nxt k q = supposed k q" if e: "pc k q = F_ecas e" for q e
    proof (cases "q = p")
      case False
      then show ?thesis using i(10) [of q e] e k(10,11,13) by simp
    qed (use e kp pcl in auto)
    show "pc k q = F_out" if "q \<ge> n" for q using i(8) [OF that] k(13) [of q] p that by auto
  qed (use i(2,4,5) k(2) in simp_all)
  then show ?thesis by (simp only: k_def)
qed

lemma fc_push:
  assumes inv: "fc_inv_at R h n l" and pcl: "pc l p = F_ecas d" "head l = supposed l p"
  shows "fc_inv_at (p # R) h n (FCApplyOp f p l)"
proof -
  note i = fc_invD [OF inv]
  have p: "p < n" using fc_live [OF inv, of p] pcl by auto
  have ok: "request_ok (pc l p) (active l p) (pending l p) (val l p) (arg l p) (busy h l p)" by (rule i(7) [OF p])
  have nR: "p \<notin> set R" using i(3) [OF p] pcl(1) by simp
  define k where "k = goto p (if d then F_count else F_test) (l\<lparr>head := Some p\<rparr>)"
  have eq: "FCApplyOp f p l = k" using pcl by (simp add: k_def)
  have busy: "busy h k q = busy h l q" for q using pcl(1) by (intro busy_cong) (auto simp: k_def)
  have nx: "nxt l p = head l" using i(10) [OF pcl(1)] pcl(2) by simp
  have "fc_inv_at (p # R) h n k"
  proof (rule fc_invI)
    show "path (nxt k) (head k) (p # R)" "distinct (p # R)" using i(1,2) nx nR by (simp_all add: k_def)
    show "q \<in> set (p # R) \<longleftrightarrow> active k q \<and> \<not> enqueuing (pc k q)" if "q < n" for q
      using i(3) [OF that] ok pcl(1) nR by (cases "q = p") (auto simp: k_def)
    show "holding (pc k q) \<longleftrightarrow> h = Some q" for q using i(6) [of q] pcl(1) by (cases "q = p") (auto simp: k_def)
    show "request_ok (pc k q) (active k q) (pending k q) (val k q) (arg k q) (busy h k q)" if "q < n" for q
      using i(7) [OF that] pcl(1) busy by (cases "q = p") (auto simp: k_def)
    show "holder_ok (pc k c) (p # R) k c" if c: "h = Some c" for c
    proof (cases "c = p")
      case True
      then show ?thesis using ok pcl(1) i(6) [of p] c by (auto simp: k_def)
    next
      case False
      have ah: "ahead (p # R) k x c" if "ahead R l x c" for x
        using ahead_Cons [OF that, of p] by (simp add: ahead_def k_def)
      show ?thesis using i(9) [OF c] ah False unfolding k_def by (cases "pc l c") auto
    qed
  qed (use i pcl p in \<open>auto simp: k_def split: if_splits\<close>)
  then show ?thesis using eq by simp
qed

text \<open>A pending request in the list is that of a thread that waits or combines; the combiner runs it.\<close>

lemma pending_request:
  assumes "request_ok s a pe v x b" "a" "pe"
  shows "\<not> b \<Longrightarrow> v = Arg x" "\<not> b \<Longrightarrow> request_ok s a pe (Res r) x True" "b \<Longrightarrow> request_ok s a False v x False"
    "s \<noteq> F_out" "s \<noteq> F_val" "\<exists>r. b \<longrightarrow> v = Res r"
  using assms by (cases s; auto)+

lemma fc_apply:
  assumes inv: "fc_inv_at R h n l" and pcl: "pc l p = F_apply"
  obtains q x where "cur l p = Some q" "q < n" "val l q = Arg x" "x = arg l q" "pc l q \<noteq> F_out" "pc l q \<noteq> F_val"
    "fc_inv_at R h n (FCApplyOp f p l)"
proof -
  note i = fc_invD [OF inv]
  have p: "p < n" using fc_live [OF inv, of p] pcl by auto
  have hp: "h = Some p" using i(6) [of p] pcl by auto
  from i(9) [OF hp] pcl obtain q where q: "cur l p = Some q" "pending l q" and
    ah: "ahead R l (Some q) p" "active l p" "cnt l p = 1" by auto
  have qR: "q \<in> set R" by (rule ahead_Some(1) [OF ah(1)])
  have qn: "q < n" "active l q" "\<not> enqueuing (pc l q)" using qR i(4) i(3) [of q] by auto
  have nb: "\<not> busy h l r" for r using pcl hp by (simp add: busy_def)
  note pr = pending_request [OF i(7) [OF qn(1)] qn(2) q(2)]
  have v: "val l q = Arg (arg l q)" using pr(1) nb by simp
  define r where "r = f p (arg l q) (obj l)"
  define k where "k = goto p F_done (l\<lparr>obj := snd r, val := (val l)(q := Res (fst r))\<rparr>)"
  have eq: "FCApplyOp f p l = k" using pcl q v by (simp add: k_def r_def split_beta)
  have b: "busy h k x \<longleftrightarrow> x = q" for x using q(1) hp by (auto simp: busy_def k_def)
  have "fc_inv_at R h n k"
  proof (rule fc_invI)
    show "request_ok (pc k x) (active k x) (pending k x) (val k x) (arg k x) (busy h k x)" if x: "x < n" for x
    proof (cases "x = q")
      case True
      have "request_ok (pc l q) (active l q) (pending l q) (Res (fst r)) (arg l q) True" by (rule pr(2) [OF nb])
      then show ?thesis using True b pcl by (cases "q = p") (simp_all add: k_def)
    next
      case False
      then show ?thesis using i(7) [OF x] nb [of x] b pcl by (cases "x = p") (simp_all add: k_def)
    qed
    show "holder_ok (pc k c) R k c" if "h = Some c" for c
      using that hp q ah by (simp add: k_def) (simp add: ahead_def)
    show "x \<in> set R \<longleftrightarrow> active k x \<and> \<not> enqueuing (pc k x)" if "x < n" for x
      using i(3) [OF that] pcl by (cases "x = p") (auto simp: k_def)
    show "holding (pc k x) \<longleftrightarrow> h = Some x" for x using i(6) [of x] pcl by (cases "x = p") (auto simp: k_def)
  qed (use i(1,2,4,5,8,10) pcl p in \<open>auto simp: k_def split: if_splits\<close>)
  then show thesis using that [OF q(1) qn(1) v refl pr(4,5)] eq by simp
qed

lemma fc_done:
  assumes inv: "fc_inv_at R h n l" and pcl: "pc l p = F_done"
  shows "fc_inv_at R h n (FCApplyOp f p l)"
proof -
  note i = fc_invD [OF inv]
  have p: "p < n" using fc_live [OF inv, of p] pcl by auto
  have hp: "h = Some p" using i(6) [of p] pcl by auto
  from i(9) [OF hp] pcl obtain q where q: "cur l p = Some q" and
    ah: "ahead R l (Some q) p" "active l p" "cnt l p = 1" by auto
  have qR: "q \<in> set R" by (rule ahead_Some(1) [OF ah(1)])
  have qn: "q < n" "active l q" "\<not> enqueuing (pc l q)" using qR i(4) i(3) [of q] by auto
  have b: "busy h l x \<longleftrightarrow> x = q" for x using q(1) hp pcl by (auto simp: busy_def)
  define k where "k = goto p F_age (l\<lparr>pending := (pending l)(q := False)\<rparr>)"
  have eq: "FCApplyOp f p l = k" using pcl q by (simp add: k_def)
  have b': "\<not> busy h k x" for x using hp by (simp add: busy_def k_def)
  have rq: "request_ok (pc l q) (active l q) (pending l q) (val l q) (arg l q) True" using i(7) [OF qn(1)] b by simp
  then have "pending l q" by (cases "pc l q") auto
  note pr = pending_request(3) [OF rq qn(2) this TrueI]
  have "ahead R k (nxt l q) p"
  proof (cases "q = p")
    case True
    then have "ahead R k (Some q) p" using ah(1) by (auto simp: ahead_def k_def)
    from ahead_Some(2) [OF this] True show ?thesis by (simp add: k_def)
  next
    case False
    with ahead_Some(2) [OF ah(1)] show ?thesis by (simp add: ahead_def k_def)
  qed
  note ah' = this
  have "fc_inv_at R h n k"
  proof (rule fc_invI)
    show "request_ok (pc k x) (active k x) (pending k x) (val k x) (arg k x) (busy h k x)" if x: "x < n" for x
    proof (cases "x = q")
      case True
      then show ?thesis using pr b' [of q] pcl by (cases "q = p") (simp_all add: k_def)
    next
      case False
      then show ?thesis using i(7) [OF x] b [of x] b' [of x] pcl by (cases "x = p") (simp_all add: k_def)
    qed
    show "holder_ok (pc k c) R k c" if "h = Some c" for c
      using that hp q ah qR ah' by (simp add: k_def)
    show "x \<in> set R \<longleftrightarrow> active k x \<and> \<not> enqueuing (pc k x)" if "x < n" for x
      using i(3) [OF that] pcl by (cases "x = p") (auto simp: k_def)
    show "holding (pc k x) \<longleftrightarrow> h = Some x" for x using i(6) [of x] pcl by (cases "x = p") (auto simp: k_def)
  qed (use i(1,2,4,5,8,10) pcl p in \<open>auto simp: k_def split: if_splits\<close>)
  then show ?thesis using eq by simp
qed

text \<open>The clean-up is never entered, since \<^verbatim>\<open>count\<close> is set to 1 before it is read.\<close>

lemma fc_pcs: "fc_inv_at R h n l \<Longrightarrow> pc l p \<notin> {F_fault, F_cload, F_cage, F_cnext, F_cset, F_cact}"
proof
  assume inv: "fc_inv_at R h n l" and pcl: "pc l p \<in> {F_fault, F_cload, F_cage, F_cnext, F_cset, F_cact}"
  have p: "p < n" using fc_live [OF inv, of p] pcl by auto
  show False using pcl fc_invD(7) [OF inv p] fc_invD(6) [OF inv, of p] fc_invD(9) [OF inv, of p] by auto
qed

lemma fc_inv_step:
  assumes "fc_inv n l" and pcl: "pc l p \<noteq> F_out"
  shows "fc_inv n (FCApplyOp f p l)"
proof -
  from assms(1) obtain R h where inv: "fc_inv_at R h n l" unfolding fc_inv_def by blast
  let ?k = "FCApplyOp f p l"
  have ex: "fc_inv_at R' h' n ?k \<Longrightarrow> fc_inv n ?k" for R' h' unfolding fc_inv_def by blast
  note out = ex [OF fc_outside [OF inv, of p f]] and ins = ex [OF fc_inside [OF inv, of p f]]
  show ?thesis
  proof (cases "pc l p")
    case (F_eact d)
    then show ?thesis using ex [OF fc_enqueue [OF inv, of p d]] by blast
  next
    case (F_enext d)
    then show ?thesis using ex [OF fc_enqueue [OF inv, of p d]] by blast
  next
    case (F_ecas d)
    then show ?thesis using out ex [OF fc_push [OF inv F_ecas]] by blast
  next
    case (F_ehead d)
    then show ?thesis using out by blast
  next
    case F_cas
    then show ?thesis using out ex [OF fc_lock [OF inv F_cas]] by blast
  next
    case F_unlock
    then show ?thesis using ex [OF fc_unlock [OF inv F_unlock]] by blast
  next
    case F_apply
    then show ?thesis using fc_apply [OF inv F_apply] ex by blast
  next
    case F_done
    then show ?thesis using ex [OF fc_done [OF inv F_done]] by blast
  qed (use pcl out ins fc_pcs [OF inv, of p] in \<open>simp_all del: FCApplyOp.simps\<close>)
qed

lemma fc_inv_exec:
  assumes "fc_inv n l" and "fc_ok n l a"
  shows "fc_inv n (fc_exec f a l)"
proof (cases a)
  case (Invoke p x)
  from assms(1) obtain R h where "fc_inv_at R h n l" unfolding fc_inv_def by blast
  from fc_invoke [OF this, of p x] assms(2) Invoke show ?thesis unfolding fc_inv_def by auto
next
  case (Step p)
  with fc_inv_step [OF assms(1)] assms(2) show ?thesis by (simp del: FCApplyOp.simps)
qed

lemma fc_init_fields:
  "active (FCInit n m x0 s0) p \<longleftrightarrow> n \<le> p \<and> active m p" "pending (FCInit n m x0 s0) = pending m" "val (FCInit n m x0 s0) = val m"
  "head (FCInit n m x0 s0) = None" "lock (FCInit n m x0 s0) = 0" "obj (FCInit n m x0 s0) = s0" "pc (FCInit n m x0 s0) = (\<lambda>_. F_out)"
  by (induction n) (auto simp: FCInit_def FCStructInit_def FCThreadStateInit_def)

lemma fc_inv_init: "fc_inv n (FCInit n m x0 s0)"
proof -
  have "fc_inv_at [] None n (FCInit n m x0 s0)"
    by (rule fc_invI) (simp_all add: fc_init_fields busy_def)
  then show ?thesis unfolding fc_inv_def by blast
qed

section \<open>Simulation\<close>

lemma fc_status_eq:
  assumes "\<And>q. q \<noteq> p \<Longrightarrow> pc l' q = pc l q \<and> arg l' q = arg l q \<and> val l' q = val l q"
    and "fc_status l' p = v"
  shows "fc_status l' = (fc_status l)(p := v)"
  using assms by (auto simp: fc_status_def fun_eq_iff)

lemma fc_quiet:
  assumes pcl: "pc l p \<notin> {F_out, F_fault, F_apply, F_ret}"
  shows "fc_abs (FCApplyOp f p l) = fc_abs l"
proof -
  let ?k = "FCApplyOp f p l"
  have "fc_status ?k = (fc_status l)(p := fc_status l p)"
  proof (rule fc_status_eq)
    show "pc ?k q = pc l q \<and> arg ?k q = arg l q \<and> val ?k q = val l q" if q: "q \<noteq> p" for q
      using pcl q by (cases "pc l p") (auto split: option.split)
    show "fc_status ?k p = fc_status l p"
      using pcl by (cases "pc l p") (auto simp: fc_status_def split: option.split)
  qed
  moreover have "obj ?k = obj l" using pcl by (cases "pc l p") (auto split: option.split)
  ultimately show ?thesis by (simp add: fc_abs_def)
qed

lemma fc_abs_apply:
  assumes pid: "\<And>p q. f p = f q" and inv: "fc_inv_at R h n l" and pcl: "pc l p = F_apply"
  shows "asteps f (fc_abs l) [] (fc_abs (FCApplyOp f p l))"
proof -
  from fc_apply [OF inv pcl, of f] obtain q where q: "cur l p = Some q" "val l q = Arg (arg l q)" "pc l q \<noteq> F_out" "pc l q \<noteq> F_val"
    by metis
  define r where "r = f p (arg l q) (obj l)"
  define k where "k = goto p F_done (l\<lparr>obj := snd r, val := (val l)(q := Res (fst r))\<rparr>)"
  have eq: "FCApplyOp f p l = k" using pcl q by (simp add: k_def r_def split_beta)
  have "fc_status k x = ((fc_status l)(q := Done (fst r))) x" for x
    using q pcl by (cases "x = p"; cases "x = q") (auto simp: fc_status_def k_def)
  then have st: "fc_status k = (fc_status l)(q := Done (fst r))" by (rule ext)
  have "obj k = snd r" "fc_status l q = Pend (arg l q)" using q by (simp_all add: k_def fc_status_def)
  moreover have "f q (arg l q) (obj l) = r" using pid [of p q] by (simp add: r_def)
  ultimately show ?thesis unfolding eq fc_abs_def
    by (intro step_lin [of _ q "arg l q"]) (simp_all only: fst_conv snd_conv st)
qed

lemma fc_ret_value:
  assumes "fc_inv_at R h n l" and "pc l p = F_ret"
  obtains r where "val l p = Res r"
  using fc_invD(7) [OF assms(1) fc_live [OF assms(1), of p]] assms(2) by auto

lemma fc_abs_exec:
  assumes pid: "\<And>p q. f p = f q" and "fc_inv n l" and "fc_ok n l a"
  shows "asteps f (fc_abs l) (fc_obs a l) (fc_abs (fc_exec f a l))"
proof (cases a)
  case (Invoke p x)
  then have p: "pc l p = F_out" using assms(3) by simp
  have "fc_status (fc_exec f (Invoke p x) l) = (fc_status l)(p := Pend x)"
    by (rule fc_status_eq) (simp_all add: fc_status_def)
  then show ?thesis using Invoke p
    by (intro step_call [of _ p _ x]) (simp_all add: fc_abs_def fc_status_def)
next
  case (Step p)
  from assms(2) obtain R h where inv: "fc_inv_at R h n l" unfolding fc_inv_def by blast
  consider "pc l p = F_apply" | "pc l p = F_ret" | "pc l p \<notin> {F_out, F_fault, F_apply, F_ret}"
    using assms(3) Step by auto
  then show ?thesis
  proof cases
    case 1
    with fc_abs_apply [OF pid inv 1] Step show ?thesis by (simp del: FCApplyOp.simps)
  next
    case 2
    from fc_ret_value [OF inv 2] obtain r where r: "val l p = Res r" .
    have eq: "FCApplyOp f p l = goto p F_out l" using 2 r by simp
    have "fc_status (goto p F_out l) = (fc_status l)(p := Idle)" by (rule fc_status_eq) (simp_all add: fc_status_def)
    moreover have "fc_status l p = Done r" using 2 r by (simp add: fc_status_def)
    ultimately show ?thesis unfolding Step fc_exec.simps eq using 2 r
      by (intro step_ret [of _ p r]) (simp_all add: fc_abs_def)
  next
    case 3
    with fc_quiet [OF 3, of f] Step show ?thesis by (intro step_skip) (simp_all del: FCApplyOp.simps)
  qed
qed

text \<open>The combiner runs every request under its own \<^verbatim>\<open>pid\<close>, so the interface is met for operations
  that do not look at it; they are exactly the functions \<open>\<lambda>_. g\<close>.\<close>

interpretation fc: linearization "FCInit n m x0 s0" "fc_ok n" "fc_exec (\<lambda>_. g)" fc_obs "\<lambda>_. g" s0 "fc_inv n" fc_abs
  for n m x0 s0 g
proof
  show "fc_inv n (FCInit n m x0 s0)" by (rule fc_inv_init)
  show "fc_abs (FCInit n m x0 s0) = aconf0 s0"
    by (simp add: fc_abs_def aconf0_def fc_init_fields fc_status_def fun_eq_iff)
qed (rule fc_inv_exec, assumption+, rule fc_abs_exec, simp, assumption+)

section \<open>Properties\<close>

text \<open>C10. Flat combining is linearizable for every operation that ignores the \<^verbatim>\<open>pid\<close> it is given,
  whatever the memory of the request records holds at the start.\<close>

theorem fc_linearizable:
  assumes "\<And>p q. f p = f q" and "traces (FCInit n m x0 s0) (fc_ok n) (fc_exec f) fc_obs l h"
  shows "linearizable f s0 h"
proof -
  have "f = (\<lambda>_. f 0)" using assms(1) by blast
  then show ?thesis using fc.linearizable_traces [of n m x0 s0 "f 0" l h] assms(2) by metis
qed

text \<open>At most one thread combines at a time, the clean-up of old records is never reached
  (\<^verbatim>\<open>count\<close> is always 1), and no step follows a null pointer.\<close>

lemma fc_safe:
  assumes "reach (FCInit n m x0 s0) (act_step (fc_ok n) (fc_exec f)) l"
  shows "\<forall>p q. pc l p \<notin> {F_fault, F_cload, F_cage, F_cnext, F_cset, F_cact} \<and> (holding (pc l p) \<and> holding (pc l q) \<longrightarrow> p = q)"
proof -
  have "fc_inv n l" by (rule act_reach_invariant [OF assms]) (auto intro: fc_inv_init fc_inv_exec)
  then obtain R h where inv: "fc_inv_at R h n l" unfolding fc_inv_def by blast
  show ?thesis using fc_pcs [OF inv] fc_invD(6) [OF inv] by (metis option.inject)
qed

lemma fc_exclusive:
  "\<lbrakk>reach (FCInit n m x0 s0) (act_step (fc_ok n) (fc_exec f)) l; holding (pc l p) \<and> holding (pc l q)\<rbrakk> \<Longrightarrow> p = q"
  by (drule fc_safe) blast

section \<open>The properties at work\<close>

text \<open>Thread 0 takes the lock and pushes its record; thread 1 pushes its own and is served by it.\<close>

definition fc_demo :: "nat fc_act list" where
  "fc_demo = Invoke 0 5 # replicate 9 (Step 0) @ Invoke 1 7 # replicate 12 (Step 1)"

definition fc_memory :: "(nat, nat) FCRequest" where
  "fc_memory = \<lparr>nxt = (\<lambda>_. Some 7), val = (\<lambda>_. Arg 0), age = (\<lambda>_. 3), active = (\<lambda>_. True), pending = (\<lambda>_. True)\<rparr>"

definition fc_add :: "tid \<Rightarrow> nat \<Rightarrow> nat \<Rightarrow> nat \<times> nat" where
  "fc_add p x s = (s, s + x)"

lemmas fc_eval = fc_demo_def fc_memory_def FCInit_def FCStructInit_def FCThreadStateInit_def FC_COMBINING_ROUNDS_def
  FC_CLEANUP_FREQUENCY_def fc_add_def replicate_num

lemma upt_2: "[0..<2] = [0, Suc 0]"
  by (simp add: numeral_2_eq_2)

theorem fc_linearizable_witness:
  "linearizable fc_add 100 [Call 0 5, Call 1 7, Ret 0 107, Ret 1 100]"
proof -
  obtain l where "run_trace (fc_ok 2) (fc_exec fc_add) fc_obs
      (fc_demo @ replicate 30 (Step 0) @ replicate 27 (Step 1)) (FCInit 2 fc_memory 0 100)
      = Some (l, [Call 0 5, Call 1 7, Ret 0 107, Ret 1 100])"
    by (simp add: fc_eval upt_2)
  from fc_linearizable [OF _ run_trace_traces [OF this]] show ?thesis by (simp add: fc_add_def fun_eq_iff)
qed

definition fc_demo_state :: "(nat, nat, nat) FCStruct" where
  "fc_demo_state = the (run_acts (fc_ok 2) (fc_exec fc_add) fc_demo (FCInit 2 fc_memory 0 100))"

lemma fc_demo_run: "run_acts (fc_ok 2) (fc_exec fc_add) fc_demo (FCInit 2 fc_memory 0 100) = Some fc_demo_state"
  by (simp add: fc_demo_state_def fc_eval upt_2)

lemma fc_demo_pcs: "pc fc_demo_state 0 = F_count" "pc fc_demo_state 1 = F_test"
  by (simp_all add: fc_demo_state_def fc_eval upt_2)

end
