(* ===== verification/Oyama.thy ===== *)
theory Oyama
  imports Linearizability
begin

text \<open>
  The combining algorithm of Oyama, Taura and Yonezawa, libconcurrent/concurrent/oyama.c. A thread
  pushes its own node on a list of announced requests; the thread that gets the lock takes the
  whole list and runs it, again and again. A step is one access to shared memory; accesses to a
  node that is not announced belong to the step before or after. The node of thread \<open>pid\<close> is
  \<open>pid\<close>. The state that \<^verbatim>\<open>sfunc(arg, pid)\<close> works on is \<open>obj\<close>.
\<close>

section \<open>State and steps\<close>

datatype ('x, 'r) slot = Arg 'x | Res 'r

datatype oy_pc =
    Y_out
  | Y_arg     \<comment> \<open>\<^verbatim>\<open>mynode->arg_ret = arg\<close>\<close>
  | Y_pid     \<comment> \<open>\<^verbatim>\<open>mynode->pid = pid\<close>\<close>
  | Y_compl   \<comment> \<open>\<^verbatim>\<open>mynode->completed = false\<close>\<close>
  | Y_next    \<comment> \<open>\<^verbatim>\<open>mynode->next = l->tail\<close>, lines 24 and 27\<close>
  | Y_cas     \<comment> \<open>\<^verbatim>\<open>synchCASPTR(&l->tail, mynode->next, mynode)\<close>\<close>
  | Y_lock    \<comment> \<open>\<^verbatim>\<open>l->lock == UNLOCKED\<close>\<close>
  | Y_lcas    \<comment> \<open>\<^verbatim>\<open>synchCAS32(&l->lock, UNLOCKED, LOCKED)\<close>\<close>
  | Y_swap    \<comment> \<open>\<^verbatim>\<open>counter < help_bound && (p = synchSWAP(&l->tail, NULL)) != NULL\<close>\<close>
  | Y_load    \<comment> \<open>\<^verbatim>\<open>counter++; tmp_next = p->next\<close>\<close>
  | Y_apply   \<comment> \<open>\<^verbatim>\<open>p->arg_ret = sfunc(p->arg_ret, p->pid)\<close>\<close>
  | Y_done    \<comment> \<open>\<^verbatim>\<open>p->completed = true; p = tmp_next\<close>\<close>
  | Y_unlock  \<comment> \<open>\<^verbatim>\<open>l->lock = UNLOCKED\<close>\<close>
  | Y_spin1   \<comment> \<open>\<^verbatim>\<open>while (mynode->completed == false\<close> \<dots>\<close>
  | Y_spin2   \<comment> \<open>\<dots> \<^verbatim>\<open>&& l->lock == LOCKED)\<close>\<close>
  | Y_check   \<comment> \<open>\<^verbatim>\<open>if (mynode->completed)\<close>\<close>
  | Y_ret     \<comment> \<open>\<^verbatim>\<open>return mynode->arg_ret\<close>, lines 53 and 59\<close>
  | Y_fault

record ('x, 'r) OyamaAnnounceNode =
  nxt :: "nat \<Rightarrow> ptr"
  arg_ret :: "nat \<Rightarrow> ('x, 'r) slot"
  npid :: "nat \<Rightarrow> tid"
  completed :: "nat \<Rightarrow> bool"

record ('x, 'r, 's) OyamaStruct = "('x, 'r) OyamaAnnounceNode" +
  lock :: nat
  tail :: ptr
  nthreads :: nat
  obj :: 's
  \<comment> \<open>per thread\<close>
  wp :: "tid \<Rightarrow> ptr"
  tmp_next :: "tid \<Rightarrow> ptr"
  counter :: "tid \<Rightarrow> nat"
  arg :: "tid \<Rightarrow> 'x"
  pc :: "tid \<Rightarrow> oy_pc"

definition LOCKED :: nat where "LOCKED = 1"
definition UNLOCKED :: nat where "UNLOCKED = 0"
definition OYAMA_HELP_FACTOR :: nat where "OYAMA_HELP_FACTOR = 10"

text \<open>\<^verbatim>\<open>OyamaThreadStateInit\<close> does nothing: the nodes hold whatever is in the memory \<open>m\<close>.\<close>

definition OyamaInit :: "nat \<Rightarrow> ('x, 'r) OyamaAnnounceNode \<Rightarrow> 'x \<Rightarrow> 's \<Rightarrow> ('x, 'r, 's) OyamaStruct" where
  "OyamaInit n m x0 s0 = \<lparr>nxt = nxt m, arg_ret = arg_ret m, npid = npid m, completed = completed m, lock = UNLOCKED,
     tail = None, nthreads = n, obj = s0, wp = (\<lambda>_. None), tmp_next = (\<lambda>_. None), counter = (\<lambda>_. 0), arg = (\<lambda>_. x0),
     pc = (\<lambda>_. Y_out)\<rparr>"

abbreviation goto :: "tid \<Rightarrow> oy_pc \<Rightarrow> ('x, 'r, 's) OyamaStruct \<Rightarrow> ('x, 'r, 's) OyamaStruct" where
  "goto p c l \<equiv> l\<lparr>pc := (pc l)(p := c)\<rparr>"

fun OyamaApplyOp :: "('x, 'r, 's) sfunc \<Rightarrow> tid \<Rightarrow> ('x, 'r, 's) OyamaStruct \<Rightarrow> ('x, 'r, 's) OyamaStruct" where
  "OyamaApplyOp sfunc pid l =
     (case pc l pid of
        Y_arg \<Rightarrow> goto pid Y_pid (l\<lparr>arg_ret := (arg_ret l)(pid := Arg (arg l pid))\<rparr>)
      | Y_pid \<Rightarrow> goto pid Y_compl (l\<lparr>npid := (npid l)(pid := pid)\<rparr>)
      | Y_compl \<Rightarrow> goto pid Y_next (l\<lparr>completed := (completed l)(pid := False)\<rparr>)
      | Y_next \<Rightarrow> goto pid Y_cas (l\<lparr>nxt := (nxt l)(pid := tail l)\<rparr>)
      | Y_cas \<Rightarrow> (if tail l = nxt l pid then goto pid Y_lock (l\<lparr>tail := Some pid\<rparr>) else goto pid Y_next l)
      | Y_lock \<Rightarrow> goto pid (if lock l = UNLOCKED then Y_lcas else Y_spin1) l
      | Y_lcas \<Rightarrow> (if lock l = UNLOCKED then goto pid Y_swap (l\<lparr>lock := LOCKED, counter := (counter l)(pid := 0)\<rparr>)
                  else goto pid Y_spin1 l)
      | Y_swap \<Rightarrow> (if counter l pid < OYAMA_HELP_FACTOR * nthreads l
                  then goto pid (if tail l = None then Y_unlock else Y_load) (l\<lparr>wp := (wp l)(pid := tail l), tail := None\<rparr>)
                  else goto pid Y_unlock l)
      | Y_load \<Rightarrow> (case wp l pid of None \<Rightarrow> goto pid Y_fault l
                  | Some q \<Rightarrow> goto pid Y_apply (l\<lparr>counter := (counter l)(pid := counter l pid + 1),
                                                tmp_next := (tmp_next l)(pid := nxt l q)\<rparr>))
      | Y_apply \<Rightarrow> (case wp l pid of None \<Rightarrow> goto pid Y_fault l
                   | Some q \<Rightarrow> (case arg_ret l q of
                        Res r \<Rightarrow> goto pid Y_fault l
                      | Arg x \<Rightarrow> (let (r, s) = sfunc (npid l q) x (obj l)
                                 in goto pid Y_done (l\<lparr>obj := s, arg_ret := (arg_ret l)(q := Res r)\<rparr>))))
      | Y_done \<Rightarrow> (case wp l pid of None \<Rightarrow> goto pid Y_fault l
                  | Some q \<Rightarrow> goto pid (if tmp_next l pid = None then Y_swap else Y_load)
                       (l\<lparr>completed := (completed l)(q := True), wp := (wp l)(pid := tmp_next l pid)\<rparr>))
      | Y_unlock \<Rightarrow> goto pid Y_ret (l\<lparr>lock := UNLOCKED\<rparr>)
      | Y_spin1 \<Rightarrow> goto pid (if completed l pid then Y_check else Y_spin2) l
      | Y_spin2 \<Rightarrow> goto pid (if lock l = LOCKED then Y_spin1 else Y_check) l
      | Y_check \<Rightarrow> goto pid (if completed l pid then Y_ret else Y_lock) l
      | Y_ret \<Rightarrow> (case arg_ret l pid of Arg x \<Rightarrow> goto pid Y_fault l | Res r \<Rightarrow> goto pid Y_out l)
      | Y_out \<Rightarrow> l | Y_fault \<Rightarrow> l)"

datatype 'x oy_act = Invoke tid 'x | Step tid

fun oy_ok :: "nat \<Rightarrow> ('x, 'r, 's) OyamaStruct \<Rightarrow> 'x oy_act \<Rightarrow> bool" where
  "oy_ok n l (Invoke p x) \<longleftrightarrow> p < n \<and> pc l p = Y_out"
| "oy_ok n l (Step p) \<longleftrightarrow> p < n \<and> pc l p \<notin> {Y_out, Y_fault}"

fun oy_exec :: "('x, 'r, 's) sfunc \<Rightarrow> 'x oy_act \<Rightarrow> ('x, 'r, 's) OyamaStruct \<Rightarrow> ('x, 'r, 's) OyamaStruct" where
  "oy_exec sfunc (Invoke p x) l = goto p Y_arg (l\<lparr>arg := (arg l)(p := x)\<rparr>)"
| "oy_exec sfunc (Step p) l = OyamaApplyOp sfunc p l"

fun oy_obs :: "'x oy_act \<Rightarrow> ('x, 'r, 's) OyamaStruct \<Rightarrow> ('x, 'r) event list" where
  "oy_obs (Invoke p x) l = [Call p x]"
| "oy_obs (Step p) l =
     (if pc l p = Y_ret then (case arg_ret l p of Res r \<Rightarrow> [Ret p r] | Arg x \<Rightarrow> []) else [])"

section \<open>Abstraction\<close>

fun slot_status :: "('x, 'r) slot \<Rightarrow> ('x, 'r) status" where
  "slot_status (Arg x) = Pend x" | "slot_status (Res r) = Done r"

definition oy_status :: "('x, 'r, 's) OyamaStruct \<Rightarrow> tid \<Rightarrow> ('x, 'r) status" where
  "oy_status l p = (if pc l p = Y_out then Idle else if pc l p = Y_arg then Pend (arg l p) else slot_status (arg_ret l p))"

definition oy_abs :: "('x, 'r, 's) OyamaStruct \<Rightarrow> ('x, 'r, 's) config" where
  "oy_abs l = (obj l, oy_status l)"

section \<open>Invariant\<close>

fun holding :: "oy_pc \<Rightarrow> bool" where
  "holding Y_swap = True" | "holding Y_load = True" | "holding Y_apply = True" | "holding Y_done = True"
| "holding Y_unlock = True" | "holding _ = False"

text \<open>What the node of a thread holds: its pc, whether the node is announced or taken, completed,
  its contents, the thread's argument, whether the \<^verbatim>\<open>pid\<close> field is right, and whether the combiner
  has written the result but not completed the node.\<close>

fun node_ok :: "oy_pc \<Rightarrow> bool \<Rightarrow> bool \<Rightarrow> ('x, 'r) slot \<Rightarrow> 'x \<Rightarrow> bool \<Rightarrow> bool \<Rightarrow> bool" where
  "node_ok Y_out a co v x np b \<longleftrightarrow> \<not> a \<and> \<not> b"
| "node_ok Y_arg a co v x np b \<longleftrightarrow> \<not> a \<and> \<not> b"
| "node_ok Y_pid a co v x np b \<longleftrightarrow> \<not> a \<and> \<not> b \<and> v = Arg x"
| "node_ok Y_compl a co v x np b \<longleftrightarrow> \<not> a \<and> \<not> b \<and> v = Arg x \<and> np"
| "node_ok Y_next a co v x np b \<longleftrightarrow> \<not> a \<and> \<not> b \<and> v = Arg x \<and> np \<and> \<not> co"
| "node_ok Y_cas a co v x np b \<longleftrightarrow> \<not> a \<and> \<not> b \<and> v = Arg x \<and> np \<and> \<not> co"
| "node_ok Y_ret a co v x np b \<longleftrightarrow> \<not> a \<and> \<not> b \<and> (\<exists>r. v = Res r)"
| "node_ok Y_fault a co v x np b \<longleftrightarrow> False"
| "node_ok s a co v x np b \<longleftrightarrow>
     (if a then \<not> co \<and> np \<and> (if b then \<exists>r. v = Res r else v = Arg x) else co \<and> \<not> b \<and> (\<exists>r. v = Res r))"

definition busy :: "tid option \<Rightarrow> ('x, 'r, 's) OyamaStruct \<Rightarrow> tid \<Rightarrow> bool" where
  "busy h l q \<longleftrightarrow> (\<exists>c. h = Some c \<and> pc l c = Y_done \<and> wp l c = Some q)"

text \<open>The combiner has taken the nodes \<open>T\<close>; its own request is among them or completed, except
  before it has taken anything.\<close>

fun holder_ok :: "oy_pc \<Rightarrow> nat list \<Rightarrow> ('x, 'r, 's) OyamaStruct \<Rightarrow> tid \<Rightarrow> bool" where
  "holder_ok Y_swap T l c \<longleftrightarrow> T = [] \<and> (completed l c \<or> counter l c = 0)"
| "holder_ok Y_load T l c \<longleftrightarrow> T \<noteq> [] \<and> path (nxt l) (wp l c) T \<and> (completed l c \<or> c \<in> set T)"
| "holder_ok Y_apply T l c \<longleftrightarrow> T \<noteq> [] \<and> path (nxt l) (wp l c) T \<and> (completed l c \<or> c \<in> set T) \<and> tmp_next l c = nxt l (hd T)"
| "holder_ok Y_done T l c \<longleftrightarrow> T \<noteq> [] \<and> path (nxt l) (wp l c) T \<and> (completed l c \<or> c \<in> set T) \<and> tmp_next l c = nxt l (hd T)"
| "holder_ok Y_unlock T l c \<longleftrightarrow> T = [] \<and> completed l c"
| "holder_ok _ T l c \<longleftrightarrow> False"

definition oy_inv_at :: "nat list \<Rightarrow> nat list \<Rightarrow> tid option \<Rightarrow> nat \<Rightarrow> ('x, 'r, 's) OyamaStruct \<Rightarrow> bool" where
  "oy_inv_at A T h n l \<longleftrightarrow> path (nxt l) (tail l) A \<and> distinct (A @ T) \<and> nthreads l = n
     \<and> lock l = (if h = None then UNLOCKED else LOCKED) \<and> (\<forall>p. holding (pc l p) \<longleftrightarrow> h = Some p)
     \<and> (\<forall>p. node_ok (pc l p) (p \<in> set (A @ T)) (completed l p) (arg_ret l p) (arg l p) (npid l p = p) (busy h l p))
     \<and> (\<forall>p \<ge> n. pc l p = Y_out) \<and> (h = None \<longrightarrow> T = [])
     \<and> (\<forall>c. h = Some c \<longrightarrow> holder_ok (pc l c) T l c)"

definition oy_inv :: "nat \<Rightarrow> ('x, 'r, 's) OyamaStruct \<Rightarrow> bool" where
  "oy_inv n l \<longleftrightarrow> (\<exists>A T h. oy_inv_at A T h n l)"

lemma oy_invD:
  assumes "oy_inv_at A T h n l"
  shows "path (nxt l) (tail l) A" "distinct (A @ T)" "nthreads l = n" "lock l = (if h = None then UNLOCKED else LOCKED)"
    "holding (pc l p) \<longleftrightarrow> h = Some p"
    "node_ok (pc l p) (p \<in> set (A @ T)) (completed l p) (arg_ret l p) (arg l p) (npid l p = p) (busy h l p)"
    "p \<ge> n \<Longrightarrow> pc l p = Y_out" "h = None \<Longrightarrow> T = []" "h = Some c \<Longrightarrow> holder_ok (pc l c) T l c"
  using assms unfolding oy_inv_at_def by blast+

lemma oy_invI:
  assumes "path (nxt l) (tail l) A" "distinct (A @ T)" "nthreads l = n" "lock l = (if h = None then UNLOCKED else LOCKED)"
    "\<And>p. holding (pc l p) \<longleftrightarrow> h = Some p"
    "\<And>p. node_ok (pc l p) (p \<in> set (A @ T)) (completed l p) (arg_ret l p) (arg l p) (npid l p = p) (busy h l p)"
    "\<And>p. p \<ge> n \<Longrightarrow> pc l p = Y_out" "h = None \<Longrightarrow> T = []" "\<And>c. h = Some c \<Longrightarrow> holder_ok (pc l c) T l c"
  shows "oy_inv_at A T h n l"
  using assms unfolding oy_inv_at_def by blast

lemma oy_live: "oy_inv_at A T h n l \<Longrightarrow> pc l p \<noteq> Y_out \<Longrightarrow> p < n"
  using oy_invD(7) [of A T h n l p] by (meson not_le)

lemma oy_busy_cong: "\<lbrakk>wp l' = wp l; \<And>c. pc l' c = Y_done \<longleftrightarrow> pc l c = Y_done\<rbrakk> \<Longrightarrow> busy h l' q = busy h l q"
  by (simp add: busy_def)

text \<open>A step of thread \<open>p\<close> that leaves the lists and the lock alone.\<close>

lemma oy_local:
  assumes inv: "oy_inv_at A T h n l" and p: "p < n"
    and same: "tail l' = tail l" "lock l' = lock l" "nthreads l' = nthreads l" "pc l' = (pc l)(p := c')"
      "\<And>q. q \<noteq> p \<Longrightarrow> nxt l' q = nxt l q \<and> arg_ret l' q = arg_ret l q \<and> npid l' q = npid l q \<and> completed l' q = completed l q
         \<and> arg l' q = arg l q \<and> wp l' q = wp l q \<and> tmp_next l' q = tmp_next l q \<and> counter l' q = counter l q"
      "p \<in> set (A @ T) \<Longrightarrow> nxt l' p = nxt l p"
    and c': "holding c' = holding (pc l p)" "pc l p \<noteq> Y_done" "c' \<noteq> Y_done"
    and ok: "node_ok c' (p \<in> set (A @ T)) (completed l' p) (arg_ret l' p) (arg l' p) (npid l' p = p) (busy h l p)"
    and hold: "h = Some p \<Longrightarrow> holder_ok c' T l' p"
  shows "oy_inv_at A T h n l'"
proof -
  note i = oy_invD [OF inv]
  have busy: "busy h l' q = busy h l q" for q
    using same(4,5) c'(2,3) unfolding busy_def by (metis fun_upd_other fun_upd_same)
  have nx: "nxt l' x = nxt l x" if "x \<in> set (A @ T)" for x using same(5) [of x] same(6) that by (cases "x = p") auto
  have pA: "path (nxt l') y A = path (nxt l) y A" and pT: "path (nxt l') y T = path (nxt l) y T" for y
    by (rule path_cong; use nx in simp)+
  show ?thesis
  proof (rule oy_invI)
    show "path (nxt l') (tail l') A" using i(1) pA same(1) by simp
    show "holding (pc l' q) \<longleftrightarrow> h = Some q" for q using i(5) [of q] i(5) [of p] same(4) c'(1) by simp
    show "node_ok (pc l' q) (q \<in> set (A @ T)) (completed l' q) (arg_ret l' q) (arg l' q) (npid l' q = q) (busy h l' q)" for q
      using i(6) [of q] ok same(4) same(5) [of q] busy by (cases "q = p") simp_all
    show "pc l' q = Y_out" if "q \<ge> n" for q using i(7) [OF that] p that same(4) by simp
    show "holder_ok (pc l' c) T l' c" if c: "h = Some c" for c
    proof (cases "c = p")
      case True
      then show ?thesis using hold c same(4) by simp
    next
      case False
      note s = same(5) [OF False]
      have hdT: "T \<noteq> [] \<Longrightarrow> nxt l' (hd T) = nxt l (hd T)" by (rule nx) simp
      have "holder_ok (pc l c) T l' c" using i(9) [OF c] s pT hdT by (cases "pc l c") simp_all
      then show ?thesis using False same(4) by simp
    qed
  qed (use i same in simp_all)
qed

lemma oy_invoke:
  assumes inv: "oy_inv_at A T h n l" and p: "p < n" "pc l p = Y_out"
  shows "oy_inv_at A T h n (goto p Y_arg (l\<lparr>arg := (arg l)(p := x)\<rparr>))"
  by (rule oy_local [OF inv p(1)]) (use p oy_invD(5,6) [OF inv, of p] in auto)

lemma oy_outside:
  assumes inv: "oy_inv_at A T h n l" and pcl: "pc l p \<in> {Y_arg, Y_pid, Y_compl, Y_next, Y_lock, Y_spin1, Y_spin2, Y_check, Y_ret}
      \<or> pc l p = Y_cas \<and> tail l \<noteq> nxt l p \<or> pc l p = Y_lcas \<and> lock l \<noteq> UNLOCKED"
  shows "oy_inv_at A T h n (OyamaApplyOp f p l)"
proof -
  have p: "p < n" using oy_live [OF inv, of p] pcl by auto
  note i = oy_invD(5,6) [OF inv, of p]
  define k where "k = OyamaApplyOp f p l"
  have "oy_inv_at A T h n k"
    using pcl
    by (elim disjE insertE emptyE exE conjE)
      (rule oy_local [OF inv p, where c' = "pc k p"]; use i in \<open>auto simp: k_def split: if_splits slot.splits\<close>)+
  then show ?thesis by (simp only: k_def)
qed

lemma path_None: "path n None xs \<longleftrightarrow> xs = []"
  by (cases xs) simp_all

lemma path_SomeE: "path n h xs \<Longrightarrow> xs \<noteq> [] \<Longrightarrow> h = Some (hd xs) \<and> path n (n (hd xs)) (tl xs)"
  by (cases xs) simp_all

text \<open>The combiner looks for more work, and at the next node.\<close>

lemma oy_inside:
  assumes inv: "oy_inv_at A T h n l" and pcl: "pc l p = Y_load \<or> pc l p = Y_swap \<and>
      (tail l = None \<or> \<not> counter l p < OYAMA_HELP_FACTOR * nthreads l)"
  shows "oy_inv_at A T h n (OyamaApplyOp f p l)"
proof -
  note i = oy_invD [OF inv]
  have p: "p < n" using oy_live [OF inv, of p] pcl by auto
  have hp: "h = Some p" using i(5) [of p] pcl by auto
  have hold: "holder_ok (pc l p) T l p" by (rule i(9) [OF hp])
  have ok: "node_ok (pc l p) (p \<in> set (A @ T)) (completed l p) (arg_ret l p) (arg l p) (npid l p = p) (busy h l p)" by (rule i(6))
  show ?thesis
  proof (cases "pc l p = Y_load")
    case True
    with hold have T: "T \<noteq> []" "path (nxt l) (wp l p) T" "completed l p \<or> p \<in> set T" by simp_all
    with path_SomeE [OF T(2,1)] have q: "wp l p = Some (hd T)" by simp
    show ?thesis using True q T ok by (intro oy_local [OF inv p, where c' = Y_apply]) simp_all
  next
    case False
    with pcl have s: "pc l p = Y_swap" and e: "tail l = None \<or> \<not> counter l p < OYAMA_HELP_FACTOR * nthreads l" by auto
    have "completed l p"
    proof (rule ccontr)
      assume nc: "\<not> completed l p"
      with hold s have "T = []" "counter l p = 0" by auto
      moreover have "p \<in> set A" using ok s nc \<open>T = []\<close> by (auto split: if_splits)
      ultimately show False using e i(1,3) p path_None [of "nxt l" A] by (auto simp: OYAMA_HELP_FACTOR_def)
    qed
    then show ?thesis using s e hold ok by (intro oy_local [OF inv p, where c' = Y_unlock]) auto
  qed
qed

section \<open>Steps on shared data\<close>

lemma oy_push:
  assumes inv: "oy_inv_at A T h n l" and pcl: "pc l p = Y_cas" "tail l = nxt l p"
  shows "oy_inv_at (p # A) T h n (OyamaApplyOp f p l)"
proof -
  note i = oy_invD [OF inv]
  have p: "p < n" using oy_live [OF inv, of p] pcl by auto
  have ok: "node_ok (pc l p) (p \<in> set (A @ T)) (completed l p) (arg_ret l p) (arg l p) (npid l p = p) (busy h l p)" by (rule i(6))
  have nA: "p \<notin> set (A @ T)" using ok pcl by simp
  define k where "k = goto p Y_lock (l\<lparr>tail := Some p\<rparr>)"
  have eq: "OyamaApplyOp f p l = k" using pcl by (simp add: k_def)
  have busy: "busy h k q = busy h l q" for q using pcl(1) by (intro oy_busy_cong) (auto simp: k_def)
  have "oy_inv_at (p # A) T h n k"
  proof (rule oy_invI)
    show "path (nxt k) (tail k) (p # A)" "distinct ((p # A) @ T)" using i(1,2) pcl(2) nA by (simp_all add: k_def)
    show "holding (pc k q) \<longleftrightarrow> h = Some q" for q using i(5) [of q] pcl(1) by (cases "q = p") (auto simp: k_def)
    show "node_ok (pc k q) (q \<in> set ((p # A) @ T)) (completed k q) (arg_ret k q) (arg k q) (npid k q = q) (busy h k q)" for q
      using i(6) [of q] busy [of q] pcl(1) by (cases "q = p") (simp_all add: k_def)
    show "holder_ok (pc k c) T k c" if c: "h = Some c" for c
    proof -
      have "c \<noteq> p" using i(5) [of p] c pcl(1) by auto
      then show ?thesis using i(9) [OF c] by (cases "pc l c") (simp_all add: k_def)
    qed
  qed (use i pcl p in \<open>auto simp: k_def\<close>)
  then show ?thesis using eq by simp
qed

lemma oy_lock:
  assumes inv: "oy_inv_at A T h n l" and pcl: "pc l p = Y_lcas" "lock l = UNLOCKED"
  shows "oy_inv_at A T (Some p) n (OyamaApplyOp f p l)"
proof -
  note i = oy_invD [OF inv]
  have p: "p < n" using oy_live [OF inv, of p] pcl by auto
  have h: "h = None" using i(4) pcl(2) by (simp add: LOCKED_def UNLOCKED_def split: if_splits)
  have T: "T = []" by (rule i(8) [OF h])
  define k where "k = goto p Y_swap (l\<lparr>lock := LOCKED, counter := (counter l)(p := 0)\<rparr>)"
  have eq: "OyamaApplyOp f p l = k" using pcl by (simp add: k_def)
  have "oy_inv_at A T (Some p) n k"
  proof (rule oy_invI)
    show "holding (pc k q) \<longleftrightarrow> Some p = Some q" for q using i(5) [of q] h by (cases "q = p") (auto simp: k_def)
    show "node_ok (pc k q) (q \<in> set (A @ T)) (completed k q) (arg_ret k q) (arg k q) (npid k q = q) (busy (Some p) k q)" for q
      using i(6) [of q] h pcl(1) by (cases "q = p") (simp_all add: k_def busy_def)
  qed (use i T p in \<open>simp_all add: k_def\<close>)
  then show ?thesis using eq by simp
qed

lemma oy_unlock:
  assumes inv: "oy_inv_at A T h n l" and pcl: "pc l p = Y_unlock"
  shows "oy_inv_at A T None n (OyamaApplyOp f p l)"
proof -
  note i = oy_invD [OF inv]
  have p: "p < n" using oy_live [OF inv, of p] pcl by auto
  have hp: "h = Some p" using i(5) [of p] pcl by auto
  have T: "T = []" "completed l p" using i(9) [OF hp] pcl by simp_all
  have nb: "\<not> busy h l q" for q using pcl hp by (simp add: busy_def)
  define k where "k = goto p Y_ret (l\<lparr>lock := UNLOCKED\<rparr>)"
  have eq: "OyamaApplyOp f p l = k" using pcl by (simp add: k_def)
  have "oy_inv_at A T None n k"
  proof (rule oy_invI)
    show "holding (pc k q) \<longleftrightarrow> None = Some q" for q using i(5) [of q] hp by (cases "q = p") (auto simp: k_def)
    show "node_ok (pc k q) (q \<in> set (A @ T)) (completed k q) (arg_ret k q) (arg k q) (npid k q = q) (busy None k q)" for q
    proof -
      have "node_ok (pc l q) (q \<in> set (A @ T)) (completed l q) (arg_ret l q) (arg l q) (npid l q = q) False"
        using i(6) [of q] nb [of q] by simp
      then show ?thesis using pcl T(2) by (cases "q = p") (auto simp: k_def busy_def split: if_splits)
    qed
  qed (use i T p in \<open>simp_all add: k_def\<close>)
  then show ?thesis using eq by simp
qed

text \<open>The combiner takes all announced nodes.\<close>

lemma oy_take:
  assumes inv: "oy_inv_at A T h n l" and pcl: "pc l p = Y_swap" "tail l \<noteq> None" "counter l p < OYAMA_HELP_FACTOR * nthreads l"
  shows "oy_inv_at [] A h n (OyamaApplyOp f p l)"
proof -
  note i = oy_invD [OF inv]
  have p: "p < n" using oy_live [OF inv, of p] pcl by auto
  have hp: "h = Some p" using i(5) [of p] pcl by auto
  have T: "T = []" using i(9) [OF hp] pcl by simp
  define k where "k = goto p Y_load (l\<lparr>wp := (wp l)(p := tail l), tail := None\<rparr>)"
  have eq: "OyamaApplyOp f p l = k" using pcl by (auto simp: k_def)
  have nb: "\<not> busy h l q" "\<not> busy h k q" for q using pcl hp by (simp_all add: busy_def k_def)
  have "A \<noteq> []" using i(1) pcl(2) by auto
  have "completed l p \<or> p \<in> set A" using i(6) [of p] pcl(1) T by (auto split: if_splits)
  have "oy_inv_at [] A h n k"
  proof (rule oy_invI)
    show "holding (pc k q) \<longleftrightarrow> h = Some q" for q using i(5) [of q] hp by (cases "q = p") (auto simp: k_def)
    show "node_ok (pc k q) (q \<in> set ([] @ A)) (completed k q) (arg_ret k q) (arg k q) (npid k q = q) (busy h k q)" for q
      using i(6) [of q] nb [of q] T pcl(1) by (cases "q = p") (simp_all add: k_def)
    show "holder_ok (pc k c) A k c" if "h = Some c" for c
      using that hp i(1) \<open>A \<noteq> []\<close> \<open>completed l p \<or> _\<close> by (simp add: k_def)
  qed (use i T p hp in \<open>auto simp: k_def\<close>)
  then show ?thesis using eq by simp
qed

text \<open>A node that is announced or taken is that of a waiting thread, with its argument and name.\<close>

lemma waiting_node:
  assumes "node_ok s True co v x np b"
  shows "\<not> co" "np" "\<not> b \<Longrightarrow> v = Arg x" "\<not> b \<Longrightarrow> node_ok s True co (Res r) x np True"
    "b \<Longrightarrow> node_ok s False True v x np False" "s \<noteq> Y_out" "s \<noteq> Y_arg"
  using assms by (cases s; auto)+

lemma oy_apply:
  assumes inv: "oy_inv_at A T h n l" and pcl: "pc l p = Y_apply"
  obtains q where "wp l p = Some q" "arg_ret l q = Arg (arg l q)" "npid l q = q" "pc l q \<noteq> Y_out" "pc l q \<noteq> Y_arg"
    "oy_inv_at A T h n (OyamaApplyOp f p l)"
proof -
  note i = oy_invD [OF inv]
  have p: "p < n" using oy_live [OF inv, of p] pcl by auto
  have hp: "h = Some p" using i(5) [of p] pcl by auto
  have hold: "holder_ok Y_apply T l p" using i(9) [OF hp] pcl by simp
  then have q: "wp l p = Some (hd T)" "hd T \<in> set (A @ T)" using path_SomeE [of "nxt l" "wp l p" T] by auto
  define q where "q = hd T"
  have nb: "\<not> busy h l x" for x using pcl hp by (simp add: busy_def)
  have "node_ok (pc l q) True (completed l q) (arg_ret l q) (arg l q) (npid l q = q) (busy h l q)"
    using i(6) [of q] q(2) by (simp add: q_def)
  note w = waiting_node [OF this]
  have v: "arg_ret l q = Arg (arg l q)" "npid l q = q" using w(2,3) nb by simp_all
  define r where "r = f q (arg l q) (obj l)"
  define k where "k = goto p Y_done (l\<lparr>obj := snd r, arg_ret := (arg_ret l)(q := Res (fst r))\<rparr>)"
  have eq: "OyamaApplyOp f p l = k" using pcl q(1) v by (simp add: k_def r_def split_beta flip: q_def)
  have b: "busy h k x \<longleftrightarrow> x = q" for x using q(1) hp by (auto simp: busy_def k_def q_def)
  have "oy_inv_at A T h n k"
  proof (rule oy_invI)
    show "holding (pc k x) \<longleftrightarrow> h = Some x" for x using i(5) [of x] hp by (cases "x = p") (auto simp: k_def)
    show "node_ok (pc k x) (x \<in> set (A @ T)) (completed k x) (arg_ret k x) (arg k x) (npid k x = x) (busy h k x)" for x
    proof (cases "x = q")
      case True
      have "node_ok (pc l q) True (completed l q) (Res (fst r)) (arg l q) (npid l q = q) True" by (rule w(4) [OF nb])
      then show ?thesis using True b q(2) pcl by (cases "q = p") (simp_all add: k_def q_def)
    next
      case False
      then show ?thesis using i(6) [of x] nb [of x] b pcl by (cases "x = p") (simp_all add: k_def)
    qed
    show "holder_ok (pc k c) T k c" if "h = Some c" for c using that hp hold by (simp add: k_def)
  qed (use i p hp in \<open>auto simp: k_def\<close>)
  then show thesis using that [OF _ v w(6,7)] q(1) eq by (simp add: q_def)
qed

lemma oy_done:
  assumes inv: "oy_inv_at A T h n l" and pcl: "pc l p = Y_done"
  shows "oy_inv_at A (tl T) h n (OyamaApplyOp f p l)"
proof -
  note i = oy_invD [OF inv]
  have p: "p < n" using oy_live [OF inv, of p] pcl by auto
  have hp: "h = Some p" using i(5) [of p] pcl by auto
  have hold: "holder_ok Y_done T l p" using i(9) [OF hp] pcl by simp
  then obtain q ys where T: "T = q # ys" and q: "wp l p = Some q" "path (nxt l) (nxt l q) ys" "tmp_next l p = nxt l q"
    "completed l p \<or> p \<in> set T" by (cases T) auto
  have b: "busy h l x \<longleftrightarrow> x = q" for x using q(1) hp pcl by (auto simp: busy_def)
  have "node_ok (pc l q) True (completed l q) (arg_ret l q) (arg l q) (npid l q = q) True" using i(6) [of q] T b by simp
  note w = waiting_node(5) [OF this TrueI]
  define k where "k = goto p (if tmp_next l p = None then Y_swap else Y_load)
      (l\<lparr>completed := (completed l)(q := True), wp := (wp l)(p := tmp_next l p)\<rparr>)"
  have eq: "OyamaApplyOp f p l = k" using pcl q(1) by (simp add: k_def)
  have nb: "\<not> busy h k x" for x using hp by (simp add: busy_def k_def)
  have e: "tmp_next l p = None \<longleftrightarrow> ys = []" using q(2,3) by (cases ys) auto
  have "oy_inv_at A ys h n k"
  proof (rule oy_invI)
    show "distinct (A @ ys)" using i(2) T by simp
    show "holding (pc k x) \<longleftrightarrow> h = Some x" for x using i(5) [of x] hp by (cases "x = p") (auto simp: k_def)
    show "node_ok (pc k x) (x \<in> set (A @ ys)) (completed k x) (arg_ret k x) (arg k x) (npid k x = x) (busy h k x)" for x
    proof (cases "x = q")
      case True
      have "q \<notin> set (A @ ys)" using i(2) T by auto
      then show ?thesis using True w nb [of q] pcl by (cases "q = p") (simp_all add: k_def)
    next
      case False
      then have "x \<in> set (A @ ys) \<longleftrightarrow> x \<in> set (A @ T)" using T by simp
      then show ?thesis using False i(6) [of x] b nb [of x] pcl by (cases "x = p") (simp_all add: k_def)
    qed
    show "holder_ok (pc k c) ys k c" if "h = Some c" for c
      using that hp q T e by (auto simp: k_def)
  qed (use i p hp in \<open>auto simp: k_def\<close>)
  then show ?thesis using eq T by simp
qed

lemma oy_inv_step:
  assumes "oy_inv n l" and pcl: "pc l p \<noteq> Y_out" "pc l p \<noteq> Y_fault"
  shows "oy_inv n (OyamaApplyOp f p l)"
proof -
  from assms(1) obtain A T h where inv: "oy_inv_at A T h n l" unfolding oy_inv_def by blast
  let ?k = "OyamaApplyOp f p l"
  have ex: "oy_inv_at A' T' h' n ?k \<Longrightarrow> oy_inv n ?k" for A' T' h' unfolding oy_inv_def by blast
  note out = ex [OF oy_outside [OF inv, of p f]] and ins = ex [OF oy_inside [OF inv, of p f]]
  show ?thesis
  proof (cases "pc l p")
    case Y_cas
    then show ?thesis using out ex [OF oy_push [OF inv Y_cas]] by blast
  next
    case Y_lcas
    then show ?thesis using out ex [OF oy_lock [OF inv Y_lcas]] by blast
  next
    case Y_swap
    then show ?thesis using ins ex [OF oy_take [OF inv Y_swap]] by blast
  next
    case Y_apply
    then show ?thesis using oy_apply [OF inv Y_apply] ex by blast
  next
    case Y_done
    then show ?thesis using ex [OF oy_done [OF inv Y_done]] by blast
  next
    case Y_unlock
    then show ?thesis using ex [OF oy_unlock [OF inv Y_unlock]] by blast
  qed (use pcl out ins in \<open>simp_all del: OyamaApplyOp.simps\<close>)
qed

lemma oy_inv_exec:
  assumes "oy_inv n l" and "oy_ok n l a"
  shows "oy_inv n (oy_exec f a l)"
proof (cases a)
  case (Invoke p x)
  from assms(1) obtain A T h where "oy_inv_at A T h n l" unfolding oy_inv_def by blast
  from oy_invoke [OF this, of p x] assms(2) Invoke show ?thesis unfolding oy_inv_def by auto
next
  case (Step p)
  with oy_inv_step [OF assms(1)] assms(2) show ?thesis by (simp del: OyamaApplyOp.simps)
qed

lemma oy_inv_init: "oy_inv n (OyamaInit n m x0 s0)"
proof -
  have "oy_inv_at [] [] None n (OyamaInit n m x0 s0)"
    by (rule oy_invI) (simp_all add: OyamaInit_def busy_def)
  then show ?thesis unfolding oy_inv_def by blast
qed

section \<open>Simulation\<close>

lemma oy_status_eq:
  assumes "\<And>q. q \<noteq> p \<Longrightarrow> pc l' q = pc l q \<and> arg l' q = arg l q \<and> arg_ret l' q = arg_ret l q"
    and "oy_status l' p = v"
  shows "oy_status l' = (oy_status l)(p := v)"
  using assms by (auto simp: oy_status_def fun_eq_iff)

lemma oy_quiet:
  assumes pcl: "pc l p \<notin> {Y_out, Y_fault, Y_apply, Y_ret}"
  shows "oy_abs (OyamaApplyOp f p l) = oy_abs l"
proof -
  let ?k = "OyamaApplyOp f p l"
  have "oy_status ?k = (oy_status l)(p := oy_status l p)"
  proof (rule oy_status_eq)
    show "pc ?k q = pc l q \<and> arg ?k q = arg l q \<and> arg_ret ?k q = arg_ret l q" if q: "q \<noteq> p" for q
      using pcl q by (cases "pc l p") (auto split: option.split)
    show "oy_status ?k p = oy_status l p"
      using pcl by (cases "pc l p") (auto simp: oy_status_def split: option.split)
  qed
  moreover have "obj ?k = obj l" using pcl by (cases "pc l p") (auto split: option.split)
  ultimately show ?thesis by (simp add: oy_abs_def)
qed

lemma oy_abs_apply:
  assumes inv: "oy_inv_at A T h n l" and pcl: "pc l p = Y_apply"
  shows "asteps f (oy_abs l) [] (oy_abs (OyamaApplyOp f p l))"
proof -
  from oy_apply [OF inv pcl, of f] obtain q where q: "wp l p = Some q" "arg_ret l q = Arg (arg l q)" "npid l q = q"
    "pc l q \<noteq> Y_out" "pc l q \<noteq> Y_arg" by metis
  define r where "r = f q (arg l q) (obj l)"
  define k where "k = goto p Y_done (l\<lparr>obj := snd r, arg_ret := (arg_ret l)(q := Res (fst r))\<rparr>)"
  have eq: "OyamaApplyOp f p l = k" using pcl q by (simp add: k_def r_def split_beta)
  have "oy_status k x = ((oy_status l)(q := Done (fst r))) x" for x
    using q pcl by (cases "x = p"; cases "x = q") (auto simp: oy_status_def k_def)
  then have st: "oy_status k = (oy_status l)(q := Done (fst r))" by (rule ext)
  have "obj k = snd r" "oy_status l q = Pend (arg l q)" using q by (simp_all add: k_def oy_status_def)
  then show ?thesis unfolding eq oy_abs_def
    by (intro step_lin [of _ q "arg l q"]) (simp_all only: fst_conv snd_conv st r_def)
qed

lemma oy_ret_value:
  assumes "oy_inv_at A T h n l" and "pc l p = Y_ret"
  obtains r where "arg_ret l p = Res r"
  using oy_invD(6) [OF assms(1), of p] assms(2) by auto

lemma oy_abs_exec:
  assumes "oy_inv n l" and "oy_ok n l a"
  shows "asteps f (oy_abs l) (oy_obs a l) (oy_abs (oy_exec f a l))"
proof (cases a)
  case (Invoke p x)
  then have p: "pc l p = Y_out" using assms(2) by simp
  have "oy_status (oy_exec f (Invoke p x) l) = (oy_status l)(p := Pend x)"
    by (rule oy_status_eq) (simp_all add: oy_status_def)
  then show ?thesis using Invoke p
    by (intro step_call [of _ p _ x]) (simp_all add: oy_abs_def oy_status_def)
next
  case (Step p)
  from assms(1) obtain A T h where inv: "oy_inv_at A T h n l" unfolding oy_inv_def by blast
  consider "pc l p = Y_apply" | "pc l p = Y_ret" | "pc l p \<notin> {Y_out, Y_fault, Y_apply, Y_ret}"
    using assms(2) Step by auto
  then show ?thesis
  proof cases
    case 1
    with oy_abs_apply [OF inv 1, of f] Step show ?thesis by (simp del: OyamaApplyOp.simps)
  next
    case 2
    from oy_ret_value [OF inv 2] obtain r where r: "arg_ret l p = Res r" .
    have eq: "OyamaApplyOp f p l = goto p Y_out l" using 2 r by simp
    have "oy_status (goto p Y_out l) = (oy_status l)(p := Idle)" by (rule oy_status_eq) (simp_all add: oy_status_def)
    moreover have "oy_status l p = Done r" using 2 r by (simp add: oy_status_def)
    ultimately show ?thesis unfolding Step oy_exec.simps eq using 2 r
      by (intro step_ret [of _ p r]) (simp_all add: oy_abs_def)
  next
    case 3
    with oy_quiet [OF 3, of f] Step show ?thesis by (intro step_skip) (simp_all del: OyamaApplyOp.simps)
  qed
qed

interpretation oy: linearization "OyamaInit n m x0 s0" "oy_ok n" "oy_exec f" oy_obs f s0 "oy_inv n" oy_abs
  for n m x0 s0 f
proof
  show "oy_inv n (OyamaInit n m x0 s0)" by (rule oy_inv_init)
  show "oy_abs (OyamaInit n m x0 s0) = aconf0 s0"
    by (simp add: oy_abs_def aconf0_def OyamaInit_def oy_status_def fun_eq_iff)
qed (fact oy_inv_exec, fact oy_abs_exec)

section \<open>Properties\<close>

text \<open>C11. Oyama's algorithm is linearizable, whatever the memory of the nodes holds at the start and
  although a combiner takes requests from the announced list in the reverse of their order.\<close>

theorem oyama_linearizable:
  assumes "traces (OyamaInit n m x0 s0) (oy_ok n) (oy_exec f) oy_obs l h"
  shows "linearizable f s0 h"
  using assms by (rule oy.linearizable_traces)

lemma oy_exclusive:
  assumes "reach (OyamaInit n m x0 s0) (act_step (oy_ok n) (oy_exec f)) l" "holding (pc l p) \<and> holding (pc l q)"
  shows "p = q"
proof -
  from oy.reach_inv [OF assms(1)] obtain A T h where inv: "oy_inv_at A T h n l" unfolding oy_inv_def by blast
  show ?thesis using oy_invD(5) [OF inv, of p] oy_invD(5) [OF inv, of q] assms(2) by simp
qed

section \<open>The properties at work\<close>

text \<open>Two threads announce their requests; thread 1, the last, combines and runs its own first.\<close>

definition oy_memory :: "(nat, nat) OyamaAnnounceNode" where
  "oy_memory = \<lparr>nxt = (\<lambda>_. Some 3), arg_ret = (\<lambda>_. Res 0), npid = (\<lambda>_. 9), completed = (\<lambda>_. True)\<rparr>"

definition oy_demo :: "nat oy_act list" where
  "oy_demo = Invoke 0 5 # replicate 5 (Step 0) @ Invoke 1 7 # replicate 17 (Step 1) @ replicate 2 (Step 0)"

definition oy_add :: "tid \<Rightarrow> nat \<Rightarrow> nat \<Rightarrow> nat \<times> nat" where
  "oy_add p x s = (s, s + x)"

theorem oyama_linearizable_witness:
  "linearizable oy_add 100 [Call 0 5, Call 1 7, Ret 1 100]"
proof -
  obtain l where "run_trace (oy_ok 2) (oy_exec oy_add) oy_obs oy_demo (OyamaInit 2 oy_memory 0 100)
      = Some (l, [Call 0 5, Call 1 7, Ret 1 100])"
    by (simp add: oy_demo_def oy_memory_def OyamaInit_def OYAMA_HELP_FACTOR_def LOCKED_def UNLOCKED_def oy_add_def replicate_num)
  from oyama_linearizable [OF run_trace_traces [OF this]] show ?thesis .
qed

end
