(* ===== verification/HSynch.thy ===== *)
theory HSynch
  imports Threads ClhLock CcSynch "HOL-Library.Signed_Division"
begin

text \<open>
  The H-Synch combining object of libconcurrent/concurrent/hsynch.c: one CC-Synch queue per NUMA
  node and a CLH lock that the combiners of different NUMA nodes take before they touch the
  object. The fields that start with \<open>h_\<close> are indexed by the NUMA node \<open>g\<close> and then, for nodes of
  the queue, by the index in the pool \<^verbatim>\<open>l->nodes[g]\<close>; the last node of a pool,
  \<^verbatim>\<open>numa_node_size + 1\<close>, is the one on \<^verbatim>\<open>Tail[g]\<close> at the start. A step is one access to
  shared memory. Unlike CC-Synch, the call of \<^verbatim>\<open>sfunc\<close> is two steps here, one that reads the
  object and one that writes it back, so that only the lock keeps two combiners apart.
  Machine, thread placement and \<^verbatim>\<open>libnuma\<close> are those of Threads; a thread runs on its own
  posix thread (\<^verbatim>\<open>node_of_thread\<close> is \<^verbatim>\<open>__thread\<close>, it is not per fiber).
\<close>

section \<open>State\<close>

datatype h_pc =
    H_out
  | H_next      \<comment> \<open>\<^verbatim>\<open>next_node->next = NULL\<close>\<close>
  | H_lock      \<comment> \<open>\<^verbatim>\<open>next_node->locked = true\<close>\<close>
  | H_compl     \<comment> \<open>\<^verbatim>\<open>next_node->completed = false\<close>\<close>
  | H_swap      \<comment> \<open>\<^verbatim>\<open>cur = SWAP(&l->Tail[node_of_thread], next_node)\<close>\<close>
  | H_arg       \<comment> \<open>\<^verbatim>\<open>cur->arg_ret = arg\<close>\<close>
  | H_pid       \<comment> \<open>\<^verbatim>\<open>cur->pid = pid\<close>\<close>
  | H_link      \<comment> \<open>\<^verbatim>\<open>cur->next = next_node; st_thread->next_node = cur\<close>\<close>
  | H_spin      \<comment> \<open>\<^verbatim>\<open>while (cur->locked)\<close>\<close>
  | H_check     \<comment> \<open>\<^verbatim>\<open>p = cur; if (cur->completed)\<close>\<close>
  | H_helped    \<comment> \<open>\<^verbatim>\<open>return cur->arg_ret\<close>, line 39\<close>
  | H_locking   \<comment> \<open>inside \<^verbatim>\<open>CLHLock\<close>\<close>
  | H_loop      \<comment> \<open>\<^verbatim>\<open>while (counter < help_bound && p->next != NULL)\<close>\<close>
  | H_tmp       \<comment> \<open>\<^verbatim>\<open>tmp_next = p->next\<close>\<close>
  | H_load      \<comment> \<open>\<^verbatim>\<open>sfunc\<close> reads the object\<close>
  | H_apply     \<comment> \<open>\<^verbatim>\<open>sfunc\<close> writes the object, \<^verbatim>\<open>p->arg_ret\<close> its result\<close>
  | H_done      \<comment> \<open>\<^verbatim>\<open>p->completed = true\<close>\<close>
  | H_unlock    \<comment> \<open>\<^verbatim>\<open>p->locked = false; p = tmp_next\<close>\<close>
  | H_end       \<comment> \<open>\<^verbatim>\<open>p->locked = false\<close>, line 65\<close>
  | H_unlocking \<comment> \<open>inside \<^verbatim>\<open>CLHUnlock\<close>\<close>
  | H_return    \<comment> \<open>\<^verbatim>\<open>return cur->arg_ret\<close>, line 68\<close>
  | H_fault

record ('x, 'r) HSynchNode =
  h_next :: "nat \<Rightarrow> nat \<Rightarrow> ptr"
  h_arg_ret :: "nat \<Rightarrow> nat \<Rightarrow> ('x, 'r) slot"
  h_npid :: "nat \<Rightarrow> nat \<Rightarrow> tid"
  h_locked :: "nat \<Rightarrow> nat \<Rightarrow> bool"
  h_completed :: "nat \<Rightarrow> nat \<Rightarrow> bool"

record ('x, 'r, 's) HSynchStruct = "('x, 'r) HSynchNode" +
  h_nthreads :: u32
  numa_node_size :: u32
  numa_nodes :: u32
  numa_policy :: bool
  h_nodes :: "nat \<Rightarrow> bool"           \<comment> \<open>which pools are allocated\<close>
  node_indexes :: "nat \<Rightarrow> nat"
  h_tail :: "nat \<Rightarrow> ptr"
  central_lock :: CLHLockStruct
  h_obj :: 's
  \<comment> \<open>per thread: \<^verbatim>\<open>node_of_thread\<close>, \<^verbatim>\<open>st_thread->next_node\<close> and the local variables\<close>
  node_of_thread :: "tid \<Rightarrow> nat"
  h_mynext :: "tid \<Rightarrow> nat"
  h_next_node :: "tid \<Rightarrow> nat"
  h_cur :: "tid \<Rightarrow> nat"
  h_p :: "tid \<Rightarrow> nat"
  h_tmp_next :: "tid \<Rightarrow> nat"
  h_counter :: "tid \<Rightarrow> nat"
  h_arg :: "tid \<Rightarrow> 'x"
  h_local :: "tid \<Rightarrow> 's"             \<comment> \<open>what \<^verbatim>\<open>sfunc\<close> has read\<close>
  h_pc :: "tid \<Rightarrow> h_pc"
  h_arr :: "nat \<Rightarrow> tid list"         \<comment> \<open>auxiliary, as in CC-Synch\<close>

definition HSYNCH_HELP_FACTOR :: nat where "HSYNCH_HELP_FACTOR = 10"
definition HSYNCH_DEFAULT_NUMA_NODE_SIZE :: u32 where "HSYNCH_DEFAULT_NUMA_NODE_SIZE = 8"
definition HSYNCH_DEFAULT_NUMA_POLICY :: u32 where "HSYNCH_DEFAULT_NUMA_POLICY = 0"

section \<open>Initialisation\<close>

text \<open>Policy, size of a NUMA node and number of NUMA nodes, \<open>None\<close> for a division by zero.\<close>

definition hsynch_topology :: "machine \<Rightarrow> threads \<Rightarrow> u32 \<Rightarrow> u32 \<Rightarrow> (bool \<times> u32 \<times> u32) option" where
  "hsynch_topology m st n numa_regions =
     (let r = (if numa_regions > n then n else numa_regions)
      in if r = HSYNCH_DEFAULT_NUMA_POLICY then
           (if numa_support m then
              (let ncpus = cores m st; k = task_nodes m; size = n div k + n mod k
               in if k = 0 then None
                  else Some (True, if size < ncpus div k then ncpus div k else size, k))
            else
              (let size = HSYNCH_DEFAULT_NUMA_NODE_SIZE; k = n div size + (if n mod size = 0 then 0 else 1)
               in Some (True, size, if k = 0 then 1 else k)))
         else Some (False, if n mod r \<noteq> 0 then n div r * 2 else n div r, r))"

definition HSynchStructInit :: "machine \<Rightarrow> threads \<Rightarrow> u32 \<Rightarrow> u32 \<Rightarrow> 'x \<Rightarrow> 's \<Rightarrow> ('x, 'r, 's) HSynchStruct option" where
  "HSynchStructInit m st n numa_regions x0 s0 =
     map_option (\<lambda>(policy, size, k).
       \<lparr>h_next = (\<lambda>_ _. None), h_arg_ret = (\<lambda>_ _. Arg x0), h_npid = (\<lambda>_ _. 0), h_locked = (\<lambda>_ _. False),
        h_completed = (\<lambda>_ _. False), h_nthreads = n, numa_node_size = size, numa_nodes = k,
        numa_policy = policy, h_nodes = (\<lambda>_. False), node_indexes = (\<lambda>_. 0), h_tail = (\<lambda>_. None),
        central_lock = CLHLockInit, h_obj = s0, node_of_thread = (\<lambda>_. 0), h_mynext = (\<lambda>_. 0),
        h_next_node = (\<lambda>_. 0), h_cur = (\<lambda>_. 0), h_p = (\<lambda>_. 0), h_tmp_next = (\<lambda>_. 0), h_counter = (\<lambda>_. 0),
        h_arg = (\<lambda>_. x0), h_local = (\<lambda>_. s0), h_pc = (\<lambda>_. H_out), h_arr = (\<lambda>_. [])\<rparr>)
       (hsynch_topology m st n numa_regions)"

text \<open>The NUMA node that a thread is assigned to; \<open>t\<close> is what \<^verbatim>\<open>synchThreadPin\<close> has left in the
  thread's variables, the value \<open>-1\<close> of a core or a node is that of a 32-bit integer.\<close>

definition hsynch_numa_node :: "machine \<Rightarrow> threads \<Rightarrow> thread_local \<Rightarrow> u32 \<Rightarrow> ('x, 'r, 's) HSynchStruct \<Rightarrow> u32 option" where
  "hsynch_numa_node m st t pid l =
     (let by_pid = (if numa_node_size l = 0 then None else Some (pid div numa_node_size l))
      in if \<not> numa_support m then by_pid
         else if numa_policy l then
           (if preferred_core t \<noteq> -1
            then (if preferred_numa_node t = -1 then by_pid else Some (preferred_numa_node t))
            else Some 0)
         else
           (let ncpus = cores m st
            in if smt m ncpus \<and> ncpus > 1 then
                 (if numa_nodes l = 0 then None
                  else let actual_per_manual = task_nodes m div numa_nodes l
                       in if actual_per_manual \<noteq> 0
                          then Some (word_of_int (sint (preferred_numa_node t) sdiv sint actual_per_manual))
                          else let threads_per_node = h_nthreads l div numa_nodes l
                               in if threads_per_node = 0 then None
                                  else Some (word_of_int (sint (preferred_core t) sdiv sint threads_per_node)))
               else by_pid))"

text \<open>\<open>None\<close>: a division by zero, or an access beyond the arrays \<^verbatim>\<open>nodes\<close>, \<^verbatim>\<open>Tail\<close> and
  \<^verbatim>\<open>node_indexes\<close>.\<close>

definition HSynchThreadStateInit ::
    "machine \<Rightarrow> threads \<Rightarrow> thread_local \<Rightarrow> tid \<Rightarrow> ('x, 'r, 's) HSynchStruct \<Rightarrow> ('x, 'r, 's) HSynchStruct option" where
  "HSynchThreadStateInit m st t pid l =
     (case hsynch_numa_node m st t (of_nat pid) l of
        None \<Rightarrow> None
      | Some w \<Rightarrow>
          if sint w < 0 \<or> w \<ge> numa_nodes l then None
          else
            (let g = unat w;
                 last_node = unat (numa_node_size l) + 1;
                 l1 = (if h_nodes l g then l
                       else l\<lparr>h_nodes := (h_nodes l)(g := True),
                              h_next := (h_next l)(g := (h_next l g)(last_node := None)),
                              h_locked := (h_locked l)(g := (h_locked l g)(last_node := False)),
                              h_completed := (h_completed l)(g := (h_completed l g)(last_node := False))\<rparr>);
                 l2 = (if h_tail l1 g = None then l1\<lparr>h_tail := (h_tail l1)(g := Some last_node)\<rparr> else l1);
                 node_index = node_indexes l2 g
             in Some (l2\<lparr>node_indexes := (node_indexes l2)(g := node_index + 1),
                         node_of_thread := (node_of_thread l2)(pid := g),
                         h_mynext := (h_mynext l2)(pid := node_index)\<rparr>)))"

text \<open>The threads \<open>ps\<close> initialise one after the other, in any order; they start their operations
  after the barrier that follows in all the benchmarks.\<close>

fun hsynch_threads :: "machine \<Rightarrow> threads \<Rightarrow> (tid \<Rightarrow> thread_local) \<Rightarrow> tid list \<Rightarrow>
    ('x, 'r, 's) HSynchStruct \<Rightarrow> ('x, 'r, 's) HSynchStruct option" where
  "hsynch_threads m st ts [] l = Some l"
| "hsynch_threads m st ts (p # ps) l =
     (case HSynchThreadStateInit m st (ts p) p l of None \<Rightarrow> None | Some l' \<Rightarrow> hsynch_threads m st ts ps l')"

definition hsynch_start :: "machine \<Rightarrow> threads \<Rightarrow> (tid \<Rightarrow> thread_local) \<Rightarrow> tid list \<Rightarrow> u32 \<Rightarrow> u32 \<Rightarrow> 'x \<Rightarrow> 's \<Rightarrow>
    ('x, 'r, 's) HSynchStruct option" where
  "hsynch_start m st ts ps n numa_regions x0 s0 =
     (case HSynchStructInit m st n numa_regions x0 s0 of None \<Rightarrow> None | Some l \<Rightarrow> hsynch_threads m st ts ps l)"

text \<open>No pool has handed out more nodes than there are before its last one, which is the first on
  \<^verbatim>\<open>Tail\<close>.\<close>

definition pools_suffice :: "('x, 'r, 's) HSynchStruct \<Rightarrow> bool" where
  "pools_suffice l \<longleftrightarrow> (\<forall>g < unat (numa_nodes l). node_indexes l g \<le> unat (numa_node_size l) + 1)"

section \<open>Steps\<close>

abbreviation h_goto :: "tid \<Rightarrow> h_pc \<Rightarrow> ('x, 'r, 's) HSynchStruct \<Rightarrow> ('x, 'r, 's) HSynchStruct" where
  "h_goto p c l \<equiv> l\<lparr>h_pc := (h_pc l)(p := c)\<rparr>"

text \<open>A field of one queue node written.\<close>

abbreviation upd2 :: "(nat \<Rightarrow> nat \<Rightarrow> 'v) \<Rightarrow> nat \<Rightarrow> nat \<Rightarrow> 'v \<Rightarrow> nat \<Rightarrow> nat \<Rightarrow> 'v" where
  "upd2 f g i v \<equiv> f(g := (f g)(i := v))"

fun HSynchApplyOp :: "('x, 'r, 's) sfunc \<Rightarrow> tid \<Rightarrow> ('x, 'r, 's) HSynchStruct \<Rightarrow> ('x, 'r, 's) HSynchStruct" where
  "HSynchApplyOp sfunc pid l =
     (let g = node_of_thread l pid in
      case h_pc l pid of
        H_next \<Rightarrow> h_goto pid H_lock (l\<lparr>h_next_node := (h_next_node l)(pid := h_mynext l pid),
                                       h_next := upd2 (h_next l) g (h_mynext l pid) None\<rparr>)
      | H_lock \<Rightarrow> h_goto pid H_compl (l\<lparr>h_locked := upd2 (h_locked l) g (h_next_node l pid) True\<rparr>)
      | H_compl \<Rightarrow> h_goto pid H_swap (l\<lparr>h_completed := upd2 (h_completed l) g (h_next_node l pid) False\<rparr>)
      | H_swap \<Rightarrow> (case h_tail l g of
                     None \<Rightarrow> h_goto pid H_fault l
                   | Some t \<Rightarrow> h_goto pid H_arg (l\<lparr>h_cur := (h_cur l)(pid := t),
                                 h_tail := (h_tail l)(g := Some (h_next_node l pid)),
                                 h_arr := (h_arr l)(g := h_arr l g @ [pid])\<rparr>))
      | H_arg \<Rightarrow> h_goto pid H_pid (l\<lparr>h_arg_ret := upd2 (h_arg_ret l) g (h_cur l pid) (Arg (h_arg l pid))\<rparr>)
      | H_pid \<Rightarrow> h_goto pid H_link (l\<lparr>h_npid := upd2 (h_npid l) g (h_cur l pid) pid\<rparr>)
      | H_link \<Rightarrow> h_goto pid H_spin (l\<lparr>h_next := upd2 (h_next l) g (h_cur l pid) (Some (h_next_node l pid)),
                                       h_mynext := (h_mynext l)(pid := h_cur l pid)\<rparr>)
      | H_spin \<Rightarrow> if h_locked l g (h_cur l pid) then l else h_goto pid H_check l
      | H_check \<Rightarrow> if h_completed l g (h_cur l pid) then h_goto pid H_helped l
                   else h_goto pid H_locking (l\<lparr>h_p := (h_p l)(pid := h_cur l pid), h_counter := (h_counter l)(pid := 0),
                                                central_lock := clh_exec (Acquire pid) (central_lock l)\<rparr>)
      | H_locking \<Rightarrow> (let k = clh_exec (Run pid) (central_lock l)
                      in h_goto pid (if clh_phase k pid = Holding then H_loop else H_locking) (l\<lparr>central_lock := k\<rparr>))
      | H_loop \<Rightarrow> if h_counter l pid < HSYNCH_HELP_FACTOR * unat (h_nthreads l) \<and> h_next l g (h_p l pid) \<noteq> None
                  then h_goto pid H_tmp (l\<lparr>h_counter := (h_counter l)(pid := h_counter l pid + 1)\<rparr>)
                  else h_goto pid H_end l
      | H_tmp \<Rightarrow> (case h_next l g (h_p l pid) of
                    None \<Rightarrow> h_goto pid H_fault l
                  | Some i \<Rightarrow> h_goto pid H_load (l\<lparr>h_tmp_next := (h_tmp_next l)(pid := i)\<rparr>))
      | H_load \<Rightarrow> h_goto pid H_apply (l\<lparr>h_local := (h_local l)(pid := h_obj l)\<rparr>)
      | H_apply \<Rightarrow> (case h_arg_ret l g (h_p l pid) of
                      Res r \<Rightarrow> h_goto pid H_fault l
                    | Arg x \<Rightarrow> (let (r, s) = sfunc (h_npid l g (h_p l pid)) x (h_local l pid)
                               in h_goto pid H_done (l\<lparr>h_obj := s, h_arg_ret := upd2 (h_arg_ret l) g (h_p l pid) (Res r)\<rparr>)))
      | H_done \<Rightarrow> h_goto pid H_unlock (l\<lparr>h_completed := upd2 (h_completed l) g (h_p l pid) True\<rparr>)
      | H_unlock \<Rightarrow> h_goto pid H_loop (l\<lparr>h_locked := upd2 (h_locked l) g (h_p l pid) False,
                                         h_p := (h_p l)(pid := h_tmp_next l pid),
                                         h_arr := (h_arr l)(g := tl (h_arr l g))\<rparr>)
      | H_end \<Rightarrow> h_goto pid H_unlocking (l\<lparr>h_locked := upd2 (h_locked l) g (h_p l pid) False,
                                          central_lock := clh_exec (Release pid) (central_lock l)\<rparr>)
      | H_unlocking \<Rightarrow> (let k = clh_exec (Run pid) (central_lock l)
                        in h_goto pid (if clh_phase k pid = Out then H_return else H_unlocking) (l\<lparr>central_lock := k\<rparr>))
      | H_helped \<Rightarrow> (case h_arg_ret l g (h_cur l pid) of Arg x \<Rightarrow> h_goto pid H_fault l | Res r \<Rightarrow> h_goto pid H_out l)
      | H_return \<Rightarrow> (case h_arg_ret l g (h_cur l pid) of Arg x \<Rightarrow> h_goto pid H_fault l | Res r \<Rightarrow> h_goto pid H_out l)
      | _ \<Rightarrow> l)"

fun hs_ok :: "('x, 'r, 's) HSynchStruct \<Rightarrow> 'x cc_act \<Rightarrow> bool" where
  "hs_ok l (Invoke p x) \<longleftrightarrow> p < unat (h_nthreads l) \<and> h_pc l p = H_out"
| "hs_ok l (Step p) \<longleftrightarrow> p < unat (h_nthreads l) \<and> h_pc l p \<notin> {H_out, H_fault}"

fun hs_exec :: "('x, 'r, 's) sfunc \<Rightarrow> 'x cc_act \<Rightarrow> ('x, 'r, 's) HSynchStruct \<Rightarrow> ('x, 'r, 's) HSynchStruct" where
  "hs_exec sfunc (Invoke p x) l = h_goto p H_next (l\<lparr>h_arg := (h_arg l)(p := x)\<rparr>)"
| "hs_exec sfunc (Step p) l = HSynchApplyOp sfunc p l"

fun hs_obs :: "'x cc_act \<Rightarrow> ('x, 'r, 's) HSynchStruct \<Rightarrow> ('x, 'r) event list" where
  "hs_obs (Invoke p x) l = [Call p x]"
| "hs_obs (Step p) l =
     (if h_pc l p \<in> {H_helped, H_return}
      then (case h_arg_ret l (node_of_thread l p) (h_cur l p) of Res r \<Rightarrow> [Ret p r] | Arg x \<Rightarrow> []) else [])"

end
