(* ===== verification/HSynchCorrect.thy ===== *)
theory HSynchCorrect
  imports HSynch
begin

text \<open>
  H-Synch is linearizable. The queue of a NUMA node \<open>g\<close> is a CC-Synch object: \<open>h_proj g\<close> reads it
  off the state, with the threads of other NUMA nodes outside. A step of a thread is a step of
  the CC-Synch object of its own NUMA node, or does not show there (the accesses of the CLH
  lock, the reading of the object); the queues of the other NUMA nodes do not change, only the
  object may. The lock phase of a thread follows its program counter, so at most one thread is
  between the reading and the writing of the object.
\<close>

section \<open>The queue of a NUMA node\<close>

fun cc_pc_of :: "h_pc \<Rightarrow> cc_pc" where
  "cc_pc_of H_out = K_out"
| "cc_pc_of H_next = K_next"
| "cc_pc_of H_lock = K_lock"
| "cc_pc_of H_compl = K_compl"
| "cc_pc_of H_swap = K_swap"
| "cc_pc_of H_arg = K_arg"
| "cc_pc_of H_pid = K_pid"
| "cc_pc_of H_link = K_link"
| "cc_pc_of H_spin = K_spin"
| "cc_pc_of H_check = K_check"
| "cc_pc_of H_helped = K_helped"
| "cc_pc_of H_locking = K_loop"
| "cc_pc_of H_loop = K_loop"
| "cc_pc_of H_tmp = K_tmp"
| "cc_pc_of H_load = K_apply"
| "cc_pc_of H_apply = K_apply"
| "cc_pc_of H_done = K_done"
| "cc_pc_of H_unlock = K_unlock"
| "cc_pc_of H_end = K_end"
| "cc_pc_of H_unlocking = K_return"
| "cc_pc_of H_return = K_return"
| "cc_pc_of H_fault = K_fault"

definition member :: "(tid \<Rightarrow> nat) \<Rightarrow> nat \<Rightarrow> (tid \<Rightarrow> 'v) \<Rightarrow> 'v \<Rightarrow> tid \<Rightarrow> 'v" where
  "member nd g f d p = (if nd p = g then f p else d)"

definition h_proj :: "nat \<Rightarrow> ('x, 'r, 's) HSynchStruct \<Rightarrow> ('x, 'r, 's) CCSynchStruct" where
  "h_proj g l = \<lparr>CCSynchNode.nxt = h_next l g, arg_ret = h_arg_ret l g, npid = h_npid l g,
     CCSynchNode.locked = h_locked l g, completed = h_completed l g,
     CCSynchStruct.nthreads = unat (h_nthreads l), CCSynchStruct.Tail = the (h_tail l g), obj = h_obj l,
     mynext = member (node_of_thread l) g (h_mynext l) 0, next_node = member (node_of_thread l) g (h_next_node l) 0, cur = member (node_of_thread l) g (h_cur l) 0,
     wp = member (node_of_thread l) g (h_p l) 0, tmp_next = member (node_of_thread l) g (h_tmp_next l) 0, counter = member (node_of_thread l) g (h_counter l) 0,
     arg = member (node_of_thread l) g (h_arg l) undefined, CCSynchStruct.pc = member (node_of_thread l) g (cc_pc_of \<circ> h_pc l) K_out,
     arr = h_arr l g\<rparr>"

text \<open>The accesses that the queue of the thread's own NUMA node does not see.\<close>

fun silent :: "h_pc \<Rightarrow> bool" where
  "silent H_locking = True"
| "silent H_load = True"
| "silent H_unlocking = True"
| "silent _ = False"

lemma member_upd [simp]:
  "nd p = g \<Longrightarrow> member nd g (f(p := v)) d = (member nd g f d)(p := v)"
  "nd p \<noteq> g \<Longrightarrow> member nd g (f(p := v)) d = member nd g f d"
  by (auto simp: member_def fun_eq_iff)

lemma member_at [simp]: "nd p = g \<Longrightarrow> member nd g f d p = f p"
  by (simp add: member_def)

lemma member_pc [simp]:
  "nd p = g \<Longrightarrow> member nd g (cc_pc_of \<circ> f(p := c)) K_out = (member nd g (cc_pc_of \<circ> f) K_out)(p := cc_pc_of c)"
  "nd p \<noteq> g \<Longrightarrow> member nd g (cc_pc_of \<circ> f(p := c)) K_out = member nd g (cc_pc_of \<circ> f) K_out"
  by (auto simp: member_def fun_eq_iff)

lemma cc_pc_of_waits [simp]:
  "cc_pc_of (if b then H_loop else H_locking) = K_loop" "cc_pc_of (if b then H_return else H_unlocking) = K_return"
  by simp_all

lemma h_exec_frame:
  assumes "g \<noteq> node_of_thread l p"
  shows "h_proj g (HSynchApplyOp f p l) = (h_proj g l)\<lparr>obj := h_obj (HSynchApplyOp f p l)\<rparr>"
  using assms by (cases "h_pc l p") (simp_all add: h_proj_def Let_def split_beta split: option.split slot.split)

lemma member_pc_idem:
  "nd p \<noteq> g \<or> cc_pc_of (f p) = cc_pc_of c \<Longrightarrow> member nd g (cc_pc_of \<circ> f(p := c)) K_out = member nd g (cc_pc_of \<circ> f) K_out"
  by (auto simp: member_def fun_eq_iff)

lemma h_exec_silent:
  assumes "silent (h_pc l p)"
  shows "h_proj g (HSynchApplyOp f p l) = h_proj g l"
  using assms by (cases "h_pc l p") (simp_all add: h_proj_def Let_def member_pc_idem del: member_pc)

lemma h_exec_cc:
  assumes "\<not> silent (h_pc l p)" and "h_tail l (node_of_thread l p) \<noteq> None"
    and "h_pc l p = H_apply \<Longrightarrow> h_local l p = h_obj l"
  shows "h_proj (node_of_thread l p) (HSynchApplyOp f p l) = CCSynchApplyOp f p (h_proj (node_of_thread l p) l)"
proof (cases "h_pc l p = H_loop")
  case True
  then show ?thesis
    by (cases "h_next l (node_of_thread l p) (h_p l p) = None")
      (simp_all add: h_proj_def HSYNCH_HELP_FACTOR_def CCSYNCH_HELP_FACTOR_def)
next
  case False
  show ?thesis
    by (cases "h_pc l p"; (use assms(1) False in \<open>simp only: silent.simps simp_thms; fail\<close>)?)
      (use assms False in \<open>simp_all add: h_proj_def Let_def split_beta split: option.split slot.split\<close>)
qed

declare HSynchApplyOp.simps [simp del] and CCSynchApplyOp.simps [simp del]

lemma h_exec_keeps:
  "h_nthreads (HSynchApplyOp f p l) = h_nthreads l" "node_of_thread (HSynchApplyOp f p l) = node_of_thread l"
  by (cases "h_pc l p"; simp add: HSynchApplyOp.simps Let_def split_beta split: option.split slot.split)+

lemma h_exec_others:
  assumes "q \<noteq> p"
  shows "h_pc (HSynchApplyOp f p l) q = h_pc l q" "h_local (HSynchApplyOp f p l) q = h_local l q"
  using assms by (cases "h_pc l p"; simp add: HSynchApplyOp.simps Let_def split_beta split: option.split slot.split)+

lemma h_exec_tail: "h_tail l g \<noteq> None \<Longrightarrow> h_tail (HSynchApplyOp f p l) g \<noteq> None"
  by (cases "h_pc l p"; simp add: HSynchApplyOp.simps Let_def split_beta split: option.split slot.split)+

lemma h_exec_obj: "h_pc l p \<noteq> H_apply \<Longrightarrow> h_obj (HSynchApplyOp f p l) = h_obj l"
  by (cases "h_pc l p"; simp add: HSynchApplyOp.simps Let_def split_beta split: option.split slot.split)+

lemma h_exec_local: "h_pc (HSynchApplyOp f p l) p = H_apply \<Longrightarrow> h_pc l p \<noteq> H_apply \<Longrightarrow>
    h_local (HSynchApplyOp f p l) p = h_obj (HSynchApplyOp f p l)"
  by (cases "h_pc l p"; simp add: HSynchApplyOp.simps Let_def split_beta split: option.splits slot.splits if_splits)

lemma h_exec_apply: "h_pc l p = H_apply \<Longrightarrow> h_pc (HSynchApplyOp f p l) p \<noteq> H_apply"
  by (simp add: HSynchApplyOp.simps Let_def split_beta split: option.split slot.split)

section \<open>Invariant\<close>

definition group :: "('x, 'r, 's) HSynchStruct \<Rightarrow> nat \<Rightarrow> tid set" where
  "group l g = {p. p < unat (h_nthreads l) \<and> node_of_thread l p = g}"

text \<open>Where a thread stands with the CLH lock.\<close>

fun lock_of :: "h_pc \<Rightarrow> lock_phase" where
  "lock_of H_locking = Trying"
| "lock_of H_loop = Holding"
| "lock_of H_tmp = Holding"
| "lock_of H_load = Holding"
| "lock_of H_apply = Holding"
| "lock_of H_done = Holding"
| "lock_of H_unlock = Holding"
| "lock_of H_end = Holding"
| "lock_of H_unlocking = Leaving"
| "lock_of _ = Out"

abbreviation lock_reach :: "nat \<Rightarrow> CLHLockStruct \<Rightarrow> bool" where
  "lock_reach n \<equiv> reach CLHLockInit (act_step (clh_ok n) clh_exec)"

definition hs_inv :: "('x, 'r, 's) HSynchStruct \<Rightarrow> bool" where
  "hs_inv l \<longleftrightarrow>
     (\<forall>p < unat (h_nthreads l). h_tail l (node_of_thread l p) \<noteq> None
        \<and> (\<exists>d. cc_inv_at (group l (node_of_thread l p)) d (h_proj (node_of_thread l p) l)))
   \<and> lock_reach (unat (h_nthreads l)) (central_lock l)
   \<and> (\<forall>p. clh_phase (central_lock l) p = lock_of (h_pc l p))
   \<and> (\<forall>p. h_pc l p = H_apply \<longrightarrow> h_local l p = h_obj l)
   \<and> (\<forall>p \<ge> unat (h_nthreads l). h_pc l p = H_out)"

lemma hs_invD:
  assumes "hs_inv l"
  shows "p < unat (h_nthreads l) \<Longrightarrow> h_tail l (node_of_thread l p) \<noteq> None"
    and "p < unat (h_nthreads l) \<Longrightarrow> \<exists>d. cc_inv_at (group l (node_of_thread l p)) d (h_proj (node_of_thread l p) l)"
    and "lock_reach (unat (h_nthreads l)) (central_lock l)"
    and "clh_phase (central_lock l) q = lock_of (h_pc l q)"
    and "h_pc l q = H_apply \<Longrightarrow> h_local l q = h_obj l"
    and "h_pc l q \<noteq> H_out \<Longrightarrow> q < unat (h_nthreads l)"
  using assms unfolding hs_inv_def by (blast | metis leI)+

lemma hs_one_holder:
  "\<lbrakk>hs_inv l; lock_of (h_pc l p) = Holding; lock_of (h_pc l q) = Holding\<rbrakk> \<Longrightarrow> p = q"
  using clh.mutual_exclusion [OF hs_invD(3)] hs_invD(4) by metis

lemma chain_obj [simp]: "chain (l\<lparr>obj := s\<rparr>) d ps t = chain l d ps t"
  by (rule cc_chain_cong) simp

lemma cc_parts_obj [simp]:
  "own (l\<lparr>obj := s\<rparr>) = own l" "waiting_ok (l\<lparr>obj := s\<rparr>) = waiting_ok l" "resting_ok (l\<lparr>obj := s\<rparr>) = resting_ok l"
  "combiner_ok (l\<lparr>obj := s\<rparr>) = combiner_ok l" "applied (l\<lparr>obj := s\<rparr>) = applied l" "marked (l\<lparr>obj := s\<rparr>) = marked l"
  by (simp_all add: fun_eq_iff own_def waiting_ok_def resting_ok_def combiner_ok_def applied_def marked_def)

lemma cc_inv_at_obj [simp]: "cc_inv_at P d (l\<lparr>obj := s\<rparr>) = cc_inv_at P d l"
  by (simp add: cc_inv_at_def)

lemma cc_status_obj [simp]: "cc_status (l\<lparr>obj := s\<rparr>) = cc_status l"
  by (simp add: cc_status_def fun_eq_iff)

lemma h_proj_pc: "CCSynchStruct.pc (h_proj g l) p = (if node_of_thread l p = g then cc_pc_of (h_pc l p) else K_out)"
  by (simp add: h_proj_def member_def)

lemma cc_pc_of_out [simp]: "cc_pc_of c = K_out \<longleftrightarrow> c = H_out" "cc_pc_of c = K_fault \<longleftrightarrow> c = H_fault"
  by (cases c; simp)+

text \<open>The own queue after a step.\<close>

lemma hs_own_step:
  assumes inv: "hs_inv l" and p: "p < unat (h_nthreads l)" and pcs: "h_pc l p \<notin> {H_out, H_fault}"
  defines "g \<equiv> node_of_thread l p"
  shows "\<exists>d. cc_inv_at (group l g) d (h_proj g (HSynchApplyOp f p l))"
proof (cases "silent (h_pc l p)")
  case True
  then show ?thesis using hs_invD(2) [OF inv p] h_exec_silent [OF True, of g f] by (simp add: g_def)
next
  case False
  obtain d where d: "cc_inv_at (group l g) d (h_proj g l)" using hs_invD(2) [OF inv p] by (auto simp: g_def)
  have "CCSynchStruct.pc (h_proj g l) p \<notin> {K_out, K_fault}" using pcs by (simp add: h_proj_pc g_def)
  from cc_inv_at_step [OF d this, of f] h_exec_cc [OF False hs_invD(1) [OF inv p] hs_invD(5) [OF inv]]
  show ?thesis by (simp add: g_def)
qed

lemma cc_no_fault: "cc_inv_at P d l \<Longrightarrow> CCSynchStruct.pc l p \<noteq> K_fault"
  using cc_invD(7) [of P d l p] cc_invD(8) [of P d l p] waiting_pc resting_pc by blast

lemma hs_step_no_fault:
  assumes "hs_inv l" and "p < unat (h_nthreads l)" and "h_pc l p \<notin> {H_out, H_fault}"
  shows "h_pc (HSynchApplyOp f p l) p \<noteq> H_fault"
proof -
  obtain d where "cc_inv_at (group l (node_of_thread l p)) d (h_proj (node_of_thread l p) (HSynchApplyOp f p l))"
    using hs_own_step [OF assms] by blast
  from cc_no_fault [OF this, of p] show ?thesis by (simp add: h_proj_pc h_exec_keeps)
qed

text \<open>The lock after a step.\<close>

lemma lock_can:
  assumes "lock_reach n k" and "p < n"
  shows "clh_phase k p = Out \<Longrightarrow> clh_ok n k (Acquire p)" and "clh_phase k p = Holding \<Longrightarrow> clh_ok n k (Release p)"
    and "clh_phase k p \<in> {Trying, Leaving} \<Longrightarrow> clh_ok n k (Run p)"
proof -
  have "CLHLockStruct.pc k p \<noteq> C_fault"
    using clh_reach_inv [OF assms(1)] unfolding clh_inv_def by (metis clh_inv_atE(11))
  then show "clh_phase k p = Out \<Longrightarrow> clh_ok n k (Acquire p)" "clh_phase k p = Holding \<Longrightarrow> clh_ok n k (Release p)"
    "clh_phase k p \<in> {Trying, Leaving} \<Longrightarrow> clh_ok n k (Run p)"
    using assms(2) by (cases "CLHLockStruct.pc k p"; simp)+
qed

lemma lock_moves:
  assumes "lock_reach n k" and "clh_ok n k a" and "actor a = p"
    and "\<And>q. clh_phase k q = lock_of (c q)" and "lock_of c' = clh_phase (clh_exec a k) p"
  shows "lock_reach n (clh_exec a k) \<and> (\<forall>q. clh_phase (clh_exec a k) q = lock_of ((c(p := c')) q))"
  using clh.lock_act_reach [OF assms(1,2)] clh.others [OF assms(2)] assms(3-5) by auto

lemma h_exec_lock:
  "h_pc l p = H_check \<Longrightarrow> \<not> h_completed l (node_of_thread l p) (h_cur l p) \<Longrightarrow>
     central_lock (HSynchApplyOp f p l) = clh_exec (Acquire p) (central_lock l) \<and> h_pc (HSynchApplyOp f p l) = (h_pc l)(p := H_locking)"
  "h_pc l p = H_locking \<Longrightarrow> central_lock (HSynchApplyOp f p l) = clh_exec (Run p) (central_lock l) \<and> h_pc (HSynchApplyOp f p l) =
     (h_pc l)(p := if clh_phase (clh_exec (Run p) (central_lock l)) p = Holding then H_loop else H_locking)"
  "h_pc l p = H_end \<Longrightarrow>
     central_lock (HSynchApplyOp f p l) = clh_exec (Release p) (central_lock l) \<and> h_pc (HSynchApplyOp f p l) = (h_pc l)(p := H_unlocking)"
  "h_pc l p = H_unlocking \<Longrightarrow> central_lock (HSynchApplyOp f p l) = clh_exec (Run p) (central_lock l) \<and> h_pc (HSynchApplyOp f p l) =
     (h_pc l)(p := if clh_phase (clh_exec (Run p) (central_lock l)) p = Out then H_return else H_unlocking)"
  by (simp_all add: HSynchApplyOp.simps Let_def del: clh_exec.simps clh_phase.simps)

declare clh_exec.simps [simp del] and clh_phase.simps [simp del] and clh_ok.simps [simp del]

lemma hs_lock_step:
  fixes f :: "('x, 'r, 's) sfunc"
  assumes inv: "hs_inv l" and p: "p < unat (h_nthreads l)" and pcs: "h_pc l p \<notin> {H_out, H_fault}"
  defines "l' \<equiv> HSynchApplyOp f p l" and "n \<equiv> unat (h_nthreads l)"
  shows "lock_reach n (central_lock l') \<and> (\<forall>q. clh_phase (central_lock l') q = lock_of (h_pc l' q))"
proof -
  note r = hs_invD(3) [OF inv, folded n_def] and ph = hs_invD(4) [OF inv]
  note can = lock_can [OF r p [folded n_def]]
  note mv = lock_moves [OF r _ _ ph, of _ p]
  have nf: "h_pc l' p \<noteq> H_fault" unfolding l'_def by (rule hs_step_no_fault [OF inv p pcs])
  note ex = l'_def HSynchApplyOp.simps Let_def
  show ?thesis
  proof (cases "h_pc l p \<in> {H_check, H_locking, H_end, H_unlocking}")
    case False
    then have "central_lock l' = central_lock l" "lock_of (h_pc l' p) = lock_of (h_pc l p)"
      using pcs nf unfolding ex by (cases "h_pc l p"; simp add: split_beta split: option.splits slot.splits)+
    then show ?thesis using r ph h_exec_others(1) [of _ p f l, folded l'_def] by metis
  next
    case True
    then consider "h_pc l p = H_check" "h_completed l (node_of_thread l p) (h_cur l p)"
      | "h_pc l p = H_check" "\<not> h_completed l (node_of_thread l p) (h_cur l p)"
      | "h_pc l p = H_locking" | "h_pc l p = H_end" | "h_pc l p = H_unlocking" by blast
    then show ?thesis
    proof cases
      case 1
      then show ?thesis using r ph unfolding ex by simp
    next
      case 2
      then have a: "clh_ok n (central_lock l) (Acquire p)" using can(1) ph by simp
      show ?thesis using mv [OF a, of H_locking] clh.acquire_ok [OF a] h_exec_lock(1) [OF 2, of f] by (simp add: l'_def)
    next
      case 3
      then have a: "clh_ok n (central_lock l) (Run p)" using can(3) ph by simp
      have "clh_phase (clh_exec (Run p) (central_lock l)) p \<in> {Trying, Holding}"
        using clh.run_ok [OF r a] unfolding ph 3 by simp
      then have "lock_of (if clh_phase (clh_exec (Run p) (central_lock l)) p = Holding then H_loop else H_locking) =
          clh_phase (clh_exec (Run p) (central_lock l)) p" by (elim insertE emptyE; simp only: lock_of.simps if_True if_False lock_phase.distinct refl)
      from mv [OF a actor.simps(2) this] show ?thesis unfolding l'_def h_exec_lock(2) [OF 3, of f, THEN conjunct1]
          h_exec_lock(2) [OF 3, of f, THEN conjunct2] .
    next
      case 4
      then have a: "clh_ok n (central_lock l) (Release p)" using can(2) ph by simp
      show ?thesis using mv [OF a, of H_unlocking] clh.release_ok [OF a] h_exec_lock(3) [OF 4, of f] by (simp add: l'_def)
    next
      case 5
      then have a: "clh_ok n (central_lock l) (Run p)" using can(3) ph by simp
      have "clh_phase (clh_exec (Run p) (central_lock l)) p \<in> {Leaving, Out}"
        using clh.run_ok [OF r a] unfolding ph 5 by simp
      then have "lock_of (if clh_phase (clh_exec (Run p) (central_lock l)) p = Out then H_return else H_unlocking) =
          clh_phase (clh_exec (Run p) (central_lock l)) p" by (elim insertE emptyE; simp only: lock_of.simps if_True if_False lock_phase.distinct refl)
      from mv [OF a actor.simps(2) this] show ?thesis unfolding l'_def h_exec_lock(4) [OF 5, of f, THEN conjunct1]
          h_exec_lock(4) [OF 5, of f, THEN conjunct2] .
    qed
  qed
qed

lemma group_step [simp]: "group (HSynchApplyOp f p l) g = group l g"
  by (simp add: group_def h_exec_keeps)

lemma hs_inv_step:
  assumes inv: "hs_inv l" and p: "p < unat (h_nthreads l)" and pcs: "h_pc l p \<notin> {H_out, H_fault}"
  shows "hs_inv (HSynchApplyOp f p l)"
proof -
  let ?l = "HSynchApplyOp f p l"
  have "h_tail ?l g \<noteq> None \<and> (\<exists>d. cc_inv_at (group l g) d (h_proj g ?l))"
    if q: "q < unat (h_nthreads l)" "g = node_of_thread l q" for q g
  proof (cases "g = node_of_thread l p")
    case True
    then show ?thesis using hs_own_step [OF inv p pcs, of f] h_exec_tail [OF hs_invD(1) [OF inv p]] by simp
  next
    case False
    then show ?thesis using h_exec_frame [OF False, of f] h_exec_tail [OF hs_invD(1) [OF inv q(1)]] hs_invD(2) [OF inv q(1)] q(2)
      by simp
  qed
  moreover have "h_local ?l q = h_obj ?l" if "h_pc ?l q = H_apply" for q
  proof (cases "q = p")
    case True
    then show ?thesis using that h_exec_local [of f p l] h_exec_apply [of l p f] by blast
  next
    case False
    then have q: "h_pc l q = H_apply" using that h_exec_others(1) by metis
    moreover have "h_pc l p \<noteq> H_apply" using hs_one_holder [OF inv, of p q] q False by auto
    ultimately show ?thesis using h_exec_obj h_exec_others(2) [OF False] hs_invD(5) [OF inv] by metis
  qed
  moreover have "h_pc ?l q = H_out" if "q \<ge> unat (h_nthreads l)" for q
    using that p hs_invD(6) [OF inv, of q] h_exec_others(1) [of q p f l] by fastforce
  ultimately show ?thesis using hs_lock_step [OF inv p pcs, of f] unfolding hs_inv_def h_exec_keeps group_step by blast
qed

lemma h_proj_invoke:
  "h_proj g (hs_exec f (Invoke p x) l) =
     (if node_of_thread l p = g then cc_exec f (Invoke p x) (h_proj g l) else h_proj g l)"
  by (auto simp: h_proj_def)

lemma hs_inv_invoke:
  assumes inv: "hs_inv l" and p: "p < unat (h_nthreads l)" and pcs: "h_pc l p = H_out"
  shows "hs_inv (hs_exec f (Invoke p x) l)"
proof -
  let ?l = "hs_exec f (Invoke p x) l"
  have "\<exists>d. cc_inv_at (group l g) d (h_proj g ?l)" if q: "q < unat (h_nthreads l)" "g = node_of_thread l q" for q g
  proof (cases "g = node_of_thread l p")
    case True
    obtain d where d: "cc_inv_at (group l g) d (h_proj g l)" using hs_invD(2) [OF inv q(1)] q(2) by blast
    have "p \<in> group l g" "CCSynchStruct.pc (h_proj g l) p = K_out" using True p pcs by (simp_all add: group_def h_proj_pc)
    from cc_inv_invoke [OF d this, of f x] True show ?thesis unfolding h_proj_invoke by auto
  next
    case False
    then show ?thesis using hs_invD(2) [OF inv q(1)] q(2) by (simp add: h_proj_invoke del: hs_exec.simps)
  qed
  moreover have "h_tail ?l = h_tail l" "central_lock ?l = central_lock l" "h_obj ?l = h_obj l" "h_local ?l = h_local l"
    "group ?l = group l" "h_nthreads ?l = h_nthreads l" "node_of_thread ?l = node_of_thread l" "h_pc ?l = (h_pc l)(p := H_next)"
    by (simp_all add: group_def [abs_def])
  ultimately show ?thesis using inv p pcs unfolding hs_inv_def by (auto simp del: hs_exec.simps)
qed

lemma hs_inv_exec: "hs_inv l \<Longrightarrow> hs_ok l a \<Longrightarrow> hs_inv (hs_exec f a l)"
  by (cases a) (simp_all add: hs_inv_step hs_inv_invoke del: hs_exec.simps(1))

section \<open>Refinement\<close>

definition hs_status :: "('x, 'r, 's) HSynchStruct \<Rightarrow> tid \<Rightarrow> ('x, 'r) status" where
  "hs_status l p = cc_status (h_proj (node_of_thread l p) l) p"

definition hs_abs :: "('x, 'r, 's) HSynchStruct \<Rightarrow> ('x, 'r, 's) config" where
  "hs_abs l = (h_obj l, hs_status l)"

text \<open>The queue \<open>g\<close> moves, the others stay.\<close>

lemma hs_abs_frame:
  assumes st: "asteps f (cc_abs (h_proj g l)) h (cc_abs (h_proj g l'))"
    and nd: "node_of_thread l' = node_of_thread l" and ev: "\<forall>e \<in> set h. node_of_thread l (event_of e) = g"
    and others: "\<And>g'. g' \<noteq> g \<Longrightarrow> h_proj g' l' = (h_proj g' l)\<lparr>obj := h_obj l'\<rparr>"
  shows "asteps f (hs_abs l) h (hs_abs l')"
proof -
  have ob: "obj (h_proj g l) = h_obj l" "obj (h_proj g l') = h_obj l'" by (simp_all add: h_proj_def)
  have idle: "\<forall>q. q \<notin> {q. node_of_thread l q = g} \<longrightarrow> snd (cc_abs (h_proj g l)) q = Idle"
    by (simp add: cc_abs_def cc_status_def h_proj_pc)
  have 1: "(\<lambda>q. if q \<in> {q. node_of_thread l q = g} then cc_status (h_proj g l) q else hs_status l q) = hs_status l"
    by (auto simp: hs_status_def)
  have 2: "(\<lambda>q. if q \<in> {q. node_of_thread l q = g} then cc_status (h_proj g l') q else hs_status l q) = hs_status l'"
    using others by (auto simp: hs_status_def nd fun_eq_iff)
  show ?thesis
    using asteps_frame [OF st _ idle, THEN conjunct2, of "hs_status l"] ev
    unfolding cc_abs_def fst_conv snd_conv ob 1 2 hs_abs_def by simp
qed

lemma hs_obs_of: "\<forall>e \<in> set (hs_obs (Step p) l). event_of e = p"
  by (cases "h_arg_ret l (node_of_thread l p) (h_cur l p)"; cases "h_pc l p \<in> {H_helped, H_return}")
    (simp_all only: hs_obs.simps slot.case if_True if_False list.set ball_simps event_of.simps simp_thms)

lemma hs_abs_step:
  assumes inv: "hs_inv l" and p: "p < unat (h_nthreads l)" and pcs: "h_pc l p \<notin> {H_out, H_fault}"
  shows "asteps f (hs_abs l) (hs_obs (Step p) l) (hs_abs (HSynchApplyOp f p l))"
proof (rule hs_abs_frame [of f "node_of_thread l p"])
  let ?g = "node_of_thread l p"
  show "asteps f (cc_abs (h_proj ?g l)) (hs_obs (Step p) l) (cc_abs (h_proj ?g (HSynchApplyOp f p l)))"
  proof (cases "silent (h_pc l p)")
    case True
    moreover from this have "hs_obs (Step p) l = []" by (cases "h_pc l p") simp_all
    ultimately show ?thesis by (simp only: h_exec_silent as_refl)
  next
    case False
    obtain d where d: "cc_inv_at (group l ?g) d (h_proj ?g l)" using hs_invD(2) [OF inv p] by blast
    have "CCSynchStruct.pc (h_proj ?g l) p \<notin> {K_out, K_fault}" using pcs by (simp add: h_proj_pc)
    with cc_abs_at [OF d, of "Step p" f] have
      "asteps f (cc_abs (h_proj ?g l)) (cc_obs (Step p) (h_proj ?g l)) (cc_abs (CCSynchApplyOp f p (h_proj ?g l)))" by simp
    moreover have "cc_obs (Step p) (h_proj ?g l) = hs_obs (Step p) l"
      using False by (cases "h_pc l p") (simp_all add: h_proj_def)
    ultimately show ?thesis using h_exec_cc [OF False hs_invD(1) [OF inv p] hs_invD(5) [OF inv], of f] by simp
  qed
  show "\<forall>e \<in> set (hs_obs (Step p) l). node_of_thread l (event_of e) = ?g"
    using hs_obs_of [of p l] by metis
qed (fact h_exec_keeps, fact h_exec_frame)

lemma hs_abs_exec:
  assumes inv: "hs_inv l" and ok: "hs_ok l a"
  shows "asteps f (hs_abs l) (hs_obs a l) (hs_abs (hs_exec f a l))"
proof (cases a)
  case (Step p)
  then show ?thesis using hs_abs_step [OF inv, of p f] ok by (simp del: hs_obs.simps)
next
  case (Invoke p x)
  let ?g = "node_of_thread l p"
  have p: "p < unat (h_nthreads l)" "h_pc l p = H_out" using ok Invoke by simp_all
  obtain d where d: "cc_inv_at (group l ?g) d (h_proj ?g l)" using hs_invD(2) [OF inv p(1)] by blast
  have "CCSynchStruct.pc (h_proj ?g l) p = K_out" using p by (simp add: h_proj_pc)
  with cc_abs_at [OF d, of "Invoke p x" f] have
    "asteps f (cc_abs (h_proj ?g l)) [Call p x] (cc_abs (h_proj ?g (hs_exec f (Invoke p x) l)))"
    unfolding h_proj_invoke by simp
  then have "asteps f (hs_abs l) [Call p x] (hs_abs (hs_exec f (Invoke p x) l))"
    by (rule hs_abs_frame) (simp, simp, simp add: h_proj_invoke del: hs_exec.simps, simp add: h_proj_def)
  then show ?thesis using Invoke by simp
qed

section \<open>Initialisation\<close>

text \<open>The state after the threads \<open>S\<close> have initialised.\<close>

definition started_ok :: "tid set \<Rightarrow> ('x, 'r, 's) HSynchStruct \<Rightarrow> bool" where
  "started_ok S l \<longleftrightarrow> (\<forall>p. h_pc l p = H_out) \<and> (\<forall>g. h_arr l g = []) \<and> central_lock l = CLHLockInit
   \<and> (\<forall>g. h_tail l g \<noteq> None \<longrightarrow> h_nodes l g \<and> h_tail l g = Some (unat (numa_node_size l) + 1))
   \<and> (\<forall>g. h_nodes l g \<longrightarrow> h_next l g (unat (numa_node_size l) + 1) = None
        \<and> \<not> h_locked l g (unat (numa_node_size l) + 1) \<and> \<not> h_completed l g (unat (numa_node_size l) + 1))
   \<and> (\<forall>p \<in> S. h_tail l (node_of_thread l p) \<noteq> None \<and> node_of_thread l p < unat (numa_nodes l)
        \<and> h_mynext l p < node_indexes l (node_of_thread l p))
   \<and> (\<forall>p \<in> S. \<forall>q \<in> S. p \<noteq> q \<and> node_of_thread l p = node_of_thread l q \<longrightarrow> h_mynext l p \<noteq> h_mynext l q)"

lemma started_init: "HSynchStructInit m st n r x0 s0 = Some l \<Longrightarrow> started_ok {} l"
  by (auto simp: HSynchStructInit_def started_ok_def)

lemma init_keeps:
  assumes "HSynchThreadStateInit m st t p l = Some l'"
  shows "h_nthreads l' = h_nthreads l" "numa_node_size l' = numa_node_size l" "numa_nodes l' = numa_nodes l"
    "numa_policy l' = numa_policy l" "h_obj l' = h_obj l"
  using assms by (auto simp: HSynchThreadStateInit_def Let_def split: option.splits if_splits)

lemma started_thread:
  assumes st: "started_ok S l" and "p \<notin> S" and i: "HSynchThreadStateInit m st t p l = Some l'"
  shows "started_ok (insert p S) l'"
proof -
  define last_node where "last_node = unat (numa_node_size l) + 1"
  from i obtain w where nw: "hsynch_numa_node m st t (of_nat p) l = Some w" and w: "sint w \<ge> 0" "w < numa_nodes l"
    by (auto simp: HSynchThreadStateInit_def split: option.splits if_splits)
  have c: "(sint w < 0 \<or> w \<ge> numa_nodes l) = False" using w by auto
  have g: "node_of_thread l' = (node_of_thread l)(p := unat w)"
    and mn: "h_mynext l' = (h_mynext l)(p := node_indexes l (unat w))"
    and ni: "node_indexes l' = (node_indexes l)(unat w := node_indexes l (unat w) + 1)"
    and same: "h_pc l' = h_pc l" "h_arr l' = h_arr l" "central_lock l' = central_lock l"
    and tl: "h_tail l' = (if h_tail l (unat w) = None then (h_tail l)(unat w := Some last_node) else h_tail l)"
    and nx: "h_next l' = (if h_nodes l (unat w) then h_next l else upd2 (h_next l) (unat w) last_node None)"
    and lk: "h_locked l' = (if h_nodes l (unat w) then h_locked l else upd2 (h_locked l) (unat w) last_node False)"
    and cp: "h_completed l' = (if h_nodes l (unat w) then h_completed l else upd2 (h_completed l) (unat w) last_node False)"
    using i by (cases "h_nodes l (unat w)"; cases "h_tail l (unat w) = None";
      auto simp: HSynchThreadStateInit_def nw c Let_def last_node_def)+
  have nd: "h_nodes l' = (h_nodes l)(unat w := True)"
    using i by (cases "h_nodes l (unat w)"; cases "h_tail l (unat w) = None";
      auto simp: HSynchThreadStateInit_def nw c Let_def fun_eq_iff)
  note k = init_keeps [OF i]
  have lt: "unat w < unat (numa_nodes l)" using w(2) by (simp add: word_less_nat_alt)
  note s = st [unfolded started_ok_def]
  have 1: "(\<forall>p. h_pc l' p = H_out) \<and> (\<forall>g. h_arr l' g = []) \<and> central_lock l' = CLHLockInit" using s by (simp add: same)
  have 2: "\<forall>g. h_tail l' g \<noteq> None \<longrightarrow> h_nodes l' g \<and> h_tail l' g = Some (unat (numa_node_size l) + 1)"
    using s unfolding tl nd last_node_def by auto
  have 3: "\<forall>g. h_nodes l' g \<longrightarrow> h_next l' g (unat (numa_node_size l) + 1) = None
        \<and> \<not> h_locked l' g (unat (numa_node_size l) + 1) \<and> \<not> h_completed l' g (unat (numa_node_size l) + 1)"
    using s unfolding nd nx lk cp last_node_def by auto
  have 4: "h_tail l' (node_of_thread l' q) \<noteq> None \<and> node_of_thread l' q < unat (numa_nodes l)
        \<and> h_mynext l' q < node_indexes l' (node_of_thread l' q)" if "q \<in> insert p S" for q
  proof (cases "q = p")
    case True
    then show ?thesis using lt by (simp add: tl g mn ni)
  next
    case False
    with that s have "h_tail l (node_of_thread l q) \<noteq> None" "node_of_thread l q < unat (numa_nodes l)"
      "h_mynext l q < node_indexes l (node_of_thread l q)" by auto
    then show ?thesis using False by (auto simp: tl g mn ni)
  qed
  have 5: "h_mynext l' q \<noteq> h_mynext l' q'"
    if "q \<in> insert p S" "q' \<in> insert p S" "q \<noteq> q'" "node_of_thread l' q = node_of_thread l' q'" for q q'
  proof -
    have lt: "h_mynext l x < node_indexes l (node_of_thread l x)" if "x \<in> S" for x using s that by blast
    show ?thesis using that s lt [of q] lt [of q'] unfolding g mn by (auto split: if_splits)
  qed
  show ?thesis unfolding started_ok_def k using 1 2 3 4 5 by blast
qed

lemma started_threads:
  "\<lbrakk>hsynch_threads m st ts ps l = Some l'; started_ok S l; distinct ps; set ps \<inter> S = {}\<rbrakk> \<Longrightarrow>
     started_ok (S \<union> set ps) l' \<and> h_nthreads l' = h_nthreads l \<and> h_obj l' = h_obj l"
proof (induction ps arbitrary: l S)
  case (Cons p ps)
  from Cons.prems(1) obtain k where k: "HSynchThreadStateInit m st (ts p) p l = Some k" "hsynch_threads m st ts ps k = Some l'"
    by (auto split: option.splits)
  have "started_ok (insert p S) k" using started_thread [OF Cons.prems(2) _ k(1)] Cons.prems(4) by simp
  from Cons.IH [OF k(2) this] Cons.prems(3,4) init_keeps [OF k(1)] show ?case by simp
qed simp

lemma hsynch_start_ok:
  assumes "hsynch_start m st ts ps n r x0 s0 = Some l" and "distinct ps"
  shows "started_ok (set ps) l" "h_nthreads l = n" "h_obj l = s0"
proof -
  obtain k where k: "HSynchStructInit m st n r x0 s0 = Some k" "hsynch_threads m st ts ps k = Some l"
    using assms(1) by (auto simp: hsynch_start_def split: option.splits)
  have "h_nthreads k = n" "h_obj k = s0" using k(1) by (auto simp: HSynchStructInit_def)
  with started_threads [OF k(2) started_init [OF k(1)] assms(2)]
  show "started_ok (set ps) l" "h_nthreads l = n" "h_obj l = s0" by simp_all
qed

lemma hs_inv_start:
  assumes start: "hsynch_start m st ts ps n r x0 s0 = Some l" and ps: "distinct ps" "set ps = {..<unat n}"
    and suff: "pools_suffice l"
  shows "hs_inv l" and "hs_abs l = aconf0 s0"
proof -
  note s = hsynch_start_ok [OF start ps(1)]
  note so = s(1) [unfolded started_ok_def ps(2)]
  have pc: "CCSynchStruct.pc (h_proj g l) p = K_out" for g p using so by (simp add: h_proj_pc)
  have "cc_inv_at (group l g) (unat (numa_node_size l) + 1) (h_proj g l)" if q: "q < unat n" "g = node_of_thread l q" for q g
  proof (rule cc_invI)
    have t: "h_tail l g = Some (unat (numa_node_size l) + 1)" "h_nodes l g" using so q by blast+
    have ow: "own (h_proj g l) p = h_mynext l p" if "p \<in> group l g" for p
      using that pc [of g p] by (simp add: own_def h_proj_def group_def)
    show "inj_on (own (h_proj g l)) (group l g)"
    proof (rule inj_onI)
      fix p p' assume *: "p \<in> group l g" "p' \<in> group l g" "own (h_proj g l) p = own (h_proj g l) p'"
      then have "p < unat n" "p' < unat n" "node_of_thread l p = node_of_thread l p'" "h_mynext l p = h_mynext l p'"
        using ow s(2) by (auto simp: group_def)
      then show "p = p'" using so by (meson lessThan_iff)
    qed
    have "h_mynext l p < unat (numa_node_size l) + 1" if "p \<in> group l g" for p
    proof -
      have "p < unat n" "node_of_thread l p = g" using that s(2) by (auto simp: group_def)
      then have "h_mynext l p < node_indexes l g" "g < unat (numa_nodes l)" using so by auto
      then show ?thesis using suff unfolding pools_suffice_def by (meson less_le_trans)
    qed
    then show "CCSynchStruct.Tail (h_proj g l) \<notin> own (h_proj g l) ` group l g"
      using t ow by (fastforce simp: h_proj_def)
    show "nxt (h_proj g l) (CCSynchStruct.Tail (h_proj g l)) = None" "\<not> completed (h_proj g l) (CCSynchStruct.Tail (h_proj g l))"
      "CCSynchNode.locked (h_proj g l) (unat (numa_node_size l) + 1) \<longleftrightarrow>
        (\<exists>c. combining (CCSynchStruct.pc (h_proj g l) c) \<and> c \<notin> set (arr (h_proj g l)))"
      using so t pc by (simp_all add: h_proj_def)
    show "group l g \<noteq> {} \<longrightarrow> 0 < CCSynchStruct.nthreads (h_proj g l)" using q s(2) by (simp add: h_proj_def)
    show "chain (h_proj g l) (unat (numa_node_size l) + 1) (arr (h_proj g l)) (CCSynchStruct.Tail (h_proj g l))"
      using t so by (simp add: h_proj_def)
  qed (use pc so in \<open>simp_all add: resting_ok_def h_proj_def\<close>)
  moreover have "clh_phase CLHLockInit p = Out" for p by (rule clh.init_out)
  ultimately show "hs_inv l" using so unfolding hs_inv_def s(2) by (auto intro: reach.reach_init)
  show "hs_abs l = aconf0 s0" using pc s(3) by (simp add: hs_abs_def aconf0_def hs_status_def cc_status_def fun_eq_iff)
qed

section \<open>Properties\<close>

lemma hsynch_linearization:
  fixes f :: "('x, 'r, 's) sfunc"
  assumes "hsynch_start m st ts ps n r x0 s0 = Some l0" and "distinct ps" "set ps = {..<unat n}" and "pools_suffice l0"
  shows "linearization l0 hs_ok (hs_exec f) hs_obs f s0 hs_inv hs_abs"
  by (unfold_locales; (rule hs_inv_start [OF assms] hs_inv_exec hs_abs_exec; assumption?)?)

text \<open>C6. H-Synch is linearizable, for every topology and every order in which the threads initialise: provided that
  no NUMA node gets more threads than its pool has nodes, the calls and returns of \<^verbatim>\<open>HSynchApplyOp\<close> are those of an atomic object
  that runs \<^verbatim>\<open>sfunc\<close> once for every request, even though \<^verbatim>\<open>sfunc\<close> reads the object and writes it
  back in two steps.\<close>

theorem hsynch_linearizable:
  assumes "hsynch_start m st ts ps n r x0 s0 = Some l0" and "distinct ps" "set ps = {..<unat n}" and "pools_suffice l0"
    and "traces l0 hs_ok (hs_exec f) hs_obs l h"
  shows "linearizable f s0 h"
  using linearization.linearizable_traces [OF hsynch_linearization [OF assms(1-4)] assms(5)] .

section \<open>Safety and progress\<close>

lemma hs_reach_inv:
  fixes f :: "('x, 'r, 's) sfunc"
  assumes "hsynch_start m st ts ps n r x0 s0 = Some l0" and "distinct ps" "set ps = {..<unat n}" and "pools_suffice l0"
    and "reach l0 (act_step hs_ok (hs_exec f)) l"
  shows "hs_inv l"
  using linearization.reach_inv [OF hsynch_linearization [OF assms(1-4)] assms(5)] .

lemma hs_no_fault:
  assumes inv: "hs_inv l"
  shows "h_pc l p \<noteq> H_fault"
proof
  assume *: "h_pc l p = H_fault"
  then have "p < unat (h_nthreads l)" using hs_invD(6) [OF inv] by simp
  then obtain d where "cc_inv_at (group l (node_of_thread l p)) d (h_proj (node_of_thread l p) l)" using hs_invD(2) [OF inv] by blast
  from cc_no_fault [OF this, of p] * show False by (simp add: h_proj_pc)
qed

text \<open>Between \<^verbatim>\<open>CLHLock\<close> and \<^verbatim>\<open>CLHUnlock\<close> there is never more than one thread, of all the NUMA
  nodes together, and no thread follows a null pointer or takes a result for an argument.\<close>

lemma hsynch_exclusive:
  fixes f :: "('x, 'r, 's) sfunc"
  assumes "hsynch_start m st ts ps n r x0 s0 = Some l0" and "distinct ps" "set ps = {..<unat n}" and "pools_suffice l0"
    and "reach l0 (act_step hs_ok (hs_exec f)) l"
  shows "(lock_of (h_pc l p) = Holding \<and> lock_of (h_pc l q) = Holding \<longrightarrow> p = q) \<and> h_pc l p \<noteq> H_fault"
  using hs_reach_inv [OF assms] hs_one_holder hs_no_fault by blast

lemma h_step_moves:
  assumes "h_pc l p \<notin> {H_out, H_fault, H_spin, H_locking, H_unlocking}"
  shows "h_pc (HSynchApplyOp f p l) p \<noteq> h_pc l p"
  using assms by (cases "h_pc l p") (simp_all add: HSynchApplyOp.simps Let_def split_beta split: option.split slot.split)

lemma h_holder_moves:
  assumes "lock_of (h_pc l p) = Holding"
  shows "h_pc l p \<noteq> H_out" "HSynchApplyOp f p l \<noteq> l"
  using assms h_step_moves [of l p f] by (cases "h_pc l p"; fastforce)+

lemma h_lock_waiter_moves:
  assumes "h_pc l p \<in> {H_locking, H_unlocking}"
    and "CLHLockStruct.pc (clh_exec (Run p) (central_lock l)) p \<noteq> CLHLockStruct.pc (central_lock l) p"
  shows "HSynchApplyOp f p l \<noteq> l"
  using assms h_exec_lock(2,4) [of l p f] by auto

lemma h_leaver_moves:
  assumes "hs_inv l" and "h_pc l p = H_unlocking"
  shows "HSynchApplyOp f p l \<noteq> l"
proof (rule h_lock_waiter_moves)
  have "clh_phase (central_lock l) p = Leaving" using hs_invD(4) [OF assms(1)] assms(2) by simp
  then show "CLHLockStruct.pc (clh_exec (Run p) (central_lock l)) p \<noteq> CLHLockStruct.pc (central_lock l) p"
    by (cases "CLHLockStruct.pc (central_lock l) p") (auto simp: clh_phase.simps clh_exec.simps split: option.split)
qed (use assms in simp)

lemma lock_of_phase: "lock_of c = Leaving \<longleftrightarrow> c = H_unlocking" "lock_of c = Trying \<longleftrightarrow> c = H_locking"
  by (cases c; simp)+

text \<open>C23. There is no deadlock between the queues and the lock, provided that the initialisation stays
  within its arrays (\<open>hsynch_start\<close> gives a state, the threads initialise once each) and that no NUMA node
  gets more threads than its pool has nodes (\<open>pools_suffice\<close>): while some thread is inside an operation,
  some thread has a step that changes the state. The second condition can fail with more threads than
  processors under dense placement (HSynchStart); then threads may share a node and wait for it forever.\<close>

theorem hsynch_no_deadlock:
  fixes f :: "('x, 'r, 's) sfunc"
  assumes "hsynch_start m st ts ps n r x0 s0 = Some l0" and "distinct ps" "set ps = {..<unat n}" and "pools_suffice l0"
    and "reach l0 (act_step hs_ok (hs_exec f)) l" and q: "h_pc l q \<noteq> H_out"
  shows "\<exists>p. hs_ok l (Step p) \<and> hs_exec f (Step p) l \<noteq> l"
proof -
  note inv = hs_reach_inv [OF assms(1-5)]
  have nf: "h_pc l p \<noteq> H_fault" for p using hs_no_fault [OF inv] .
  have "\<exists>p. h_pc l p \<noteq> H_out \<and> HSynchApplyOp f p l \<noteq> l"
  proof -
    let ?g = "node_of_thread l q"
    obtain d where d: "cc_inv_at (group l ?g) d (h_proj ?g l)" using hs_invD(2,6) [OF inv] q by blast
    have "CCSynchStruct.pc (h_proj ?g l) q \<noteq> K_out" using q by (simp add: h_proj_pc)
    from cc_some_mover [OF d this] obtain p where
      p: "CCSynchStruct.pc (h_proj ?g l) p \<notin> {K_out, K_fault}" and
      sp: "CCSynchStruct.pc (h_proj ?g l) p = K_spin \<longrightarrow> \<not> CCSynchNode.locked (h_proj ?g l) (cur (h_proj ?g l) p)" by blast
    have g: "node_of_thread l p = ?g" and pc: "h_pc l p \<notin> {H_out, H_fault}" using p by (auto simp: h_proj_pc split: if_splits)
    consider "h_pc l p = H_spin" | "h_pc l p = H_locking" | "h_pc l p = H_unlocking"
      | "h_pc l p \<notin> {H_out, H_fault, H_spin, H_locking, H_unlocking}" using pc by blast
    then show ?thesis
    proof cases
      case 1
      then have "\<not> h_locked l ?g (h_cur l p)" using sp g by (simp add: h_proj_def)
      then have "h_pc (HSynchApplyOp f p l) p = H_check" using 1 g by (simp add: HSynchApplyOp.simps)
      with 1 show ?thesis by (metis h_pc.distinct)
    next
      case 2
      then have "clh_phase (central_lock l) p = Trying" using hs_invD(4) [OF inv] by simp
      from clh_some_mover [OF hs_invD(3) [OF inv] this] obtain t where
        "lock_of (h_pc l t) = Holding \<or> h_pc l t = H_unlocking \<or> h_pc l t = H_locking
          \<and> CLHLockStruct.pc (clh_exec (Run t) (central_lock l)) t \<noteq> CLHLockStruct.pc (central_lock l) t"
        unfolding hs_invD(4) [OF inv] lock_of_phase by blast
      then show ?thesis
      proof (elim disjE conjE)
        assume "lock_of (h_pc l t) = Holding"
        then show ?thesis using h_holder_moves by blast
      next
        assume "h_pc l t = H_unlocking"
        then show ?thesis using h_leaver_moves [OF inv] by force
      next
        assume "h_pc l t = H_locking"
          "CLHLockStruct.pc (clh_exec (Run t) (central_lock l)) t \<noteq> CLHLockStruct.pc (central_lock l) t"
        then show ?thesis using h_lock_waiter_moves [of l t f] by force
      qed
    next
      case 3
      then show ?thesis using h_leaver_moves [OF inv] pc by blast
    next
      case 4
      with h_step_moves [OF 4, of f] show ?thesis by (metis insertCI)
    qed
  qed
  then show ?thesis using hs_invD(6) [OF inv] nf by auto
qed

section \<open>The properties at work\<close>

text \<open>Two threads, each on a NUMA node of its own, add 5 and 7 to a counter; thread 1 waits for the lock of thread 0.\<close>

definition hs_machine :: machine where
  "hs_machine = \<lparr>online = 2, numa_support = False, task_nodes = 0, node_of_cpu = (\<lambda>_. 0)\<rparr>"

definition hs_demo_init :: "(nat, nat, nat) HSynchStruct" where
  "hs_demo_init = the (hsynch_start hs_machine threads_static (\<lambda>_. thread_static) [1, 0] 2 2 0 100)"

definition hs_demo :: "nat cc_act list" where
  "hs_demo = Invoke 0 5 # replicate 12 (Step 0) @ Invoke 1 7 # replicate 12 (Step 1)"

lemmas hs_eval = hs_demo_def hs_machine_def HSYNCH_HELP_FACTOR_def fetch_add_def replicate_num hsynch_start_def HSynchStructInit_def
  hsynch_topology_def HSYNCH_DEFAULT_NUMA_POLICY_def HSynchThreadStateInit_def hsynch_numa_node_def CLHLockInit_def Let_def

lemma hs_demo_start:
  "hsynch_start hs_machine threads_static (\<lambda>_. thread_static) [1, 0] 2 2 0 (100 :: nat) = Some hs_demo_init"
  by (simp add: hs_demo_init_def hs_eval word_le_nat_alt)

lemma hs_demo_init_eq: "hs_demo_init = \<lparr>h_next = (\<lambda>_ _. None), h_arg_ret = (\<lambda>_ _. Arg 0), h_npid = (\<lambda>_ _. 0),
    h_locked = (\<lambda>_ _. False), h_completed = (\<lambda>_ _. False), h_nthreads = 2, numa_node_size = 1, numa_nodes = 2,
    numa_policy = False, h_nodes = (\<lambda>_. False)(1 := True, 0 := True), node_indexes = (\<lambda>_. 0)(1 := 1, 0 := 1),
    h_tail = (\<lambda>_. None)(1 := Some 2, 0 := Some 2),
    central_lock = CLHLockInit, h_obj = 100, node_of_thread = (\<lambda>_. 0)(1 := 1, 0 := 0), h_mynext = (\<lambda>_. 0)(1 := 0, 0 := 0),
    h_next_node = (\<lambda>_. 0), h_cur = (\<lambda>_. 0), h_p = (\<lambda>_. 0), h_tmp_next = (\<lambda>_. 0), h_counter = (\<lambda>_. 0),
    h_arg = (\<lambda>_. 0), h_local = (\<lambda>_. 100), h_pc = (\<lambda>_. H_out), h_arr = (\<lambda>_. [])\<rparr>"
  by (simp add: hs_demo_init_def hs_eval word_le_nat_alt) (simp add: fun_eq_iff)

lemma hs_demo_suffices: "pools_suffice hs_demo_init" "distinct [1, 0 :: nat]" "set [1, 0] = {..<unat (2 :: u32)}"
  by (auto simp: hs_demo_init_eq pools_suffice_def)

definition hs_demo_state :: "(nat, nat, nat) HSynchStruct" where
  "hs_demo_state = the (run_acts hs_ok (hs_exec fetch_add) hs_demo hs_demo_init)"

lemma hs_demo_run: "run_acts hs_ok (hs_exec fetch_add) hs_demo hs_demo_init = Some hs_demo_state"
  by (simp add: hs_demo_state_def hs_demo_init_eq hs_eval HSynchApplyOp.simps clh_exec.simps clh_phase.simps)

lemma hs_demo_pcs: "h_pc hs_demo_state 0 = H_loop" "h_pc hs_demo_state 1 = H_locking"
  by (simp_all add: hs_demo_state_def hs_demo_init_eq hs_eval HSynchApplyOp.simps clh_exec.simps clh_phase.simps)

theorem hsynch_linearizable_witness:
  "linearizable fetch_add 100 [Call 0 5, Call 1 7, Ret 0 100, Ret 1 105]"
proof -
  obtain l where "run_trace hs_ok (hs_exec fetch_add) hs_obs (hs_demo @ replicate 11 (Step 0) @ replicate 12 (Step 1)) hs_demo_init
      = Some (l, [Call 0 5, Call 1 7, Ret 0 100, Ret 1 105])"
    by (simp add: hs_demo_init_eq hs_eval HSynchApplyOp.simps clh_exec.simps clh_phase.simps)
  from hsynch_linearizable [OF hs_demo_start hs_demo_suffices(2,3,1) run_trace_traces [OF this]] show ?thesis .
qed

lemma hsynch_exclusive_witness:
  "lock_of (h_pc hs_demo_state 0) = Holding \<and> lock_of (h_pc hs_demo_state 1) \<noteq> Holding"
proof -
  have "lock_of (h_pc hs_demo_state 0) = Holding" using hs_demo_pcs by simp
  with hsynch_exclusive [OF hs_demo_start hs_demo_suffices(2,3,1) run_acts_reachable [OF hs_demo_run], of 0 1]
  show ?thesis by (metis zero_neq_one)
qed

theorem hsynch_no_deadlock_witness:
  "\<exists>p. hs_ok hs_demo_state (Step p) \<and> hs_exec fetch_add (Step p) hs_demo_state \<noteq> hs_demo_state"
proof -
  have "h_pc hs_demo_state 1 \<noteq> H_out" using hs_demo_pcs by simp
  from hsynch_no_deadlock [OF hs_demo_start hs_demo_suffices(2,3,1) run_acts_reachable [OF hs_demo_run] this] show ?thesis .
qed

declare HSynchApplyOp.simps [simp] and CCSynchApplyOp.simps [simp] and clh_exec.simps [simp] and clh_phase.simps [simp]
  and clh_ok.simps [simp]

end
