(* ===== verification/HSynchStart.thy ===== *)
theory HSynchStart
  imports HSynchCorrect
begin

text \<open>
  When the initialisation of H-Synch (hsynch.c, \<^verbatim>\<open>HSynchStructInit\<close> and
  \<^verbatim>\<open>HSynchThreadStateInit\<close>) gives what its linearizability rests on: always when the library is
  built without libnuma; with libnuma a chosen number of regions can index beyond the arrays, and
  more threads than processors can exhaust the pool of a NUMA node.
\<close>

section \<open>When the pools suffice\<close>

text \<open>Without libnuma a thread goes to the NUMA node of its number; there are enough NUMA nodes.\<close>

lemma portable_topology:
  assumes "\<not> numa_support m" and n: "0 < n"
  shows "\<exists>pol size k. hsynch_topology m st n r = Some (pol, size, k) \<and> 0 < unat size
           \<and> (\<forall>p < unat n. p div unat size < unat k)"
proof -
  define r' where "r' = (if r > n then n else r)"
  have r': "unat r' \<le> unat n" by (auto simp: r'_def word_le_nat_alt word_less_nat_alt)
  show ?thesis
  proof (cases "r' = 0")
    case True
    define k where "k = n div 8 + (if n mod 8 = 0 then 0 else 1)"
    have un: "unat (n div 8) = unat n div 8" "unat (n mod 8) = unat n mod 8" by (simp_all add: unat_div unat_mod)
    have lt: "unat n < 2 ^ 32" by (rule unat_u32_less)
    have k: "unat k = unat n div 8 + (if unat n mod 8 = 0 then 0 else 1)"
    proof (cases "n mod 8 = 0")
      case True
      then have "unat n mod 8 = 0" using un(2) by simp
      with True show ?thesis by (simp add: k_def un(1))
    next
      case False
      then have "unat n mod 8 \<noteq> 0" using un(2) by (metis unat_eq_zero)
      moreover have "unat n div 8 < 2 ^ 29" using lt by (intro less_mult_imp_div_less) simp
      then have "unat (n div 8) + 1 < 2 ^ 32" using un(1) by simp
      ultimately show ?thesis using False un(1) by (simp add: k_def unat_word_ariths)
    qed
    have "unat n \<le> unat k * 8"
      using div_mult_mod_eq [of "unat n" 8] mod_less_divisor [of 8 "unat n"] unfolding k by (cases "unat n mod 8 = 0") simp_all
    then have "p div 8 < unat k" if "p < unat n" for p using that by (intro less_mult_imp_div_less) simp
    moreover from this [of 0] have "k \<noteq> 0" using n by (auto simp: word_less_nat_alt)
    ultimately show ?thesis using assms(1) True
      by (intro exI [of _ True] exI [of _ 8] exI [of _ k]) (simp add: hsynch_topology_def Let_def HSYNCH_DEFAULT_NUMA_NODE_SIZE_def HSYNCH_DEFAULT_NUMA_POLICY_def
          r'_def [symmetric] k_def [symmetric])
  next
    case False
    then have pos: "0 < unat r'" by (metis gr0I unat_eq_zero)
    define q where "q = unat n div unat r'"
    have q: "0 < q" using r' pos by (simp add: q_def div_greater_zero_iff)
    have nr: "unat n = q * unat r' + unat n mod unat r'" by (simp add: q_def)
    define size where "size = (if n mod r' \<noteq> 0 then n div r' * 2 else n div r')"
    have un: "unat (n div r') = q" "unat (n mod r') = unat n mod unat r'" by (simp_all add: unat_div unat_mod q_def)
    have size: "unat size = (if unat n mod unat r' = 0 then q else q * 2)"
    proof (cases "n mod r' = 0")
      case True
      then show ?thesis using un by (simp add: size_def)
    next
      case False
      then have m: "unat n mod unat r' \<noteq> 0" using un(2) by (metis unat_eq_zero)
      then have "unat r' \<noteq> 1" by auto
      then have "2 \<le> unat r'" using pos by linarith
      then have "q * 2 \<le> unat n" using nr by (metis mult_le_mono2 le_add1 order_trans)
      then have "unat (n div r') * 2 < 2 ^ 32" using un(1) unat_u32_less [of n] by simp
      then have "unat (n div r' * 2) = q * 2" using un(1) by (simp add: unat_word_ariths)
      with False m show ?thesis by (simp add: size_def)
    qed
    have "p div unat size < unat r'" if p: "p < unat n" for p
    proof -
      have "unat n \<le> unat size * unat r'"
      proof (cases "unat n mod unat r' = 0")
        case True
        then show ?thesis using size nr by simp
      next
        case False
        have "unat n mod unat r' \<le> q * unat r'" using q pos mod_less_divisor [OF pos, of "unat n"]
          by (metis One_nat_def Suc_leI less_imp_le_nat mult.left_neutral mult_le_mono1 order_trans)
        then show ?thesis using size nr False by (simp add: algebra_simps)
      qed
      with p show ?thesis using q size by (intro less_mult_imp_div_less) (simp add: mult.commute)
    qed
    then show ?thesis using assms(1) False q size
      by (auto simp: hsynch_topology_def Let_def HSYNCH_DEFAULT_NUMA_POLICY_def r'_def [symmetric] size_def [symmetric])
  qed
qed

text \<open>How many nodes each pool has handed out.\<close>

lemma numa_node_cong:
  "\<lbrakk>numa_node_size l' = numa_node_size l; numa_policy l' = numa_policy l; numa_nodes l' = numa_nodes l;
    h_nthreads l' = h_nthreads l\<rbrakk> \<Longrightarrow> hsynch_numa_node m st t pid l' = hsynch_numa_node m st t pid l"
  by (simp add: hsynch_numa_node_def Let_def)

lemma init_thread_result:
  assumes "hsynch_numa_node m st t (of_nat p) l = Some w" and "0 \<le> sint w" "w < numa_nodes l"
  shows "\<exists>l'. HSynchThreadStateInit m st t p l = Some l' \<and> node_of_thread l' = (node_of_thread l)(p := unat w)
           \<and> node_indexes l' = (node_indexes l)(unat w := node_indexes l (unat w) + 1)"
proof -
  have c: "(sint w < 0 \<or> w \<ge> numa_nodes l) = False" using assms(2,3) by auto
  show ?thesis by (cases "h_nodes l (unat w)"; cases "h_tail l (unat w) = None";
      simp add: HSynchThreadStateInit_def assms(1) c Let_def)
qed

lemma init_threads_result:
  "\<lbrakk>\<forall>p \<in> set ps. \<exists>u. hsynch_numa_node m st (ts p) (of_nat p) l = Some u \<and> 0 \<le> sint u \<and> u < numa_nodes l \<and> unat u = w p;
    distinct ps\<rbrakk> \<Longrightarrow>
   \<exists>l'. hsynch_threads m st ts ps l = Some l' \<and> (\<forall>p \<in> set ps. node_of_thread l' p = w p)
     \<and> (\<forall>p. p \<notin> set ps \<longrightarrow> node_of_thread l' p = node_of_thread l p)
     \<and> (\<forall>g. node_indexes l' g = node_indexes l g + card {p \<in> set ps. w p = g})
     \<and> numa_nodes l' = numa_nodes l \<and> numa_node_size l' = numa_node_size l"
proof (induction ps arbitrary: l)
  case (Cons p ps)
  obtain u where u: "hsynch_numa_node m st (ts p) (of_nat p) l = Some u" "0 \<le> sint u" "u < numa_nodes l" "unat u = w p"
    using Cons.prems(1) by auto
  from init_thread_result [OF u(1-3)] obtain k where
    k: "HSynchThreadStateInit m st (ts p) p l = Some k" "node_of_thread k = (node_of_thread l)(p := w p)"
      "node_indexes k = (node_indexes l)(w p := node_indexes l (w p) + 1)" unfolding u(4) by blast
  note kk = init_keeps [OF k(1)]
  have "\<forall>q \<in> set ps. \<exists>u. hsynch_numa_node m st (ts q) (of_nat q) k = Some u \<and> 0 \<le> sint u \<and> u < numa_nodes k \<and> unat u = w q"
    using Cons.prems(1) numa_node_cong [OF kk(2,4,3,1)] kk(3) by simp
  from Cons.IH [OF this] Cons.prems(2) obtain l' where l': "hsynch_threads m st ts ps k = Some l'"
    "\<forall>p \<in> set ps. node_of_thread l' p = w p" "\<forall>p. p \<notin> set ps \<longrightarrow> node_of_thread l' p = node_of_thread k p"
    "\<forall>g. node_indexes l' g = node_indexes k g + card {p \<in> set ps. w p = g}" "numa_nodes l' = numa_nodes k"
    "numa_node_size l' = numa_node_size k" by auto
  have "card {q \<in> set (p # ps). w q = g} = (if w p = g then 1 else 0) + card {q \<in> set ps. w q = g}" for g
  proof -
    have "{q \<in> set (p # ps). w q = g} = (if w p = g then insert p {q \<in> set ps. w q = g} else {q \<in> set ps. w q = g})" by auto
    then show ?thesis using Cons.prems(2) by simp
  qed
  then have "node_indexes l' g = node_indexes l g + card {q \<in> set (p # ps). w q = g}" for g
    using l'(4) k(3) by simp
  moreover have "\<forall>q \<in> set (p # ps). node_of_thread l' q = w q" using l'(2,3) k(2) Cons.prems(2) by simp
  moreover have "\<forall>q. q \<notin> set (p # ps) \<longrightarrow> node_of_thread l' q = node_of_thread l q" using l'(3) k(2) by simp
  ultimately show ?case using k(1) l'(1,5,6) kk(2,3) by simp
qed simp

text \<open>C24. Without libnuma every number of threads and every number of NUMA regions that the caller asks
  for can be initialised, in every order: thread \<open>p\<close> goes to NUMA node \<open>p div numa_node_size\<close>, no array is accessed beyond
  its end, and every pool has a node for each of its threads besides the one on \<^verbatim>\<open>Tail\<close>.\<close>

theorem hsynch_portable_start:
  assumes "\<not> numa_support m" and "0 < n" and "unat n \<le> 2 ^ 31" and ps: "distinct ps" "set ps = {..<unat n}"
  shows "\<exists>l :: ('x, 'r, 's) HSynchStruct. hsynch_start m st ts ps n r x0 s0 = Some l \<and> pools_suffice l
           \<and> (\<forall>p < unat n. node_of_thread l p = p div unat (numa_node_size l))"
proof -
  from portable_topology [OF assms(1,2)] obtain pol size k where
    t: "hsynch_topology m st n r = Some (pol, size, k)" and size: "0 < unat size" and k: "\<forall>p < unat n. p div unat size < unat k"
    by blast
  then obtain l :: "('x, 'r, 's) HSynchStruct" where l: "HSynchStructInit m st n r x0 s0 = Some l" "numa_node_size l = size" "numa_nodes l = k"
    "node_indexes l = (\<lambda>_. 0)" by (simp add: HSynchStructInit_def)
  have "\<exists>u. hsynch_numa_node m st (ts p) (of_nat p) l = Some u \<and> 0 \<le> sint u \<and> u < numa_nodes l \<and> unat u = p div unat size"
    if p: "p < unat n" for p
  proof -
    have "unat (of_nat p :: u32) = p" using p unat_u32_less [of n] by (simp add: unat_of_nat)
    then have u: "unat (of_nat p div size :: u32) = p div unat size" by (simp add: unat_div)
    have "p div unat size < 2 ^ 31" using p assms(3) by (meson div_le_dividend le_less_trans less_le_trans)
    then have "0 \<le> sint (of_nat p div size :: u32)" using u sint_u32 by simp
    moreover have "of_nat p div size < k" using k p u by (simp add: word_less_nat_alt)
    ultimately show ?thesis using assms(1) size l(2,3) u by (auto simp: hsynch_numa_node_def)
  qed
  then have "\<forall>p \<in> set ps. \<exists>u. hsynch_numa_node m st (ts p) (of_nat p) l = Some u \<and> 0 \<le> sint u \<and> u < numa_nodes l
      \<and> unat u = p div unat size" using ps(2) by simp
  from init_threads_result [OF this ps(1)] l obtain l' :: "('x, 'r, 's) HSynchStruct" where
    l': "hsynch_threads m st ts ps l = Some l'" "\<forall>p \<in> set ps. node_of_thread l' p = p div unat size"
    "\<forall>g. node_indexes l' g = card {p \<in> set ps. p div unat size = g}" "numa_node_size l' = size" by auto
  have "card {p \<in> set ps. p div unat size = g} \<le> unat size" for g
  proof -
    have "{p \<in> set ps. p div unat size = g} \<subseteq> {g * unat size..<g * unat size + unat size}"
    proof
      fix p assume "p \<in> {p \<in> set ps. p div unat size = g}"
      then have "p = g * unat size + p mod unat size" using div_mult_mod_eq [of p "unat size"] by simp
      then show "p \<in> {g * unat size..<g * unat size + unat size}" using mod_less_divisor [OF size, of p] by simp
    qed
    then have "card {p \<in> set ps. p div unat size = g} \<le> card {g * unat size..<g * unat size + unat size}" by (rule card_mono [rotated]) simp
    then show ?thesis by simp
  qed
  then have "pools_suffice l'" using l'(3,4) by (simp add: pools_suffice_def le_SucI)
  with l' l(1) ps(2) show ?thesis by (intro exI [of _ l']) (auto simp: hsynch_start_def)
qed

theorem hsynch_portable_start_witness:
  "\<exists>l. hsynch_start hs_machine threads_static (\<lambda>_. thread_static) [1, 0] 2 2 (0 :: nat) (100 :: nat) = Some (l :: (nat, nat, nat) HSynchStruct)
     \<and> pools_suffice l"
  using hsynch_portable_start [OF _ _ _ hs_demo_suffices(2,3), of hs_machine threads_static "\<lambda>_. thread_static" 2 0 100]
  by (auto simp: hs_machine_def)

section \<open>Where the initialisation goes wrong\<close>

lemma sdiv_u32:
  fixes a b :: u32
  assumes "unat a < 2 ^ 31" and "unat b < 2 ^ 31" and "0 < unat b"
  shows "unat (word_of_int (sint a sdiv sint b) :: u32) = unat a div unat b"
proof -
  have "sint a sdiv sint b = int (unat a div unat b)"
    using assms(3) unfolding sint_u32 [OF assms(1)] sint_u32 [OF assms(2)] signed_divide_int_def
    by (cases "unat a = 0") (auto simp: zdiv_int)
  moreover have "unat a div unat b < 2 ^ 32" using unat_u32_less [of a] by (meson div_le_dividend le_less_trans)
  ultimately show ?thesis by (simp add: unat_of_nat)
qed

text \<open>C25. With libnuma, on a machine whose first and middle processor belong to one NUMA node, a caller
  that asks for more regions than there are NUMA nodes gets threads with an index beyond the arrays \<^verbatim>\<open>nodes\<close>, \<^verbatim>\<open>Tail\<close> and
  \<^verbatim>\<open>node_indexes\<close>: the core is divided by \<^verbatim>\<open>nthreads / numa_nodes\<close>, and nothing keeps it below \<^verbatim>\<open>nthreads\<close>.\<close>

theorem hsynch_region_out_of_bounds:
  assumes "HSynchStructInit m st n r x0 s0 = Some l" and "numa_support m" and r: "0 < r" "r \<le> n" "task_nodes m < r"
    and "smt m (cores m st)" "1 < cores m st" and "unat n < 2 ^ 31" "unat (preferred_core t) < 2 ^ 31"
    and core: "unat r * (unat n div unat r) \<le> unat (preferred_core t)"
  shows "HSynchThreadStateInit m st t p l = None"
proof -
  have r0: "r \<noteq> 0" "0 < unat r" "unat r \<le> unat n" using r by (auto simp: word_less_nat_alt word_le_nat_alt)
  have l: "numa_policy l = False" "numa_nodes l = r" "h_nthreads l = n"
    using assms(1) r0 r(2) by (auto simp: HSynchStructInit_def hsynch_topology_def Let_def HSYNCH_DEFAULT_NUMA_POLICY_def split: if_splits)
  have a: "task_nodes m div r = 0" using r(3) by (simp add: word_arith_nat_div word_less_nat_alt)
  have q: "unat (n div r) = unat n div unat r" "0 < unat n div unat r" using r0 by (simp_all add: unat_div div_greater_zero_iff)
  then have q0: "n div r \<noteq> 0" by (metis less_irrefl unat_0)
  define w :: u32 where "w = word_of_int (sint (preferred_core t) sdiv sint (n div r))"
  have "unat (n div r) < 2 ^ 31" using q(1) assms(8) by (metis div_le_dividend le_less_trans)
  from sdiv_u32 [OF assms(9) this] q have "unat w = unat (preferred_core t) div (unat n div unat r)" by (simp add: w_def)
  then have "unat r \<le> unat w" using core q(2) by (simp add: less_eq_div_iff_mult_less_eq)
  then have "r \<le> w" by (simp add: word_le_nat_alt)
  moreover have "hsynch_numa_node m st t (of_nat p) l = Some w"
    using assms(2,6,7) l r0 a q0 by (simp add: hsynch_numa_node_def w_def)
  ultimately show ?thesis using l(2) by (simp add: HSynchThreadStateInit_def)
qed

text \<open>Eight processors with hyper-threading on one NUMA node, five threads, two regions: the second thread is placed on
  core 4 by default.\<close>

theorem hsynch_region_out_of_bounds_witness:
  "\<exists>l t a. HSynchStructInit (demo_machine 8 1) (threads_static\<lparr>ncores := 8\<rparr>) 5 2 (0 :: nat) (0 :: nat) = Some l
     \<and> synchThreadPin (demo_machine 8 1) (threads_static\<lparr>ncores := 8\<rparr>) (\<lambda>_. 0) 1 thread_static = Some (a, t)
     \<and> HSynchThreadStateInit (demo_machine 8 1) (threads_static\<lparr>ncores := 8\<rparr>) t 1 (l :: (nat, nat, nat) HSynchStruct) = None"
proof -
  let ?m = "demo_machine 8 1" and ?st = "threads_static\<lparr>ncores := 8\<rparr>"
  obtain l :: "(nat, nat, nat) HSynchStruct" where l: "HSynchStructInit ?m ?st 5 2 0 0 = Some l"
    by (simp add: HSynchStructInit_def hsynch_topology_def HSYNCH_DEFAULT_NUMA_POLICY_def)
  let ?t = "thread_static\<lparr>preferred_core := 4, preferred_numa_node := 0\<rparr>"
  have pin: "synchThreadPin ?m ?st (\<lambda>_. 0) 1 thread_static = Some (0, ?t)"
    by (simp add: synchThreadPin_def synchPreferredCoreOfThread_def synchPreferredNumaNodeOfThread_def demo_machine_def
        threads_static_def placement_defs smt_def synchGetNCores_def Let_def)
  have "HSynchThreadStateInit ?m ?st ?t 1 l = None"
    by (rule hsynch_region_out_of_bounds [OF l])
      (simp_all add: demo_machine_def smt_def synchGetNCores_def threads_static_def)
  with l pin show ?thesis by blast
qed


text \<open>Two NUMA nodes of eight processors, dense placement, 24 threads.\<close>

definition dense_machine :: machine where
  "dense_machine = \<lparr>online = 16, numa_support = True, task_nodes = 2, node_of_cpu = (\<lambda>c. if c < 8 then 0 else 1)\<rparr>"

definition dense_threads :: threads where
  "dense_threads = threads_static\<lparr>ncores := 16, schedule_policy := SYNCH_THREAD_PLACEMENT_NUMA_DENSE\<rparr>"

definition dense_pin :: "tid \<Rightarrow> thread_local" where
  "dense_pin p = snd (the (synchThreadPin dense_machine dense_threads (\<lambda>_. 0) (of_nat p mod cores dense_machine dense_threads) thread_static))"

lemma u32_mod_mod: "(x :: u32) mod y mod y = x mod y"
  by (simp add: word_unat_eq_iff unat_mod)

lemma dense_pinned: "preferred_core (dense_pin p) = of_nat p mod 16 \<and> preferred_numa_node (dense_pin p) = of_nat p mod 16 div 8"
  by (simp add: dense_pin_def synchThreadPin_def synchPreferredCoreOfThread_def synchPreferredNumaNodeOfThread_def dense_machine_def
        dense_threads_def threads_static_def placement_defs smt_def synchGetNCores_def Let_def u32_mod_mod)

text \<open>C26. When there are more threads than processors, dense placement overflows the pool of the first
  NUMA node: 24 threads on two NUMA nodes of eight processors put 16 threads there, and its pool has 14 nodes, the last of
  which is already on \<^verbatim>\<open>Tail\<close>.\<close>

theorem hsynch_dense_pool_overflow:
  "\<exists>l :: ('x, 'r, 's) HSynchStruct. hsynch_start dense_machine dense_threads dense_pin [0..<24] 24 0 x0 s0 = Some l
     \<and> unat (numa_node_size l) + 2 = 14 \<and> node_indexes l 0 = 16 \<and> \<not> pools_suffice l"
proof -
  let ?m = dense_machine and ?st = dense_threads
  obtain l :: "('x, 'r, 's) HSynchStruct" where l: "HSynchStructInit ?m ?st 24 0 x0 s0 = Some l" "numa_node_size l = 12"
    "numa_nodes l = 2" "node_indexes l = (\<lambda>_. 0)" "numa_policy l"
    by (simp add: HSynchStructInit_def hsynch_topology_def HSYNCH_DEFAULT_NUMA_POLICY_def dense_machine_def dense_threads_def
        synchGetNCores_def threads_static_def)
  have nd: "hsynch_numa_node ?m ?st (dense_pin p) (of_nat p) l = Some (of_nat p mod 16 div 8)"
    "unat (of_nat p mod 16 div 8 :: u32) = p mod 16 div 8" if "p < 24" for p
  proof -
    have u: "unat (of_nat p :: u32) = p" using that by (simp add: unat_of_nat)
    then show u8: "unat (of_nat p mod 16 div 8 :: u32) = p mod 16 div 8" by (simp add: unat_div unat_mod)
    have m1: "unat (- 1 :: u32) = 4294967295" by (simp add: unsigned_minus_1_eq_mask mask_eq_exp_minus_1)
    have lt: "p mod 16 < 16" "p mod 16 div 8 < 2" by (simp, presburger)
    have "unat (of_nat p mod 16 :: u32) \<noteq> unat (- 1 :: u32)" "unat (of_nat p mod 16 div 8 :: u32) \<noteq> unat (- 1 :: u32)"
      using u u8 lt unfolding m1 by (simp_all add: unat_mod)
    then have "of_nat p mod 16 \<noteq> (- 1 :: u32)" "of_nat p mod 16 div 8 \<noteq> (- 1 :: u32)" by metis+
    then show "hsynch_numa_node ?m ?st (dense_pin p) (of_nat p) l = Some (of_nat p mod 16 div 8)"
      using l(5) by (simp add: hsynch_numa_node_def dense_pinned dense_machine_def)
  qed
  have "\<forall>p \<in> set [0..<24]. \<exists>u. hsynch_numa_node ?m ?st (dense_pin p) (of_nat p) l = Some u \<and> 0 \<le> sint u
      \<and> u < numa_nodes l \<and> unat u = p mod 16 div 8"
  proof
    fix p :: nat assume "p \<in> set [0..<24]"
    then have p: "p < 24" by simp
    have "p mod 16 div 8 < 2" by presburger
    then have "(of_nat p mod 16 div 8 :: u32) < 2" "sint (of_nat p mod 16 div 8 :: u32) = int (p mod 16 div 8)"
      using nd(2) [OF p] sint_u32 [of "of_nat p mod 16 div 8"] by (simp_all add: word_less_nat_alt)
    with nd [OF p] l(3) show "\<exists>u. hsynch_numa_node ?m ?st (dense_pin p) (of_nat p) l = Some u \<and> 0 \<le> sint u
      \<and> u < numa_nodes l \<and> unat u = p mod 16 div 8" by simp
  qed
  from init_threads_result [OF this] l obtain l' :: "('x, 'r, 's) HSynchStruct" where
    l': "hsynch_threads ?m ?st dense_pin [0..<24] l = Some l'" "numa_nodes l' = 2" "numa_node_size l' = 12"
    "node_indexes l' 0 = card {p \<in> set [0..<24]. p mod 16 div 8 = 0}" by auto
  have "{p \<in> set [0..<24]. p mod 16 div 8 = 0} = {..<8} \<union> {16..<24 :: nat}" by (auto; presburger)
  moreover have "card ({..<8} \<union> {16..<24 :: nat}) = 16" by (subst card_Un_disjoint) auto
  ultimately have "node_indexes l' 0 = 16" using l'(4) by simp
  moreover from this have "\<not> pools_suffice l'" using l'(2,3) by (auto simp: pools_suffice_def intro!: exI [of _ 0])
  ultimately show ?thesis using l(1) l'(1,3) by (intro exI [of _ l']) (simp add: hsynch_start_def)
qed

end
