(* ===== verification/Sim.thy ===== *)
theory Sim
  imports Tvec Linearizability
begin

unbundle bit_operations_syntax

text \<open>
  The wait-free universal construction P-Sim, libconcurrent/concurrent/sim.c. A thread announces its
  request, toggles its bit on the board \<^verbatim>\<open>a_toggles\<close> by one atomic addition and tries twice to publish
  a copy of the object on which it has run every announced request; the pointer \<^verbatim>\<open>sp\<close> to the current
  copy is swung by compare-and-swap. A copy is made word by word while other threads may
  write the record that is copied, so torn copies are part of the model.
  A step is one access to shared memory or to a record of the pool, which late readers may still look at.
  \<^verbatim>\<open>memcpy\<close> is modelled in ascending order of words. Waiting (lines 68 to 78) has no effect on shared
  memory and is one step.
\<close>

section \<open>State\<close>

text \<open>\<^verbatim>\<open>ret\<close> and the cells of \<^verbatim>\<open>applied\<close> lie behind the record, in \<^verbatim>\<open>__flex\<close>.\<close>

record ('r, 's) SimObjectState =
  ret :: "nat \<Rightarrow> 'r"
  applied :: ToggleVector
  state :: 's

record pointer_t =
  seq :: nat
  index :: nat

record SimThreadState =
  mask :: ToggleVector
  toggle :: ToggleVector
  my_bit :: ToggleVector
  diffs :: ToggleVector
  l_toggles :: ToggleVector
  local_index :: nat
  backoff :: int

text \<open>A word of an object record, as \<^verbatim>\<open>SimStateCopy\<close> copies it: the state, a cell of \<^verbatim>\<open>applied\<close> or
  a return value.\<close>

datatype ('r, 's) mword = W_state 's | W_cell u64 | W_ret 'r

datatype ('x, 'r, 's) sim_pc =
    S_out
  | S_announce  \<comment> \<open>\<^verbatim>\<open>announce[pid] = arg\<close>\<close>
  | S_add       \<comment> \<open>\<^verbatim>\<open>TVEC_ATOMIC_ADD_BANK(&a_toggles, &toggle, mybank)\<close>, with lines 62 to 65 before it\<close>
  | S_wait      \<comment> \<open>lines 68 to 78\<close>
  | S_sp        \<comment> \<open>\<^verbatim>\<open>j < 2; old_sp = sp\<close>\<close>
  | S_bank      \<comment> \<open>lines 83 to 87\<close>
  | S_load nat  \<comment> \<open>\<^verbatim>\<open>SimStateCopy\<close>: load of a word\<close>
  | S_store nat "('r, 's) mword" \<comment> \<open>\<^verbatim>\<open>SimStateCopy\<close>: store of a word\<close>
  | S_toggles nat \<comment> \<open>\<^verbatim>\<open>TVEC_COPY(l_toggles, &a_toggles)\<close>: one bank\<close>
  | S_check     \<comment> \<open>\<^verbatim>\<open>old_sp.raw_data != sp.raw_data\<close>, line 91; \<^verbatim>\<open>diffs\<close>, line 93\<close>
  | S_own       \<comment> \<open>\<^verbatim>\<open>sfunc(&lsp_data->state, arg, pid)\<close>\<close>
  | S_own_ret 'r \<comment> \<open>\<^verbatim>\<open>lsp_data->ret[pid] =\<close>; \<^verbatim>\<open>TVEC_REVERSE_BIT(diffs, pid)\<close>\<close>
  | S_loop nat  \<comment> \<open>the loops of lines 100 and 106, with lines 109 to 111\<close>
  | S_arg nat tid \<comment> \<open>load of \<^verbatim>\<open>announce[proc_id]\<close>\<close>
  | S_help nat tid 'x \<comment> \<open>\<^verbatim>\<open>sfunc(&lsp_data->state, announce[proc_id], proc_id)\<close>\<close>
  | S_help_ret nat tid 'r \<comment> \<open>\<^verbatim>\<open>lsp_data->ret[proc_id] =\<close>\<close>
  | S_applied nat \<comment> \<open>\<^verbatim>\<open>TVEC_COPY(&lsp_data->applied, l_toggles)\<close>: one bank\<close>
  | S_test      \<comment> \<open>\<^verbatim>\<open>old_sp.raw_data == sp.raw_data\<close>, line 121\<close>
  | S_cas       \<comment> \<open>\<^verbatim>\<open>synchCAS64(&sp, old_sp.raw_data, new_sp.raw_data)\<close>\<close>
  | S_ret       \<comment> \<open>\<^verbatim>\<open>return lsp_data->ret[pid]\<close>\<close>
  | S_final     \<comment> \<open>line 128, load of \<^verbatim>\<open>sp\<close>\<close>
  | S_final_ret nat \<comment> \<open>line 128, load of \<^verbatim>\<open>ret[pid]\<close>\<close>

record ('x, 'r, 's) SimStruct =
  sp :: pointer_t
  a_toggles :: ToggleVector
  pool :: "nat \<Rightarrow> ('r, 's) SimObjectState"
  announce :: "nat \<Rightarrow> 'x"
  nthreads :: nat
  MAX_BACK :: int
  \<comment> \<open>per thread\<close>
  th :: "tid \<Rightarrow> SimThreadState"
  arg :: "tid \<Rightarrow> 'x"
  old_sp :: "tid \<Rightarrow> pointer_t"
  lsp_data :: "tid \<Rightarrow> nat"
  tries :: "tid \<Rightarrow> nat" \<comment> \<open>\<^verbatim>\<open>j\<close>\<close>
  pc :: "tid \<Rightarrow> ('x, 'r, 's) sim_pc"
  \<comment> \<open>ghosts: the records published so far, by sequence number; for every thread, the sequence number
      after the one at which it toggled last, and the one at which its last request was published\<close>
  hist :: "nat \<Rightarrow> nat"
  tnext :: "tid \<Rightarrow> nat"
  aseq :: "tid \<Rightarrow> nat"

text \<open>\<^verbatim>\<open>_SIM_LOCAL_POOL_SIZE_\<close>, the number of records of every thread; the steps take it as a parameter \<open>K\<close>,
  since sim.h asks the user to choose it.\<close>

definition SIM_LOCAL_POOL_SIZE :: nat where "SIM_LOCAL_POOL_SIZE = 4"

text \<open>The bit fields of \<^verbatim>\<open>pointer_t\<close> cut the values they are given.\<close>

definition mk_pointer :: "nat \<Rightarrow> nat \<Rightarrow> pointer_t" where
  "mk_pointer s i = \<lparr>seq = s mod 2 ^ 40, index = i mod 2 ^ 24\<rparr>"

text \<open>Memory is not cleared: \<open>g\<close>, \<open>m\<close> and \<open>x0\<close> are what is in it; \<open>s0\<close> is the object's initial
  value.\<close>

definition synchSimStructInit :: "nat \<Rightarrow> nat \<Rightarrow> int \<Rightarrow> (nat \<Rightarrow> u64) \<Rightarrow> (nat \<Rightarrow> ('r, 's) SimObjectState) \<Rightarrow> (tid \<Rightarrow> 'x) \<Rightarrow> 's \<Rightarrow>
    (tid \<Rightarrow> SimThreadState) \<Rightarrow> ('x, 'r, 's) SimStruct" where
  "synchSimStructInit K n max_backoff g m x0 s0 ths =
     (let blk = map g [0..<TVEC_CELLS n];
          first = K * n;
          p1 = (\<lambda>i. if i < first + 1 then (m i)\<lparr>applied := TVEC_INIT_AT n blk\<rparr> else m i);
          p2 = p1(first := (p1 first)\<lparr>state := s0, applied := TVEC_SET_ZERO (applied (p1 first))\<rparr>)
      in \<lparr>sp = mk_pointer 0 first, a_toggles = TVEC_INIT_AT n blk, pool = p2, announce = x0, nthreads = n,
          MAX_BACK = max_backoff * 100, th = ths, arg = x0, old_sp = (\<lambda>_. mk_pointer 0 0), lsp_data = (\<lambda>_. 0),
          tries = (\<lambda>_. 0), pc = (\<lambda>_. S_out), hist = (\<lambda>_. first), tnext = (\<lambda>_. 0), aseq = (\<lambda>_. 0)\<rparr>)"

definition SimThreadStateInit :: "(nat \<Rightarrow> u64) \<Rightarrow> nat \<Rightarrow> tid \<Rightarrow> SimThreadState" where
  "SimThreadStateInit g n pid =
     (let v = TVEC_INIT (\<lambda>bytes. map g [0..<bytes div 8]) n; mk = TVEC_SET_BIT v pid
      in \<lparr>mask = mk, toggle = TVEC_NEGATIVE v mk, my_bit = TVEC_REVERSE_BIT v pid, diffs = v, l_toggles = v,
          local_index = 0, backoff = 1\<rparr>)"

definition SimInit :: "nat \<Rightarrow> nat \<Rightarrow> int \<Rightarrow> (nat \<Rightarrow> u64) \<Rightarrow> (nat \<Rightarrow> ('r, 's) SimObjectState) \<Rightarrow> (tid \<Rightarrow> 'x) \<Rightarrow> 's \<Rightarrow>
    ('x, 'r, 's) SimStruct" where
  "SimInit K n max_backoff g m x0 s0 = synchSimStructInit K n max_backoff g m x0 s0 (SimThreadStateInit g n)"

section \<open>Steps\<close>

abbreviation goto :: "tid \<Rightarrow> ('x, 'r, 's) sim_pc \<Rightarrow> ('x, 'r, 's) SimStruct \<Rightarrow> ('x, 'r, 's) SimStruct" where
  "goto p c l \<equiv> l\<lparr>pc := (pc l)(p := c)\<rparr>"

abbreviation set_th :: "tid \<Rightarrow> SimThreadState \<Rightarrow> ('x, 'r, 's) SimStruct \<Rightarrow> ('x, 'r, 's) SimStruct" where
  "set_th p t l \<equiv> l\<lparr>th := (th l)(p := t)\<rparr>"

abbreviation set_rec :: "tid \<Rightarrow> ('r, 's) SimObjectState \<Rightarrow> ('x, 'r, 's) SimStruct \<Rightarrow> ('x, 'r, 's) SimStruct" where
  "set_rec p r l \<equiv> l\<lparr>pool := (pool l)(lsp_data l p := r)\<rparr>"

definition load_word :: "nat \<Rightarrow> ('r, 's) SimObjectState \<Rightarrow> nat \<Rightarrow> ('r, 's) mword" where
  "load_word n r k = (if k = 0 then W_state (state r)
     else if k \<le> TVEC_CELLS n then W_cell (cell (applied r) ! (k - 1)) else W_ret (ret r (k - 1 - TVEC_CELLS n)))"

definition store_word :: "nat \<Rightarrow> ('r, 's) SimObjectState \<Rightarrow> nat \<Rightarrow> ('r, 's) mword \<Rightarrow> ('r, 's) SimObjectState" where
  "store_word n r k w = (case w of
       W_state s \<Rightarrow> r\<lparr>state := s\<rparr>
     | W_cell c \<Rightarrow> r\<lparr>applied := (applied r)\<lparr>cell := (cell (applied r))[k - 1 := c]\<rparr>\<rparr>
     | W_ret v \<Rightarrow> r\<lparr>ret := (ret r)(k - 1 - TVEC_CELLS n := v)\<rparr>)"

definition state_words :: "nat \<Rightarrow> nat" where
  "state_words n = 1 + TVEC_CELLS n + n"

fun SimStateCopy :: "tid \<Rightarrow> ('x, 'r, 's) SimStruct \<Rightarrow> ('x, 'r, 's) SimStruct" where
  "SimStateCopy pid l =
     (case pc l pid of
        S_load k \<Rightarrow> goto pid (S_store k (load_word (nthreads l) (pool l (index (old_sp l pid))) k)) l
      | S_store k w \<Rightarrow> goto pid (if Suc k < state_words (nthreads l) then S_load (Suc k) else S_toggles 0)
            (set_rec pid (store_word (nthreads l) (pool l (lsp_data l pid)) k w) l)
      | _ \<Rightarrow> l)"

definition sim_fail :: "tid \<Rightarrow> ('x, 'r, 's) SimStruct \<Rightarrow> ('x, 'r, 's) SimStruct" where
  "sim_fail pid l = goto pid S_sp (set_th pid
     ((th l pid)\<lparr>backoff := (if backoff (th l pid) < MAX_BACK l then 2 * backoff (th l pid) else backoff (th l pid))\<rparr>)
     (l\<lparr>tries := (tries l)(pid := Suc (tries l pid))\<rparr>))"

definition sim_toggle :: "nat \<Rightarrow> tid \<Rightarrow> ('x, 'r, 's) SimStruct \<Rightarrow> ('x, 'r, 's) SimStruct" where
  "sim_toggle K pid l =
     (let t = th l pid; mybank = TVEC_GET_BANK_OF_BIT pid (nthreads l);
          tg = TVEC_NEGATIVE_BANK (toggle t) (toggle t) mybank
      in goto pid S_wait (set_th pid (t\<lparr>my_bit := TVEC_REVERSE_BIT (my_bit t) pid, toggle := tg\<rparr>)
           (l\<lparr>a_toggles := TVEC_ATOMIC_ADD_BANK (a_toggles l) tg mybank,
              lsp_data := (lsp_data l)(pid := pid * K + local_index t),
              tries := (tries l)(pid := 0), tnext := (tnext l)(pid := Suc (seq (sp l)))\<rparr>)))"

definition sim_bank :: "tid \<Rightarrow> ('x, 'r, 's) SimStruct \<Rightarrow> ('x, 'r, 's) SimStruct" where
  "sim_bank pid l =
     (let t = th l pid; mybank = TVEC_GET_BANK_OF_BIT pid (nthreads l);
          d = TVEC_ATOMIC_COPY_BANKS (diffs t) (applied (pool l (index (old_sp l pid)))) mybank;
          d' = TVEC_XOR_BANKS d d (my_bit t) mybank
      in goto pid (if TVEC_IS_SET d' pid then S_final else S_load 0) (set_th pid (t\<lparr>diffs := d'\<rparr>) l))"

definition sim_cas :: "nat \<Rightarrow> tid \<Rightarrow> ('x, 'r, 's) SimStruct \<Rightarrow> ('x, 'r, 's) SimStruct" where
  "sim_cas K pid l =
     (let t = th l pid;
          new_sp = mk_pointer (seq (old_sp l pid) + 1) (K * pid + local_index t)
      in if sp l = old_sp l pid
         then goto pid S_ret (set_th pid (t\<lparr>local_index := (local_index t + 1) mod K,
                  backoff := drop_bit 1 (backoff t) OR 1\<rparr>)
                (l\<lparr>sp := new_sp, hist := (hist l)(Suc (seq (sp l)) := index new_sp),
                   aseq := (\<lambda>p. if tbit (applied (pool l (index (sp l)))) p \<noteq> tbit (l_toggles t) p
                               then Suc (seq (sp l)) else aseq l p)\<rparr>))
         else sim_fail pid l)"

fun sim_apply :: "('x, 'r, 's) sfunc \<Rightarrow> tid \<Rightarrow> ('x, 'r, 's) SimStruct \<Rightarrow> ('x, 'r, 's) SimStruct" where
  "sim_apply sfunc pid l =
     (let t = th l pid; lsp = pool l (lsp_data l pid) in
      case pc l pid of
        S_own \<Rightarrow> (let (r, s) = sfunc pid (arg l pid) (state lsp)
                  in goto pid (S_own_ret r) (set_rec pid (lsp\<lparr>state := s\<rparr>) l))
      | S_own_ret r \<Rightarrow> goto pid (S_loop 0) (set_th pid (t\<lparr>diffs := TVEC_REVERSE_BIT (diffs t) pid\<rparr>)
                        (set_rec pid (lsp\<lparr>ret := (ret lsp)(pid := r)\<rparr>) l))
      | S_loop i \<Rightarrow>
          (if i < tvec_cells (diffs t) then
             (let c = cell (diffs t) ! i; pos = synchBitSearchFirst c in
              if c \<noteq> 0 then goto pid (S_arg i (64 * i + pos))
                (set_th pid (t\<lparr>diffs := (diffs t)\<lparr>cell := (cell (diffs t))[i := c XOR push_bit pos 1]\<rparr>\<rparr>) l)
              else goto pid (S_loop (Suc i)) l)
           else goto pid (S_applied 0) l)
      | S_arg i q \<Rightarrow> goto pid (S_help i q (announce l q)) l
      | S_help i q x \<Rightarrow> (let (r, s) = sfunc q x (state lsp)
                        in goto pid (S_help_ret i q r) (set_rec pid (lsp\<lparr>state := s\<rparr>) l))
      | S_help_ret i q r \<Rightarrow> goto pid (S_loop i) (set_rec pid (lsp\<lparr>ret := (ret lsp)(q := r)\<rparr>) l)
      | S_applied k \<Rightarrow> goto pid (if Suc k < TVEC_CELLS (nthreads l) then S_applied (Suc k) else S_test)
            (set_rec pid (lsp\<lparr>applied := TVEC_ATOMIC_COPY_BANKS (applied lsp) (l_toggles t) k\<rparr>) l)
      | _ \<Rightarrow> l)"

fun SimApplyOp :: "nat \<Rightarrow> ('x, 'r, 's) sfunc \<Rightarrow> tid \<Rightarrow> ('x, 'r, 's) SimStruct \<Rightarrow> ('x, 'r, 's) SimStruct" where
  "SimApplyOp K sfunc pid l =
     (let t = th l pid in
      case pc l pid of
        S_out \<Rightarrow> l
      | S_announce \<Rightarrow> goto pid S_add (l\<lparr>announce := (announce l)(pid := arg l pid)\<rparr>)
      | S_add \<Rightarrow> sim_toggle K pid l
      | S_wait \<Rightarrow> goto pid S_sp l
      | S_sp \<Rightarrow> (if tries l pid < 2 then goto pid S_bank (l\<lparr>old_sp := (old_sp l)(pid := sp l)\<rparr>)
                else goto pid S_final l)
      | S_bank \<Rightarrow> sim_bank pid l
      | S_load k \<Rightarrow> SimStateCopy pid l
      | S_store k w \<Rightarrow> SimStateCopy pid l
      | S_toggles k \<Rightarrow> goto pid (if Suc k < TVEC_CELLS (nthreads l) then S_toggles (Suc k) else S_check)
            (set_th pid (t\<lparr>l_toggles := TVEC_ATOMIC_COPY_BANKS (l_toggles t) (a_toggles l) k\<rparr>) l)
      | S_check \<Rightarrow> (if old_sp l pid \<noteq> sp l
                   then goto pid S_sp (l\<lparr>tries := (tries l)(pid := Suc (tries l pid))\<rparr>)
                   else goto pid S_own (set_th pid
                     (t\<lparr>diffs := TVEC_XOR (diffs t) (applied (pool l (lsp_data l pid))) (l_toggles t)\<rparr>) l))
      | S_test \<Rightarrow> (if old_sp l pid = sp l then goto pid S_cas l else sim_fail pid l)
      | S_cas \<Rightarrow> sim_cas K pid l
      | S_ret \<Rightarrow> goto pid S_out l
      | S_final \<Rightarrow> goto pid (S_final_ret (index (sp l))) l
      | S_final_ret k \<Rightarrow> goto pid S_out l
      | _ \<Rightarrow> sim_apply sfunc pid l)"

datatype 'x sim_act = Invoke tid 'x | Step tid

fun sim_ok :: "nat \<Rightarrow> ('x, 'r, 's) SimStruct \<Rightarrow> 'x sim_act \<Rightarrow> bool" where
  "sim_ok n l (Invoke p x) \<longleftrightarrow> p < n \<and> pc l p = S_out"
| "sim_ok n l (Step p) \<longleftrightarrow> p < n \<and> pc l p \<noteq> S_out"

fun sim_exec :: "nat \<Rightarrow> ('x, 'r, 's) sfunc \<Rightarrow> 'x sim_act \<Rightarrow> ('x, 'r, 's) SimStruct \<Rightarrow> ('x, 'r, 's) SimStruct" where
  "sim_exec K sfunc (Invoke p x) l = goto p S_announce (l\<lparr>arg := (arg l)(p := x)\<rparr>)"
| "sim_exec K sfunc (Step p) l = SimApplyOp K sfunc p l"

fun sim_obs :: "'x sim_act \<Rightarrow> ('x, 'r, 's) SimStruct \<Rightarrow> ('x, 'r) event list" where
  "sim_obs (Invoke p x) l = [Call p x]"
| "sim_obs (Step p) l = (case pc l p of
       S_ret \<Rightarrow> [Ret p (ret (pool l (lsp_data l p)) p)]
     | S_final_ret k \<Rightarrow> [Ret p (ret (pool l k) p)]
     | _ \<Rightarrow> [])"

text \<open>The 40 bits of the sequence number suffice for the runs considered: an action is taken only
  while the next number fits.\<close>

definition sim_fits :: "nat \<Rightarrow> ('x, 'r, 's) SimStruct \<Rightarrow> 'x sim_act \<Rightarrow> bool" where
  "sim_fits n l a \<longleftrightarrow> sim_ok n l a \<and> seq (sp l) + 1 < 2 ^ 40"

section \<open>The object of the benchmarks\<close>

text \<open>fam.h: \<^verbatim>\<open>ObjectState\<close> is a union of a 64-bit word and a \<^verbatim>\<open>float\<close>, which lies in its lower
  half. \<open>fmul\<close> is the machine's multiplication by 1.000001, \<open>junk\<close> what is on the stack where
  \<^verbatim>\<open>res\<close> is.\<close>

definition set_float :: "u64 \<Rightarrow> u32 \<Rightarrow> u64" where
  "set_float w v = push_bit 32 (drop_bit 32 w) OR ucast v"

definition fetchAndMultiply :: "(u32 \<Rightarrow> u32) \<Rightarrow> u64 \<Rightarrow> (val64, val64, u64) sfunc" where
  "fetchAndMultiply fmul junk pid x obj = (set_float junk (ucast obj), set_float obj (fmul (ucast obj)))"

text \<open>The upper half of the result is never written.\<close>

lemma set_float_upper: "drop_bit 32 (set_float w v) = drop_bit 32 w"
  by (rule word_bits_eqI) (auto simp: set_float_def bit_simps dest: bit_imp_le_length)

lemma fetchAndMultiply_junk: "drop_bit 32 (fst (fetchAndMultiply fmul junk pid x s)) = drop_bit 32 junk"
  by (simp add: fetchAndMultiply_def set_float_upper)

end
