(* ===== verification/SimInvariant.thy ===== *)
theory SimInvariant
  imports Sim
begin

text \<open>
  The invariant of the Sim construction (Sim.thy) and that every step keeps it. It has a part on the
  shared variables and a part for every thread; most steps of a thread only write its own variables
  and its own record of the pool, so that one lemma (\<open>own_step\<close>) covers what they do to everything else.
\<close>

section \<open>Toggle vectors of n threads\<close>

definition vec_ok :: "nat \<Rightarrow> ToggleVector \<Rightarrow> bool" where
  "vec_ok n tv \<longleftrightarrow> tvec_ok tv \<and> tv_nthreads tv = n \<and> (\<forall>b \<ge> n. b div 64 < TVEC_CELLS n \<longrightarrow> \<not> tbit tv b)"

lemma vec_okD:
  assumes "vec_ok n tv"
  shows "tvec_ok tv" "tv_nthreads tv = n" "tvec_cells tv = TVEC_CELLS n" "length (cell tv) = TVEC_CELLS n"
    "n \<le> b \<Longrightarrow> b div 64 < TVEC_CELLS n \<Longrightarrow> \<not> tbit tv b"
  using assms by (auto simp: vec_ok_def tvec_ok_def)

lemma in_cells: "p < n \<Longrightarrow> p div 64 < TVEC_CELLS n"
  by (simp add: TVEC_CELLS_def div_le_mono less_Suc_eq_le)

lemma vec_in: "vec_ok n tv \<Longrightarrow> p div 64 < TVEC_CELLS n \<Longrightarrow> in_vec tv p"
  by (simp add: in_vec_def vec_okD)

text \<open>Writing one word.\<close>

lemma tbit_update_vec:
  assumes "vec_ok n tv" and "p div 64 < TVEC_CELLS n"
  shows "tbit (tv\<lparr>cell := (cell tv)[k := w]\<rparr>) p = (if p div 64 = k then bit w (p mod 64) else tbit tv p)"
  by (rule tbit_update) (rule vec_in [OF assms])

lemma vec_ok_update:
  assumes "vec_ok n tv" and "\<And>b. n \<le> b \<Longrightarrow> b div 64 = k \<Longrightarrow> k < TVEC_CELLS n \<Longrightarrow> \<not> bit w (b mod 64)"
  shows "vec_ok n (tv\<lparr>cell := (cell tv)[k := w]\<rparr>)"
proof -
  have "\<not> tbit (tv\<lparr>cell := (cell tv)[k := w]\<rparr>) b" if "n \<le> b" "b div 64 < TVEC_CELLS n" for b
    using tbit_update_vec [OF assms(1) that(2), of k w] vec_okD(5) [OF assms(1) that] assms(2) [OF that(1)] that(2) by auto
  then show ?thesis using vec_okD(1,2) [OF assms(1)] by (simp add: vec_ok_def tvec_ok_def)
qed

lemma vec_bit: "vec_ok n tv \<Longrightarrow> n \<le> b \<Longrightarrow> b div 64 = k \<Longrightarrow> k < TVEC_CELLS n \<Longrightarrow> \<not> bit (cell tv ! k) (b mod 64)"
  using vec_okD(5) [of n tv b] by (auto simp: tbit_def)

lemma vec_ok_copy_bank: "vec_ok n tv \<Longrightarrow> vec_ok n tu \<Longrightarrow> vec_ok n (TVEC_ATOMIC_COPY_BANKS tv tu k)"
  unfolding TVEC_ATOMIC_COPY_BANKS_def by (rule vec_ok_update) (auto simp: vec_bit)

lemma tbit_copy_bank:
  "vec_ok n tv \<Longrightarrow> p div 64 < TVEC_CELLS n \<Longrightarrow>
   tbit (TVEC_ATOMIC_COPY_BANKS tv tu k) p = (if p div 64 = k then tbit tu p else tbit tv p)"
  by (auto simp: TVEC_ATOMIC_COPY_BANKS_def tbit_update_vec) (simp_all add: tbit_def)

lemma vec_ok_xor:
  assumes "tvec_ok d" "tv_nthreads d = n" "vec_ok n tv" "vec_ok n tu"
  shows "vec_ok n (TVEC_XOR d tv tu)"
    and "p div 64 < TVEC_CELLS n \<Longrightarrow> tbit (TVEC_XOR d tv tu) p \<longleftrightarrow> tbit tv p \<noteq> tbit tu p"
proof -
  have x: "p div 64 < TVEC_CELLS n \<Longrightarrow> tbit (TVEC_XOR d tv tu) p \<longleftrightarrow> tbit tv p \<noteq> tbit tu p" for p
    using assms(1,2) tbit_pointwise(1) [of d p tv tu] by (simp add: in_vec_def tvec_ok_def)
  then show "p div 64 < TVEC_CELLS n \<Longrightarrow> tbit (TVEC_XOR d tv tu) p \<longleftrightarrow> tbit tv p \<noteq> tbit tu p" .
  have "tvec_ok (TVEC_XOR d tv tu)" by (rule tvec_ok_ops(12)) (rule assms)
  moreover have "tv_nthreads (TVEC_XOR d tv tu) = n" using assms(2) by (simp add: TVEC_XOR_def)
  ultimately show "vec_ok n (TVEC_XOR d tv tu)"
    using x vec_okD(5) [OF assms(3)] vec_okD(5) [OF assms(4)] by (auto simp: vec_ok_def)
qed

lemma vec_ok_reverse:
  assumes "vec_ok n d" "p < n"
  shows "vec_ok n (TVEC_REVERSE_BIT d p)"
    and "q div 64 < TVEC_CELLS n \<Longrightarrow> tbit (TVEC_REVERSE_BIT d p) q \<longleftrightarrow> (tbit d q \<noteq> (q = p))"
proof -
  have x: "q div 64 < TVEC_CELLS n \<Longrightarrow> tbit (TVEC_REVERSE_BIT d p) q \<longleftrightarrow> (tbit d q \<noteq> (q = p))" for q
    by (rule tbit_REVERSE_BIT) (rule vec_in [OF assms(1)])
  then show "q div 64 < TVEC_CELLS n \<Longrightarrow> tbit (TVEC_REVERSE_BIT d p) q \<longleftrightarrow> (tbit d q \<noteq> (q = p))" .
  have "tvec_ok (TVEC_REVERSE_BIT d p)" by (rule tvec_ok_ops(8)) (rule vec_okD(1) [OF assms(1)])
  moreover have "tv_nthreads (TVEC_REVERSE_BIT d p) = n" using vec_okD(2) [OF assms(1)] by (simp add: TVEC_REVERSE_BIT_def Let_def)
  ultimately show "vec_ok n (TVEC_REVERSE_BIT d p)"
    using x vec_okD(5) [OF assms(1)] assms(2) by (auto simp: vec_ok_def)
qed

text \<open>Taking the lowest bit out of a non-zero word.\<close>

lemma take_first_bit:
  assumes d: "vec_ok n d" and i: "i < TVEC_CELLS n" and c: "cell d ! i \<noteq> 0"
  defines "pos \<equiv> synchBitSearchFirst (cell d ! i)"
  defines "d' \<equiv> d\<lparr>cell := (cell d)[i := cell d ! i XOR push_bit pos 1]\<rparr>"
  shows "64 * i + pos < n" "tbit d (64 * i + pos)" "vec_ok n d'" "p div 64 < TVEC_CELLS n \<Longrightarrow> tbit d' p \<longleftrightarrow> tbit d p \<and> p \<noteq> 64 * i + pos"
proof -
  have b: "bit (cell d ! i) pos" unfolding pos_def by (rule ctz_bit [OF c])
  have p64: "pos < 64" using ctz_less_64 [OF c] by (simp add: pos_def)
  have t: "tbit d (64 * i + pos)" using b p64 by (simp add: tbit_def)
  then show "tbit d (64 * i + pos)" .
  show "64 * i + pos < n" using vec_okD(5) [OF d, of "64 * i + pos"] t i p64 by fastforce
  have x: "tbit d' p \<longleftrightarrow> tbit d p \<and> p \<noteq> 64 * i + pos" if "p div 64 < TVEC_CELLS n" for p
  proof (cases "p div 64 = i")
    case True
    then have "p = 64 * i + p mod 64" by auto
    then have eq: "p = 64 * i + pos \<longleftrightarrow> p mod 64 = pos" using p64 by (metis add_left_cancel)
    have "tbit d' p = bit (cell d ! i XOR push_bit pos 1) (p mod 64)"
      unfolding d'_def using tbit_update_vec [OF d that] True by simp
    also have "\<dots> \<longleftrightarrow> bit (cell d ! i) (p mod 64) \<noteq> (p mod 64 = pos)" using p64 by (simp add: bit_xor_iff)
    finally show ?thesis using eq b True by (auto simp: tbit_def)
  next
    case False
    then have "p \<noteq> 64 * i + pos" using p64 by auto
    with False show ?thesis unfolding d'_def using tbit_update_vec [OF d that] by simp
  qed
  then show "p div 64 < TVEC_CELLS n \<Longrightarrow> tbit d' p \<longleftrightarrow> tbit d p \<and> p \<noteq> 64 * i + pos" .
  have "tvec_ok d'" "tv_nthreads d' = n" using vec_okD(1,2) [OF d] by (simp_all add: d'_def tvec_ok_def)
  then show "vec_ok n d'" using x vec_okD(5) [OF d] by (auto simp: vec_ok_def)
qed

section \<open>Runs of requests\<close>

fun run_ops :: "('x, 'r, 's) sfunc \<Rightarrow> (tid \<Rightarrow> 'x) \<Rightarrow> tid list \<Rightarrow> 's \<times> (tid \<Rightarrow> 'r) \<Rightarrow> 's \<times> (tid \<Rightarrow> 'r)" where
  "run_ops f ann [] sr = sr"
| "run_ops f ann (p # ps) sr = run_ops f ann ps (snd (f p (ann p) (fst sr)), (snd sr)(p := fst (f p (ann p) (fst sr))))"

lemma run_ops_snoc:
  "run_ops f ann (ps @ [p]) sr = (let (s, rt) = run_ops f ann ps sr in (snd (f p (ann p) s), rt(p := fst (f p (ann p) s))))"
  by (induction ps arbitrary: sr) (simp_all add: split_beta)

lemma run_ops_cong: "(\<And>p. p \<in> set ps \<Longrightarrow> ann' p = ann p) \<Longrightarrow> run_ops f ann' ps sr = run_ops f ann ps sr"
  by (induction ps arbitrary: sr) simp_all

lemma run_ops_other: "p \<notin> set ps \<Longrightarrow> snd (run_ops f ann ps sr) p = snd sr p"
  by (induction ps arbitrary: sr) simp_all

lemma run_ops_asteps:
  assumes "distinct ps" and "\<And>p. p \<in> set ps \<Longrightarrow> st p = Pend (ann p)"
  shows "asteps f (s, st) [] (fst (run_ops f ann ps (s, rt)), \<lambda>p. if p \<in> set ps then Done (snd (run_ops f ann ps (s, rt)) p) else st p)"
  using assms
proof (induction ps arbitrary: s st rt)
  case Nil
  then show ?case by (simp add: as_refl)
next
  case (Cons p ps)
  define r where "r = f p (ann p) s"
  let ?st = "st(p := Done (fst r))"
  have a: "asteps f (s, st) [] (snd r, ?st)"
    by (rule step_lin [of _ p "ann p"]) (use Cons.prems(2) [of p] in \<open>simp_all add: r_def\<close>)
  have b: "asteps f (snd r, ?st) [] (fst (run_ops f ann ps (snd r, rt(p := fst r))),
      \<lambda>q. if q \<in> set ps then Done (snd (run_ops f ann ps (snd r, rt(p := fst r))) q) else ?st q)" (is "asteps _ _ _ (?a, ?f)")
    by (rule Cons.IH) (use Cons.prems in auto)
  have eq: "?f = (\<lambda>q. if q \<in> set (p # ps) then Done (snd (run_ops f ann (p # ps) (s, rt)) q) else st q)"
    using Cons.prems(1) by (auto simp: fun_eq_iff r_def run_ops_other)
  from asteps_trans [OF b a] show ?case unfolding eq by (simp add: r_def)
qed

section \<open>The invariant\<close>

abbreviation cur_rec :: "('x, 'r, 's) SimStruct \<Rightarrow> ('r, 's) SimObjectState" where
  "cur_rec l \<equiv> pool l (index (sp l))"

abbreviation oseq :: "('x, 'r, 's) SimStruct \<Rightarrow> tid \<Rightarrow> nat" where
  "oseq l z \<equiv> seq (old_sp l z)"

text \<open>The last request of \<open>p\<close> has not been applied yet: its bit on the board differs from its bit in the
  current record.\<close>

definition pend :: "('x, 'r, 's) SimStruct \<Rightarrow> tid \<Rightarrow> bool" where
  "pend l p \<longleftrightarrow> tbit (a_toggles l) p \<noteq> tbit (applied (cur_rec l)) p"

text \<open>The record \<open>r\<close> says the same as the current one about the (applied) request of \<open>p\<close>.\<close>

definition good :: "('x, 'r, 's) SimStruct \<Rightarrow> tid \<Rightarrow> ('r, 's) SimObjectState \<Rightarrow> bool" where
  "good l p r \<longleftrightarrow> tbit (applied r) p = tbit (a_toggles l) p \<and> ret r p = ret (cur_rec l) p"

definition current :: "('x, 'r, 's) SimStruct \<Rightarrow> tid \<Rightarrow> bool" where
  "current l z \<longleftrightarrow> oseq l z = seq (sp l)"

definition shared_ok :: "nat \<Rightarrow> ('x, 'r, 's) SimStruct \<Rightarrow> bool" where
  "shared_ok n l \<longleftrightarrow> nthreads l = n \<and> vec_ok n (a_toggles l) \<and> (\<forall>k \<le> 4 * n. vec_ok n (applied (pool l k)))
     \<and> index (sp l) = hist l (seq (sp l)) \<and> (\<forall>s \<le> seq (sp l). hist l s \<le> 4 * n)
     \<and> (\<forall>p < n. tnext l p \<le> Suc (seq (sp l)))
     \<and> (\<forall>p < n. pend l p \<longrightarrow> seq (sp l) \<le> tnext l p
          \<and> (\<forall>s \<le> seq (sp l). tnext l p \<le> Suc s \<longrightarrow> tbit (applied (pool l (hist l s))) p \<noteq> tbit (a_toggles l) p))
     \<and> (\<forall>p < n. \<not> pend l p \<longrightarrow> tnext l p \<le> aseq l p \<and> aseq l p \<le> seq (sp l)
          \<and> (\<forall>s. aseq l p \<le> s \<and> s \<le> seq (sp l) \<longrightarrow> good l p (pool l (hist l s))))"

definition own_ok :: "nat \<Rightarrow> ('x, 'r, 's) SimStruct \<Rightarrow> tid \<Rightarrow> bool" where
  "own_ok n l z \<longleftrightarrow> tvec_ok (my_bit (th l z)) \<and> tv_nthreads (my_bit (th l z)) = n \<and> tvec_ok (toggle (th l z)) \<and> tv_nthreads (toggle (th l z)) = n
     \<and> tvec_ok (diffs (th l z)) \<and> tv_nthreads (diffs (th l z)) = n \<and> vec_ok n (l_toggles (th l z))
     \<and> tbit (my_bit (th l z)) z = (\<not> tbit (a_toggles l) z)
     \<and> cell (toggle (th l z)) ! (z div 64) = (if tbit (a_toggles l) z then 2 ^ (z mod 64) else - (2 ^ (z mod 64)))
     \<and> local_index (th l z) < 4
     \<and> (\<forall>s \<le> seq (sp l). \<forall>i < 4. hist l s = 4 * z + i \<longrightarrow> (\<exists>c. c + s \<le> seq (sp l) \<and> local_index (th l z) = (i + 1 + c) mod 4))"

definition work :: "('x, 'r, 's) SimStruct \<Rightarrow> tid \<Rightarrow> bool" where
  "work l z \<longleftrightarrow> lsp_data l z = 4 * z + local_index (th l z) \<and> announce l z = arg l z"

definition att :: "('x, 'r, 's) SimStruct \<Rightarrow> tid \<Rightarrow> bool" where
  "att l z \<longleftrightarrow> work l z \<and> oseq l z \<le> seq (sp l) \<and> index (old_sp l z) = hist l (oseq l z)
     \<and> (\<forall>s \<le> seq (sp l). hist l s = lsp_data l z \<longrightarrow> s + 3 \<le> oseq l z)
     \<and> tries l z < 2 \<and> tnext l z + tries l z \<le> Suc (oseq l z)"

text \<open>After the test of line 86.\<close>

definition attempt :: "('x, 'r, 's) SimStruct \<Rightarrow> tid \<Rightarrow> bool" where
  "attempt l z \<longleftrightarrow> att l z \<and> (\<not> pend l z \<longrightarrow> oseq l z < aseq l z)"

definition copied :: "nat \<Rightarrow> ('x, 'r, 's) SimStruct \<Rightarrow> tid \<Rightarrow> nat \<Rightarrow> bool" where
  "copied n l z k \<longleftrightarrow> (current l z \<longrightarrow> (\<forall>m < k. load_word n (pool l (lsp_data l z)) m = load_word n (cur_rec l) m))"

definition word_ok :: "nat \<Rightarrow> ('x, 'r, 's) SimStruct \<Rightarrow> tid \<Rightarrow> nat \<Rightarrow> ('r, 's) mword \<Rightarrow> bool" where
  "word_ok n l z k w \<longleftrightarrow> (\<exists>r. vec_ok n (applied r) \<and> w = load_word n r k
     \<and> (\<forall>p < n. \<not> pend l p \<and> aseq l p \<le> oseq l z \<longrightarrow> good l p r)) \<and> (current l z \<longrightarrow> w = load_word n (cur_rec l) k)"

definition loaded :: "nat \<Rightarrow> ('x, 'r, 's) SimStruct \<Rightarrow> tid \<Rightarrow> nat \<Rightarrow> bool" where
  "loaded n l z k \<longleftrightarrow> (\<forall>p < n. p div 64 < k \<longrightarrow>
      (tnext l p \<le> oseq l z \<or> p = z \<longrightarrow> tbit (l_toggles (th l z)) p = tbit (a_toggles l) p)
    \<and> (current l z \<longrightarrow> tbit (l_toggles (th l z)) p \<noteq> tbit (applied (cur_rec l)) p \<longrightarrow> pend l p))"

definition todo :: "nat \<Rightarrow> ('x, 'r, 's) SimStruct \<Rightarrow> tid \<Rightarrow> tid set" where
  "todo n l z = {p. p < n \<and> tbit (diffs (th l z)) p}"

text \<open>The requests that are still to be run; they may be overwritten.\<close>

definition open_req :: "('x, 'r, 's) SimStruct \<Rightarrow> tid \<Rightarrow> tid \<Rightarrow> bool" where
  "open_req l z p \<longleftrightarrow> pend l p \<or> oseq l z < aseq l p"

definition ran :: "nat \<Rightarrow> ('x, 'r, 's) sfunc \<Rightarrow> ('x, 'r, 's) SimStruct \<Rightarrow> tid \<Rightarrow> tid set \<Rightarrow> 's \<Rightarrow> (tid \<Rightarrow> 'r) \<Rightarrow> bool" where
  "ran n f l z D s rt \<longleftrightarrow> loaded n l z (TVEC_CELLS n) \<and> vec_ok n (diffs (th l z)) \<and> (\<forall>p \<in> D. open_req l z p)
     \<and> (current l z \<longrightarrow> (\<forall>p \<in> D. tbit (l_toggles (th l z)) p \<noteq> tbit (applied (cur_rec l)) p) \<and> (\<exists>ops. distinct ops
          \<and> set ops = {p. p < n \<and> p \<notin> D \<and> tbit (l_toggles (th l z)) p \<noteq> tbit (applied (cur_rec l)) p}
          \<and> s = fst (run_ops f (announce l) ops (state (cur_rec l), ret (cur_rec l)))
          \<and> (\<forall>p < n. rt p = snd (run_ops f (announce l) ops (state (cur_rec l), ret (cur_rec l))) p)))"

abbreviation lsp :: "('x, 'r, 's) SimStruct \<Rightarrow> tid \<Rightarrow> ('r, 's) SimObjectState" where
  "lsp l z \<equiv> pool l (lsp_data l z)"

definition published :: "('x, 'r, 's) SimStruct \<Rightarrow> tid \<Rightarrow> nat \<Rightarrow> bool" where
  "published l z k \<longleftrightarrow> \<not> pend l z \<and> (\<exists>s. aseq l z \<le> s \<and> s \<le> seq (sp l) \<and> hist l s = k)"

fun phase_ok :: "nat \<Rightarrow> ('x, 'r, 's) sfunc \<Rightarrow> ('x, 'r, 's) SimStruct \<Rightarrow> tid \<Rightarrow> ('x, 'r, 's) sim_pc \<Rightarrow> bool" where
  "phase_ok n f l z S_out \<longleftrightarrow> \<not> pend l z"
| "phase_ok n f l z S_announce \<longleftrightarrow> \<not> pend l z"
| "phase_ok n f l z S_add \<longleftrightarrow> \<not> pend l z \<and> announce l z = arg l z"
| "phase_ok n f l z S_wait \<longleftrightarrow> work l z \<and> tries l z = 0"
| "phase_ok n f l z S_sp \<longleftrightarrow> work l z \<and> tries l z \<le> 2 \<and> tnext l z + tries l z \<le> Suc (seq (sp l))"
| "phase_ok n f l z S_bank \<longleftrightarrow> att l z"
| "phase_ok n f l z (S_load k) \<longleftrightarrow> attempt l z \<and> k < state_words n \<and> copied n l z k"
| "phase_ok n f l z (S_store k w) \<longleftrightarrow> attempt l z \<and> k < state_words n \<and> copied n l z k \<and> word_ok n l z k w"
| "phase_ok n f l z (S_toggles k) \<longleftrightarrow> attempt l z \<and> k < TVEC_CELLS n \<and> copied n l z (state_words n) \<and> loaded n l z k"
| "phase_ok n f l z S_check \<longleftrightarrow> attempt l z \<and> copied n l z (state_words n) \<and> loaded n l z (TVEC_CELLS n)"
| "phase_ok n f l z S_own \<longleftrightarrow> attempt l z \<and> z \<in> todo n l z \<and> ran n f l z (todo n l z) (state (lsp l z)) (ret (lsp l z))"
| "phase_ok n f l z (S_own_ret r) \<longleftrightarrow> attempt l z \<and> z \<in> todo n l z
     \<and> ran n f l z (todo n l z - {z}) (state (lsp l z)) ((ret (lsp l z))(z := r))"
| "phase_ok n f l z (S_loop i) \<longleftrightarrow> attempt l z \<and> (\<forall>p \<in> todo n l z. i \<le> p div 64)
     \<and> ran n f l z (todo n l z) (state (lsp l z)) (ret (lsp l z))"
| "phase_ok n f l z (S_arg i q) \<longleftrightarrow> attempt l z \<and> (\<forall>p \<in> todo n l z. i \<le> p div 64) \<and> q < n \<and> q \<notin> todo n l z
     \<and> ran n f l z (insert q (todo n l z)) (state (lsp l z)) (ret (lsp l z))"
| "phase_ok n f l z (S_help i q x) \<longleftrightarrow> attempt l z \<and> (\<forall>p \<in> todo n l z. i \<le> p div 64) \<and> q < n \<and> q \<notin> todo n l z
     \<and> (current l z \<longrightarrow> x = announce l q)
     \<and> ran n f l z (insert q (todo n l z)) (state (lsp l z)) (ret (lsp l z))"
| "phase_ok n f l z (S_help_ret i q r) \<longleftrightarrow> attempt l z \<and> (\<forall>p \<in> todo n l z. i \<le> p div 64) \<and> q < n \<and> open_req l z q
     \<and> ran n f l z (todo n l z) (state (lsp l z)) ((ret (lsp l z))(q := r))"
| "phase_ok n f l z (S_applied k) \<longleftrightarrow> attempt l z \<and> k < TVEC_CELLS n \<and> ran n f l z {} (state (lsp l z)) (ret (lsp l z))
     \<and> (\<forall>p. p div 64 < k \<longrightarrow> tbit (applied (lsp l z)) p = tbit (l_toggles (th l z)) p)"
| "phase_ok n f l z S_test \<longleftrightarrow> attempt l z \<and> ran n f l z {} (state (lsp l z)) (ret (lsp l z))
     \<and> (\<forall>p < n. tbit (applied (lsp l z)) p = tbit (l_toggles (th l z)) p)"
| "phase_ok n f l z S_cas \<longleftrightarrow> attempt l z \<and> ran n f l z {} (state (lsp l z)) (ret (lsp l z))
     \<and> (\<forall>p < n. tbit (applied (lsp l z)) p = tbit (l_toggles (th l z)) p)"
| "phase_ok n f l z S_ret \<longleftrightarrow> published l z (lsp_data l z)"
| "phase_ok n f l z S_final \<longleftrightarrow> \<not> pend l z"
| "phase_ok n f l z (S_final_ret k) \<longleftrightarrow> published l z k"

definition sim_inv :: "nat \<Rightarrow> ('x, 'r, 's) sfunc \<Rightarrow> ('x, 'r, 's) SimStruct \<Rightarrow> bool" where
  "sim_inv n f l \<longleftrightarrow> shared_ok n l \<and> (\<forall>z < n. own_ok n l z \<and> phase_ok n f l z (pc l z)) \<and> (\<forall>z \<ge> n. pc l z = S_out)"

section \<open>Steps of other threads\<close>

text \<open>What the invariant of thread \<open>z\<close> needs of a step that is not its own.\<close>

definition evolves :: "nat \<Rightarrow> ('x, 'r, 's) SimStruct \<Rightarrow> ('x, 'r, 's) SimStruct \<Rightarrow> tid \<Rightarrow> bool" where
  "evolves n l l' z \<longleftrightarrow> seq (sp l) \<le> seq (sp l') \<and> (\<forall>s \<le> seq (sp l). hist l' s = hist l s)
     \<and> (\<forall>s i. seq (sp l) < s \<and> s \<le> seq (sp l') \<and> i < 4 \<longrightarrow> hist l' s \<noteq> 4 * z + i)
     \<and> (\<forall>p < n. \<not> pend l' p \<and> aseq l' p \<le> seq (sp l) \<longrightarrow>
          \<not> pend l p \<and> aseq l p = aseq l' p \<and> (\<forall>r. good l p r \<longrightarrow> good l' p r))
     \<and> (\<forall>p < n. tnext l' p \<le> seq (sp l) \<or> p = z \<longrightarrow> tnext l' p = tnext l p \<and> tbit (a_toggles l') p = tbit (a_toggles l) p)
     \<and> (seq (sp l') = seq (sp l) \<longrightarrow> cur_rec l' = cur_rec l
          \<and> (\<forall>p < n. pend l p \<longrightarrow> pend l' p \<and> announce l' p = announce l p))
     \<and> (\<not> pend l z \<longrightarrow> \<not> pend l' z \<and> aseq l' z = aseq l z) \<and> announce l' z = announce l z
     \<and> th l' z = th l z \<and> arg l' z = arg l z \<and> old_sp l' z = old_sp l z \<and> lsp_data l' z = lsp_data l z
     \<and> tries l' z = tries l z \<and> (work l z \<longrightarrow> pool l' (lsp_data l z) = pool l (lsp_data l z))"

lemma evolvesD:
  assumes "evolves n l l' z"
  shows "seq (sp l) \<le> seq (sp l')" "s \<le> seq (sp l) \<Longrightarrow> hist l' s = hist l s"
    "seq (sp l) < s \<Longrightarrow> s \<le> seq (sp l') \<Longrightarrow> i < 4 \<Longrightarrow> hist l' s \<noteq> 4 * z + i"
    "p < n \<Longrightarrow> \<not> pend l' p \<Longrightarrow> aseq l' p \<le> seq (sp l) \<Longrightarrow> \<not> pend l p \<and> aseq l p = aseq l' p \<and> (good l p r \<longrightarrow> good l' p r)"
    "p < n \<Longrightarrow> tnext l' p \<le> seq (sp l) \<or> p = z \<Longrightarrow> tnext l' p = tnext l p \<and> tbit (a_toggles l') p = tbit (a_toggles l) p"
    "seq (sp l') = seq (sp l) \<Longrightarrow> cur_rec l' = cur_rec l"
    "seq (sp l') = seq (sp l) \<Longrightarrow> p < n \<Longrightarrow> pend l p \<Longrightarrow> pend l' p \<and> announce l' p = announce l p"
    "\<not> pend l z \<Longrightarrow> \<not> pend l' z \<and> aseq l' z = aseq l z" "announce l' z = announce l z"
    "th l' z = th l z" "arg l' z = arg l z" "old_sp l' z = old_sp l z" "lsp_data l' z = lsp_data l z" "tries l' z = tries l z"
    "work l z \<Longrightarrow> pool l' (lsp_data l z) = pool l (lsp_data l z)"
  using assms unfolding evolves_def by blast+

lemma current_mono:
  "\<lbrakk>evolves n l l' z; oseq l z \<le> seq (sp l); current l' z\<rbrakk> \<Longrightarrow> current l z \<and> seq (sp l') = seq (sp l)"
  unfolding current_def using evolvesD(1,12) [of n l l' z] by simp

lemma own_mono:
  assumes e: "evolves n l l' z" and z: "z < n" and o: "own_ok n l z"
  shows "own_ok n l' z"
proof -
  have "\<exists>c. c + s \<le> seq (sp l') \<and> local_index (th l z) = (i + 1 + c) mod 4"
    if "s \<le> seq (sp l')" "i < 4" "hist l' s = 4 * z + i" for s i
  proof (cases "s \<le> seq (sp l)")
    case True
    with that evolvesD(2) [OF e True] o obtain c where "c + s \<le> seq (sp l)" "local_index (th l z) = (i + 1 + c) mod 4"
      unfolding own_ok_def by metis
    then show ?thesis using evolvesD(1) [OF e] by (meson le_trans)
  next
    case False
    then show ?thesis using evolvesD(3) [OF e, of s i] that by simp
  qed
  with o evolvesD(5) [OF e z] evolvesD(10) [OF e] show ?thesis unfolding own_ok_def by simp
qed

lemma work_mono: "evolves n l l' z \<Longrightarrow> work l z \<Longrightarrow> work l' z"
  unfolding work_def using evolvesD(9,10,11,13) [of n l l' z] by simp

lemma att_mono:
  assumes e: "evolves n l l' z" and z: "z < n" and o: "own_ok n l z" and a: "att l z"
  shows "att l' z"
proof -
  have i4: "local_index (th l z) < 4" and w: "work l z" and os: "oseq l z \<le> seq (sp l)"
    and h: "\<forall>s \<le> seq (sp l). hist l s = lsp_data l z \<longrightarrow> s + 3 \<le> oseq l z"
    using o a unfolding own_ok_def att_def by auto
  have "s + 3 \<le> oseq l z" if "s \<le> seq (sp l')" "hist l' s = lsp_data l z" for s
  proof (cases "s \<le> seq (sp l)")
    case True
    with h that evolvesD(2) [OF e True] show ?thesis by simp
  next
    case False
    then show ?thesis using evolvesD(3) [OF e, of s "local_index (th l z)"] that i4 w by (simp add: work_def)
  qed
  moreover have "oseq l z \<le> seq (sp l')" using os evolvesD(1) [OF e] by simp
  ultimately show ?thesis
    using a work_mono [OF e w] evolvesD(2) [OF e os] evolvesD(5) [OF e z] evolvesD(12,13,14) [OF e]
    unfolding att_def by simp
qed

lemma att_old: "att l z \<Longrightarrow> oseq l z \<le> seq (sp l)" "att l z \<Longrightarrow> work l z"
  unfolding att_def by blast+

lemma attempt_att: "attempt l z \<Longrightarrow> att l z"
  unfolding attempt_def by blast

lemma attempt_mono:
  assumes e: "evolves n l l' z" and z: "z < n" and o: "own_ok n l z" and a: "attempt l z"
  shows "attempt l' z"
proof -
  note at = attempt_att [OF a]
  have "oseq l z < aseq l' z" if "\<not> pend l' z"
  proof (rule ccontr)
    assume "\<not> oseq l z < aseq l' z"
    then have "aseq l' z \<le> seq (sp l)" using att_old(1) [OF at] by simp
    with evolvesD(4) [OF e z that] a \<open>\<not> oseq l z < aseq l' z\<close> show False unfolding attempt_def by simp
  qed
  then show ?thesis using att_mono [OF e z o at] evolvesD(12) [OF e] unfolding attempt_def by simp
qed

lemma copied_mono: "\<lbrakk>evolves n l l' z; att l z; copied n l z k\<rbrakk> \<Longrightarrow> copied n l' z k"
  unfolding copied_def using current_mono [of n l l' z] evolvesD(6,13,15) [of n l l' z] att_old [of l z] by metis

lemma word_mono:
  assumes e: "evolves n l l' z" and a: "att l z" and w: "word_ok n l z k w"
  shows "word_ok n l' z k w"
proof -
  from w obtain r where r: "vec_ok n (applied r)" "w = load_word n r k"
    "\<And>p. p < n \<Longrightarrow> \<not> pend l p \<Longrightarrow> aseq l p \<le> oseq l z \<Longrightarrow> good l p r" unfolding word_ok_def by blast
  have "good l' p r" if "p < n" "\<not> pend l' p" "aseq l' p \<le> oseq l z" for p
    using evolvesD(4) [OF e that(1,2), of r] r(3) [OF that(1)] that(3) att_old(1) [OF a] by simp
  with r(1,2) have "\<exists>r. vec_ok n (applied r) \<and> w = load_word n r k
     \<and> (\<forall>p < n. \<not> pend l' p \<and> aseq l' p \<le> oseq l' z \<longrightarrow> good l' p r)" using evolvesD(12) [OF e] by auto
  moreover have "current l' z \<Longrightarrow> w = load_word n (cur_rec l') k"
    using w current_mono [OF e att_old(1) [OF a]] evolvesD(6) [OF e] unfolding word_ok_def by simp
  ultimately show ?thesis unfolding word_ok_def by blast
qed

lemma loaded_mono:
  assumes e: "evolves n l l' z" and z: "z < n" and a: "att l z" and k: "loaded n l z k"
  shows "loaded n l' z k"
  unfolding loaded_def
proof (intro allI impI)
  fix p assume p: "p < n" "p div 64 < k"
  note b = k [unfolded loaded_def, rule_format, OF p]
  have "tbit (l_toggles (th l' z)) p = tbit (a_toggles l') p" if "tnext l' p \<le> oseq l' z \<or> p = z"
    using that b evolvesD(5) [OF e p(1)] evolvesD(10,12) [OF e] att_old(1) [OF a] by auto
  moreover have "pend l' p" if "current l' z" "tbit (l_toggles (th l' z)) p \<noteq> tbit (applied (cur_rec l')) p"
    using that b current_mono [OF e att_old(1) [OF a] that(1)] evolvesD(6) [OF e] evolvesD(7) [OF e _ p(1)] evolvesD(10) [OF e]
    by auto
  ultimately show "(tnext l' p \<le> oseq l' z \<or> p = z \<longrightarrow> tbit (l_toggles (th l' z)) p = tbit (a_toggles l') p)
    \<and> (current l' z \<longrightarrow> tbit (l_toggles (th l' z)) p \<noteq> tbit (applied (cur_rec l')) p \<longrightarrow> pend l' p)" by blast
qed

lemma open_mono: "\<lbrakk>evolves n l l' z; att l z; p < n; open_req l z p\<rbrakk> \<Longrightarrow> open_req l' z p"
  unfolding open_req_def using evolvesD(4) [of n l l' z p] evolvesD(12) [of n l l' z] att_old(1) [of l z] by force

lemma todo_mono: "evolves n l l' z \<Longrightarrow> todo n l' z = todo n l z"
  unfolding todo_def using evolvesD(10) [of n l l' z] by simp

lemma ran_mono:
  assumes e: "evolves n l l' z" and z: "z < n" and a: "att l z" and D: "D \<subseteq> {..<n}" and k: "ran n f l z D s rt"
  shows "ran n f l' z D s rt"
proof -
  have ld: "loaded n l z (TVEC_CELLS n)" and v: "vec_ok n (diffs (th l z))" and o: "\<And>p. p \<in> D \<Longrightarrow> open_req l z p"
    using k unfolding ran_def by auto
  have "(\<forall>p \<in> D. tbit (l_toggles (th l' z)) p \<noteq> tbit (applied (cur_rec l')) p) \<and> (\<exists>ops. distinct ops
          \<and> set ops = {p. p < n \<and> p \<notin> D \<and> tbit (l_toggles (th l' z)) p \<noteq> tbit (applied (cur_rec l')) p}
          \<and> s = fst (run_ops f (announce l') ops (state (cur_rec l'), ret (cur_rec l')))
          \<and> (\<forall>p < n. rt p = snd (run_ops f (announce l') ops (state (cur_rec l'), ret (cur_rec l'))) p))"
    if c: "current l' z"
  proof -
    from current_mono [OF e att_old(1) [OF a] c] have c': "current l z" "seq (sp l') = seq (sp l)" by auto
    from k c'(1) obtain ops where ops: "distinct ops"
       "set ops = {p. p < n \<and> p \<notin> D \<and> tbit (l_toggles (th l z)) p \<noteq> tbit (applied (cur_rec l)) p}"
       "s = fst (run_ops f (announce l) ops (state (cur_rec l), ret (cur_rec l)))"
       "\<forall>p < n. rt p = snd (run_ops f (announce l) ops (state (cur_rec l), ret (cur_rec l))) p"
      unfolding ran_def by blast
    have "announce l' p = announce l p" if "p \<in> set ops" for p
    proof -
      from that ops(2) have p: "p < n" "tbit (l_toggles (th l z)) p \<noteq> tbit (applied (cur_rec l)) p" by auto
      from ld p in_cells [OF p(1)] c'(1) have "pend l p" unfolding loaded_def by blast
      then show ?thesis using evolvesD(7) [OF e c'(2) p(1)] by blast
    qed
    then have "run_ops f (announce l') ops sr = run_ops f (announce l) ops sr" for sr by (rule run_ops_cong)
    moreover have "\<forall>p \<in> D. tbit (l_toggles (th l z)) p \<noteq> tbit (applied (cur_rec l)) p" using k c'(1) unfolding ran_def by blast
    ultimately show ?thesis using ops by (intro conjI exI [of _ ops]) (simp_all add: evolvesD(6) [OF e c'(2)] evolvesD(10) [OF e])
  qed
  then show ?thesis using loaded_mono [OF e z a ld] v open_mono [OF e a] o D evolvesD(10) [OF e]
    unfolding ran_def by auto
qed

lemma published_mono: "\<lbrakk>evolves n l l' z; published l z k\<rbrakk> \<Longrightarrow> published l' z k"
  unfolding published_def using evolvesD(1,2,8) [of n l l' z] by (metis le_trans)

lemma todo_sub: "todo n l z \<subseteq> {..<n}"
  by (auto simp: todo_def)

lemma phase_mono:
  assumes e: "evolves n l l' z" and z: "z < n" and o: "own_ok n l z" and ph: "phase_ok n f l z c"
  shows "phase_ok n f l' z c"
proof -
  note att = att_mono [OF e z o] and attempt = attempt_mono [OF e z o] and cop = copied_mono [OF e] and ld = loaded_mono [OF e z]
    and wd = word_mono [OF e] and rn = ran_mono [OF e z] and op = open_mono [OF e] and pb = published_mono [OF e]
    and same = evolvesD(9-14) [OF e] todo_mono [OF e] and sub = todo_sub [of n l z]
  have lsp: "attempt l z \<Longrightarrow> lsp l' z = lsp l z"
    using evolvesD(13) [OF e] evolvesD(15) [OF e att_old(2) [OF attempt_att]] by simp
  have cu: "attempt l z \<Longrightarrow> current l' z \<Longrightarrow> current l z \<and> cur_rec l' = cur_rec l"
    using current_mono [OF e att_old(1) [OF attempt_att]] evolvesD(6) [OF e] by blast
  have seq: "seq (sp l) \<le> seq (sp l')" by (rule evolvesD(1) [OF e])
  show ?thesis
  proof (cases c)
    case S_sp
    then show ?thesis using ph work_mono [OF e] same evolvesD(5) [OF e z] seq by simp
  next
    case S_wait
    then show ?thesis using ph work_mono [OF e] same by simp
  next
    case (S_help i q x)
    then have a: "attempt l z" and q: "q < n" "q \<notin> todo n l z"
      and q': "current l z \<Longrightarrow> x = announce l q"
      and r: "ran n f l z (insert q (todo n l z)) (state (lsp l z)) (ret (lsp l z))"
      using ph by auto
    have "x = announce l' q" if c: "current l' z"
    proof -
      from cu [OF a c] have c': "current l z" "cur_rec l' = cur_rec l" by auto
      from r q(1) in_cells [OF q(1)] c'(1) have "pend l q" unfolding ran_def loaded_def by blast
      moreover have "seq (sp l') = seq (sp l)" using current_mono [OF e att_old(1) [OF attempt_att [OF a]] c] by blast
      ultimately have "announce l' q = announce l q" using evolvesD(7) [OF e _ q(1)] by blast
      with c' q' show ?thesis using same by simp
    qed
    moreover have "ran n f l' z (insert q (todo n l z)) (state (lsp l z)) (ret (lsp l z))"
      by (rule rn [OF attempt_att [OF a] _ r]) (use q sub in auto)
    ultimately show ?thesis using S_help ph attempt a lsp [OF a] same by simp
  next
    case (S_arg i q)
    then show ?thesis using ph attempt lsp cu same rn [OF attempt_att, of "insert q (todo n l z)"] sub by auto
  next
    case (S_own_ret r)
    then show ?thesis using ph attempt lsp same rn [OF attempt_att subset_trans [OF Diff_subset sub]] by auto
  next
    case (S_help_ret i q r)
    then show ?thesis using ph attempt lsp same rn [OF attempt_att, of "todo n l z"] op [OF attempt_att] sub by auto
  next
    case S_own
    then show ?thesis using ph attempt lsp same rn [OF attempt_att, of "todo n l z"] sub by auto
  next
    case (S_loop i)
    then show ?thesis using ph attempt lsp same rn [OF attempt_att, of "todo n l z"] sub by auto
  next
    case (S_applied k)
    then show ?thesis using ph attempt lsp same rn [OF attempt_att, of "{}"] by auto
  next
    case S_test
    then show ?thesis using ph attempt lsp same rn [OF attempt_att, of "{}"] by auto
  next
    case S_cas
    then show ?thesis using ph attempt lsp same rn [OF attempt_att, of "{}"] by auto
  qed (use ph attempt att cop [OF attempt_att] ld [OF attempt_att] wd [OF attempt_att] pb evolvesD(8,9,11,13) [OF e] in auto)
qed

section \<open>Steps that write only what belongs to the thread\<close>

lemma inv_parts:
  assumes "sim_inv n f l"
  shows "shared_ok n l" "z < n \<Longrightarrow> own_ok n l z" "z < n \<Longrightarrow> phase_ok n f l z (pc l z)" "n \<le> z \<Longrightarrow> pc l z = S_out"
  using assms unfolding sim_inv_def by auto

lemma sharedD:
  assumes "shared_ok n l"
  shows "nthreads l = n" "vec_ok n (a_toggles l)" "k \<le> 4 * n \<Longrightarrow> vec_ok n (applied (pool l k))"
    "index (sp l) = hist l (seq (sp l))" "s \<le> seq (sp l) \<Longrightarrow> hist l s \<le> 4 * n"
    "p < n \<Longrightarrow> tnext l p \<le> Suc (seq (sp l))" "p < n \<Longrightarrow> pend l p \<Longrightarrow> seq (sp l) \<le> tnext l p"
    "p < n \<Longrightarrow> pend l p \<Longrightarrow> s \<le> seq (sp l) \<Longrightarrow> tnext l p \<le> Suc s \<Longrightarrow> tbit (applied (pool l (hist l s))) p \<noteq> tbit (a_toggles l) p"
    "p < n \<Longrightarrow> \<not> pend l p \<Longrightarrow> tnext l p \<le> aseq l p" "p < n \<Longrightarrow> \<not> pend l p \<Longrightarrow> aseq l p \<le> seq (sp l)"
    "p < n \<Longrightarrow> \<not> pend l p \<Longrightarrow> aseq l p \<le> s \<Longrightarrow> s \<le> seq (sp l) \<Longrightarrow> good l p (pool l (hist l s))"
  using assms unfolding shared_ok_def by (blast | metis)+

lemma ownD:
  assumes "own_ok n l z"
  shows "tvec_ok (my_bit (th l z))" "tv_nthreads (my_bit (th l z)) = n" "tvec_ok (toggle (th l z))" "tv_nthreads (toggle (th l z)) = n"
    "tvec_ok (diffs (th l z))" "tv_nthreads (diffs (th l z)) = n" "vec_ok n (l_toggles (th l z))"
    "tbit (my_bit (th l z)) z = (\<not> tbit (a_toggles l) z)"
    "cell (toggle (th l z)) ! (z div 64) = (if tbit (a_toggles l) z then 2 ^ (z mod 64) else - (2 ^ (z mod 64)))"
    "local_index (th l z) < 4"
    "s \<le> seq (sp l) \<Longrightarrow> i < 4 \<Longrightarrow> hist l s = 4 * z + i \<Longrightarrow> \<exists>c. c + s \<le> seq (sp l) \<and> local_index (th l z) = (i + 1 + c) mod 4"
  using assms unfolding own_ok_def by (blast | metis)+

definition own_move :: "nat \<Rightarrow> ('x, 'r, 's) SimStruct \<Rightarrow> ('x, 'r, 's) SimStruct \<Rightarrow> tid \<Rightarrow> bool" where
  "own_move n l l' z \<longleftrightarrow> sp l' = sp l \<and> a_toggles l' = a_toggles l \<and> announce l' = announce l \<and> nthreads l' = nthreads l
     \<and> hist l' = hist l \<and> tnext l' = tnext l \<and> aseq l' = aseq l
     \<and> (\<forall>q. q \<noteq> z \<longrightarrow> th l' q = th l q \<and> arg l' q = arg l q \<and> old_sp l' q = old_sp l q \<and> lsp_data l' q = lsp_data l q
          \<and> tries l' q = tries l q \<and> pc l' q = pc l q)
     \<and> (pool l' = pool l \<or> (\<exists>r. att l z \<and> pool l' = (pool l)(lsp_data l z := r) \<and> vec_ok n (applied r)
          \<and> (\<forall>p < n. \<not> pend l p \<and> aseq l p \<le> oseq l z \<and> good l p (lsp l z) \<longrightarrow> good l p r)))"

lemma own_move_same:
  assumes "own_move n l l' z"
  shows "sp l' = sp l" "a_toggles l' = a_toggles l" "announce l' = announce l" "nthreads l' = nthreads l"
    "hist l' = hist l" "tnext l' = tnext l" "aseq l' = aseq l"
    "q \<noteq> z \<Longrightarrow> th l' q = th l q \<and> arg l' q = arg l q \<and> old_sp l' q = old_sp l q \<and> lsp_data l' q = lsp_data l q
          \<and> tries l' q = tries l q \<and> pc l' q = pc l q"
  using assms unfolding own_move_def by blast+

text \<open>A thread does not work on a record published by one of the last three sequence numbers.\<close>

lemma lsp_not_recent:
  assumes "att l z" and "s \<le> seq (sp l)" and "seq (sp l) \<le> s + 2"
  shows "hist l s \<noteq> lsp_data l z"
  using assms unfolding att_def by fastforce

lemma own_move_pool:
  assumes m: "own_move n l l' z" and s: "s \<le> seq (sp l)" "seq (sp l) \<le> s + 2"
  shows "pool l' (hist l s) = pool l (hist l s)"
  using m lsp_not_recent [OF _ s, of z] unfolding own_move_def by auto

lemma own_move_cur:
  assumes m: "own_move n l l' z" and sh: "shared_ok n l"
  shows "pool l' (index (sp l)) = cur_rec l" "pend l' = pend l" "good l' = good l"
proof -
  show c: "pool l' (index (sp l)) = cur_rec l"
    using own_move_pool [OF m, of "seq (sp l)"] sharedD(4) [OF sh] by simp
  show "pend l' = pend l" "good l' = good l"
    using c own_move_same [OF m] by (simp_all add: pend_def good_def fun_eq_iff)
qed

lemma own_move_shared:
  assumes m: "own_move n l l' z" and sh: "shared_ok n l"
  shows "shared_ok n l'"
proof -
  note same = own_move_same [OF m] and cur = own_move_cur [OF m sh] and d = sharedD [OF sh]
  have vec: "vec_ok n (applied (pool l' k))" if "k \<le> 4 * n" for k
    using m d(3) [OF that] unfolding own_move_def by auto
  have old: "tbit (applied (pool l' (hist l s))) p \<noteq> tbit (a_toggles l) p"
    if "p < n" "pend l p" "s \<le> seq (sp l)" "tnext l p \<le> Suc s" for p s
  proof -
    have "seq (sp l) \<le> s + 2" using d(7) [OF that(1,2)] that(4) by simp
    from own_move_pool [OF m that(3) this] d(8) [OF that] show ?thesis by simp
  qed
  have gd: "good l p (pool l' (hist l s))"
    if p: "p < n" "\<not> pend l p" "aseq l p \<le> s" "s \<le> seq (sp l)" for p s
  proof (cases "pool l' (hist l s) = pool l (hist l s)")
    case True
    then show ?thesis using d(11) [OF p] by simp
  next
    case False
    then obtain r where r: "att l z" "pool l' = (pool l)(lsp_data l z := r)" "hist l s = lsp_data l z"
      "\<not> pend l p \<and> aseq l p \<le> oseq l z \<and> good l p (lsp l z) \<longrightarrow> good l p r"
      using m p(1) unfolding own_move_def by (auto split: if_splits)
    from r(1,3) p(4) have "s \<le> oseq l z" unfolding att_def by fastforce
    then show ?thesis using r d(11) [OF p] p by simp
  qed
  show ?thesis unfolding shared_ok_def same cur using d vec old gd by simp
qed

lemma work_lsp: "work l z \<Longrightarrow> own_ok n l z \<Longrightarrow> lsp_data l z div 4 = z"
  unfolding work_def own_ok_def by simp

lemma own_move_evolves:
  assumes m: "own_move n l l' z" and inv: "sim_inv n f l" and z: "z < n" and q: "q < n" "q \<noteq> z"
  shows "evolves n l l' q"
proof -
  note sh = inv_parts(1) [OF inv]
  note same = own_move_same [OF m] and cur = own_move_cur [OF m sh]
  have "pool l' (lsp_data l q) = pool l (lsp_data l q)" if w: "work l q"
  proof (cases "pool l' = pool l")
    case False
    then obtain r where "att l z" "pool l' = (pool l)(lsp_data l z := r)" using m unfolding own_move_def by blast
    moreover have "lsp_data l q \<noteq> lsp_data l z"
      using work_lsp [OF w inv_parts(2) [OF inv q(1)]] work_lsp [OF att_old(2) [OF \<open>att l z\<close>] inv_parts(2) [OF inv z]] q(2)
      by auto
    ultimately show ?thesis by simp
  qed simp
  then show ?thesis unfolding evolves_def same(1-7) cur using same(8) [OF q(2)] by simp
qed

lemma inv_evolve:
  assumes inv: "sim_inv n f l" and z: "z < n" and sh: "shared_ok n l'"
    and others: "\<And>q. q < n \<Longrightarrow> q \<noteq> z \<Longrightarrow> evolves n l l' q" "\<And>q. q \<noteq> z \<Longrightarrow> pc l' q = pc l q"
    and own: "own_ok n l' z" "phase_ok n f l' z (pc l' z)"
  shows "sim_inv n f l'"
  unfolding sim_inv_def
proof (intro conjI allI impI)
  show "own_ok n l' q" if "q < n" for q
    using own(1) own_mono [OF others(1) [OF that] that inv_parts(2) [OF inv that]] by (cases "q = z") simp_all
  show "phase_ok n f l' q (pc l' q)" if "q < n" for q
    using own(2) phase_mono [OF others(1) [OF that] that inv_parts(2,3) [OF inv that]] others(2) [of q] by (cases "q = z") simp_all
  show "pc l' q = S_out" if "n \<le> q" for q using others(2) [of q] inv_parts(4) [OF inv that] that z by simp
qed (rule sh)

lemma own_step:
  assumes inv: "sim_inv n f l" and z: "z < n" and m: "own_move n l l' z"
    and th: "my_bit (th l' z) = my_bit (th l z)" "toggle (th l' z) = toggle (th l z)" "local_index (th l' z) = local_index (th l z)"
      "tvec_ok (diffs (th l' z))" "tv_nthreads (diffs (th l' z)) = n" "vec_ok n (l_toggles (th l' z))"
    and ph: "phase_ok n f l' z (pc l' z)"
  shows "sim_inv n f l'"
proof (rule inv_evolve [OF inv z])
  show "shared_ok n l'" by (rule own_move_shared [OF m inv_parts(1) [OF inv]])
  show "own_ok n l' z" using inv_parts(2) [OF inv z] th own_move_same(1-7) [OF m] unfolding own_ok_def by simp
  show "evolves n l l' q" if "q < n" "q \<noteq> z" for q by (rule own_move_evolves [OF m inv z that])
  show "pc l' q = pc l q" if "q \<noteq> z" for q using own_move_same(8) [OF m that] by simp
qed (rule ph)

text \<open>The parts of the phase that such a step does not change.\<close>

lemma own_move_att:
  assumes m: "own_move n l l' z" and sh: "shared_ok n l"
    and same: "lsp_data l' z = lsp_data l z" "arg l' z = arg l z" "local_index (th l' z) = local_index (th l z)"
  shows "work l' z = work l z"
    and "old_sp l' z = old_sp l z \<Longrightarrow> tries l' z = tries l z \<Longrightarrow> att l' z = att l z"
    and "old_sp l' z = old_sp l z \<Longrightarrow> tries l' z = tries l z \<Longrightarrow> attempt l' z = attempt l z"
    and "old_sp l' z = old_sp l z \<Longrightarrow> current l' z = current l z"
    and "old_sp l' z = old_sp l z \<Longrightarrow> l_toggles (th l' z) = l_toggles (th l z) \<Longrightarrow> loaded n l' z k = loaded n l z k"
    and "old_sp l' z = old_sp l z \<Longrightarrow> lsp l' z = lsp l z \<Longrightarrow> copied n l' z k = copied n l z k"
    and "old_sp l' z = old_sp l z \<Longrightarrow> word_ok n l' z k w = word_ok n l z k w"
    and "old_sp l' z = old_sp l z \<Longrightarrow> open_req l' z p = open_req l z p"
    and "published l' z k = published l z k"
proof -
  note s = own_move_same [OF m] own_move_cur [OF m sh]
  show w: "work l' z = work l z" using s same by (simp add: work_def)
  show "att l' z = att l z" if "old_sp l' z = old_sp l z" "tries l' z = tries l z" using that s same w by (simp add: att_def)
  then show "attempt l' z = attempt l z" if "old_sp l' z = old_sp l z" "tries l' z = tries l z"
    using that s by (simp add: attempt_def)
  show c: "current l' z = current l z" if "old_sp l' z = old_sp l z" using that s by (simp add: current_def)
  show "loaded n l' z k = loaded n l z k" if "old_sp l' z = old_sp l z" "l_toggles (th l' z) = l_toggles (th l z)"
    using that c s by (simp add: loaded_def)
  show "copied n l' z k = copied n l z k" if "old_sp l' z = old_sp l z" "lsp l' z = lsp l z"
    using that c s by (simp add: copied_def)
  show "word_ok n l' z k w = word_ok n l z k w" if "old_sp l' z = old_sp l z"
    using that c s by (simp add: word_ok_def)
  show "open_req l' z p = open_req l z p" if "old_sp l' z = old_sp l z" using that s by (simp add: open_req_def)
  show "published l' z k = published l z k" using s by (simp add: published_def)
qed

lemma own_move_ran:
  assumes m: "own_move n l l' z" and sh: "shared_ok n l"
    and same: "old_sp l' z = old_sp l z" "l_toggles (th l' z) = l_toggles (th l z)" and d: "vec_ok n (diffs (th l' z))"
    and r: "ran n f l z D s rt"
  shows "ran n f l' z D s rt"
  using r d same own_move_same [OF m] own_move_cur [OF m sh]
  by (simp add: ran_def loaded_def current_def open_req_def)

end
