(* ===== verification/SimSteps.thy ===== *)
theory SimSteps
  imports SimInvariant
begin

text \<open>
  Every step of the Sim construction keeps its invariant, and the initial state has it. The critical
  steps are the test of line 86, which may read a record that is being overwritten, the stores into the
  own record, which late readers may still look at, and the compare-and-swap that publishes it.
\<close>

section \<open>The steps, one by one\<close>

text \<open>Steps that only move the program point.\<close>

lemma goto_parts [simp]:
  "pend (l\<lparr>pc := g\<rparr>) = pend l" "good (l\<lparr>pc := g\<rparr>) = good l" "current (l\<lparr>pc := g\<rparr>) z = current l z"
  "work (l\<lparr>pc := g\<rparr>) z = work l z" "todo n (l\<lparr>pc := g\<rparr>) z = todo n l z"
  by (simp_all add: pend_def good_def current_def work_def todo_def fun_eq_iff)

lemma goto_parts2 [simp]:
  "att (l\<lparr>pc := g\<rparr>) z = att l z" "copied n (l\<lparr>pc := g\<rparr>) z k = copied n l z k" "word_ok n (l\<lparr>pc := g\<rparr>) z k w = word_ok n l z k w"
  "loaded n (l\<lparr>pc := g\<rparr>) z k = loaded n l z k" "open_req (l\<lparr>pc := g\<rparr>) z p = open_req l z p"
  "published (l\<lparr>pc := g\<rparr>) z k = published l z k"
  by (simp_all add: att_def copied_def word_ok_def loaded_def open_req_def published_def)

lemma goto_parts3 [simp]:
  "attempt (l\<lparr>pc := g\<rparr>) z = attempt l z" "ran n f (l\<lparr>pc := g\<rparr>) z D s rt = ran n f l z D s rt"
  by (simp_all add: attempt_def ran_def)

lemma phase_goto: "phase_ok n f (l\<lparr>pc := g\<rparr>) z c = phase_ok n f l z c"
  by (cases c) simp_all

lemma goto_step:
  assumes inv: "sim_inv n f l" and z: "z < n" and ph: "phase_ok n f l z c"
  shows "sim_inv n f (goto z c l)"
  by (rule own_step [OF inv z]) (use ownD [OF inv_parts(2) [OF inv z]] ph in \<open>simp_all add: own_move_def phase_goto\<close>)

lemma inv_phase: "\<lbrakk>sim_inv n f l; z < n; pc l z = c\<rbrakk> \<Longrightarrow> phase_ok n f l z c"
  using inv_parts(3) [of n f l z] by simp

lemma cells_pos [simp]: "0 < TVEC_CELLS n"
  by (simp add: TVEC_CELLS_def)

lemma published_cur: "shared_ok n l \<Longrightarrow> z < n \<Longrightarrow> \<not> pend l z \<Longrightarrow> published l z (index (sp l))"
  unfolding published_def using sharedD(4) [of n l] sharedD(10) [of n l z] by (metis order_refl)

lemma todo_bit: "p \<in> todo n l z \<longleftrightarrow> p < n \<and> bit (cell (diffs (th l z)) ! (p div 64)) (p mod 64)"
  by (simp add: todo_def tbit_def)

lemma sim_goto_steps:
  assumes inv: "sim_inv n f l" and z: "z < n"
  shows "pc l z = S_wait \<Longrightarrow> sim_inv n f (SimApplyOp SIM_LOCAL_POOL_SIZE f z l)"
    and "pc l z = S_sp \<Longrightarrow> \<not> tries l z < 2 \<Longrightarrow> sim_inv n f (SimApplyOp SIM_LOCAL_POOL_SIZE f z l)"
    and "pc l z = S_load k \<Longrightarrow> sim_inv n f (SimApplyOp SIM_LOCAL_POOL_SIZE f z l)"
    and "pc l z = S_arg i q \<Longrightarrow> sim_inv n f (SimApplyOp SIM_LOCAL_POOL_SIZE f z l)"
    and "pc l z = S_test \<Longrightarrow> old_sp l z = sp l \<Longrightarrow> sim_inv n f (SimApplyOp SIM_LOCAL_POOL_SIZE f z l)"
    and "pc l z = S_ret \<Longrightarrow> sim_inv n f (SimApplyOp SIM_LOCAL_POOL_SIZE f z l)"
    and "pc l z = S_final \<Longrightarrow> sim_inv n f (SimApplyOp SIM_LOCAL_POOL_SIZE f z l)"
    and "pc l z = S_final_ret k \<Longrightarrow> sim_inv n f (SimApplyOp SIM_LOCAL_POOL_SIZE f z l)"
proof -
  note sh = inv_parts(1) [OF inv] and ph = inv_phase [OF inv z] and go = goto_step [OF inv z]
  show "sim_inv n f (SimApplyOp SIM_LOCAL_POOL_SIZE f z l)" if "pc l z = S_wait"
    using go [of S_sp] ph [OF that] that sharedD(6) [OF sh z] by simp
  show "sim_inv n f (SimApplyOp SIM_LOCAL_POOL_SIZE f z l)" if "pc l z = S_sp" "\<not> tries l z < 2"
    using go [of S_final] ph [OF that(1)] that sharedD(7) [OF sh z] by auto
  show "sim_inv n f (SimApplyOp SIM_LOCAL_POOL_SIZE f z l)" if "pc l z = S_load k"
  proof -
    from ph [OF that] have a: "attempt l z" and c: "k < state_words n" "copied n l z k" by simp_all
    note at = attempt_att [OF a]
    have o: "oseq l z \<le> seq (sp l)" and i: "index (old_sp l z) = hist l (oseq l z)" using at unfolding att_def by blast+
    let ?r = "pool l (index (old_sp l z))"
    have "vec_ok n (applied ?r)" using sharedD(3) [OF sh sharedD(5) [OF sh o]] i by simp
    moreover have "good l p ?r" if "p < n" "\<not> pend l p" "aseq l p \<le> oseq l z" for p
      using sharedD(11) [OF sh that o] i by simp
    moreover have "?r = cur_rec l" if "current l z"
      using that i sharedD(4) [OF sh] unfolding current_def by simp
    ultimately have "word_ok n l z k (load_word n ?r k)" unfolding word_ok_def by auto
    then show ?thesis using go [of "S_store k (load_word n ?r k)"] a c that sharedD(1) [OF sh] by simp
  qed
  show "sim_inv n f (SimApplyOp SIM_LOCAL_POOL_SIZE f z l)" if "pc l z = S_arg i q"
    using go [of "S_help i q (announce l q)"] ph [OF that] that by (simp add: Let_def)
  show "sim_inv n f (SimApplyOp SIM_LOCAL_POOL_SIZE f z l)" if "pc l z = S_test" "old_sp l z = sp l"
    using go [of S_cas] ph [OF that(1)] that by simp
  show "sim_inv n f (SimApplyOp SIM_LOCAL_POOL_SIZE f z l)" if "pc l z = S_ret"
    using go [of S_out] ph [OF that] that by (simp add: published_def)
  show "sim_inv n f (SimApplyOp SIM_LOCAL_POOL_SIZE f z l)" if "pc l z = S_final"
    using go [of "S_final_ret (index (sp l))"] ph [OF that] that published_cur [OF sh z] by simp
  show "sim_inv n f (SimApplyOp SIM_LOCAL_POOL_SIZE f z l)" if "pc l z = S_final_ret k"
    using go [of S_out] ph [OF that] that by (simp add: published_def)
qed

lemma sim_invoke:
  assumes inv: "sim_inv n f l" and z: "z < n" and p: "pc l z = S_out"
  shows "sim_inv n f (goto z S_announce (l\<lparr>arg := (arg l)(z := x)\<rparr>))"
  by (rule own_step [OF inv z])
    (use ownD [OF inv_parts(2) [OF inv z]] inv_phase [OF inv z p] in \<open>simp_all add: own_move_def pend_def\<close>)

lemma sim_read_sp:
  assumes inv: "sim_inv n f l" and z: "z < n" and p: "pc l z = S_sp" and t: "tries l z < 2"
  shows "sim_inv n f (SimApplyOp SIM_LOCAL_POOL_SIZE f z l)"
proof -
  define k where "k = goto z S_bank (l\<lparr>old_sp := (old_sp l)(z := sp l)\<rparr>)"
  note sh = inv_parts(1) [OF inv] and ow = ownD [OF inv_parts(2) [OF inv z]]
  have ph: "work l z" "tnext l z + tries l z \<le> Suc (seq (sp l))" using inv_phase [OF inv z p] by simp_all
  have m: "own_move n l k z" by (simp add: own_move_def k_def)
  have "s + 3 \<le> seq (sp l)" if "s \<le> seq (sp l)" "hist l s = lsp_data l z" for s
  proof -
    from ow(11) [OF that(1) ow(10)] that(2) ph(1) obtain c where
      c: "c + s \<le> seq (sp l)" "local_index (th l z) = (local_index (th l z) + 1 + c) mod 4" unfolding work_def by metis
    have "3 \<le> c"
    proof (rule ccontr)
      assume "\<not> 3 \<le> c"
      then have "c = 0 \<or> c = 1 \<or> c = 2" by auto
      moreover have "local_index (th l z) = 0 \<or> local_index (th l z) = 1 \<or> local_index (th l z) = 2 \<or> local_index (th l z) = 3"
        using ow(10) by auto
      ultimately show False using c(2) by auto
    qed
    with c(1) show ?thesis by simp
  qed
  then have "att k z" using ph t sharedD(4) [OF sh] by (simp add: att_def work_def k_def)
  then have "sim_inv n f k" by (intro own_step [OF inv z m]) (use ow in \<open>simp_all add: k_def\<close>)
  then show ?thesis using p t by (simp add: k_def)
qed

lemma not_current:
  assumes "att l z" and "shared_ok n l" and "old_sp l z \<noteq> sp l"
  shows "oseq l z < seq (sp l)"
proof (rule ccontr)
  assume "\<not> oseq l z < seq (sp l)"
  then have "oseq l z = seq (sp l)" "index (old_sp l z) = index (sp l)"
    using assms(1) sharedD(4) [OF assms(2)] unfolding att_def by auto
  then have "old_sp l z = sp l" by simp
  with assms(3) show False by simp
qed

text \<open>A failed attempt: the pointer has moved since it was read.\<close>

lemma sim_retry:
  assumes inv: "sim_inv n f l" and z: "z < n" and a: "att l z" and ne: "old_sp l z \<noteq> sp l"
    and m: "own_move n l l' z" and p: "pc l' z = S_sp" "tries l' z = Suc (tries l z)"
    and same: "lsp_data l' z = lsp_data l z" "arg l' z = arg l z" "th l' z = (th l z)\<lparr>backoff := b\<rparr>"
  shows "sim_inv n f l'"
proof (rule own_step [OF inv z m])
  note sh = inv_parts(1) [OF inv]
  have "work l' z" using own_move_att(1) [OF m sh same(1,2)] same(3) att_old(2) [OF a] by simp
  moreover have "tries l z < 2" "tnext l z + tries l z \<le> Suc (oseq l z)" using a unfolding att_def by blast+
  ultimately show "phase_ok n f l' z (pc l' z)"
    using p not_current [OF a sh ne] own_move_same(1,6) [OF m] by simp
qed (use same(3) ownD [OF inv_parts(2) [OF inv z]] in simp_all)

lemma sim_retries:
  assumes inv: "sim_inv n f l" and z: "z < n" and p: "pc l z \<in> {S_check, S_test, S_cas}" and ne: "old_sp l z \<noteq> sp l"
  shows "sim_inv n f (SimApplyOp SIM_LOCAL_POOL_SIZE f z l)"
proof -
  have a: "att l z" using inv_parts(3) [OF inv z] p attempt_att by auto
  consider "pc l z = S_check" | "pc l z = S_test \<or> pc l z = S_cas" using p by blast
  then show ?thesis
  proof cases
    case 1
    define k where "k = goto z S_sp (l\<lparr>tries := (tries l)(z := Suc (tries l z))\<rparr>)"
    have "sim_inv n f k" by (rule sim_retry [OF inv z a ne, where b = "backoff (th l z)"]) (simp_all add: k_def own_move_def)
    then show ?thesis using 1 ne by (simp add: k_def)
  next
    case 2
    define b where "b = (if backoff (th l z) < MAX_BACK l then 2 * backoff (th l z) else backoff (th l z))"
    have "sim_inv n f (sim_fail z l)"
      by (rule sim_retry [OF inv z a ne, where b = b]) (simp_all add: sim_fail_def own_move_def b_def)
    then show ?thesis using 2 ne by (auto simp: sim_cas_def Let_def)
  qed
qed

text \<open>The test of line 86: the bit read from the record is the thread's bit on the board exactly if
  the request has been applied, even when the record is no longer the current one.\<close>

lemma sim_bank_step:
  assumes inv: "sim_inv n f l" and z: "z < n" and p: "pc l z = S_bank"
  shows "sim_inv n f (SimApplyOp SIM_LOCAL_POOL_SIZE f z l)"
proof -
  note sh = inv_parts(1) [OF inv] and ow = ownD [OF inv_parts(2) [OF inv z]]
  have a: "att l z" using inv_phase [OF inv z p] by simp
  have o: "oseq l z \<le> seq (sp l)" and i: "index (old_sp l z) = hist l (oseq l z)" and tn: "tnext l z \<le> Suc (oseq l z)"
    using a unfolding att_def by auto
  let ?r = "pool l (hist l (oseq l z))"
  define d where "d = TVEC_ATOMIC_COPY_BANKS (diffs (th l z)) (applied ?r) (z div 64)"
  define d' where "d' = TVEC_XOR_BANKS d d (my_bit (th l z)) (z div 64)"
  define c where "c = (if TVEC_IS_SET d' z then S_final else S_load 0 :: ('a, 'c, 'b) sim_pc)"
  define k where "k = goto z c (set_th z ((th l z)\<lparr>diffs := d'\<rparr>) l)"
  have eq: "SimApplyOp SIM_LOCAL_POOL_SIZE f z l = k"
    using p sharedD(1) [OF sh] bank_of_bit [OF z] i
    by (simp add: k_def c_def d'_def d_def sim_bank_def Let_def)
  have dz: "in_vec (diffs (th l z)) z" using thread_in_vec [OF ow(5)] ow(6) z by simp
  have t: "tvec_ok d" "tvec_ok d'" unfolding d'_def d_def by (intro tvec_ok_ops ow(5))+
  have nt: "tv_nthreads d = n" "tv_nthreads d' = n" using ow(6) by (simp_all add: d'_def d_def TVEC_XOR_BANKS_def TVEC_ATOMIC_COPY_BANKS_def)
  have "tbit d' z \<longleftrightarrow> tbit d z \<noteq> tbit (my_bit (th l z)) z"
    unfolding d'_def by (rule tbit_XOR_BANKS) (use thread_in_vec [OF t(1)] nt z in simp_all)
  moreover have "tbit d z = tbit (applied ?r) z" unfolding d_def by (rule tbit_COPY_BANKS [OF dz]) simp
  ultimately have set: "TVEC_IS_SET d' z \<longleftrightarrow> tbit (applied ?r) z = tbit (a_toggles l) z"
    using ow(8) by (auto simp: TVEC_IS_SET_tbit)
  have m: "own_move n l k z" by (simp add: own_move_def k_def)
  have at: "att k z = att l z" by (rule own_move_att(2) [OF m sh]) (simp_all add: k_def)
  note cur = own_move_cur [OF m sh] own_move_same [OF m]
  have "phase_ok n f k z c"
  proof (cases "TVEC_IS_SET d' z")
    case True
    then have "\<not> pend l z" using sharedD(8) [OF sh z _ o tn] set by blast
    then show ?thesis using True cur by (simp add: c_def)
  next
    case False
    then have "oseq l z < aseq l z" if "\<not> pend l z"
      using sharedD(11) [OF sh z that _ o] set unfolding good_def by (metis not_less)
    then have "attempt k z" using a at cur unfolding attempt_def by (simp add: k_def)
    then show ?thesis using False by (simp add: c_def copied_def state_words_def)
  qed
  then have "sim_inv n f k"
    by (intro own_step [OF inv z m]) (use ow t nt in \<open>simp_all add: k_def\<close>)
  then show ?thesis using eq by simp
qed

lemma sim_toggles_step:
  assumes inv: "sim_inv n f l" and z: "z < n" and p: "pc l z = S_toggles k"
  shows "sim_inv n f (SimApplyOp SIM_LOCAL_POOL_SIZE f z l)"
proof -
  note sh = inv_parts(1) [OF inv] and ow = ownD [OF inv_parts(2) [OF inv z]]
  have a: "attempt l z" and kc: "k < TVEC_CELLS n" and cp: "copied n l z (state_words n)" and ld: "loaded n l z k"
    using inv_phase [OF inv z p] by simp_all
  define lt where "lt = TVEC_ATOMIC_COPY_BANKS (l_toggles (th l z)) (a_toggles l) k"
  define c where "c = (if Suc k < TVEC_CELLS n then S_toggles (Suc k) else S_check :: ('a, 'c, 'b) sim_pc)"
  define l' where "l' = goto z c (set_th z ((th l z)\<lparr>l_toggles := lt\<rparr>) l)"
  have eq: "SimApplyOp SIM_LOCAL_POOL_SIZE f z l = l'" using p sharedD(1) [OF sh] by (simp add: l'_def c_def lt_def Let_def)
  have v: "vec_ok n lt" unfolding lt_def by (rule vec_ok_copy_bank [OF ow(7) sharedD(2) [OF sh]])
  have m: "own_move n l l' z" by (simp add: own_move_def l'_def)
  note at = own_move_att [OF m sh]
  have b: "tbit lt q = (if q div 64 = k then tbit (a_toggles l) q else tbit (l_toggles (th l z)) q)" if "q < n" for q
    unfolding lt_def by (rule tbit_copy_bank [OF ow(7) in_cells [OF that]])
  have "loaded n l' z (Suc k)" unfolding loaded_def
  proof (intro allI impI)
    fix q assume q: "q < n" "q div 64 < Suc k"
    have f: "tnext l' = tnext l" "old_sp l' z = old_sp l z" "l_toggles (th l' z) = lt" "a_toggles l' = a_toggles l" "cur_rec l' = cur_rec l"
      "current l' z = current l z" "pend l' = pend l"
      using own_move_cur(2) [OF m sh] by (simp_all add: l'_def current_def)
    show "(tnext l' q \<le> oseq l' z \<or> q = z \<longrightarrow> tbit (l_toggles (th l' z)) q = tbit (a_toggles l') q)
      \<and> (current l' z \<longrightarrow> tbit (l_toggles (th l' z)) q \<noteq> tbit (applied (cur_rec l')) q \<longrightarrow> pend l' q)"
    proof (cases "q div 64 = k")
      case True
      then have "tbit lt q = tbit (a_toggles l) q" using b [OF q(1)] by simp
      then show ?thesis unfolding f pend_def by blast
    next
      case False
      then have "tbit lt q = tbit (l_toggles (th l z)) q" "q div 64 < k" using b [OF q(1)] q(2) by simp_all
      then show ?thesis using ld q(1) unfolding f loaded_def by simp
    qed
  qed
  moreover have "attempt l' z" "copied n l' z (state_words n)"
    using a cp at(3,6) by (simp_all add: l'_def)
  moreover have "Suc k = TVEC_CELLS n" if "\<not> Suc k < TVEC_CELLS n" using that kc by simp
  ultimately have "phase_ok n f l' z c" by (auto simp: c_def)
  then have "sim_inv n f l'" by (intro own_step [OF inv z m]) (use ow v in \<open>simp_all add: l'_def\<close>)
  then show ?thesis using eq by simp
qed

lemma copied_all:
  assumes c: "copied n l z (state_words n)" and cu: "current l z"
    and v: "vec_ok n (applied (lsp l z))" "vec_ok n (applied (cur_rec l))"
  shows "state (lsp l z) = state (cur_rec l)" "p < n \<Longrightarrow> ret (lsp l z) p = ret (cur_rec l) p"
    "p < n \<Longrightarrow> tbit (applied (lsp l z)) p = tbit (applied (cur_rec l)) p"
proof -
  have w: "m < state_words n \<Longrightarrow> load_word n (lsp l z) m = load_word n (cur_rec l) m" for m
    using c cu unfolding copied_def by blast
  show "state (lsp l z) = state (cur_rec l)" using w [of 0] by (simp add: load_word_def state_words_def)
  show "ret (lsp l z) p = ret (cur_rec l) p" if "p < n"
    using w [of "Suc (TVEC_CELLS n + p)"] that by (simp add: load_word_def state_words_def)
  show "tbit (applied (lsp l z)) p = tbit (applied (cur_rec l)) p" if "p < n"
    using w [of "Suc (p div 64)"] in_cells [OF that] by (simp add: load_word_def state_words_def tbit_def)
qed

lemma work_index: "work l z \<Longrightarrow> own_ok n l z \<Longrightarrow> z < n \<Longrightarrow> lsp_data l z \<le> 4 * n"
  unfolding work_def own_ok_def by linarith

lemma sim_check_step:
  assumes inv: "sim_inv n f l" and z: "z < n" and p: "pc l z = S_check" and e: "old_sp l z = sp l"
  shows "sim_inv n f (SimApplyOp SIM_LOCAL_POOL_SIZE f z l)"
proof -
  note sh = inv_parts(1) [OF inv] and ow = ownD [OF inv_parts(2) [OF inv z]]
  have a: "attempt l z" and cp: "copied n l z (state_words n)" and ld: "loaded n l z (TVEC_CELLS n)"
    using inv_phase [OF inv z p] by simp_all
  have cu: "current l z" using e by (simp add: current_def)
  have vl: "vec_ok n (applied (lsp l z))"
    by (rule sharedD(3) [OF sh work_index [OF att_old(2) [OF attempt_att [OF a]] inv_parts(2) [OF inv z] z]])
  have vc: "vec_ok n (applied (cur_rec l))" using sharedD(3) [OF sh sharedD(5) [OF sh order_refl]] sharedD(4) [OF sh] by simp
  note ca = copied_all [OF cp cu vl vc]
  define d where "d = TVEC_XOR (diffs (th l z)) (applied (lsp l z)) (l_toggles (th l z))"
  define l' where "l' = goto z S_own (set_th z ((th l z)\<lparr>diffs := d\<rparr>) l)"
  have eq: "SimApplyOp SIM_LOCAL_POOL_SIZE f z l = l'" using p e by (simp add: l'_def d_def Let_def)
  note v = vec_ok_xor [OF ow(5,6) vl ow(7), folded d_def]
  have bit: "tbit d q \<longleftrightarrow> tbit (l_toggles (th l z)) q \<noteq> tbit (applied (cur_rec l)) q" if "q < n" for q
    using v(2) [OF in_cells [OF that]] ca(3) [OF that] by auto
  have m: "own_move n l l' z" by (simp add: own_move_def l'_def)
  note cur = own_move_cur [OF m sh] own_move_same [OF m] and at = own_move_att [OF m sh]
  have td: "todo n l' z = {q. q < n \<and> tbit (l_toggles (th l z)) q \<noteq> tbit (applied (cur_rec l)) q}"
    using bit by (auto simp: todo_def l'_def)
  have op: "pend l q" if "q \<in> todo n l' z" for q
    using that ld in_cells [of q n] cu unfolding td loaded_def by blast
  have "\<not> oseq l z < aseq l z" if "\<not> pend l z"
    using cu sharedD(10) [OF sh z that] by (simp add: current_def)
  then have pz: "pend l z" using a unfolding attempt_def by blast
  then have "z \<in> todo n l' z" using ld in_cells [OF z] z unfolding td loaded_def pend_def by auto
  moreover have "ran n f l' z (todo n l' z) (state (lsp l' z)) (ret (lsp l' z))"
  proof -
    have eqs: "l_toggles (th l' z) = l_toggles (th l z)" "old_sp l' z = old_sp l z" "diffs (th l' z) = d" "cur_rec l' = cur_rec l"
      "lsp l' z = lsp l z" "announce l' = announce l"
      by (simp_all add: l'_def)
    have "loaded n l' z (TVEC_CELLS n)" using ld at(5) by (simp add: l'_def)
    moreover have "open_req l' z q" if "q \<in> todo n l' z" for q using op [OF that] cur(2) by (simp add: open_req_def)
    moreover have "set [] = {q. q < n \<and> q \<notin> todo n l' z \<and> tbit (l_toggles (th l' z)) q \<noteq> tbit (applied (cur_rec l')) q}"
      unfolding td eqs by auto
    moreover have "\<forall>q \<in> todo n l' z. tbit (l_toggles (th l' z)) q \<noteq> tbit (applied (cur_rec l')) q" unfolding td eqs by auto
    ultimately show ?thesis unfolding ran_def using v(1) eqs ca(1,2)
      by (intro conjI impI exI [of _ "[]"]) simp_all
  qed
  moreover have "attempt l' z" using a at(3) by (simp add: l'_def)
  ultimately have "phase_ok n f l' z S_own" by simp
  then have "sim_inv n f l'"
    by (intro own_step [OF inv z m]) (use ow vec_okD(1,2) [OF v(1)] in \<open>simp_all add: l'_def\<close>)
  then show ?thesis using eq by simp
qed

text \<open>The loop over the bits of \<^verbatim>\<open>diffs\<close>.\<close>

lemma ran_vec: "ran n f l z D s rt \<Longrightarrow> vec_ok n (diffs (th l z))"
  unfolding ran_def by blast

lemma sim_loop_step:
  assumes inv: "sim_inv n f l" and z: "z < n" and p: "pc l z = S_loop i"
  shows "sim_inv n f (SimApplyOp SIM_LOCAL_POOL_SIZE f z l)"
proof -
  note sh = inv_parts(1) [OF inv] and ow = ownD [OF inv_parts(2) [OF inv z]]
  have a: "attempt l z" and td: "\<forall>q \<in> todo n l z. i \<le> q div 64" and r: "ran n f l z (todo n l z) (state (lsp l z)) (ret (lsp l z))"
    using inv_phase [OF inv z p] by simp_all
  note v = ran_vec [OF r]
  let ?c = "cell (diffs (th l z)) ! i"
  consider "TVEC_CELLS n \<le> i" | "i < TVEC_CELLS n" "?c = 0" | "i < TVEC_CELLS n" "?c \<noteq> 0" by linarith
  then show ?thesis
  proof cases
    case 1
    have "todo n l z = {}" using td 1 in_cells [of _ n] by (auto simp: todo_def) (meson le_less_trans not_less)
    then have "phase_ok n f l z (S_applied 0)" using a r by simp
    from goto_step [OF inv z this] show ?thesis using p 1 vec_okD(3) [OF v] by (simp add: Let_def)
  next
    case 2
    have "Suc i \<le> q div 64" if "q \<in> todo n l z" for q
    proof -
      have "q div 64 \<noteq> i" using that 2(2) by (auto simp: todo_bit)
      then show ?thesis using td that by (metis Suc_leI le_neq_implies_less)
    qed
    then have "phase_ok n f l z (S_loop (Suc i))" using a r by simp
    from goto_step [OF inv z this] show ?thesis using p 2 vec_okD(3) [OF v] by (simp add: Let_def)
  next
    case 3
    define pos where "pos = synchBitSearchFirst ?c"
    define q where "q = 64 * i + pos"
    define d where "d = (diffs (th l z))\<lparr>cell := (cell (diffs (th l z)))[i := ?c XOR push_bit pos 1]\<rparr>"
    define k where "k = goto z (S_arg i q) (set_th z ((th l z)\<lparr>diffs := d\<rparr>) l)"
    have eq: "SimApplyOp SIM_LOCAL_POOL_SIZE f z l = k"
      using p 3 vec_okD(3) [OF v] by (simp add: k_def d_def q_def pos_def Let_def)
    note t = take_first_bit [OF v 3, folded pos_def, folded d_def q_def]
    have m: "own_move n l k z" by (simp add: own_move_def k_def)
    note at = own_move_att [OF m sh]
    have td': "todo n k z = todo n l z - {q}" using t(4) [OF in_cells] by (auto simp: todo_def k_def)
    have q: "q \<in> todo n l z" using t(1,2) by (simp add: todo_def)
    have "ran n f k z (todo n l z) (state (lsp l z)) (ret (lsp l z))"
      by (rule own_move_ran [OF m sh _ _ _ r]) (use t(3) in \<open>simp_all add: k_def\<close>)
    moreover have "insert q (todo n k z) = todo n l z" using td' q by auto
    moreover have "attempt k z" using a at(3) by (simp add: k_def)
    moreover have "lsp k z = lsp l z" by (simp add: k_def)
    ultimately have "phase_ok n f k z (S_arg i q)" using td td' t(1) by simp
    then have "sim_inv n f k"
      by (intro own_step [OF inv z m]) (use ow vec_okD(1,2) [OF t(3)] in \<open>simp_all add: k_def\<close>)
    then show ?thesis using eq by simp
  qed
qed

text \<open>Running one more request.\<close>

lemma ran_extend:
  assumes r: "ran n f l z D s rt" and q: "q \<in> D" "q < n" and x: "current l z \<Longrightarrow> x = announce l q"
  shows "ran n f l z (D - {q}) (snd (f q x s)) (rt(q := fst (f q x s)))"
  unfolding ran_def
proof (intro conjI impI ballI)
  show "loaded n l z (TVEC_CELLS n)" "vec_ok n (diffs (th l z))" "p \<in> D - {q} \<Longrightarrow> open_req l z p" for p
    using r unfolding ran_def by blast+
  assume c: "current l z"
  show "p \<in> D - {q} \<Longrightarrow> tbit (l_toggles (th l z)) p \<noteq> tbit (applied (cur_rec l)) p" for p using r c unfolding ran_def by blast
  let ?sr = "(state (cur_rec l), ret (cur_rec l))"
  from r c obtain ops where ops: "distinct ops"
    "set ops = {p. p < n \<and> p \<notin> D \<and> tbit (l_toggles (th l z)) p \<noteq> tbit (applied (cur_rec l)) p}"
    "s = fst (run_ops f (announce l) ops ?sr)" "\<And>p. p < n \<Longrightarrow> rt p = snd (run_ops f (announce l) ops ?sr) p"
    unfolding ran_def by blast
  have "tbit (l_toggles (th l z)) q \<noteq> tbit (applied (cur_rec l)) q" using r c q unfolding ran_def by blast
  then have "set (ops @ [q]) = {p. p < n \<and> p \<notin> D - {q} \<and> tbit (l_toggles (th l z)) p \<noteq> tbit (applied (cur_rec l)) p}"
    using ops(2) q by auto
  moreover have "distinct (ops @ [q])" using ops(1,2) q by simp
  moreover have "run_ops f (announce l) (ops @ [q]) ?sr =
      (snd (f q x s), (snd (run_ops f (announce l) ops ?sr))(q := fst (f q x s)))"
    using ops(3) x [OF c] by (simp add: run_ops_snoc split_beta)
  ultimately show "\<exists>ops. distinct ops
          \<and> set ops = {p. p < n \<and> p \<notin> D - {q} \<and> tbit (l_toggles (th l z)) p \<noteq> tbit (applied (cur_rec l)) p}
          \<and> snd (f q x s) = fst (run_ops f (announce l) ops ?sr)
          \<and> (\<forall>p < n. (rt(q := fst (f q x s))) p = snd (run_ops f (announce l) ops ?sr) p)"
    using ops(4) by (intro exI [of _ "ops @ [q]"]) simp
qed

section \<open>Writing the own record\<close>

lemma record_step:
  assumes inv: "sim_inv n f l" and z: "z < n" and a: "attempt l z"
    and l': "l' = goto z c (set_th z t (set_rec z r l))"
    and t: "my_bit t = my_bit (th l z)" "toggle t = toggle (th l z)" "local_index t = local_index (th l z)"
      "l_toggles t = l_toggles (th l z)" "tvec_ok (diffs t)" "tv_nthreads (diffs t) = n"
    and r: "vec_ok n (applied r)"
      "\<And>p. p < n \<Longrightarrow> \<not> pend l p \<Longrightarrow> aseq l p \<le> oseq l z \<Longrightarrow> good l p (lsp l z) \<Longrightarrow> good l p r"
    and ph: "own_move n l l' z \<Longrightarrow> attempt l' z \<Longrightarrow> phase_ok n f l' z c"
  shows "sim_inv n f l'"
proof -
  note at = attempt_att [OF a] and sh = inv_parts(1) [OF inv] and ow = ownD [OF inv_parts(2) [OF inv z]]
  have m: "own_move n l l' z" unfolding own_move_def
  proof (intro conjI disjI2 exI [of _ r])
    show "\<forall>p < n. \<not> pend l p \<and> aseq l p \<le> oseq l z \<and> good l p (lsp l z) \<longrightarrow> good l p r" using r(2) by blast
  qed (use at r(1) in \<open>simp_all add: l'\<close>)
  have "attempt l' z" using a own_move_att(3) [OF m sh] t by (simp add: l')
  from ph [OF m this] show ?thesis
    by (intro own_step [OF inv z m]) (use t ow in \<open>simp_all add: l'\<close>)
qed

lemma lsp_vec:
  assumes "sim_inv n f l" and "z < n" and "attempt l z"
  shows "vec_ok n (applied (lsp l z))"
  using sharedD(3) [OF inv_parts(1) [OF assms(1)] work_index [OF att_old(2) [OF attempt_att [OF assms(3)]] inv_parts(2) [OF assms(1,2)] assms(2)]] .

lemma set_th_same: "goto z c (set_rec z r l) = goto z c (set_th z (th l z) (set_rec z r l))"
  by simp

lemma not_open: "\<not> pend l p \<Longrightarrow> aseq l p \<le> oseq l z \<Longrightarrow> \<not> open_req l z p"
  unfolding open_req_def by simp

lemma attempt_open: "attempt l z \<Longrightarrow> open_req l z z"
  unfolding attempt_def open_req_def by blast

lemma good_ret: "good l p r \<Longrightarrow> p \<noteq> q \<Longrightarrow> good l p (r\<lparr>ret := (ret r)(q := v)\<rparr>)"
  by (simp add: good_def)

lemma good_state: "good l p (r\<lparr>state := s\<rparr>) = good l p r"
  by (simp add: good_def)

lemma sim_own_step:
  assumes inv: "sim_inv n f l" and z: "z < n" and p: "pc l z = S_own"
  shows "sim_inv n f (SimApplyOp SIM_LOCAL_POOL_SIZE f z l)"
proof -
  note sh = inv_parts(1) [OF inv] and ow = ownD [OF inv_parts(2) [OF inv z]]
  have a: "attempt l z" and zt: "z \<in> todo n l z" and r: "ran n f l z (todo n l z) (state (lsp l z)) (ret (lsp l z))"
    using inv_phase [OF inv z p] by simp_all
  define q where "q = f z (arg l z) (state (lsp l z))"
  define k where "k = goto z (S_own_ret (fst q)) (set_rec z ((lsp l z)\<lparr>state := snd q\<rparr>) l)"
  have eq: "SimApplyOp SIM_LOCAL_POOL_SIZE f z l = k" using p by (simp add: k_def q_def Let_def split_beta)
  have x: "arg l z = announce l z" using att_old(2) [OF attempt_att [OF a]] by (simp add: work_def)
  have r': "ran n f l z (todo n l z - {z}) (snd q) ((ret (lsp l z))(z := fst q))"
    using ran_extend [OF r zt z, of "arg l z"] x by (simp add: q_def)
  have "sim_inv n f k"
  proof (rule record_step [OF inv z a])
    show "k = goto z (S_own_ret (fst q)) (set_th z (th l z) (set_rec z ((lsp l z)\<lparr>state := snd q\<rparr>) l))" by (simp add: k_def)
    assume m: "own_move n l k z" and a': "attempt k z"
    have "ran n f k z (todo n l z - {z}) (snd q) ((ret (lsp l z))(z := fst q))"
      by (rule own_move_ran [OF m sh _ _ _ r']) (use ran_vec [OF r] in \<open>simp_all add: k_def\<close>)
    then show "phase_ok n f k z (S_own_ret (fst q))" using a' zt by (simp add: k_def todo_def)
  qed (use ow lsp_vec [OF inv z a] in \<open>simp_all add: good_state\<close>)
  then show ?thesis using eq by simp
qed

lemma sim_own_ret_step:
  assumes inv: "sim_inv n f l" and z: "z < n" and p: "pc l z = S_own_ret v"
  shows "sim_inv n f (SimApplyOp SIM_LOCAL_POOL_SIZE f z l)"
proof -
  note sh = inv_parts(1) [OF inv] and ow = ownD [OF inv_parts(2) [OF inv z]]
  have a: "attempt l z" and zt: "z \<in> todo n l z" and r: "ran n f l z (todo n l z - {z}) (state (lsp l z)) ((ret (lsp l z))(z := v))"
    using inv_phase [OF inv z p] by simp_all
  define d where "d = TVEC_REVERSE_BIT (diffs (th l z)) z"
  define k where "k = goto z (S_loop 0) (set_th z ((th l z)\<lparr>diffs := d\<rparr>) (set_rec z ((lsp l z)\<lparr>ret := (ret (lsp l z))(z := v)\<rparr>) l))"
  have eq: "SimApplyOp SIM_LOCAL_POOL_SIZE f z l = k" using p by (simp add: k_def d_def Let_def)
  note vd = vec_ok_reverse [OF ran_vec [OF r] z, folded d_def]
  have td: "todo n k z = todo n l z - {z}" using vd(2) [OF in_cells] zt by (auto simp: todo_def k_def)
  have "sim_inv n f k"
  proof (rule record_step [OF inv z a k_def])
    show "good l q ((lsp l z)\<lparr>ret := (ret (lsp l z))(z := v)\<rparr>)"
      if "q < n" "\<not> pend l q" "aseq l q \<le> oseq l z" "good l q (lsp l z)" for q
      using good_ret [OF that(4), of z v] not_open [OF that(2,3)] attempt_open [OF a] by metis
    assume m: "own_move n l k z" and a': "attempt k z"
    have "ran n f k z (todo n l z - {z}) (state (lsp l z)) ((ret (lsp l z))(z := v))"
      by (rule own_move_ran [OF m sh _ _ _ r]) (use vd(1) in \<open>simp_all add: k_def\<close>)
    then show "phase_ok n f k z (S_loop 0)" using a' td by (simp add: k_def)
  qed (use ow lsp_vec [OF inv z a] vec_okD(1,2) [OF vd(1)] in simp_all)
  then show ?thesis using eq by simp
qed

lemma sim_help_step:
  assumes inv: "sim_inv n f l" and z: "z < n" and p: "pc l z = S_help i q x"
  shows "sim_inv n f (SimApplyOp SIM_LOCAL_POOL_SIZE f z l)"
proof -
  note sh = inv_parts(1) [OF inv] and ow = ownD [OF inv_parts(2) [OF inv z]]
  have a: "attempt l z" and td: "\<forall>p \<in> todo n l z. i \<le> p div 64" and q: "q < n" "q \<notin> todo n l z"
    and x: "current l z \<Longrightarrow> x = announce l q" and r: "ran n f l z (insert q (todo n l z)) (state (lsp l z)) (ret (lsp l z))"
    using inv_phase [OF inv z p] by simp_all
  define w where "w = f q x (state (lsp l z))"
  define k where "k = goto z (S_help_ret i q (fst w)) (set_rec z ((lsp l z)\<lparr>state := snd w\<rparr>) l)"
  have eq: "SimApplyOp SIM_LOCAL_POOL_SIZE f z l = k" using p by (simp add: k_def w_def Let_def split_beta)
  have "insert q (todo n l z) - {q} = todo n l z" using q(2) by auto
  then have r': "ran n f l z (todo n l z) (snd w) ((ret (lsp l z))(q := fst w))"
    using ran_extend [OF r insertI1 q(1) x] by (simp add: w_def)
  have op: "open_req l z q" using r unfolding ran_def by blast
  have "sim_inv n f k"
  proof (rule record_step [OF inv z a])
    show "k = goto z (S_help_ret i q (fst w)) (set_th z (th l z) (set_rec z ((lsp l z)\<lparr>state := snd w\<rparr>) l))" by (simp add: k_def)
    assume m: "own_move n l k z" and a': "attempt k z"
    have "ran n f k z (todo n l z) (snd w) ((ret (lsp l z))(q := fst w))"
      by (rule own_move_ran [OF m sh _ _ _ r']) (use ran_vec [OF r] in \<open>simp_all add: k_def\<close>)
    moreover have "open_req k z q" using op own_move_att(8) [OF m sh] by (simp add: k_def)
    ultimately show "phase_ok n f k z (S_help_ret i q (fst w))" using a' td q(1) by (simp add: k_def todo_def)
  qed (use ow lsp_vec [OF inv z a] in \<open>simp_all add: good_state\<close>)
  then show ?thesis using eq by simp
qed

lemma sim_help_ret_step:
  assumes inv: "sim_inv n f l" and z: "z < n" and p: "pc l z = S_help_ret i q v"
  shows "sim_inv n f (SimApplyOp SIM_LOCAL_POOL_SIZE f z l)"
proof -
  note sh = inv_parts(1) [OF inv] and ow = ownD [OF inv_parts(2) [OF inv z]]
  have a: "attempt l z" and td: "\<forall>p \<in> todo n l z. i \<le> p div 64" and q: "open_req l z q"
    and r: "ran n f l z (todo n l z) (state (lsp l z)) ((ret (lsp l z))(q := v))"
    using inv_phase [OF inv z p] by simp_all
  define k where "k = goto z (S_loop i) (set_rec z ((lsp l z)\<lparr>ret := (ret (lsp l z))(q := v)\<rparr>) l)"
  have eq: "SimApplyOp SIM_LOCAL_POOL_SIZE f z l = k" using p by (simp add: k_def Let_def)
  have "sim_inv n f k"
  proof (rule record_step [OF inv z a])
    show "k = goto z (S_loop i) (set_th z (th l z) (set_rec z ((lsp l z)\<lparr>ret := (ret (lsp l z))(q := v)\<rparr>) l))" by (simp add: k_def)
    show "good l p ((lsp l z)\<lparr>ret := (ret (lsp l z))(q := v)\<rparr>)"
      if "p < n" "\<not> pend l p" "aseq l p \<le> oseq l z" "good l p (lsp l z)" for p
      using good_ret [OF that(4), of q v] not_open [OF that(2,3)] q by metis
    assume m: "own_move n l k z" and a': "attempt k z"
    have "ran n f k z (todo n l z) (state (lsp l z)) ((ret (lsp l z))(q := v))"
      by (rule own_move_ran [OF m sh _ _ _ r]) (use ran_vec [OF r] in \<open>simp_all add: k_def\<close>)
    then show "phase_ok n f k z (S_loop i)" using a' td by (simp add: k_def todo_def)
  qed (use ow lsp_vec [OF inv z a] in simp_all)
  then show ?thesis using eq by simp
qed

text \<open>Copying one word.\<close>

lemma load_store:
  assumes "vec_ok n (applied r')" and "m < state_words n" and "k < state_words n"
  shows "load_word n (store_word n r' k (load_word n r k)) m = (if m = k then load_word n r k else load_word n r' m)"
proof -
  have len: "length (cell (applied r')) = TVEC_CELLS n" by (rule vec_okD(4) [OF assms(1)])
  consider "k = 0" | "k \<noteq> 0" "k \<le> TVEC_CELLS n" | "TVEC_CELLS n < k" by linarith
  then show ?thesis
    by cases (use assms(2,3) len in \<open>auto simp: load_word_def store_word_def state_words_def nth_list_update\<close>)
qed

lemma store_vec:
  assumes "vec_ok n (applied r')" and "vec_ok n (applied r)"
  shows "vec_ok n (applied (store_word n r' k (load_word n r k)))"
proof -
  have "vec_ok n ((applied r')\<lparr>cell := (cell (applied r'))[j := cell (applied r) ! j]\<rparr>)" for j
    by (rule vec_ok_update [OF assms(1)]) (rule vec_bit [OF assms(2)])
  then show ?thesis using assms(1) by (simp add: store_word_def load_word_def)
qed

lemma store_good:
  assumes "vec_ok n (applied r')" and "good l p r'" and "good l p r" and p: "p < n"
  shows "good l p (store_word n r' k (load_word n r k))"
proof -
  have "tbit ((applied r')\<lparr>cell := (cell (applied r'))[j := cell (applied r) ! j]\<rparr>) p
      = (if p div 64 = j then tbit (applied r) p else tbit (applied r') p)" for j
    using tbit_update_vec [OF assms(1) in_cells [OF p]] by (auto simp: tbit_def)
  then show ?thesis using assms(2,3) by (auto simp: store_word_def load_word_def good_def)
qed

lemma sim_store_step:
  assumes inv: "sim_inv n f l" and z: "z < n" and p: "pc l z = S_store k w"
  shows "sim_inv n f (SimApplyOp SIM_LOCAL_POOL_SIZE f z l)"
proof -
  note sh = inv_parts(1) [OF inv] and ow = ownD [OF inv_parts(2) [OF inv z]]
  have a: "attempt l z" and k: "k < state_words n" and cp: "copied n l z k" and w: "word_ok n l z k w"
    using inv_phase [OF inv z p] by simp_all
  from w obtain r where r: "vec_ok n (applied r)" "w = load_word n r k"
    "\<And>p. p < n \<Longrightarrow> \<not> pend l p \<Longrightarrow> aseq l p \<le> oseq l z \<Longrightarrow> good l p r" unfolding word_ok_def by blast
  note v = lsp_vec [OF inv z a]
  define r' where "r' = store_word n (lsp l z) k w"
  define c where "c = (if Suc k < state_words n then S_load (Suc k) else S_toggles 0 :: ('a, 'c, 'b) sim_pc)"
  define l' where "l' = goto z c (set_rec z r' l)"
  have eq: "SimApplyOp SIM_LOCAL_POOL_SIZE f z l = l'" using p sharedD(1) [OF sh] by (simp add: l'_def c_def r'_def)
  have "sim_inv n f l'"
  proof (rule record_step [OF inv z a])
    show "l' = goto z c (set_th z (th l z) (set_rec z r' l))" by (simp add: l'_def)
    show "vec_ok n (applied r')" unfolding r'_def r(2) by (rule store_vec [OF v r(1)])
    show "good l p r'" if "p < n" "\<not> pend l p" "aseq l p \<le> oseq l z" "good l p (lsp l z)" for p
      unfolding r'_def r(2) by (rule store_good [OF v that(4) r(3) [OF that(1-3)] that(1)])
    assume m: "own_move n l l' z" and a': "attempt l' z"
    have "copied n l' z (Suc k)" unfolding copied_def
    proof (intro impI allI)
      fix i assume cu: "current l' z" and i: "i < Suc k"
      have cl: "current l z" using cu own_move_att(4) [OF m sh] by (simp add: l'_def)
      have "load_word n r' i = (if i = k then w else load_word n (lsp l z) i)"
        unfolding r'_def r(2) by (rule load_store [OF v]) (use i k in auto)
      also have "\<dots> = load_word n (cur_rec l) i"
        using cl cp w i unfolding copied_def word_ok_def by auto
      also have "cur_rec l = cur_rec l'" using own_move_cur(1) [OF m sh] by (simp add: l'_def)
      finally show "load_word n (lsp l' z) i = load_word n (cur_rec l') i" by (simp add: l'_def)
    qed
    moreover have "Suc k = state_words n" if "\<not> Suc k < state_words n" using that k by simp
    ultimately show "phase_ok n f l' z c" using a' by (auto simp: c_def loaded_def)
  qed (use ow in simp_all)
  then show ?thesis using eq by simp
qed

text \<open>Storing the toggles that were read as the new \<^verbatim>\<open>applied\<close> vector.\<close>

lemma sim_applied_step:
  assumes inv: "sim_inv n f l" and z: "z < n" and p: "pc l z = S_applied k"
  shows "sim_inv n f (SimApplyOp SIM_LOCAL_POOL_SIZE f z l)"
proof -
  note sh = inv_parts(1) [OF inv] and ow = ownD [OF inv_parts(2) [OF inv z]]
  have a: "attempt l z" and k: "k < TVEC_CELLS n" and r: "ran n f l z {} (state (lsp l z)) (ret (lsp l z))"
    and ap: "\<forall>q. q div 64 < k \<longrightarrow> tbit (applied (lsp l z)) q = tbit (l_toggles (th l z)) q"
    using inv_phase [OF inv z p] by simp_all
  note v = lsp_vec [OF inv z a]
  define tv where "tv = TVEC_ATOMIC_COPY_BANKS (applied (lsp l z)) (l_toggles (th l z)) k"
  define c where "c = (if Suc k < TVEC_CELLS n then S_applied (Suc k) else S_test :: ('a, 'c, 'b) sim_pc)"
  define l' where "l' = goto z c (set_rec z ((lsp l z)\<lparr>applied := tv\<rparr>) l)"
  have eq: "SimApplyOp SIM_LOCAL_POOL_SIZE f z l = l'" using p sharedD(1) [OF sh] by (simp add: l'_def c_def tv_def Let_def)
  have b: "tbit tv q = (if q div 64 = k then tbit (l_toggles (th l z)) q else tbit (applied (lsp l z)) q)"
    if "q div 64 < TVEC_CELLS n" for q
    unfolding tv_def by (rule tbit_copy_bank [OF v that])
  have "sim_inv n f l'"
  proof (rule record_step [OF inv z a])
    show "l' = goto z c (set_th z (th l z) (set_rec z ((lsp l z)\<lparr>applied := tv\<rparr>) l))" by (simp add: l'_def)
    show "vec_ok n (applied ((lsp l z)\<lparr>applied := tv\<rparr>))" unfolding tv_def using vec_ok_copy_bank [OF v ow(7)] by simp
    show "good l q ((lsp l z)\<lparr>applied := tv\<rparr>)"
      if q: "q < n" "\<not> pend l q" "aseq l q \<le> oseq l z" "good l q (lsp l z)" for q
    proof -
      have "tnext l q \<le> oseq l z" using sharedD(9) [OF sh q(1,2)] q(3) by simp
      then have "tbit (l_toggles (th l z)) q = tbit (a_toggles l) q"
        using r q(1) in_cells [OF q(1)] unfolding ran_def loaded_def by blast
      then show ?thesis using q(4) b [OF in_cells [OF q(1)]] by (simp add: good_def)
    qed
    assume m: "own_move n l l' z" and a': "attempt l' z"
    have r': "ran n f l' z {} (state (lsp l z)) (ret (lsp l z))"
      by (rule own_move_ran [OF m sh _ _ _ r]) (use ran_vec [OF r] in \<open>simp_all add: l'_def\<close>)
    have t: "tbit tv q = tbit (l_toggles (th l z)) q" if "q div 64 < Suc k" for q
      using b [of q] ap that k by (cases "q div 64 = k") auto
    have f: "lsp l' z = (lsp l z)\<lparr>applied := tv\<rparr>" "th l' z = th l z" by (simp_all add: l'_def)
    have "q div 64 < Suc k" if "\<not> Suc k < TVEC_CELLS n" "q < n" for q using in_cells [OF that(2)] that(1) by simp
    then show "phase_ok n f l' z c" using a' r' t f by (auto simp: c_def)
  qed (use ow in simp_all)
  then show ?thesis using eq by simp
qed

section \<open>Announcing and toggling\<close>

lemma sim_announce_step:
  assumes inv: "sim_inv n f l" and z: "z < n" and p: "pc l z = S_announce"
  shows "sim_inv n f (SimApplyOp SIM_LOCAL_POOL_SIZE f z l)"
proof -
  note sh = inv_parts(1) [OF inv]
  have np: "\<not> pend l z" using inv_phase [OF inv z p] by simp
  define k where "k = goto z S_add (l\<lparr>announce := (announce l)(z := arg l z)\<rparr>)"
  have s: "pend k = pend l" "good k = good l" by (simp_all add: pend_def good_def fun_eq_iff k_def)
  have "sim_inv n f k"
  proof (rule inv_evolve [OF inv z])
    show "shared_ok n k" using sh unfolding shared_ok_def s by (simp add: k_def)
    show "evolves n l k q" if "q < n" "q \<noteq> z" for q
      using that np unfolding evolves_def s by (auto simp: k_def)
    show "own_ok n k z" using inv_parts(2) [OF inv z] unfolding own_ok_def by (simp add: k_def)
    show "phase_ok n f k z (pc k z)" using np s by (simp add: k_def)
  qed (simp add: k_def)
  then show ?thesis using p by (simp add: k_def)
qed

text \<open>The board after the addition: exactly the bit of the thread has changed.\<close>

lemma toggled_board:
  assumes sh: "shared_ok n l" and ow: "own_ok n l z" and z: "z < n"
  defines "tg \<equiv> TVEC_NEGATIVE_BANK (toggle (th l z)) (toggle (th l z)) (z div 64)"
  shows "cell tg ! (z div 64) = (if tbit (a_toggles l) z then - (2 ^ (z mod 64)) else 2 ^ (z mod 64))"
    and "q div 64 < TVEC_CELLS n \<Longrightarrow> tbit (TVEC_ATOMIC_ADD_BANK (a_toggles l) tg (z div 64)) q \<longleftrightarrow> (tbit (a_toggles l) q \<noteq> (q = z))"
proof -
  have "z div 64 < length (cell (toggle (th l z)))" using in_cells [OF z] ownD(3,4) [OF ow] by (simp add: tvec_ok_def)
  then show tg: "cell tg ! (z div 64) = (if tbit (a_toggles l) z then - (2 ^ (z mod 64)) else 2 ^ (z mod 64))"
    using ownD(9) [OF ow] by (simp add: tg_def TVEC_NEGATIVE_BANK_def)
  show "tbit (TVEC_ATOMIC_ADD_BANK (a_toggles l) tg (z div 64)) q \<longleftrightarrow> (tbit (a_toggles l) q \<noteq> (q = z))"
    if "q div 64 < TVEC_CELLS n" for q
    by (rule add_bank_toggles [OF vec_in [OF sharedD(2) [OF sh] that] refl tg])
qed

lemma sim_add_step:
  assumes inv: "sim_inv n f l" and z: "z < n" and p: "pc l z = S_add"
  shows "sim_inv n f (SimApplyOp SIM_LOCAL_POOL_SIZE f z l)"
proof -
  note sh = inv_parts(1) [OF inv] and ow = ownD [OF inv_parts(2) [OF inv z]]
  note d = sharedD [OF sh]
  have np: "\<not> pend l z" and an: "announce l z = arg l z" using inv_phase [OF inv z p] by simp_all
  let ?b = "z div 64" and ?t = "th l z"
  define tg where "tg = TVEC_NEGATIVE_BANK (toggle ?t) (toggle ?t) ?b"
  define mb where "mb = TVEC_REVERSE_BIT (my_bit ?t) z"
  define at where "at = TVEC_ATOMIC_ADD_BANK (a_toggles l) tg ?b"
  define t where "t = ?t\<lparr>my_bit := mb, toggle := tg\<rparr>"
  define k where "k = goto z S_wait (set_th z t (l\<lparr>a_toggles := at, lsp_data := (lsp_data l)(z := z * 4 + local_index ?t),
      tries := (tries l)(z := 0), tnext := (tnext l)(z := Suc (seq (sp l)))\<rparr>))"
  have eq: "SimApplyOp SIM_LOCAL_POOL_SIZE f z l = k"
    using p d(1) bank_of_bit [OF z] by (simp add: k_def t_def at_def tg_def mb_def sim_toggle_def Let_def SIM_LOCAL_POOL_SIZE_def)
  note tg = toggled_board(1) [OF sh inv_parts(2) [OF inv z] z, folded tg_def]
  note A = toggled_board(2) [OF sh inv_parts(2) [OF inv z] z, folded tg_def, folded at_def]
  have "tvec_ok at" "tv_nthreads at = n"
    using tvec_ok_ops(2) [OF vec_okD(1) [OF d(2)]] vec_okD(2) [OF d(2)] by (simp_all add: at_def TVEC_ATOMIC_ADD_BANK_def)
  then have atv: "vec_ok n at" using A vec_okD(5) [OF d(2)] z by (auto simp: vec_ok_def)
  have f: "sp k = sp l" "pool k = pool l" "hist k = hist l" "aseq k = aseq l" "a_toggles k = at" "nthreads k = n"
    "tnext k = (tnext l)(z := Suc (seq (sp l)))" "announce k = announce l"
    using d(1) by (simp_all add: k_def)
  have pz: "pend k z" using np A [OF in_cells [OF z]] by (simp add: pend_def f)
  have pq: "pend k q = pend l q" "good k q = good l q" "tbit at q = tbit (a_toggles l) q" if "q < n" "q \<noteq> z" for q
    using A [OF in_cells [OF that(1)]] that(2) by (simp_all add: pend_def good_def fun_eq_iff f)
  have "shared_ok n k"
    unfolding shared_ok_def f
  proof (intro conjI allI impI)
    fix q assume q: "q < n"
    show "((tnext l)(z := Suc (seq (sp l)))) q \<le> Suc (seq (sp l))" using d(6) [OF q] by simp
    show "seq (sp l) \<le> ((tnext l)(z := Suc (seq (sp l)))) q" if "pend k q"
      using that d(7) [OF q] pq(1) [OF q] by (cases "q = z") simp_all
    show "tbit (applied (pool l (hist l s))) q \<noteq> tbit at q"
      if "pend k q" "s \<le> seq (sp l)" "((tnext l)(z := Suc (seq (sp l)))) q \<le> Suc s" for s
    proof (cases "q = z")
      case True
      then have "s = seq (sp l)" using that by simp
      then show ?thesis using pz True d(4) by (auto simp: pend_def f)
    next
      case False
      then show ?thesis using d(8) [OF q _ that(2)] pq [OF q False] that by simp
    qed
    assume nq: "\<not> pend k q"
    then have ne: "q \<noteq> z" using pz by auto
    note e = pq [OF q ne]
    have np': "\<not> pend l q" using nq e(1) by simp
    show "((tnext l)(z := Suc (seq (sp l)))) q \<le> aseq l q" "aseq l q \<le> seq (sp l)" using d(9,10) [OF q np'] ne by simp_all
    show "good k q (pool l (hist l s))" if "aseq l q \<le> s \<and> s \<le> seq (sp l)" for s using d(11) [OF q np'] that e(2) by simp
  qed (use atv d(3,4,5) in simp_all)
  moreover have "evolves n l k q" if q: "q < n" "q \<noteq> z" for q
  proof -
    have fq: "th k q = th l q" "arg k q = arg l q" "old_sp k q = old_sp l q" "lsp_data k q = lsp_data l q" "tries k q = tries l q"
      using q by (simp_all add: k_def)
    have a: "\<not> pend l p \<and> aseq l p = aseq l p \<and> (\<forall>r. good l p r \<longrightarrow> good k p r)" if "p < n" "\<not> pend k p" for p
      using that pq [of p] pz by (cases "p = z") auto
    have b: "((tnext l)(z := Suc (seq (sp l)))) p = tnext l p \<and> tbit at p = tbit (a_toggles l) p"
      if "p < n" "((tnext l)(z := Suc (seq (sp l)))) p \<le> seq (sp l) \<or> p = q" for p
      using that pq(3) [of p] q by (cases "p = z") auto
    have c: "pend k p" if "p < n" "pend l p" for p
      using that pq(1) [of p] np by (cases "p = z") auto
    have e: "\<not> pend k q" if "\<not> pend l q" using pq(1) [OF q] that by simp
    show ?thesis unfolding evolves_def f fq using a b c e by (intro conjI allI impI) (linarith | metis)+
  qed
  moreover have "own_ok n k z"
  proof -
    have "tvec_ok mb" "tv_nthreads mb = n" "tvec_ok tg" "tv_nthreads tg = n"
      using tvec_ok_ops(8) [OF ow(1)] tvec_ok_ops(3) [OF ow(3)] ow(2,4)
      by (simp_all add: mb_def tg_def TVEC_REVERSE_BIT_def TVEC_NEGATIVE_BANK_def Let_def)
    moreover have "tbit mb z \<longleftrightarrow> \<not> tbit (my_bit ?t) z"
      unfolding mb_def using tbit_REVERSE_BIT [OF thread_in_vec [OF ow(1)], of z z] ow(2) z by simp
    moreover have "th k z = t" by (simp add: k_def)
    ultimately show ?thesis using inv_parts(2) [OF inv z] tg A [OF in_cells [OF z]] unfolding own_ok_def f
      by (simp add: t_def)
  qed
  moreover have "phase_ok n f k z (pc k z)" using an by (simp add: k_def work_def t_def)
  moreover have "pc k q = pc l q" if "q \<noteq> z" for q using that by (simp add: k_def)
  ultimately have "sim_inv n f k" by (intro inv_evolve [OF inv z])
  then show ?thesis using eq by simp
qed

section \<open>Publishing a record\<close>

text \<open>What a successful compare-and-swap does: \<open>N\<close> is the new sequence number.\<close>

lemma sim_cas_fields:
  assumes sh: "shared_ok n l" and ow: "own_ok n l z" and z: "z < n" and n: "4 * n < 2 ^ 24" and w: "work l z"
    and e: "old_sp l z = sp l" and b: "seq (sp l) + 1 < 2 ^ 40"
  defines "l' \<equiv> sim_cas SIM_LOCAL_POOL_SIZE z l"
  shows "sp l' = \<lparr>seq = Suc (seq (sp l)), index = lsp_data l z\<rparr>" "hist l' = (hist l)(Suc (seq (sp l)) := lsp_data l z)"
    "pool l' = pool l" "a_toggles l' = a_toggles l" "announce l' = announce l" "nthreads l' = nthreads l" "tnext l' = tnext l"
    "aseq l' p = (if tbit (applied (cur_rec l)) p \<noteq> tbit (l_toggles (th l z)) p then Suc (seq (sp l)) else aseq l p)"
    "q \<noteq> z \<Longrightarrow> th l' q = th l q" "arg l' = arg l" "old_sp l' = old_sp l" "lsp_data l' = lsp_data l" "tries l' = tries l"
    "pc l' = (pc l)(z := S_ret)"
    "th l' z = (th l z)\<lparr>local_index := (local_index (th l z) + 1) mod 4, backoff := drop_bit 1 (backoff (th l z)) OR 1\<rparr>"
proof -
  have w': "lsp_data l z = 4 * z + local_index (th l z)" "local_index (th l z) < 4" using w ownD(10) [OF ow] by (simp_all add: work_def)
  with z n have "lsp_data l z < 2 ^ 24" by simp
  then have new: "mk_pointer (seq (sp l) + 1) (SIM_LOCAL_POOL_SIZE * z + local_index (th l z)) = \<lparr>seq = Suc (seq (sp l)), index = lsp_data l z\<rparr>"
    using b w' by (simp add: mk_pointer_def SIM_LOCAL_POOL_SIZE_def)
  show "sp l' = \<lparr>seq = Suc (seq (sp l)), index = lsp_data l z\<rparr>" "hist l' = (hist l)(Suc (seq (sp l)) := lsp_data l z)"
    "pool l' = pool l" "a_toggles l' = a_toggles l" "announce l' = announce l" "nthreads l' = nthreads l" "tnext l' = tnext l"
    "aseq l' p = (if tbit (applied (cur_rec l)) p \<noteq> tbit (l_toggles (th l z)) p then Suc (seq (sp l)) else aseq l p)"
    "q \<noteq> z \<Longrightarrow> th l' q = th l q" "arg l' = arg l" "old_sp l' = old_sp l" "lsp_data l' = lsp_data l" "tries l' = tries l"
    "pc l' = (pc l)(z := S_ret)"
    "th l' z = (th l z)\<lparr>local_index := (local_index (th l z) + 1) mod 4, backoff := drop_bit 1 (backoff (th l z)) OR 1\<rparr>"
    unfolding l'_def sim_cas_def Let_def e new by (simp_all add: SIM_LOCAL_POOL_SIZE_def)
qed

lemma sim_cas_facts:
  assumes inv: "sim_inv n f l" and z: "z < n" and p: "pc l z = S_cas" and e: "old_sp l z = sp l"
  shows "work l z" "current l z" "pend l z"
    "q < n \<Longrightarrow> tbit (applied (lsp l z)) q = tbit (l_toggles (th l z)) q"
    "q < n \<Longrightarrow> tbit (l_toggles (th l z)) q \<noteq> tbit (applied (cur_rec l)) q \<Longrightarrow> pend l q"
    "q < n \<Longrightarrow> tnext l q \<le> seq (sp l) \<or> q = z \<Longrightarrow> tbit (l_toggles (th l z)) q = tbit (a_toggles l) q"
    "q < n \<Longrightarrow> tbit (l_toggles (th l z)) q = tbit (applied (cur_rec l)) q \<Longrightarrow> ret (lsp l z) q = ret (cur_rec l) q"
    "\<exists>ops. distinct ops \<and> set ops = {q. q < n \<and> tbit (l_toggles (th l z)) q \<noteq> tbit (applied (cur_rec l)) q}
      \<and> state (lsp l z) = fst (run_ops f (announce l) ops (state (cur_rec l), ret (cur_rec l)))
      \<and> (\<forall>q < n. ret (lsp l z) q = snd (run_ops f (announce l) ops (state (cur_rec l), ret (cur_rec l))) q)"
proof -
  have a: "attempt l z" and r: "ran n f l z {} (state (lsp l z)) (ret (lsp l z))"
    and ap: "\<forall>p < n. tbit (applied (lsp l z)) p = tbit (l_toggles (th l z)) p"
    using inv_phase [OF inv z p] by simp_all
  show "work l z" by (rule att_old(2) [OF attempt_att [OF a]])
  show cu: "current l z" using e by (simp add: current_def)
  have "\<not> oseq l z < aseq l z" if "\<not> pend l z"
    using cu sharedD(10) [OF inv_parts(1) [OF inv] z that] by (simp add: current_def)
  then show "pend l z" using a unfolding attempt_def by blast
  show "tbit (applied (lsp l z)) q = tbit (l_toggles (th l z)) q" if "q < n" for q using ap that by blast
  have ld: "loaded n l z (TVEC_CELLS n)" using r unfolding ran_def by blast
  show "pend l q" if "q < n" "tbit (l_toggles (th l z)) q \<noteq> tbit (applied (cur_rec l)) q" for q
    using ld cu that in_cells [OF that(1)] unfolding loaded_def by blast
  show "tbit (l_toggles (th l z)) q = tbit (a_toggles l) q" if "q < n" "tnext l q \<le> seq (sp l) \<or> q = z" for q
    using ld cu that in_cells [OF that(1)] unfolding loaded_def current_def by metis
  show ex: "\<exists>ops. distinct ops \<and> set ops = {q. q < n \<and> tbit (l_toggles (th l z)) q \<noteq> tbit (applied (cur_rec l)) q}
      \<and> state (lsp l z) = fst (run_ops f (announce l) ops (state (cur_rec l), ret (cur_rec l)))
      \<and> (\<forall>q < n. ret (lsp l z) q = snd (run_ops f (announce l) ops (state (cur_rec l), ret (cur_rec l))) q)"
    using r cu unfolding ran_def by simp
  show "ret (lsp l z) q = ret (cur_rec l) q" if "q < n" "tbit (l_toggles (th l z)) q = tbit (applied (cur_rec l)) q" for q
  proof -
    from ex obtain ops where "distinct ops" and o: "set ops = {q. q < n \<and> tbit (l_toggles (th l z)) q \<noteq> tbit (applied (cur_rec l)) q}"
      and "state (lsp l z) = fst (run_ops f (announce l) ops (state (cur_rec l), ret (cur_rec l)))"
      and r: "\<forall>q < n. ret (lsp l z) q = snd (run_ops f (announce l) ops (state (cur_rec l), ret (cur_rec l))) q"
      by (elim exE conjE)
    have "q \<notin> set ops" using that(2) unfolding o by simp
    then show ?thesis using r that(1) by (simp add: run_ops_other)
  qed
qed

lemma sim_cas_step:
  assumes inv: "sim_inv n f l" and z: "z < n" and p: "pc l z = S_cas" and e: "old_sp l z = sp l"
    and n: "4 * n < 2 ^ 24" and b: "seq (sp l) + 1 < 2 ^ 40"
  shows "sim_inv n f (sim_cas SIM_LOCAL_POOL_SIZE z l)"
proof -
  note sh = inv_parts(1) [OF inv] and iow = inv_parts(2) [OF inv z]
  note d = sharedD [OF sh] and ow = ownD [OF iow] and fc = sim_cas_facts [OF inv z p e]
  define k where "k = sim_cas SIM_LOCAL_POOL_SIZE z l"
  note f = sim_cas_fields [OF sh iow z n fc(1) e b, folded k_def]
  let ?N = "Suc (seq (sp l))" and ?lt = "l_toggles (th l z)"
  have wk: "lsp_data l z = 4 * z + local_index (th l z)" using fc(1) by (simp add: work_def)
  have pend': "pend k q \<longleftrightarrow> tbit (a_toggles l) q \<noteq> tbit ?lt q" if "q < n" for q
    using fc(4) [OF that] by (simp add: pend_def f)
  have new: "pend l q \<and> \<not> pend k q" if "q < n" "tbit ?lt q \<noteq> tbit (applied (cur_rec l)) q" for q
    using fc(5) [OF that] pend' [OF that(1)] that(2) unfolding pend_def by blast
  have same: "pend k q = pend l q" if "q < n" "tbit ?lt q = tbit (applied (cur_rec l)) q" for q
    using pend' [OF that(1)] that(2) by (simp add: pend_def)
  have stay: "\<not> pend k q \<and> aseq k q = aseq l q" if "q < n" "\<not> pend l q" for q
  proof -
    have "tbit ?lt q = tbit (applied (cur_rec l)) q" using new [OF that(1)] that(2) by blast
    then show ?thesis using same [OF that(1)] that(2) by (simp add: f)
  qed
  have late: "?N \<le> tnext l q" if "q < n" "pend k q" for q
    using fc(6) [OF that(1)] pend' [OF that(1)] that(2) by (metis not_less_eq_eq)
  have gd: "good k q r" if "q < n" "\<not> pend l q" "good l q r" for q r
  proof -
    have "tbit ?lt q = tbit (applied (cur_rec l)) q" using new [OF that(1)] that(2) by blast
    with fc(7) [OF that(1)] that(3) show ?thesis by (simp add: good_def f)
  qed
  have cur: "good k q (lsp l z)" if "q < n" "\<not> pend k q" for q
    using fc(4) [OF that(1)] pend' [OF that(1)] that(2) by (simp add: good_def f)
  have hold: "hist k s = hist l s" if "s \<le> seq (sp l)" for s using that by (simp add: f)
  have old: "\<not> pend l q \<and> aseq l q = aseq k q" if "q < n" "\<not> pend k q" "aseq k q \<le> seq (sp l)" for q
  proof -
    have "tbit ?lt q = tbit (applied (cur_rec l)) q" using that(3) by (simp add: f split: if_splits)
    then show ?thesis using same [OF that(1)] that(2) by (simp add: f)
  qed
  have "shared_ok n k" unfolding shared_ok_def
  proof (intro conjI allI impI)
    show "nthreads k = n" "vec_ok n (a_toggles k)" "index (sp k) = hist k (seq (sp k))" using d(1,2) by (simp_all add: f)
    show "vec_ok n (applied (pool k i))" if "i \<le> 4 * n" for i using d(3) [OF that] by (simp add: f)
    show "hist k s \<le> 4 * n" if "s \<le> seq (sp k)" for s
      using that d(5) [of s] work_index [OF fc(1) iow z] by (simp add: f)
    fix q assume q: "q < n"
    show "tnext k q \<le> Suc (seq (sp k))" using d(6) [OF q] by (simp add: f)
    show "seq (sp k) \<le> tnext k q" if "pend k q" using late [OF q that] by (simp add: f)
    show "tbit (applied (pool k (hist k s))) q \<noteq> tbit (a_toggles k) q" if "pend k q" "s \<le> seq (sp k)" "tnext k q \<le> Suc s" for s
    proof (cases "s = ?N")
      case True
      then show ?thesis using pend' [OF q] that(1) fc(4) [OF q] by (simp add: f)
    next
      case False
      then have s: "s \<le> seq (sp l)" using that(2) by (simp add: f)
      have "pend l q" using stay [OF q] that(1) by blast
      from d(8) [OF q this s] that(3) show ?thesis using s by (simp add: f)
    qed
    assume nq: "\<not> pend k q"
    show "tnext k q \<le> aseq k q" "aseq k q \<le> seq (sp k)"
      using d(6) [OF q] d(9,10) [OF q] same [OF q] nq by (auto simp: f le_SucI)
    show "good k q (pool k (hist k s))" if "aseq k q \<le> s \<and> s \<le> seq (sp k)" for s
    proof (cases "s = ?N")
      case True
      then show ?thesis using cur [OF q nq] by (simp add: f)
    next
      case False
      then have s: "s \<le> seq (sp l)" using that by (simp add: f)
      from old [OF q nq] that s have o: "\<not> pend l q" "aseq l q \<le> s" by auto
      from gd [OF q o(1) d(11) [OF q o s]] s show ?thesis by (simp add: f)
    qed
  qed
  moreover have "evolves n l k q" if q: "q < n" "q \<noteq> z" for q
  proof -
    have a: "hist k s \<noteq> 4 * q + i" if "seq (sp l) < s" "s \<le> seq (sp k)" "i < 4" for s i
    proof -
      have "s = ?N" using that by (simp add: f)
      then show ?thesis using wk ow(10) that(3) q(2) by (simp add: f)
    qed
    have sq: "seq (sp k) = ?N" by (simp add: f)
    show ?thesis unfolding evolves_def sq f(3-5,7,10-13) f(9) [OF q(2)] using a [unfolded sq] hold old gd stay [OF q(1)]
      by (intro conjI allI impI) (linarith | blast | metis n_not_Suc_n)+
  qed
  moreover have "own_ok n k z"
  proof -
    have "\<exists>c. c + s \<le> ?N \<and> Suc (local_index (th l z)) mod 4 = (i + 1 + c) mod 4"
      if s: "s \<le> ?N" "i < 4" "hist k s = 4 * z + i" for s i
    proof (cases "s = ?N")
      case True
      then have "i = local_index (th l z)" using s(3) wk by (simp add: f)
      then show ?thesis using True by (intro exI [of _ 0]) simp
    next
      case False
      then have s': "s \<le> seq (sp l)" using s(1) by simp
      from ow(11) [OF s' s(2)] s(3) hold [OF s'] obtain c where "c + s \<le> seq (sp l)" "local_index (th l z) = (i + 1 + c) mod 4" by auto
      then show ?thesis by (intro exI [of _ "Suc c"]) (simp add: mod_Suc_eq)
    qed
    then show ?thesis using ow unfolding own_ok_def by (simp add: f)
  qed
  moreover have "phase_ok n f k z (pc k z)"
  proof -
    have "tbit ?lt z = tbit (a_toggles l) z" using fc(6) [OF z] by blast
    then have "\<not> pend k z" "aseq k z \<le> ?N" using pend' [OF z] fc(3) by (auto simp: f pend_def)
    then show ?thesis by (simp add: f published_def) (metis fun_upd_same order_refl)
  qed
  moreover have "pc k q = pc l q" if "q \<noteq> z" for q using that by (simp add: f)
  ultimately have "sim_inv n f k" by (intro inv_evolve [OF inv z])
  then show ?thesis by (simp add: k_def)
qed

section \<open>Every step\<close>

lemma sim_inv_step:
  assumes inv: "sim_inv n f l" and z: "z < n" and pz: "pc l z \<noteq> S_out"
    and n: "4 * n < 2 ^ 24" and b: "seq (sp l) + 1 < 2 ^ 40"
  shows "sim_inv n f (SimApplyOp SIM_LOCAL_POOL_SIZE f z l)"
proof (cases "pc l z")
  case S_announce then show ?thesis by (rule sim_announce_step [OF inv z])
next
  case S_add then show ?thesis by (rule sim_add_step [OF inv z])
next
  case S_wait then show ?thesis by (rule sim_goto_steps(1) [OF inv z])
next
  case S_sp then show ?thesis using sim_goto_steps(2) [OF inv z] sim_read_sp [OF inv z] by blast
next
  case S_bank then show ?thesis by (rule sim_bank_step [OF inv z])
next
  case (S_load k) then show ?thesis by (rule sim_goto_steps(3) [OF inv z])
next
  case (S_store k w) then show ?thesis by (rule sim_store_step [OF inv z])
next
  case (S_toggles k) then show ?thesis by (rule sim_toggles_step [OF inv z])
next
  case S_check then show ?thesis using sim_check_step [OF inv z] sim_retries [OF inv z] by blast
next
  case S_own then show ?thesis by (rule sim_own_step [OF inv z])
next
  case (S_own_ret r) then show ?thesis by (rule sim_own_ret_step [OF inv z])
next
  case (S_loop i) then show ?thesis by (rule sim_loop_step [OF inv z])
next
  case (S_arg i q) then show ?thesis by (rule sim_goto_steps(4) [OF inv z])
next
  case (S_help i q x) then show ?thesis by (rule sim_help_step [OF inv z])
next
  case (S_help_ret i q r) then show ?thesis by (rule sim_help_ret_step [OF inv z])
next
  case (S_applied k) then show ?thesis by (rule sim_applied_step [OF inv z])
next
  case S_test then show ?thesis using sim_goto_steps(5) [OF inv z] sim_retries [OF inv z] by blast
next
  case S_cas
  then have "SimApplyOp SIM_LOCAL_POOL_SIZE f z l = sim_cas SIM_LOCAL_POOL_SIZE z l" by simp
  then show ?thesis using sim_cas_step [OF inv z S_cas _ n b] sim_retries [OF inv z] S_cas by (cases "old_sp l z = sp l") auto
next
  case S_ret then show ?thesis by (rule sim_goto_steps(6) [OF inv z])
next
  case S_final then show ?thesis by (rule sim_goto_steps(7) [OF inv z])
next
  case (S_final_ret k) then show ?thesis by (rule sim_goto_steps(8) [OF inv z])
qed (use pz in simp)

lemma sim_inv_exec:
  assumes "sim_inv n f l" and "sim_fits n l a" and "4 * n < 2 ^ 24"
  shows "sim_inv n f (sim_exec SIM_LOCAL_POOL_SIZE f a l)"
proof (cases a)
  case (Invoke p x)
  then show ?thesis using sim_invoke [OF assms(1)] assms(2) by (simp add: sim_fits_def)
next
  case (Step p)
  then show ?thesis using sim_inv_step [OF assms(1)] assms(2,3) by (simp add: sim_fits_def del: SimApplyOp.simps)
qed

section \<open>The initial state\<close>

lemma init_vec: "length mem = TVEC_CELLS n \<Longrightarrow> vec_ok n (TVEC_INIT_AT n mem)"
  by (simp add: vec_ok_def tvec_ok_INIT_AT tbit_INIT_AT) (simp add: TVEC_INIT_AT_def)

lemma TVEC_INIT_eq: "TVEC_INIT (\<lambda>bytes. map g [0..<bytes div 8]) n = TVEC_INIT_AT n (map g [0..<TVEC_CELLS n])"
  by (simp add: TVEC_INIT_def TVEC_INIT_AT_def)

lemma zero_vec: "vec_ok n v \<Longrightarrow> vec_ok n (TVEC_SET_ZERO v)"
  using tvec_ok_ops(6) [of v] tbit_SET_ZERO [of v] vec_in [of n v]
  by (auto simp: vec_ok_def) (simp add: TVEC_SET_ZERO_def)

lemma init_thread:
  fixes g :: "nat \<Rightarrow> u64"
  assumes z: "z < n"
  defines "t \<equiv> SimThreadStateInit g n z"
  shows "tvec_ok (my_bit t)" "tv_nthreads (my_bit t) = n" "tvec_ok (toggle t)" "tv_nthreads (toggle t) = n"
    "tvec_ok (diffs t)" "tv_nthreads (diffs t) = n" "vec_ok n (l_toggles t)" "tbit (my_bit t) z"
    "cell (toggle t) ! (z div 64) = - (2 ^ (z mod 64))" "local_index t = 0"
proof -
  define v where "v = TVEC_INIT_AT n (map g [0..<TVEC_CELLS n])"
  have v: "vec_ok n v" unfolding v_def by (rule init_vec) simp
  note vd = vec_okD [OF v]
  have t: "my_bit t = TVEC_REVERSE_BIT v z" "toggle t = TVEC_NEGATIVE v (TVEC_SET_BIT v z)" "diffs t = v" "l_toggles t = v" "local_index t = 0"
    by (simp_all add: t_def SimThreadStateInit_def Let_def TVEC_INIT_eq v_def)
  show "tvec_ok (my_bit t)" "tvec_ok (toggle t)" "tvec_ok (diffs t)" unfolding t by (intro tvec_ok_ops vd(1))+
  show "tv_nthreads (my_bit t) = n" "tv_nthreads (toggle t) = n" "tv_nthreads (diffs t) = n" "vec_ok n (l_toggles t)" "local_index t = 0"
    using vd(2) v by (simp_all add: t TVEC_REVERSE_BIT_def TVEC_NEGATIVE_def Let_def)
  have nz: "\<not> tbit v z" unfolding v_def by (rule tbit_INIT_AT) (simp_all add: in_cells [OF z])
  then show "tbit (my_bit t) z" unfolding t using tbit_REVERSE_BIT [OF vec_in [OF v in_cells [OF z]], of z] by simp
  have zero: "cell v ! (z div 64) = 0" using in_cells [OF z] by (simp add: v_def TVEC_INIT_AT_def loop_upd_const)
  have "cell (TVEC_NEGATIVE v (TVEC_SET_BIT v z)) ! (z div 64) = - (cell (TVEC_SET_BIT v z) ! (z div 64))"
    unfolding TVEC_NEGATIVE_def using in_cells [OF z] vd(3,4) by (simp add: nth_loop_upd)
  also have "cell (TVEC_SET_BIT v z) ! (z div 64) = push_bit (z mod 64) 1"
    using in_cells [OF z] vd(4) zero by (simp add: TVEC_SET_BIT_def Let_def)
  finally show "cell (toggle t) ! (z div 64) = - (2 ^ (z mod 64))" by (simp add: t)
qed

lemma sim_inv_init:
  assumes n: "4 * n < 2 ^ 24"
  shows "sim_inv n f (SimInit SIM_LOCAL_POOL_SIZE n mb g m x0 s0)"
proof -
  define l where "l = (SimInit SIM_LOCAL_POOL_SIZE n mb g m x0 s0 :: ('a, 'c, 'b) SimStruct)"
  define v where "v = TVEC_INIT_AT n (map g [0..<TVEC_CELLS n])"
  have v: "vec_ok n v" unfolding v_def by (rule init_vec) simp
  have f: "sp l = \<lparr>seq = 0, index = 4 * n\<rparr>" "a_toggles l = v" "nthreads l = n" "hist l = (\<lambda>_. 4 * n)" "tnext l = (\<lambda>_. 0)" "aseq l = (\<lambda>_. 0)"
    "th l = SimThreadStateInit g n" "pc l = (\<lambda>_. S_out)"
    using n by (simp_all add: l_def SimInit_def synchSimStructInit_def Let_def SIM_LOCAL_POOL_SIZE_def mk_pointer_def v_def)
  have ap: "applied (pool l i) = (if i = 4 * n then TVEC_SET_ZERO v else v)" if "i \<le> 4 * n" for i
    using that by (simp add: l_def SimInit_def synchSimStructInit_def Let_def SIM_LOCAL_POOL_SIZE_def v_def)
  have np: "\<not> pend l p" if "p < n" for p
  proof -
    have "\<not> tbit (TVEC_SET_ZERO v) p" by (rule tbit_SET_ZERO [OF vec_okD(1) [OF v] vec_in [OF v in_cells [OF that]]])
    moreover have "\<not> tbit v p" unfolding v_def by (rule tbit_INIT_AT) (simp_all add: in_cells [OF that])
    ultimately show ?thesis using ap [of "4 * n"] by (simp add: pend_def f)
  qed
  have vec: "vec_ok n (applied (pool l k))" if "k \<le> 4 * n" for k using ap [OF that] zero_vec [OF v] v by simp
  have "shared_ok n l"
    unfolding shared_ok_def using v np vec by (simp add: f) (simp add: good_def pend_def f)
  moreover have "own_ok n l z" if "z < n" for z
  proof -
    have "\<not> tbit v z" unfolding v_def by (rule tbit_INIT_AT) (simp_all add: in_cells [OF that])
    moreover have "4 * n \<noteq> 4 * z + i" if "i < 4" for i using that \<open>z < n\<close> by simp
    ultimately show ?thesis unfolding own_ok_def using init_thread [OF that, of g] by (simp add: f)
  qed
  ultimately have "sim_inv n f l" using np by (simp add: sim_inv_def f)
  then show ?thesis by (simp add: l_def)
qed

end
