(* ===== verification/SimCorrect.thy ===== *)
theory SimCorrect
  imports SimSteps
begin

text \<open>
  The Sim construction (Sim.thy) is linearizable and wait-free. A request takes effect when the
  record in which it has been run is published, so one compare-and-swap linearizes the requests of many
  threads at once.
\<close>

section \<open>Simulation\<close>

definition sim_status :: "('x, 'r, 's) SimStruct \<Rightarrow> tid \<Rightarrow> ('x, 'r) status" where
  "sim_status l p = (if pc l p = S_out then Idle
     else if pc l p = S_announce \<or> pc l p = S_add \<or> pend l p then Pend (arg l p) else Done (ret (cur_rec l) p))"

definition sim_abs :: "('x, 'r, 's) SimStruct \<Rightarrow> ('x, 'r, 's) config" where
  "sim_abs l = (state (cur_rec l), sim_status l)"

text \<open>Steps that are not seen from outside.\<close>

definition quiet :: "('x, 'r, 's) SimStruct \<Rightarrow> tid \<Rightarrow> bool" where
  "quiet l z \<longleftrightarrow> pc l z \<notin> {S_out, S_announce, S_add, S_ret} \<and> (\<forall>k. pc l z \<noteq> S_final_ret k) \<and> (pc l z = S_cas \<longrightarrow> sp l \<noteq> old_sp l z)"

lemma quiet_step:
  fixes f :: "('x, 'r, 's) sfunc"
  assumes "quiet l z"
  defines "k \<equiv> SimApplyOp SIM_LOCAL_POOL_SIZE f z l"
  shows "sp k = sp l" "a_toggles k = a_toggles l" "arg k = arg l" "q \<noteq> z \<Longrightarrow> pc k q = pc l q"
    "pc k z \<notin> {S_out, S_announce, S_add}"
proof -
  show "sp k = sp l" "a_toggles k = a_toggles l" "arg k = arg l" "q \<noteq> z \<Longrightarrow> pc k q = pc l q"
    using assms by (cases "pc l z"; force simp: quiet_def Let_def split_beta sim_bank_def sim_fail_def sim_cas_def)+
  show "pc k z \<notin> {S_out, S_announce, S_add}"
    using assms(1) unfolding k_def
    by (cases "pc l z") (auto simp: quiet_def Let_def split_beta sim_bank_def sim_fail_def sim_cas_def)
qed

lemma quiet_pool:
  assumes inv: "sim_inv n f l" and z: "z < n" and q: "quiet l z"
  shows "pool (SimApplyOp SIM_LOCAL_POOL_SIZE f z l) (index (sp l)) = cur_rec l"
proof (cases "attempt l z")
  case True
  then have "index (sp l) \<noteq> lsp_data l z"
    using lsp_not_recent [OF attempt_att [OF True], of "seq (sp l)"] sharedD(4) [OF inv_parts(1) [OF inv]] by simp
  then show ?thesis using q
    by (cases "pc l z") (auto simp: quiet_def Let_def split_beta sim_bank_def sim_fail_def sim_cas_def)
next
  case False
  then show ?thesis using q inv_parts(3) [OF inv z]
    by (cases "pc l z") (auto simp: quiet_def Let_def split_beta sim_bank_def sim_fail_def sim_cas_def)
qed

lemma quiet_abs:
  assumes inv: "sim_inv n f l" and z: "z < n" and q: "quiet l z"
  shows "sim_abs (SimApplyOp SIM_LOCAL_POOL_SIZE f z l) = sim_abs l"
proof -
  let ?k = "SimApplyOp SIM_LOCAL_POOL_SIZE f z l"
  note s = quiet_step [OF q, where f = f] and c = quiet_pool [OF inv z q]
  have p: "pend ?k = pend l" using s c by (simp add: pend_def fun_eq_iff del: SimApplyOp.simps)
  have "sim_status ?k p = sim_status l p" for p
    using s(4) [of p] s(5) s(1,3) c p q unfolding sim_status_def quiet_def by (cases "p = z") auto
  then show ?thesis unfolding sim_abs_def s(1) c by (simp add: fun_eq_iff del: SimApplyOp.simps)
qed

lemma sim_abs_eq:
  assumes "cur_rec l' = cur_rec l" and "\<And>q. q \<noteq> z \<Longrightarrow> sim_status l' q = sim_status l q" and "sim_status l' z = v"
  shows "sim_abs l' = (fst (sim_abs l), (snd (sim_abs l))(z := v))"
  using assms by (auto simp: sim_abs_def fun_eq_iff)

lemma started_lt: "sim_inv n f l \<Longrightarrow> pc l q \<noteq> S_out \<Longrightarrow> q < n"
  using inv_parts(4) [of n f l q] by force

lemma sim_abs_toggle:
  assumes inv: "sim_inv n f l" and z: "z < n" and p: "pc l z = S_add"
  shows "sim_abs (SimApplyOp SIM_LOCAL_POOL_SIZE f z l) = sim_abs l"
proof -
  note sh = inv_parts(1) [OF inv]
  let ?k = "SimApplyOp SIM_LOCAL_POOL_SIZE f z l"
  have f: "sp ?k = sp l" "pool ?k = pool l" "arg ?k = arg l" "pc ?k = (pc l)(z := S_wait)"
    using p by (simp_all add: sim_toggle_def Let_def)
  have at: "a_toggles ?k = TVEC_ATOMIC_ADD_BANK (a_toggles l)
      (TVEC_NEGATIVE_BANK (toggle (th l z)) (toggle (th l z)) (z div 64)) (z div 64)"
    using p sharedD(1) [OF sh] bank_of_bit [OF z] by (simp add: sim_toggle_def Let_def)
  have pq: "pend ?k q = (pend l q \<noteq> (q = z))" if "q < n" for q
    using toggled_board(2) [OF sh inv_parts(2) [OF inv z] z in_cells [OF that]] unfolding pend_def f at by auto
  have np: "\<not> pend l z" using inv_phase [OF inv z p] by simp
  have "sim_status ?k q = sim_status l q" for q
  proof (cases "pc l q = S_out")
    case True
    then show ?thesis using p f by (auto simp: sim_status_def simp del: SimApplyOp.simps)
  next
    case False
    from pq [OF started_lt [OF inv this]] np p f show ?thesis
      by (cases "q = z") (auto simp: sim_status_def simp del: SimApplyOp.simps)
  qed
  then show ?thesis unfolding sim_abs_def f by (simp add: fun_eq_iff del: SimApplyOp.simps)
qed

text \<open>Publishing a record linearizes the requests it was made for.\<close>

lemma sim_abs_cas:
  assumes inv: "sim_inv n f l" and z: "z < n" and p: "pc l z = S_cas" and e: "sp l = old_sp l z"
    and n: "4 * n < 2 ^ 24" and b: "seq (sp l) + 1 < 2 ^ 40"
  shows "asteps f (sim_abs l) [] (sim_abs (SimApplyOp SIM_LOCAL_POOL_SIZE f z l))"
proof -
  note sh = inv_parts(1) [OF inv] and fc = sim_cas_facts [OF inv z p e [symmetric]]
  define k where "k = sim_cas SIM_LOCAL_POOL_SIZE z l"
  note f = sim_cas_fields [OF sh inv_parts(2) [OF inv z] z n fc(1) e [symmetric] b, folded k_def]
  have eq: "SimApplyOp SIM_LOCAL_POOL_SIZE f z l = k" using p by (simp add: k_def)
  let ?lt = "l_toggles (th l z)" and ?P = "applied (cur_rec l)"
  from fc(8) obtain ops where d: "distinct ops" and o: "set ops = {q. q < n \<and> tbit ?lt q \<noteq> tbit ?P q}"
    and s: "state (lsp l z) = fst (run_ops f (announce l) ops (state (cur_rec l), ret (cur_rec l)))"
    and r: "\<forall>q < n. ret (lsp l z) q = snd (run_ops f (announce l) ops (state (cur_rec l), ret (cur_rec l))) q"
    by (elim exE conjE)
  have pk: "pend k q \<longleftrightarrow> tbit (a_toggles l) q \<noteq> tbit ?lt q" if "q < n" for q
    using fc(4) [OF that] by (simp add: pend_def f)
  have post: "pc l q \<noteq> S_out \<and> pc l q \<noteq> S_announce \<and> pc l q \<noteq> S_add \<and> announce l q = arg l q" if "q < n" "pend l q" for q
    using inv_parts(3) [OF inv that(1)] that(2)
    by (cases "pc l q") (auto simp: work_def att_def attempt_def published_def)
  have st: "sim_status l q = Pend (announce l q)" if "q \<in> set ops" for q
    using that post [of q] fc(5) [of q] unfolding o by (simp add: sim_status_def)
  have "sim_status k q = (if q \<in> set ops then Done (snd (run_ops f (announce l) ops (state (cur_rec l), ret (cur_rec l))) q)
      else sim_status l q)" for q
  proof (cases "q < n")
    case False
    then show ?thesis using inv_parts(4) [OF inv, of q] z o by (auto simp: sim_status_def f)
  next
    case True
    have pcq: "pc k q = pc l q \<or> (q = z \<and> pc k q = S_ret)" by (simp add: f)
    show ?thesis
    proof (cases "q \<in> set ops")
      case True
      then have q: "q < n" "tbit ?lt q \<noteq> tbit ?P q" using o by auto
      have "\<not> pend k q" using pk [OF q(1)] q(2) fc(5) [OF q] unfolding pend_def by blast
      moreover have "pc k q \<notin> {S_out, S_announce, S_add}" using pcq post [OF q(1) fc(5) [OF q]] by auto
      ultimately have "sim_status k q = Done (ret (lsp l z) q)" by (simp add: sim_status_def f)
      with True r q(1) show ?thesis by simp
    next
      case False
      then have e: "tbit ?lt q = tbit ?P q" using True o by auto
      have "pend k q = pend l q" using pk [OF True] e unfolding pend_def by simp
      moreover have "ret (lsp l z) q = ret (cur_rec l) q" by (rule fc(7) [OF True e])
      ultimately have "sim_status k q = sim_status l q" using pcq p by (auto simp: sim_status_def f)
      with False show ?thesis by simp
    qed
  qed
  then have "sim_status k = (\<lambda>q. if q \<in> set ops then Done (snd (run_ops f (announce l) ops (state (cur_rec l), ret (cur_rec l))) q)
      else sim_status l q)" by (rule ext)
  then have "sim_abs k = (fst (run_ops f (announce l) ops (state (cur_rec l), ret (cur_rec l))),
      \<lambda>q. if q \<in> set ops then Done (snd (run_ops f (announce l) ops (state (cur_rec l), ret (cur_rec l))) q) else sim_status l q)"
    using s by (simp add: sim_abs_def f)
  moreover have "asteps f (state (cur_rec l), sim_status l) [] \<dots>" by (rule run_ops_asteps [OF d st])
  ultimately show ?thesis unfolding eq by (simp add: sim_abs_def)
qed

lemma published_ret:
  assumes "sim_inv n f l" and "z < n" and "published l z k"
  shows "\<not> pend l z" "ret (pool l k) z = ret (cur_rec l) z"
  using assms sharedD(11) [OF inv_parts(1) [OF assms(1)] assms(2)] unfolding published_def good_def by blast+

lemma sim_abs_ret:
  assumes inv: "sim_inv n f l" and z: "z < n" and p: "pc l z = S_ret \<and> v = ret (lsp l z) z \<or> (\<exists>k. pc l z = S_final_ret k \<and> v = ret (pool l k) z)"
  shows "asteps f (sim_abs l) [Ret z v] (sim_abs (SimApplyOp SIM_LOCAL_POOL_SIZE f z l))"
proof -
  have eq: "SimApplyOp SIM_LOCAL_POOL_SIZE f z l = goto z S_out l" using p by auto
  have "\<not> pend l z \<and> v = ret (cur_rec l) z" using p inv_parts(3) [OF inv z] published_ret [OF inv z] by auto
  then have "sim_status l z = Done v" using p by (auto simp: sim_status_def)
  moreover have "sim_status (goto z S_out l) = (sim_status l)(z := Idle)" by (auto simp: sim_status_def fun_eq_iff)
  ultimately show ?thesis unfolding eq by (intro step_ret [of _ z v]) (simp_all add: sim_abs_def)
qed

lemma sim_abs_exec:
  assumes inv: "sim_inv n f l" and a: "sim_fits n l a" and n: "4 * n < 2 ^ 24"
  shows "asteps f (sim_abs l) (sim_obs a l) (sim_abs (sim_exec SIM_LOCAL_POOL_SIZE f a l))"
proof (cases a)
  case (Invoke p x)
  then have pc: "pc l p = S_out" using a by (simp add: sim_fits_def)
  have "sim_status (sim_exec SIM_LOCAL_POOL_SIZE f (Invoke p x) l) = (sim_status l)(p := Pend x)"
    by (auto simp: sim_status_def fun_eq_iff pend_def)
  then show ?thesis using Invoke pc by (intro step_call [of _ p _ x]) (simp_all add: sim_abs_def sim_status_def)
next
  case (Step z)
  then have z: "z < n" and b: "seq (sp l) + 1 < 2 ^ 40" and pc: "pc l z \<noteq> S_out" using a by (simp_all add: sim_fits_def)
  consider "quiet l z" | "pc l z = S_announce" | "pc l z = S_add" | "pc l z = S_cas" "sp l = old_sp l z"
    | "pc l z = S_ret \<or> (\<exists>k. pc l z = S_final_ret k)" using pc by (auto simp: quiet_def)
  then show ?thesis
  proof cases
    case 1
    then have "sim_obs (Step z) l = []" by (cases "pc l z") (auto simp: quiet_def)
    then show ?thesis using quiet_abs [OF inv z 1] Step by (intro step_skip) (simp_all del: SimApplyOp.simps)
  next
    case 2
    then have "sim_abs (SimApplyOp SIM_LOCAL_POOL_SIZE f z l) = sim_abs l"
      by (auto simp: sim_abs_def sim_status_def pend_def fun_eq_iff)
    then show ?thesis using Step 2 by (intro step_skip) (simp_all del: SimApplyOp.simps)
  next
    case 3
    then show ?thesis using sim_abs_toggle [OF inv z 3] Step by (intro step_skip) (simp_all del: SimApplyOp.simps)
  next
    case 4
    then show ?thesis using sim_abs_cas [OF inv z 4 n b] Step by (simp del: SimApplyOp.simps)
  next
    case 5
    then obtain v where "sim_obs (Step z) l = [Ret z v]"
      "pc l z = S_ret \<and> v = ret (lsp l z) z \<or> (\<exists>k. pc l z = S_final_ret k \<and> v = ret (pool l k) z)" by auto
    then show ?thesis using sim_abs_ret [OF inv z, of v] Step by (simp del: SimApplyOp.simps)
  qed
qed

lemma sim_linearization:
  assumes n: "4 * n < 2 ^ 24"
  shows "linearization (SimInit SIM_LOCAL_POOL_SIZE n mb g m x0 s0) (sim_fits n) (sim_exec SIM_LOCAL_POOL_SIZE f) sim_obs f s0 (sim_inv n f) sim_abs"
proof
  show "sim_abs (SimInit SIM_LOCAL_POOL_SIZE n mb g m x0 s0) = aconf0 s0"
    using n by (simp add: sim_abs_def aconf0_def sim_status_def fun_eq_iff SimInit_def synchSimStructInit_def Let_def
        SIM_LOCAL_POOL_SIZE_def mk_pointer_def)
qed (rule sim_inv_init [OF n], rule sim_inv_exec [OF _ _ n], assumption+, rule sim_abs_exec [OF _ _ n], assumption+)

section \<open>Wait-freedom\<close>

text \<open>The number of steps a thread still has to take at most, whatever the others do: it depends on its own
  variables only. \<open>bits_from\<close> counts the bits of \<^verbatim>\<open>diffs\<close> that the helping loop still has to look at.\<close>

definition bits_from :: "nat \<Rightarrow> ToggleVector \<Rightarrow> nat \<Rightarrow> nat" where
  "bits_from n d i = (\<Sum>c \<in> {i..<TVEC_CELLS n}. card (set_bits (cell d ! c)))"

definition help_bound :: "nat \<Rightarrow> nat" where
  "help_bound n = 257 * TVEC_CELLS n + 1"

definition try_bound :: "nat \<Rightarrow> nat" where
  "try_bound n = 2 * state_words n + 2 * TVEC_CELLS n + help_bound n + 7"

definition sim_bound :: "nat \<Rightarrow> nat" where
  "sim_bound n = 2 * try_bound n + 6"

fun in_try :: "nat \<Rightarrow> ToggleVector \<Rightarrow> ('x, 'r, 's) sim_pc \<Rightarrow> nat" where
  "in_try n d S_bank = try_bound n - 1"
| "in_try n d (S_load k) = 2 * (state_words n - k) + 2 * TVEC_CELLS n + help_bound n + 5"
| "in_try n d (S_store k w) = 2 * (state_words n - k) + 2 * TVEC_CELLS n + help_bound n + 4"
| "in_try n d (S_toggles k) = (TVEC_CELLS n - k) + TVEC_CELLS n + help_bound n + 5"
| "in_try n d S_check = TVEC_CELLS n + help_bound n + 5"
| "in_try n d S_own = TVEC_CELLS n + help_bound n + 4"
| "in_try n d (S_own_ret r) = TVEC_CELLS n + help_bound n + 3"
| "in_try n d (S_loop i) = 4 * bits_from n d i + (TVEC_CELLS n - i) + 1 + TVEC_CELLS n + 2"
| "in_try n d (S_arg i q) = 4 * bits_from n d i + 3 + (TVEC_CELLS n - i) + 1 + TVEC_CELLS n + 2"
| "in_try n d (S_help i q x) = 4 * bits_from n d i + 2 + (TVEC_CELLS n - i) + 1 + TVEC_CELLS n + 2"
| "in_try n d (S_help_ret i q r) = 4 * bits_from n d i + 1 + (TVEC_CELLS n - i) + 1 + TVEC_CELLS n + 2"
| "in_try n d (S_applied k) = (TVEC_CELLS n - k) + 2"
| "in_try n d S_test = 2"
| "in_try n d _ = 1"

fun pc_left :: "nat \<Rightarrow> nat \<Rightarrow> ToggleVector \<Rightarrow> ('x, 'r, 's) sim_pc \<Rightarrow> nat" where
  "pc_left n j d S_out = 0"
| "pc_left n j d S_announce = sim_bound n"
| "pc_left n j d S_add = sim_bound n - 1"
| "pc_left n j d S_wait = sim_bound n - 2"
| "pc_left n j d S_sp = (2 - j) * try_bound n + 3"
| "pc_left n j d S_ret = 1"
| "pc_left n j d S_final = 2"
| "pc_left n j d (S_final_ret k) = 1"
| "pc_left n j d c = (1 - j) * try_bound n + 3 + in_try n d c"

definition steps_left :: "nat \<Rightarrow> ('x, 'r, 's) SimStruct \<Rightarrow> tid \<Rightarrow> nat" where
  "steps_left n l p = pc_left n (tries l p) (diffs (th l p)) (pc l p)"

lemma bits_from_le: "bits_from n d i \<le> 64 * TVEC_CELLS n"
proof -
  have "bits_from n d i \<le> card {i..<TVEC_CELLS n} * 64"
    unfolding bits_from_def by (rule order_trans [OF sum_bounded_above [where K = 64]]) (simp_all add: card_set_bits_le)
  then show ?thesis by simp
qed

lemma bits_from_Suc: "i < TVEC_CELLS n \<Longrightarrow> bits_from n d i = card (set_bits (cell d ! i)) + bits_from n d (Suc i)"
  unfolding bits_from_def by (simp add: sum.atLeast_Suc_lessThan)

lemma bits_from_take:
  assumes v: "vec_ok n d" and i: "i < TVEC_CELLS n" and c: "cell d ! i \<noteq> 0"
  shows "bits_from n d i = Suc (bits_from n (d\<lparr>cell := (cell d)[i := cell d ! i XOR push_bit (synchBitSearchFirst (cell d ! i)) 1]\<rparr>) i)"
proof -
  let ?pos = "synchBitSearchFirst (cell d ! i)"
  have b: "bit (cell d ! i) ?pos" "?pos < 64" using ctz_bit [OF c] ctz_less_64 [OF c] by simp_all
  then have "set_bits (cell d ! i) = insert ?pos (set_bits (cell d ! i XOR push_bit ?pos 1))"
    by (auto simp: set_bits_def bit_xor_iff)
  moreover have "?pos \<notin> set_bits (cell d ! i XOR push_bit ?pos 1)" using b by (simp add: set_bits_def bit_xor_iff)
  ultimately have "card (set_bits (cell d ! i)) = Suc (card (set_bits (cell d ! i XOR push_bit ?pos 1)))" by simp
  moreover have "bits_from n (d\<lparr>cell := (cell d)[i := x]\<rparr>) (Suc i) = bits_from n d (Suc i)" for x
    unfolding bits_from_def by (intro sum.cong) simp_all
  ultimately show ?thesis using vec_okD(4) [OF v] i by (simp add: bits_from_Suc)
qed

text \<open>The tries are counted.\<close>

lemma attempt_tries: "attempt l z \<Longrightarrow> tries l z < 2"
  unfolding attempt_def att_def by blast

lemma steps_left_loop:
  assumes inv: "sim_inv n f l" and z: "z < n" and p: "pc l z = S_loop i"
  shows "steps_left n (SimApplyOp SIM_LOCAL_POOL_SIZE f z l) z < steps_left n l z"
proof -
  have v: "vec_ok n (diffs (th l z))" using inv_phase [OF inv z p] ran_vec by auto
  consider "TVEC_CELLS n \<le> i" | "i < TVEC_CELLS n" "cell (diffs (th l z)) ! i = 0" | "i < TVEC_CELLS n" "cell (diffs (th l z)) ! i \<noteq> 0" by linarith
  then show ?thesis
  proof cases
    case 3
    then show ?thesis using p vec_okD(3) [OF v] bits_from_take [OF v 3] by (simp add: steps_left_def Let_def)
  qed (use p vec_okD(3) [OF v] in \<open>simp_all add: steps_left_def Let_def bits_from_Suc\<close>)
qed

lemma steps_left_less:
  assumes inv: "sim_inv n f l" and z: "z < n" and p: "pc l z \<noteq> S_out"
  shows "steps_left n (SimApplyOp SIM_LOCAL_POOL_SIZE f z l) z < steps_left n l z"
proof -
  note ph = inv_phase [OF inv z] and sz = sharedD(1) [OF inv_parts(1) [OF inv]]
  have j: "1 - tries l z = Suc (1 - Suc (tries l z)) \<and> 2 - Suc (tries l z) = 1 - tries l z" if "tries l z = 0" using that by simp
  have j2: "2 - Suc (tries l z) = 1 - tries l z" if "tries l z < 2" using that by linarith
  have j3: "2 - tries l z = Suc (1 - tries l z)" if "tries l z < 2" using that by linarith
  show ?thesis
  proof (cases "pc l z")
    case (S_loop i) then show ?thesis by (rule steps_left_loop [OF inv z])
  next
    case S_wait
    then show ?thesis using ph [OF S_wait] by (simp add: steps_left_def sim_bound_def)
  next
    case S_add
    then show ?thesis by (simp add: steps_left_def sim_bound_def sim_toggle_def Let_def)
  next
    case S_announce
    then show ?thesis by (simp add: steps_left_def sim_bound_def)
  next
    case S_sp
    then show ?thesis using j3 by (simp add: steps_left_def try_bound_def)
  next
    case S_bank
    then show ?thesis by (simp add: steps_left_def sim_bank_def Let_def try_bound_def)
  next
    case (S_load k)
    then show ?thesis by (simp add: steps_left_def)
  next
    case (S_store k w)
    then obtain m where "state_words n = Suc (k + m)" using ph [OF S_store] less_iff_Suc_add by auto
    then show ?thesis using S_store sz by (simp add: steps_left_def)
  next
    case (S_toggles k)
    then obtain m where "TVEC_CELLS n = Suc (k + m)" using ph [OF S_toggles] less_iff_Suc_add by auto
    then show ?thesis using S_toggles sz by (simp add: steps_left_def Let_def)
  next
    case S_check
    then show ?thesis using j2 attempt_tries [of l z] ph [OF S_check] by (simp add: steps_left_def Let_def)
  next
    case S_own
    then show ?thesis by (simp add: steps_left_def Let_def split_beta)
  next
    case (S_own_ret r)
    then show ?thesis using bits_from_le [of n "TVEC_REVERSE_BIT (diffs (th l z)) z" 0]
      by (simp add: steps_left_def Let_def help_bound_def)
  next
    case (S_applied k)
    then obtain m where "TVEC_CELLS n = Suc (k + m)" using ph [OF S_applied] less_iff_Suc_add by auto
    then show ?thesis using S_applied sz by (simp add: steps_left_def Let_def)
  next
    case S_test
    then show ?thesis using j2 attempt_tries [of l z] ph [OF S_test] by (simp add: steps_left_def sim_fail_def)
  next
    case S_cas
    then show ?thesis using j2 attempt_tries [of l z] ph [OF S_cas] by (simp add: steps_left_def sim_fail_def sim_cas_def Let_def)
  qed (use p in \<open>simp_all add: steps_left_def Let_def split_beta\<close>)
qed

lemma steps_left_cong:
  "\<lbrakk>pc l' p = pc l p; tries l' p = tries l p; th l' p = th l p\<rbrakk> \<Longrightarrow> steps_left n l' p = steps_left n l p"
  by (simp only: steps_left_def)

lemma steps_left_other:
  assumes "p \<noteq> z"
  shows "steps_left n (SimApplyOp SIM_LOCAL_POOL_SIZE f z l) p = steps_left n l p"
proof -
  have "pc (SimApplyOp SIM_LOCAL_POOL_SIZE f z l) p = pc l p \<and> tries (SimApplyOp SIM_LOCAL_POOL_SIZE f z l) p = tries l p \<and> th (SimApplyOp SIM_LOCAL_POOL_SIZE f z l) p = th l p"
    using assms by (cases "pc l z")
      (simp_all add: Let_def split_beta sim_toggle_def sim_bank_def sim_fail_def sim_cas_def)
  then show ?thesis by (intro steps_left_cong) blast+
qed

lemma in_try_bound: "in_try n d c \<le> try_bound n"
proof -
  have b: "4 * bits_from n d i + (TVEC_CELLS n - i) \<le> 257 * TVEC_CELLS n" for i
    using bits_from_le [of n d i] diff_le_self [of "TVEC_CELLS n" i] by linarith
  show ?thesis
    by (cases c; simp add: try_bound_def help_bound_def; rule order_trans [OF b]; simp)
qed

lemma steps_left_bound: "steps_left n l z \<le> sim_bound n"
proof -
  have d: "(1 - j) * try_bound n \<le> 1 * try_bound n" "(2 - j) * try_bound n \<le> 2 * try_bound n" for j
    by (intro mult_le_mono1; simp)+
  have e: "(1 - j) * try_bound n + 3 + in_try n dv c \<le> sim_bound n" for j dv and c :: "('a, 'b, 'c) sim_pc"
    using d(1) [of j] in_try_bound [of n dv c] unfolding sim_bound_def by linarith
  have g: "(2 - j) * try_bound n + 3 \<le> sim_bound n" for j using d(2) [of j] unfolding sim_bound_def by linarith
  have "pc_left n j dv c \<le> sim_bound n" for j dv and c :: "('a, 'b, 'c) sim_pc"
    by (cases c) (simp_all only: pc_left.simps e g, simp_all add: sim_bound_def)
  then show ?thesis by (simp add: steps_left_def)
qed

lemma sim_steps:
  assumes "sim_inv n f l" and "p < n" and n: "4 * n < 2 ^ 24" and "run_acts (sim_fits n) (sim_exec SIM_LOCAL_POOL_SIZE f) as l = Some l'"
    and "\<forall>x. Invoke p x \<notin> set as"
  shows "length (filter (\<lambda>a. a = Step p) as) + steps_left n l' p \<le> steps_left n l p"
  using assms(1,4,5)
proof (induction as arbitrary: l)
  case (Cons a as)
  then have a: "sim_fits n l a" and run: "run_acts (sim_fits n) (sim_exec SIM_LOCAL_POOL_SIZE f) as (sim_exec SIM_LOCAL_POOL_SIZE f a l) = Some l'"
    by (auto split: if_splits)
  have IH: "length (filter (\<lambda>a. a = Step p) as) + steps_left n l' p \<le> steps_left n (sim_exec SIM_LOCAL_POOL_SIZE f a l) p"
    using Cons.IH [OF sim_inv_exec [OF Cons.prems(1) a n] run] Cons.prems(3) by simp
  show ?case
  proof (cases a)
    case (Invoke q x)
    then have "q \<noteq> p" using Cons.prems(3) by auto
    then have "steps_left n (sim_exec SIM_LOCAL_POOL_SIZE f a l) p = steps_left n l p" using Invoke by (intro steps_left_cong) simp_all
    with IH Invoke show ?thesis by simp
  next
    case (Step q)
    then have q: "q < n" "pc l q \<noteq> S_out" using a by (simp_all add: sim_fits_def)
    show ?thesis
    proof (cases "q = p")
      case True
      with steps_left_less [OF Cons.prems(1) q] IH Step show ?thesis by (simp del: SimApplyOp.simps)
    next
      case False
      with steps_left_other [of p q n f l] IH Step show ?thesis by (simp del: SimApplyOp.simps)
    qed
  qed
qed simp

section \<open>Properties\<close>

text \<open>C1. The universal construction is linearizable for every sequential operation and any number of
  threads whose records the pointer can address, as long as the sequence number does not wrap around
  and whatever the memory holds at the start: the run of the object takes effect when a copy is
  published, and torn copies, late readers and recycled records do no harm.\<close>

theorem sim_linearizable:
  assumes "4 * n < 2 ^ 24" and "traces (SimInit SIM_LOCAL_POOL_SIZE n mb g m x0 s0) (sim_fits n) (sim_exec SIM_LOCAL_POOL_SIZE f) sim_obs l h"
  shows "linearizable f s0 h"
  by (rule linearization.linearizable_traces [OF sim_linearization [OF assms(1)] assms(2)])

text \<open>C2. The construction is wait-free: from any reachable state on, a thread that does not call anew takes
  at most \<open>sim_bound n\<close> steps, whatever the other threads do, and a thread inside an operation is never
  blocked. So every call returns after a number of its own steps that depends on \<open>n\<close> only.\<close>

theorem sim_wait_free:
  assumes "4 * n < 2 ^ 24" and "reach (SimInit SIM_LOCAL_POOL_SIZE n mb g m x0 s0) (act_step (sim_fits n) (sim_exec SIM_LOCAL_POOL_SIZE f)) l"
    and "run_acts (sim_fits n) (sim_exec SIM_LOCAL_POOL_SIZE f) as l = Some l'" and "p < n" and "\<forall>x. Invoke p x \<notin> set as"
  shows "length (filter (\<lambda>a. a = Step p) as) \<le> sim_bound n
     \<and> (pc l' p \<noteq> S_out \<longrightarrow> length (filter (\<lambda>a. a = Step p) as) < sim_bound n \<and> sim_ok n l' (Step p))"
proof -
  have inv: "sim_inv n f l" by (rule linearization.reach_inv [OF sim_linearization [OF assms(1)] assms(2)])
  have "0 < steps_left n l' p" if "pc l' p \<noteq> S_out"
    using that by (cases "pc l' p") (simp_all add: steps_left_def sim_bound_def)
  with sim_steps [OF inv assms(4,1,3,5)] steps_left_bound [of n l p] assms(4) show ?thesis by auto
qed

section \<open>The properties at work\<close>

text \<open>Two threads toggle their bits; the first one runs both requests in one copy, the second one finds its
  request applied.\<close>

definition sim_memory :: "nat \<Rightarrow> (nat, nat) SimObjectState" where
  "sim_memory i = \<lparr>ret = (\<lambda>_. 99), applied = \<lparr>tv_nthreads = 0, tvec_cells = 0, cell = []\<rparr>, state = 99\<rparr>"

definition sim_add :: "tid \<Rightarrow> nat \<Rightarrow> nat \<Rightarrow> nat \<times> nat" where
  "sim_add p x s = (s, s + x)"

definition sim_demo :: "nat sim_act list" where
  "sim_demo = Invoke 0 5 # Invoke 1 7 # replicate 3 (Step 0) @ replicate 2 (Step 1)"

definition sim_demo_init :: "(nat, nat, nat) SimStruct" where
  "sim_demo_init = SimInit SIM_LOCAL_POOL_SIZE 2 1 (\<lambda>_. 7) sim_memory (\<lambda>_. 0) 100"

lemmas sim_eval = sim_demo_def sim_demo_init_def SimInit_def synchSimStructInit_def SimThreadStateInit_def sim_memory_def sim_add_def
  sim_fits_def sim_toggle_def sim_bank_def sim_cas_def sim_fail_def mk_pointer_def SIM_LOCAL_POOL_SIZE_def state_words_def
  load_word_def store_word_def TVEC_CELLS_def TVEC_GET_BANK_OF_BIT_def TVEC_INIT_def TVEC_INIT_AT_def TVEC_VECTOR_SIZE_def
  TVEC_IS_SET_def tvec_defs loop_upd_def replicate_num Let_def

lemma first_bit_2: "synchBitSearchFirst 2 = 1"
  by (simp add: synchBitSearchFirst_def numeral_eq_Suc bit_simps)

theorem sim_linearizable_witness:
  "linearizable sim_add 100 [Call 0 5, Call 1 7, Ret 0 100, Ret 1 105]"
proof -
  obtain l where "run_trace (sim_fits 2) (sim_exec SIM_LOCAL_POOL_SIZE sim_add) sim_obs
      (sim_demo @ replicate 24 (Step 0) @ replicate 5 (Step 1)) sim_demo_init
      = Some (l, [Call 0 5, Call 1 7, Ret 0 100, Ret 1 105])"
    by (simp add: sim_eval first_bit_2)
  then have "traces (SimInit SIM_LOCAL_POOL_SIZE 2 1 (\<lambda>_. 7) sim_memory (\<lambda>_. 0) 100) (sim_fits 2) (sim_exec SIM_LOCAL_POOL_SIZE sim_add) sim_obs l
      [Call 0 5, Call 1 7, Ret 0 100, Ret 1 105]"
    unfolding sim_demo_init_def by (rule run_trace_traces)
  then show ?thesis by (intro sim_linearizable [of 2 1 "\<lambda>_. 7" sim_memory "\<lambda>_. 0" 100]) simp_all
qed

definition sim_demo_state :: "(nat, nat, nat) SimStruct" where
  "sim_demo_state = the (run_acts (sim_fits 2) (sim_exec SIM_LOCAL_POOL_SIZE sim_add) sim_demo sim_demo_init)"

lemma sim_demo_run: "run_acts (sim_fits 2) (sim_exec SIM_LOCAL_POOL_SIZE sim_add) sim_demo sim_demo_init = Some sim_demo_state"
  by (simp add: sim_demo_state_def sim_eval)

theorem sim_wait_free_witness:
  "length (filter (\<lambda>a. a = Step 0) (replicate 24 (Step 0) @ replicate 5 (Step 1) :: nat sim_act list)) \<le> sim_bound 2"
proof -
  obtain l where "run_acts (sim_fits 2) (sim_exec SIM_LOCAL_POOL_SIZE sim_add) (replicate 24 (Step 0) @ replicate 5 (Step 1)) sim_demo_state = Some l"
    by (simp add: sim_demo_state_def sim_eval first_bit_2)
  from sim_wait_free [OF _ _ this, of 1 "\<lambda>_. 7" sim_memory "\<lambda>_. 0" 100 0]
    run_acts_reachable [OF sim_demo_run] show ?thesis by (simp add: sim_demo_init_def)
qed

end
