(* ===== verification/SimPoolSize.thy ===== *)
theory SimPoolSize
  imports SimCorrect
begin

text \<open>
  The size of the pools of the Sim construction. sim.h recommends 2 or 4 records per thread and its
  preprocessor check accepts every size from 2 on. Two are not enough: a thread that has read the pointer may
  test its bit in a record (line 86) that its owner is already preparing for the operation after the
  next, finds its bit set there, and returns a value from a record in which its request has not been run.
\<close>

text \<open>Thread 0 has performed an operation and has read the toggles for the next one; thread 1 toggles its bit and
  reads the pointer. Thread 0 publishes, begins a third operation on the record thread 1 is about to
  look at, and stops before its compare-and-swap.\<close>

definition pool_demo :: "nat sim_act list" where
  "pool_demo = Invoke 0 5 # replicate 23 (Step 0) @ Invoke 0 6 # replicate 14 (Step 0) @ Invoke 1 7 # replicate 4 (Step 1)
     @ replicate 9 (Step 0) @ Invoke 0 8 # replicate 24 (Step 0) @ replicate 3 (Step 1)"

lemma astep_values:
  assumes "astep sim_add c l d" and "k \<le> fst c" and "\<forall>p r. snd c p = Done r \<longrightarrow> k \<le> r"
  shows "k \<le> fst d \<and> (\<forall>p r. snd d p = Done r \<longrightarrow> k \<le> r) \<and> (\<forall>p r. Ret p r \<in> set l \<longrightarrow> k \<le> r)"
  using assms by (induction rule: astep.induct) (auto simp: sim_add_def)

text \<open>The object counts up from 100, so no operation of a linearizable object returns less.\<close>

lemma asteps_values:
  assumes "asteps sim_add c h d" and "k \<le> fst c" and "\<forall>p r. snd c p = Done r \<longrightarrow> k \<le> r"
  shows "k \<le> fst d \<and> (\<forall>p r. snd d p = Done r \<longrightarrow> k \<le> r) \<and> (\<forall>p r. Ret p r \<in> set h \<longrightarrow> k \<le> r)"
  using assms
proof (induction rule: asteps.induct)
  case (as_step c h d l e)
  then have d: "k \<le> fst d" "\<forall>p r. snd d p = Done r \<longrightarrow> k \<le> r" and h: "\<forall>p r. Ret p r \<in> set h \<longrightarrow> k \<le> r" by blast+
  from astep_values [OF as_step.hyps(2) d] h show ?case by (simp only: set_append Un_iff) blast
qed simp

lemma linearizable_values:
  assumes "linearizable sim_add k h" and "Ret p r \<in> set h"
  shows "k \<le> r"
proof -
  from assms(1) obtain d where "asteps sim_add (k, \<lambda>_. Idle) h d" unfolding linearizable_def aconf0_def by blast
  from asteps_values [OF this, of k] assms(2) show ?thesis by simp
qed

text \<open>C3. With two records per thread, which sim.h recommends and allows, the construction is not
  linearizable: a call returns a value left over in a record.\<close>

theorem sim_pool_of_two:
  "\<exists>l h. traces (SimInit 2 2 1 (\<lambda>_. 7) sim_memory (\<lambda>_. 0) 100) (sim_fits 2) (sim_exec 2 sim_add) sim_obs l h
     \<and> \<not> linearizable sim_add 100 h"
proof -
  let ?h = "[Call 0 5, Ret 0 100, Call 0 6, Call 1 7, Ret 0 105, Call 0 8, Ret 1 99] :: (nat, nat) event list"
  obtain l where "run_trace (sim_fits 2) (sim_exec 2 sim_add) sim_obs pool_demo (SimInit 2 2 1 (\<lambda>_. 7) sim_memory (\<lambda>_. 0) 100) = Some (l, ?h)"
    by (simp add: pool_demo_def sim_eval first_bit_2)
  then have "traces (SimInit 2 2 1 (\<lambda>_. 7) sim_memory (\<lambda>_. 0) 100) (sim_fits 2) (sim_exec 2 sim_add) sim_obs l ?h"
    by (rule run_trace_traces)
  moreover have "\<not> linearizable sim_add 100 ?h" using linearizable_values [of 100 ?h 1 99] by auto
  ultimately show ?thesis by blast
qed

end
