(* ===== verification/LfObject.thy ===== *)
theory LfObject
  imports Linearizability Backoff
begin

text \<open>
  The lock-free universal construction of libconcurrent/concurrent/lfuobject.c, and the
  read-modify-write operations that primitives.c emulates with compare-and-swap
  (\<^verbatim>\<open>SYNCH_EMULATE_FAA\<close>, \<^verbatim>\<open>SYNCH_EMULATE_SWAP\<close>): read the shared word, compute, and try
  to swing it with one CAS. A step is one access to the shared word. \<open>os\<close> and \<open>dis\<close> are the
  arguments of \<open>synchBackoffDelay\<close>, which changes only the caller's own backoff.
\<close>

section \<open>The universal construction\<close>

datatype lfu_pc = U_out | U_read | U_cas | U_ret

record ('x, 'r, 's) lfuobject =
  state :: 's
  old_state :: "tid \<Rightarrow> 's"
  new_state :: "tid \<Rightarrow> 's"
  ret_state :: "tid \<Rightarrow> 'r option"
  arg :: "tid \<Rightarrow> 'x"
  boff :: "tid \<Rightarrow> SynchBackoffStruct"
  pc :: "tid \<Rightarrow> lfu_pc"

definition LFUObjectInit :: "'s \<Rightarrow> 'x \<Rightarrow> nat \<Rightarrow> nat \<Rightarrow> ('x, 'r, 's) lfuobject" where
  "LFUObjectInit value x0 min_back max_back =
     \<lparr>state = value, old_state = (\<lambda>_. value), new_state = (\<lambda>_. value), ret_state = (\<lambda>_. None),
      arg = (\<lambda>_. x0), boff = (\<lambda>_. synchInitBackoff min_back max_back 1), pc = (\<lambda>_. U_out)\<rparr>"

fun LFUObjectApplyOp :: "bool \<Rightarrow> bool \<Rightarrow> ('x, 'r, 's) sfunc \<Rightarrow> tid \<Rightarrow> ('x, 'r, 's) lfuobject \<Rightarrow> ('x, 'r, 's) lfuobject" where
  "LFUObjectApplyOp os dis sfunc p l =
     (case pc l p of
        U_read \<Rightarrow>
          (let (r, s) = sfunc p (arg l p) (state l)
           in l\<lparr>old_state := (old_state l)(p := state l), new_state := (new_state l)(p := s),
                ret_state := (ret_state l)(p := Some r), pc := (pc l)(p := U_cas)\<rparr>)
      | U_cas \<Rightarrow>
          (if state l = old_state l p
           then l\<lparr>state := new_state l p, pc := (pc l)(p := U_ret)\<rparr>
           else l\<lparr>boff := (boff l)(p := snd (synchBackoffDelay os dis (boff l p))), pc := (pc l)(p := U_read)\<rparr>)
      | U_ret \<Rightarrow> l\<lparr>pc := (pc l)(p := U_out)\<rparr>
      | U_out \<Rightarrow> l)"

datatype 'x lfu_act = Invoke tid 'x | Step tid

fun lfu_ok :: "('x, 'r, 's) lfuobject \<Rightarrow> 'x lfu_act \<Rightarrow> bool" where
  "lfu_ok l (Invoke p x) \<longleftrightarrow> pc l p = U_out"
| "lfu_ok l (Step p) \<longleftrightarrow> pc l p \<noteq> U_out"

fun lfu_exec :: "bool \<Rightarrow> bool \<Rightarrow> ('x, 'r, 's) sfunc \<Rightarrow> 'x lfu_act \<Rightarrow> ('x, 'r, 's) lfuobject \<Rightarrow> ('x, 'r, 's) lfuobject" where
  "lfu_exec os dis f (Invoke p x) l =
     l\<lparr>arg := (arg l)(p := x), boff := (boff l)(p := synchResetBackoff (boff l p)), pc := (pc l)(p := U_read)\<rparr>"
| "lfu_exec os dis f (Step p) l = LFUObjectApplyOp os dis f p l"

fun lfu_obs :: "'x lfu_act \<Rightarrow> ('x, 'r, 's) lfuobject \<Rightarrow> ('x, 'r) event list" where
  "lfu_obs (Invoke p x) l = [Call p x]"
| "lfu_obs (Step p) l = (if pc l p = U_ret then (case ret_state l p of Some r \<Rightarrow> [Ret p r] | None \<Rightarrow> []) else [])"

definition lfu_status :: "('x, 'r, 's) lfuobject \<Rightarrow> tid \<Rightarrow> ('x, 'r) status" where
  "lfu_status l p =
     (case pc l p of U_out \<Rightarrow> Idle | U_ret \<Rightarrow> (case ret_state l p of Some r \<Rightarrow> Done r | None \<Rightarrow> Idle)
      | _ \<Rightarrow> Pend (arg l p))"

definition lfu_abs :: "('x, 'r, 's) lfuobject \<Rightarrow> ('x, 'r, 's) config" where
  "lfu_abs l = (state l, lfu_status l)"

text \<open>What a thread has computed is what \<^verbatim>\<open>sfunc\<close> gives on the state it has read.\<close>

definition lfu_inv :: "('x, 'r, 's) sfunc \<Rightarrow> ('x, 'r, 's) lfuobject \<Rightarrow> bool" where
  "lfu_inv f l \<longleftrightarrow> (\<forall>p. (pc l p = U_cas \<longrightarrow>
       ret_state l p = Some (fst (f p (arg l p) (old_state l p))) \<and> new_state l p = snd (f p (arg l p) (old_state l p)))
     \<and> (pc l p = U_ret \<longrightarrow> ret_state l p \<noteq> None))"

lemma lfu_inv_exec: "lfu_inv f l \<Longrightarrow> lfu_ok l a \<Longrightarrow> lfu_inv f (lfu_exec os dis f a l)"
  by (cases a) (auto simp: lfu_inv_def split_beta split: lfu_pc.splits)

lemma lfu_abs_exec:
  assumes inv: "lfu_inv f l" and ok: "lfu_ok l a"
  shows "asteps f (lfu_abs l) (lfu_obs a l) (lfu_abs (lfu_exec os dis f a l))"
proof (cases a)
  case (Invoke p x)
  then show ?thesis using ok
    by (intro step_call [of _ p _ x]) (auto simp: lfu_abs_def lfu_status_def fun_eq_iff split: lfu_pc.splits option.splits)
next
  case (Step p)
  show ?thesis
  proof (cases "pc l p")
    case U_read
    then show ?thesis using Step
      by (intro step_skip) (auto simp: lfu_abs_def lfu_status_def fun_eq_iff split_beta split: lfu_pc.splits option.splits)
  next
    case U_cas
    show ?thesis
    proof (cases "state l = old_state l p")
      case True
      have "ret_state l p = Some (fst (f p (arg l p) (state l)))" "new_state l p = snd (f p (arg l p) (state l))"
        using inv U_cas True by (simp_all add: lfu_inv_def)
      then show ?thesis using Step U_cas True
        by (intro step_lin [of _ p "arg l p"]) (auto simp: lfu_abs_def lfu_status_def fun_eq_iff split: lfu_pc.splits option.splits)
    next
      case False
      then show ?thesis using Step U_cas
        by (intro step_skip) (auto simp: lfu_abs_def lfu_status_def fun_eq_iff split: lfu_pc.splits option.splits)
    qed
  next
    case U_ret
    then obtain r where "ret_state l p = Some r" using inv by (auto simp: lfu_inv_def)
    then show ?thesis using Step U_ret
      by (intro step_ret [of _ p r]) (auto simp: lfu_abs_def lfu_status_def fun_eq_iff split: lfu_pc.splits option.splits)
  qed (use ok Step in simp)
qed

interpretation lfu: linearization "LFUObjectInit s0 x0 b1 b2" lfu_ok "lfu_exec os dis f" lfu_obs f s0 "lfu_inv f" lfu_abs
  for s0 x0 b1 b2 os dis f
proof
  show "lfu_inv f (LFUObjectInit s0 x0 b1 b2)" by (simp add: lfu_inv_def LFUObjectInit_def)
  show "lfu_abs (LFUObjectInit s0 x0 b1 b2) = aconf0 s0"
    by (simp add: lfu_abs_def aconf0_def LFUObjectInit_def lfu_status_def fun_eq_iff)
qed (fact lfu_inv_exec, fact lfu_abs_exec)

text \<open>C14. The lock-free universal construction is linearizable: a successful CAS applies the
  operation to exactly the state it was computed from.\<close>

theorem lfuobject_linearizable:
  assumes "traces (LFUObjectInit s0 x0 b1 b2) lfu_ok (lfu_exec os dis f) lfu_obs l h"
  shows "linearizable f s0 h"
  using assms by (rule lfu.linearizable_traces)

text \<open>It is free of obstruction: from any state, a thread that is to read the object and then runs
  alone applies its operation to the present state and completes it in three steps.\<close>

lemma lfuobject_completes_alone:
  "pc l p = U_read \<Longrightarrow>
     run_acts lfu_ok (lfu_exec os dis f) [Step p, Step p, Step p] l =
       Some (l\<lparr>state := snd (f p (arg l p) (state l)), old_state := (old_state l)(p := state l),
              new_state := (new_state l)(p := snd (f p (arg l p) (state l))),
              ret_state := (ret_state l)(p := Some (fst (f p (arg l p) (state l)))), pc := (pc l)(p := U_out)\<rparr>)"
  by (simp add: split_beta)

section \<open>Emulated fetch-and-add and swap\<close>

text \<open>The loops of \<^verbatim>\<open>synchFAA32\<close>, \<^verbatim>\<open>synchFAA64\<close> and \<^verbatim>\<open>synchSWAP\<close>: the word is read,
  read again and compared, and then swung by a CAS. \<open>g x v\<close> is the new value for the argument
  \<open>x\<close> and the old value \<open>v\<close>, which is returned.\<close>

datatype emu_pc = E_out | E_read | E_check | E_cas | E_ret

record ('x, 'v) emulated =
  word :: 'v
  old_val :: "tid \<Rightarrow> 'v"
  earg :: "tid \<Rightarrow> 'x"
  epc :: "tid \<Rightarrow> emu_pc"

definition emu_init :: "'v \<Rightarrow> 'x \<Rightarrow> ('x, 'v) emulated" where
  "emu_init v x0 = \<lparr>word = v, old_val = (\<lambda>_. v), earg = (\<lambda>_. x0), epc = (\<lambda>_. E_out)\<rparr>"

fun emulate :: "('x \<Rightarrow> 'v \<Rightarrow> 'v) \<Rightarrow> tid \<Rightarrow> ('x, 'v) emulated \<Rightarrow> ('x, 'v) emulated" where
  "emulate g p l =
     (case epc l p of
        E_read \<Rightarrow> l\<lparr>old_val := (old_val l)(p := word l), epc := (epc l)(p := E_check)\<rparr>
      | E_check \<Rightarrow> l\<lparr>epc := (epc l)(p := (if word l = old_val l p then E_cas else E_read))\<rparr>
      | E_cas \<Rightarrow> (if word l = old_val l p
                 then l\<lparr>word := g (earg l p) (old_val l p), epc := (epc l)(p := E_ret)\<rparr>
                 else l\<lparr>epc := (epc l)(p := E_read)\<rparr>)
      | E_ret \<Rightarrow> l\<lparr>epc := (epc l)(p := E_out)\<rparr>
      | E_out \<Rightarrow> l)"

definition FAA32_emulated :: "tid \<Rightarrow> (u32, u32) emulated \<Rightarrow> (u32, u32) emulated" where
  "FAA32_emulated = emulate (\<lambda>b v. v + b)"

definition FAA64_emulated :: "tid \<Rightarrow> (u64, u64) emulated \<Rightarrow> (u64, u64) emulated" where
  "FAA64_emulated = emulate (\<lambda>b v. v + b)"

definition SWAP_emulated :: "tid \<Rightarrow> (u64, u64) emulated \<Rightarrow> (u64, u64) emulated" where
  "SWAP_emulated = emulate (\<lambda>b v. b)"

fun emu_ok :: "('x, 'v) emulated \<Rightarrow> 'x lfu_act \<Rightarrow> bool" where
  "emu_ok l (Invoke p x) \<longleftrightarrow> epc l p = E_out"
| "emu_ok l (Step p) \<longleftrightarrow> epc l p \<noteq> E_out"

fun emu_exec :: "(tid \<Rightarrow> ('x, 'v) emulated \<Rightarrow> ('x, 'v) emulated) \<Rightarrow> 'x lfu_act \<Rightarrow> ('x, 'v) emulated \<Rightarrow> ('x, 'v) emulated" where
  "emu_exec step (Invoke p x) l = l\<lparr>earg := (earg l)(p := x), epc := (epc l)(p := E_read)\<rparr>"
| "emu_exec step (Step p) l = step p l"

fun emu_obs :: "'x lfu_act \<Rightarrow> ('x, 'v) emulated \<Rightarrow> ('x, 'v) event list" where
  "emu_obs (Invoke p x) l = [Call p x]"
| "emu_obs (Step p) l = (if epc l p = E_ret then [Ret p (old_val l p)] else [])"

text \<open>The instruction that is emulated.\<close>

definition rmw :: "('x \<Rightarrow> 'v \<Rightarrow> 'v) \<Rightarrow> ('x, 'v, 'v) sfunc" where
  "rmw g p x v = (v, g x v)"

definition emu_abs :: "('x, 'v) emulated \<Rightarrow> ('x, 'v, 'v) config" where
  "emu_abs l = (word l, \<lambda>p. case epc l p of E_out \<Rightarrow> Idle | E_ret \<Rightarrow> Done (old_val l p) | _ \<Rightarrow> Pend (earg l p))"

lemma emu_abs_exec:
  assumes ok: "emu_ok l a"
  shows "asteps (rmw g) (emu_abs l) (emu_obs a l) (emu_abs (emu_exec (emulate g) a l))"
proof (cases a)
  case (Invoke p x)
  then show ?thesis using ok by (intro step_call [of _ p _ x]) (auto simp: emu_abs_def fun_eq_iff split: emu_pc.splits)
next
  case (Step p)
  show ?thesis
  proof (cases "epc l p")
    case E_cas
    show ?thesis
    proof (cases "word l = old_val l p")
      case True
      then show ?thesis using Step E_cas
        by (intro step_lin [of _ p "earg l p"]) (auto simp: emu_abs_def rmw_def fun_eq_iff split: emu_pc.splits)
    next
      case False
      then show ?thesis using Step E_cas by (intro step_skip) (auto simp: emu_abs_def fun_eq_iff split: emu_pc.splits)
    qed
  next
    case E_ret
    then show ?thesis using Step
      by (intro step_ret [of _ p "old_val l p"]) (auto simp: emu_abs_def fun_eq_iff split: emu_pc.splits)
  qed (use ok Step in \<open>auto intro!: step_skip simp: emu_abs_def fun_eq_iff split: emu_pc.splits\<close>)
qed

interpretation emu: linearization "emu_init v x0" emu_ok "emu_exec (emulate g)" emu_obs "rmw g" v "\<lambda>_. True" emu_abs
  for v x0 g
proof
  show "emu_abs (emu_init v x0) = aconf0 v" by (simp add: emu_abs_def emu_init_def aconf0_def)
qed (auto intro: emu_abs_exec)

text \<open>C38. The emulated instructions are atomic: the histories of the fetch-and-add and swap loops
  are linearizable with respect to the instructions they replace, addition wrapping around at the
  width of the word.\<close>

theorem emulated_rmw_linearizable:
  "(\<forall>v x0 l h. traces (emu_init v x0) emu_ok (emu_exec FAA32_emulated) emu_obs l h \<longrightarrow> linearizable (rmw (\<lambda>b v. v + b)) v h)
   \<and> (\<forall>v x0 l h. traces (emu_init v x0) emu_ok (emu_exec FAA64_emulated) emu_obs l h \<longrightarrow> linearizable (rmw (\<lambda>b v. v + b)) v h)
   \<and> (\<forall>v x0 l h. traces (emu_init v x0) emu_ok (emu_exec SWAP_emulated) emu_obs l h \<longrightarrow> linearizable (rmw (\<lambda>b v. b)) v h)"
  unfolding FAA32_emulated_def FAA64_emulated_def SWAP_emulated_def
  by (intro conjI allI impI; erule emu.linearizable_traces)

section \<open>The properties at work\<close>

definition lfu_demo :: "nat lfu_act list" where
  "lfu_demo = [Invoke 0 5, Invoke 1 7, Step 0, Step 1, Step 0, Step 1, Step 1, Step 1, Step 0, Step 1]"

text \<open>Both threads read 100; thread 1's CAS fails once and is repeated.\<close>

theorem lfuobject_linearizable_witness:
  "linearizable (\<lambda>p x s. (s, s + x)) (100 :: nat) [Call 0 5, Call 1 7, Ret 0 100, Ret 1 105]"
proof -
  obtain l where "run_trace lfu_ok (lfu_exec False False (\<lambda>p x s. (s, s + x))) lfu_obs lfu_demo
      (LFUObjectInit 100 0 1 4) = Some (l, [Call 0 5, Call 1 7, Ret 0 (100 :: nat), Ret 1 105])"
    by (simp add: lfu_demo_def LFUObjectInit_def)
  from lfuobject_linearizable [OF run_trace_traces [OF this]] show ?thesis .
qed

definition lfu_alone :: "(nat, nat, nat) lfuobject" where
  "lfu_alone = lfu_exec False False (\<lambda>p x s. (s, s + x)) (Invoke 0 5) (LFUObjectInit 100 0 1 4)"

lemma lfuobject_completes_alone_witness:
  "\<exists>l. run_acts lfu_ok (lfu_exec False False (\<lambda>p x s. (s, s + x))) [Step 0, Step 0, Step 0] lfu_alone = Some l
     \<and> state l = 105 \<and> ret_state l 0 = Some 100"
proof -
  have "pc lfu_alone 0 = U_read" "state lfu_alone = 100" "arg lfu_alone 0 = 5"
    by (simp_all add: lfu_alone_def LFUObjectInit_def)
  with lfuobject_completes_alone [of lfu_alone 0] show ?thesis by simp
qed

theorem emulated_rmw_linearizable_witness:
  "linearizable (rmw (\<lambda>b v. v + b)) (255 :: u32) [Call 0 2, Ret 0 255]"
proof -
  obtain l where "run_trace emu_ok (emu_exec FAA32_emulated) emu_obs [Invoke 0 2, Step 0, Step 0, Step 0, Step 0]
      (emu_init 255 0) = Some (l, [Call 0 2, Ret 0 (255 :: u32)])"
    by (simp add: FAA32_emulated_def emu_init_def)
  from emulated_rmw_linearizable [THEN conjunct1, rule_format, OF run_trace_traces [OF this]] show ?thesis .
qed

end
