(* ===== verification/Nodes.thy ===== *)
theory Nodes
  imports Prelude
begin

text \<open>
  The linked nodes of queue-stack.h and the memory the stacks and queues take them from: every
  thread has a pool of its own (a thread-local \<^verbatim>\<open>pool_node\<close>), cuts new nodes from it and
  prefers the nodes it has recycled, whichever thread cut them. This is the abstract view of the
  pool that theory \<open>Pool\<close> models in detail: node \<open>Cell p e\<close> is the \<open>e\<close>-th object cut by thread
  \<open>p\<close>. The link of the free list overlays the node, so a recycled node has no contents
  (\<open>heap x = None\<close>) and reading it is a fault: operations return \<open>None\<close> then.
\<close>

section \<open>Values and nodes\<close>

datatype addr = Guard | Cell tid nat

record Node =
  val :: val64
  nxt :: "addr option"

definition GUARD_VALUE :: val64 where "GUARD_VALUE = 2 ^ 63"
definition EMPTY_QUEUE :: val64 where "EMPTY_QUEUE = GUARD_VALUE + 1"
definition EMPTY_STACK :: val64 where "EMPTY_STACK = GUARD_VALUE + 1"
definition ENQUEUE_SUCCESS :: val64 where "ENQUEUE_SUCCESS = 0"
definition PUSH_SUCCESS :: val64 where "PUSH_SUCCESS = 0"

text \<open>\<^verbatim>\<open>INT_MIN\<close>, an \<^verbatim>\<open>int\<close> widened to \<^verbatim>\<open>int64_t\<close>.\<close>

definition INT_MIN64 :: val64 where "INT_MIN64 = word_of_int (- (2 ^ 31))"

record nodes =
  heap :: "addr \<Rightarrow> Node option"
  free :: "tid \<Rightarrow> addr list"
  cuts :: "tid \<Rightarrow> nat"

definition no_nodes :: nodes where
  "no_nodes = \<lparr>heap = (\<lambda>_. None), free = (\<lambda>_. []), cuts = (\<lambda>_. 0)\<rparr>"

definition alloc :: "tid \<Rightarrow> ('a nodes_scheme) \<Rightarrow> addr \<times> 'a nodes_scheme" where
  "alloc p h = (case free h p of
     [] \<Rightarrow> (Cell p (cuts h p), h\<lparr>cuts := (cuts h)(p := cuts h p + 1)\<rparr>)
   | x # xs \<Rightarrow> (x, h\<lparr>free := (free h)(p := xs)\<rparr>))"

definition recycle :: "tid \<Rightarrow> addr \<Rightarrow> 'a nodes_scheme \<Rightarrow> 'a nodes_scheme" where
  "recycle p x h = h\<lparr>heap := (heap h)(x := None), free := (free h)(p := x # free h p)\<rparr>"

section \<open>Memory invariant\<close>

text \<open>\<open>L\<close> are the nodes in use: none of them is in a free list, no node is in two places of the
  free lists, and cells not cut yet are neither in use nor free.\<close>

definition mem_ok :: "addr set \<Rightarrow> 'a nodes_scheme \<Rightarrow> bool" where
  "mem_ok L h \<longleftrightarrow> (\<forall>p. distinct (free h p) \<and> set (free h p) \<inter> L = {})
     \<and> (\<forall>p q. p \<noteq> q \<longrightarrow> set (free h p) \<inter> set (free h q) = {})
     \<and> (\<forall>p q e. Cell p e \<in> L \<union> set (free h q) \<longrightarrow> e < cuts h p)"

lemma mem_ok_init: "mem_ok {} no_nodes" "mem_ok {Guard} no_nodes"
  by (simp_all add: mem_ok_def no_nodes_def)

lemma mem_ok_cong:
  "free h' = free h \<Longrightarrow> cuts h' = cuts h \<Longrightarrow> mem_ok L h' = mem_ok L h"
  by (simp add: mem_ok_def)

lemma alloc_heap: "heap (snd (alloc p h)) = heap h"
  by (simp add: alloc_def split: list.splits)

lemma mem_okD:
  assumes "mem_ok L h"
  shows "distinct (free h p)" "x \<in> set (free h p) \<Longrightarrow> x \<notin> L"
    "p \<noteq> q \<Longrightarrow> x \<in> set (free h p) \<Longrightarrow> x \<notin> set (free h q)"
    "Cell p e \<in> L \<Longrightarrow> e < cuts h p" "Cell p e \<in> set (free h q) \<Longrightarrow> e < cuts h p"
  using assms unfolding mem_ok_def by blast+

lemma mem_okI:
  assumes "\<And>p. distinct (free h p)" "\<And>p x. x \<in> set (free h p) \<Longrightarrow> x \<notin> L"
    "\<And>p q x. p \<noteq> q \<Longrightarrow> x \<in> set (free h p) \<Longrightarrow> x \<notin> set (free h q)"
    "\<And>p e. Cell p e \<in> L \<Longrightarrow> e < cuts h p" "\<And>p q e. Cell p e \<in> set (free h q) \<Longrightarrow> e < cuts h p"
  shows "mem_ok L h"
  using assms unfolding mem_ok_def by blast

lemma alloc_ok:
  assumes "mem_ok L h"
  shows "fst (alloc p h) \<notin> L" and "mem_ok (insert (fst (alloc p h)) L) (snd (alloc p h))"
proof -
  note m = mem_okD [OF assms]
  show "fst (alloc p h) \<notin> L"
  proof (cases "free h p")
    case Nil
    then show ?thesis using m(4) [of p "cuts h p"] by (auto simp: alloc_def)
  next
    case (Cons x xs)
    then show ?thesis using m(2) [of x p] by (simp add: alloc_def)
  qed
  show "mem_ok (insert (fst (alloc p h)) L) (snd (alloc p h))"
  proof (cases "free h p")
    case Nil
    have "Cell p (cuts h p) \<notin> set (free h q)" for q using m(5) [of p "cuts h p" q] by auto
    then show ?thesis using Nil
      by (intro mem_okI) (auto simp: alloc_def m(1,3) less_Suc_eq dest: m(2,4,5))
  next
    case (Cons x xs)
    have other: "x \<notin> set (free h q)" if "q \<noteq> p" for q using m(3) [OF that] Cons by auto
    have d: "distinct (x # xs)" using m(1) [of p] Cons by simp
    have sub: "y \<in> set xs \<Longrightarrow> y \<in> set (free h p)" for y using Cons by simp
    from Cons d show ?thesis
      by (intro mem_okI) (auto simp: alloc_def m(1) other split: if_splits dest: m(2,3,4,5) sub m(3) [OF _ sub]
        intro: m(5) [of _ _ p])
  qed
qed

lemma recycle_ok:
  assumes "mem_ok L h" and "x \<in> L"
  shows "mem_ok (L - {x}) (recycle p x h)"
  using assms by (auto simp: mem_ok_def recycle_def)

section \<open>Lists in memory\<close>

text \<open>\<open>linked h a xs vs\<close>: following \<^verbatim>\<open>next\<close> from \<open>a\<close> leads through the nodes \<open>xs\<close>, which
  hold the values \<open>vs\<close>, to \<^verbatim>\<open>NULL\<close>.\<close>

fun linked :: "(addr \<Rightarrow> Node option) \<Rightarrow> addr option \<Rightarrow> addr list \<Rightarrow> val64 list \<Rightarrow> bool" where
  "linked h a [] vs \<longleftrightarrow> a = None \<and> vs = []"
| "linked h a (x # xs) vs \<longleftrightarrow> a = Some x \<and>
     (case h x of None \<Rightarrow> False
      | Some nd \<Rightarrow> (case vs of [] \<Rightarrow> False | v # vs' \<Rightarrow> val nd = v \<and> linked h (nxt nd) xs vs'))"

lemma linked_cong: "(\<And>x. x \<in> set xs \<Longrightarrow> h' x = h x) \<Longrightarrow> linked h' a xs vs = linked h a xs vs"
  by (induction xs arbitrary: a vs) (auto split: option.splits list.splits)

lemma linked_upd [simp]: "x \<notin> set xs \<Longrightarrow> linked (h(x := nd)) a xs vs = linked h a xs vs"
  by (rule linked_cong) auto

lemma linked_length: "linked h a xs vs \<Longrightarrow> length vs = length xs"
  by (induction xs arbitrary: a vs) (auto split: option.splits list.splits)

lemma linked_None: "linked h None xs vs \<Longrightarrow> xs = [] \<and> vs = []"
  by (cases xs) auto

lemma linked_SomeE:
  assumes "linked h (Some x) xs vs"
  obtains xs' nd vs' where "xs = x # xs'" "h x = Some nd" "vs = val nd # vs'" "linked h (nxt nd) xs' vs'"
proof (cases xs)
  case Nil
  then show ?thesis using assms by simp
next
  case (Cons y ys)
  with assms show ?thesis by (cases "h x"; cases vs) (auto intro: that)
qed

lemma linked_ConsE:
  assumes "linked h a (x # xs) vs"
  obtains nd vs' where "a = Some x" "h x = Some nd" "vs = val nd # vs'" "linked h (nxt nd) xs vs'"
  using assms by (cases "h x"; cases vs) (auto intro: that)

lemma linked_unique: "\<lbrakk>linked h a xs vs; linked h a ys ws\<rbrakk> \<Longrightarrow> xs = ys \<and> vs = ws"
proof (induction xs arbitrary: a vs ys ws)
  case Nil
  then show ?case by (cases ys) auto
next
  case (Cons x xs)
  from Cons.prems(1) obtain nd vs' where 1: "a = Some x" "h x = Some nd" "vs = val nd # vs'" "linked h (nxt nd) xs vs'"
    by (rule linked_ConsE)
  from Cons.prems(2) 1(1,2) obtain ys' ws' where "ys = x # ys'" "ws = val nd # ws'" "linked h (nxt nd) ys' ws'"
    by (auto elim: linked_SomeE)
  with 1 Cons.IH [of "nxt nd" vs' ys' ws'] show ?case by simp
qed

text \<open>Hanging a node behind the last one.\<close>

lemma linked_snoc:
  "\<lbrakk>linked h a xs vs; xs \<noteq> []; distinct xs; n \<notin> set xs; h (last xs) = Some nd; h n = Some \<lparr>val = v, nxt = None\<rparr>\<rbrakk>
   \<Longrightarrow> linked (h(last xs \<mapsto> nd\<lparr>nxt := Some n\<rparr>)) a (xs @ [n]) (vs @ [v])"
proof (induction xs arbitrary: a vs)
  case (Cons x xs)
  show ?case
  proof (cases "xs = []")
    case True
    with Cons.prems show ?thesis by (auto split: option.splits list.splits)
  next
    case False
    from Cons.prems(1) obtain ndx vs' where x: "a = Some x" "h x = Some ndx" "vs = val ndx # vs'" "linked h (nxt ndx) xs vs'"
      by (auto split: option.splits list.splits)
    have "last xs \<in> set xs" using False by simp
    with Cons.prems(3) have "x \<noteq> last xs" by auto
    moreover have "linked (h(last xs \<mapsto> nd\<lparr>nxt := Some n\<rparr>)) (nxt ndx) (xs @ [n]) (vs' @ [v])"
      using Cons.prems False x(4) by (intro Cons.IH) auto
    ultimately show ?thesis using x False by (simp add: fun_upd_def)
  qed
qed simp

end
