(* ===== verification/LfStack.thy ===== *)
theory LfStack
  imports Nodes Linearizability Backoff
begin

text \<open>
  The lock-free (Treiber) stack of libconcurrent/concurrent/lfstack.c. A step is one access to
  shared memory. Nodes come from the caller's own pool and are never recycled, so a node that has
  once been on the stack keeps its contents for ever; this is what makes the CAS of a pop safe
  although other threads may have popped and pushed in between. Following a null or dangling
  pointer is the fault \<open>T_fault\<close>.
\<close>

section \<open>State and steps\<close>

datatype lfs_op = LFPush val64 | LFPop

datatype lfs_pc =
    T_out
  | T_alloc    \<comment> \<open>\<^verbatim>\<open>n = synchAllocObj(pool); n->val = arg\<close>\<close>
  | T_read     \<comment> \<open>push: \<^verbatim>\<open>old_top = l->top\<close>\<close>
  | T_next     \<comment> \<open>push: \<^verbatim>\<open>n->next = old_top\<close>\<close>
  | T_cas      \<comment> \<open>push: \<^verbatim>\<open>CASPTR(&l->top, old_top, n)\<close>\<close>
  | T_top      \<comment> \<open>pop: \<^verbatim>\<open>old_top = l->top\<close>\<close>
  | T_load     \<comment> \<open>pop: \<^verbatim>\<open>old_top->next\<close>\<close>
  | T_pop      \<comment> \<open>pop: \<^verbatim>\<open>CASPTR(&l->top, old_top, old_top->next)\<close>\<close>
  | T_val      \<comment> \<open>pop: \<^verbatim>\<open>old_top->val\<close>\<close>
  | T_ret
  | T_fault

record lfstack = nodes +
  top :: "addr option"
  node :: "tid \<Rightarrow> addr"
  old_top :: "tid \<Rightarrow> addr option"
  new_top :: "tid \<Rightarrow> addr option"
  opn :: "tid \<Rightarrow> lfs_op"
  ret :: "tid \<Rightarrow> val64 option"
  boff :: "tid \<Rightarrow> SynchBackoffStruct"
  pc :: "tid \<Rightarrow> lfs_pc"

definition LFStackInit :: "nat \<Rightarrow> nat \<Rightarrow> lfstack" where
  "LFStackInit min_back max_back = \<lparr>heap = (\<lambda>_. None), free = (\<lambda>_. []), cuts = (\<lambda>_. 0), top = None,
     node = (\<lambda>_. Guard), old_top = (\<lambda>_. None), new_top = (\<lambda>_. None), opn = (\<lambda>_. LFPop), ret = (\<lambda>_. None),
     boff = (\<lambda>_. synchInitBackoff min_back max_back 1), pc = (\<lambda>_. T_out)\<rparr>"

abbreviation goto :: "tid \<Rightarrow> lfs_pc \<Rightarrow> lfstack \<Rightarrow> lfstack" where
  "goto p c l \<equiv> l\<lparr>pc := (pc l)(p := c)\<rparr>"

text \<open>\<open>os\<close> and \<open>dis\<close> are the arguments of \<open>synchBackoffDelay\<close>; \<open>None\<close> is the result of a push.\<close>

fun LFStackPush :: "bool \<Rightarrow> bool \<Rightarrow> tid \<Rightarrow> lfstack \<Rightarrow> lfstack" where
  "LFStackPush os dis p l =
     (case pc l p of
        T_alloc \<Rightarrow>
          (let (n, l1) = alloc p l
           in goto p T_read (l1\<lparr>node := (node l1)(p := n), boff := (boff l1)(p := synchResetBackoff (boff l1 p)),
                heap := (heap l1)(n \<mapsto> \<lparr>val = (case opn l p of LFPush v \<Rightarrow> v | LFPop \<Rightarrow> 0), nxt = None\<rparr>)\<rparr>))
      | T_read \<Rightarrow> goto p T_next (l\<lparr>old_top := (old_top l)(p := top l)\<rparr>)
      | T_next \<Rightarrow> (case heap l (node l p) of
                     None \<Rightarrow> goto p T_fault l
                   | Some nd \<Rightarrow> goto p T_cas (l\<lparr>heap := (heap l)(node l p \<mapsto> nd\<lparr>nxt := old_top l p\<rparr>)\<rparr>))
      | T_cas \<Rightarrow> (if top l = old_top l p
                  then goto p T_ret (l\<lparr>top := Some (node l p), ret := (ret l)(p := None)\<rparr>)
                  else goto p T_read (l\<lparr>boff := (boff l)(p := snd (synchBackoffDelay os dis (boff l p)))\<rparr>))
      | _ \<Rightarrow> l)"

fun LFStackPop :: "bool \<Rightarrow> bool \<Rightarrow> tid \<Rightarrow> lfstack \<Rightarrow> lfstack" where
  "LFStackPop os dis p l =
     (case pc l p of
        T_top \<Rightarrow> (case top l of
                    None \<Rightarrow> goto p T_ret (l\<lparr>ret := (ret l)(p := Some EMPTY_STACK)\<rparr>)
                  | Some x \<Rightarrow> goto p T_load (l\<lparr>old_top := (old_top l)(p := Some x)\<rparr>))
      | T_load \<Rightarrow> (case heap l (the (old_top l p)) of
                     None \<Rightarrow> goto p T_fault l
                   | Some nd \<Rightarrow> goto p T_pop (l\<lparr>new_top := (new_top l)(p := nxt nd)\<rparr>))
      | T_pop \<Rightarrow> (if top l = old_top l p
                  then goto p T_val (l\<lparr>top := new_top l p\<rparr>)
                  else goto p T_top (l\<lparr>boff := (boff l)(p := snd (synchBackoffDelay os dis (boff l p)))\<rparr>))
      | T_val \<Rightarrow> (case heap l (the (old_top l p)) of
                     None \<Rightarrow> goto p T_fault l
                   | Some nd \<Rightarrow> goto p T_ret (l\<lparr>ret := (ret l)(p := Some (val nd))\<rparr>))
      | _ \<Rightarrow> l)"

datatype lfs_act = Invoke tid lfs_op | Step tid

fun lfs_ok :: "lfstack \<Rightarrow> lfs_act \<Rightarrow> bool" where
  "lfs_ok l (Invoke p x) \<longleftrightarrow> pc l p = T_out"
| "lfs_ok l (Step p) \<longleftrightarrow> pc l p \<notin> {T_out, T_fault}"

fun lfs_exec :: "bool \<Rightarrow> bool \<Rightarrow> lfs_act \<Rightarrow> lfstack \<Rightarrow> lfstack" where
  "lfs_exec os dis (Invoke p (LFPush v)) l = goto p T_alloc (l\<lparr>opn := (opn l)(p := LFPush v)\<rparr>)"
| "lfs_exec os dis (Invoke p LFPop) l =
     goto p T_top (l\<lparr>opn := (opn l)(p := LFPop), boff := (boff l)(p := synchResetBackoff (boff l p))\<rparr>)"
| "lfs_exec os dis (Step p) l =
     (if pc l p = T_ret then goto p T_out l
      else if pc l p \<in> {T_alloc, T_read, T_next, T_cas} then LFStackPush os dis p l else LFStackPop os dis p l)"

fun lfs_obs :: "lfs_act \<Rightarrow> lfstack \<Rightarrow> (lfs_op, val64 option) event list" where
  "lfs_obs (Invoke p x) l = [Call p x]"
| "lfs_obs (Step p) l = (if pc l p = T_ret then [Ret p (ret l p)] else [])"

section \<open>Specification and abstraction\<close>

fun lfs_spec :: "tid \<Rightarrow> lfs_op \<Rightarrow> val64 list \<Rightarrow> val64 option \<times> val64 list" where
  "lfs_spec p (LFPush v) s = (None, v # s)"
| "lfs_spec p LFPop [] = (Some EMPTY_STACK, [])"
| "lfs_spec p LFPop (v # s) = (Some v, s)"

definition lfs_vals :: "lfstack \<Rightarrow> val64 list" where
  "lfs_vals l = (THE vs. \<exists>xs. linked (heap l) (top l) xs vs)"

definition lfs_status :: "lfstack \<Rightarrow> tid \<Rightarrow> (lfs_op, val64 option) status" where
  "lfs_status l p =
     (if pc l p = T_out then Idle
      else if pc l p = T_ret then Done (ret l p)
      else if pc l p = T_val then Done (map_option val (heap l (the (old_top l p))))
      else Pend (opn l p))"

definition lfs_abs :: "lfstack \<Rightarrow> (lfs_op, val64 option, val64 list) config" where
  "lfs_abs l = (lfs_vals l, lfs_status l)"

section \<open>Invariant\<close>

definition pushing :: "lfs_pc \<Rightarrow> bool" where
  "pushing c \<longleftrightarrow> c = T_read \<or> c = T_next \<or> c = T_cas"

text \<open>A node that has contents and is not the private node of a push under way.\<close>

definition published :: "lfstack \<Rightarrow> addr \<Rightarrow> bool" where
  "published l x \<longleftrightarrow> heap l x \<noteq> None \<and> (\<forall>p. pushing (pc l p) \<longrightarrow> node l p \<noteq> x)"

definition lfs_thread_ok :: "lfstack \<Rightarrow> tid \<Rightarrow> bool" where
  "lfs_thread_ok l p \<longleftrightarrow> pc l p \<noteq> T_fault
     \<and> (pc l p = T_alloc \<or> pushing (pc l p) \<longrightarrow> (\<exists>v. opn l p = LFPush v))
     \<and> (pushing (pc l p) \<longrightarrow> (\<exists>nd. heap l (node l p) = Some nd \<and> opn l p = LFPush (val nd)
            \<and> (pc l p = T_cas \<longrightarrow> nxt nd = old_top l p)) \<and> (\<exists>e. node l p = Cell p e \<and> e < cuts l p))
     \<and> (pc l p \<in> {T_top, T_load, T_pop} \<longrightarrow> opn l p = LFPop)
     \<and> (pc l p \<in> {T_load, T_pop, T_val} \<longrightarrow> (\<exists>x. old_top l p = Some x \<and> published l x))
     \<and> (pc l p = T_pop \<longrightarrow> (\<exists>nd. heap l (the (old_top l p)) = Some nd \<and> nxt nd = new_top l p))"

definition lfs_inv :: "lfstack \<Rightarrow> bool" where
  "lfs_inv l \<longleftrightarrow> (\<forall>p. free l p = []) \<and> (\<forall>p e. cuts l p \<le> e \<longrightarrow> heap l (Cell p e) = None)
     \<and> (\<exists>xs vs. linked (heap l) (top l) xs vs \<and> distinct xs \<and> (\<forall>x \<in> set xs. published l x))
     \<and> (\<forall>p. lfs_thread_ok l p)"

lemma lfs_vals_eq: "linked (heap l) (top l) xs vs \<Longrightarrow> lfs_vals l = vs"
  unfolding lfs_vals_def by (rule the_equality) (auto dest: linked_unique)

lemma lfs_inv_init: "lfs_inv (LFStackInit b1 b2)"
  unfolding lfs_inv_def
  by (auto simp: LFStackInit_def lfs_thread_ok_def pushing_def intro!: exI [of _ "[]"])

lemma lfs_invE:
  assumes "lfs_inv l"
  obtains xs vs where "linked (heap l) (top l) xs vs" "distinct xs" "\<And>x. x \<in> set xs \<Longrightarrow> published l x"
    "lfs_vals l = vs" "\<And>p. lfs_thread_ok l p" "\<And>p. free l p = []" "\<And>p e. cuts l p \<le> e \<Longrightarrow> heap l (Cell p e) = None"
  using assms lfs_vals_eq unfolding lfs_inv_def by blast

lemma lfs_private: "\<lbrakk>lfs_inv l; pushing (pc l p); pushing (pc l q); p \<noteq> q\<rbrakk> \<Longrightarrow> node l p \<noteq> node l q"
  by (elim lfs_invE) (metis addr.inject lfs_thread_ok_def)

text \<open>A step of \<open>p\<close> under which published nodes and the private nodes of the other threads stay
  as they are keeps what the other threads know.\<close>

definition quiet :: "lfstack \<Rightarrow> lfstack \<Rightarrow> tid \<Rightarrow> bool" where
  "quiet l l' p \<longleftrightarrow> (\<forall>x. published l x \<longrightarrow> published l' x \<and> heap l' x = heap l x)
     \<and> (\<forall>q. q \<noteq> p \<longrightarrow> pc l' q = pc l q \<and> node l' q = node l q \<and> old_top l' q = old_top l q
           \<and> new_top l' q = new_top l q \<and> opn l' q = opn l q \<and> cuts l' q = cuts l q
           \<and> (pushing (pc l q) \<longrightarrow> heap l' (node l q) = heap l (node l q)))"

lemma quiet_thread:
  assumes "quiet l l' p" and "q \<noteq> p" and "lfs_thread_ok l q"
  shows "lfs_thread_ok l' q"
proof -
  have same: "pc l' q = pc l q" "node l' q = node l q" "old_top l' q = old_top l q" "new_top l' q = new_top l q"
    "opn l' q = opn l q" "cuts l' q = cuts l q" "pushing (pc l q) \<Longrightarrow> heap l' (node l q) = heap l (node l q)"
    and pub: "\<And>x. published l x \<Longrightarrow> published l' x \<and> heap l' x = heap l x"
    using assms(1,2) unfolding quiet_def by blast+
  note t = assms(3)[unfolded lfs_thread_ok_def]
  show ?thesis
  proof (cases "pc l q \<in> {T_load, T_pop, T_val}")
    case True
    with t obtain x where x: "old_top l q = Some x" "published l x" by blast
    from True consider "pc l q = T_load" | "pc l q = T_pop" | "pc l q = T_val" by blast
    then show ?thesis using pub [OF x(2)] t x
      unfolding lfs_thread_ok_def same(1-6) by cases (simp_all add: pushing_def)
  next
    case False
    with t same(7) show ?thesis unfolding lfs_thread_ok_def same(1-6) by (auto simp: pushing_def)
  qed
qed

lemma quiet_inv:
  assumes inv: "lfs_inv l" and q: "quiet l l' p" and "lfs_thread_ok l' p"
    and "\<And>q. free l' q = []" and "\<And>q e. cuts l' q \<le> e \<Longrightarrow> heap l' (Cell q e) = None"
    and "linked (heap l') (top l') xs vs" "distinct xs" "\<And>x. x \<in> set xs \<Longrightarrow> published l' x"
  shows "lfs_inv l'" and "lfs_vals l' = vs"
proof -
  have "lfs_thread_ok l' r" for r
    using assms(3) quiet_thread [OF q] inv by (cases "r = p") (auto elim: lfs_invE)
  with assms show "lfs_inv l'" unfolding lfs_inv_def by blast
  show "lfs_vals l' = vs" by (rule lfs_vals_eq) fact
qed

lemma quiet_linked:
  assumes "quiet l l' p" and "linked (heap l) a xs vs" and "\<And>x. x \<in> set xs \<Longrightarrow> published l x"
  shows "linked (heap l') a xs vs"
  using assms by (subst linked_cong [of _ _ "heap l"]) (auto simp: quiet_def)

text \<open>A step that leaves the memory alone.\<close>

lemma lfs_local:
  assumes inv: "lfs_inv l" and "heap l' = heap l" "top l' = top l" "free l' = free l" "cuts l' = cuts l"
    and "\<And>q. q \<noteq> p \<Longrightarrow> pc l' q = pc l q \<and> node l' q = node l q \<and> old_top l' q = old_top l q
           \<and> new_top l' q = new_top l q \<and> opn l' q = opn l q"
    and "pushing (pc l' p) \<Longrightarrow> pushing (pc l p) \<and> node l' p = node l p" and "lfs_thread_ok l' p"
  shows "lfs_inv l' \<and> lfs_vals l' = lfs_vals l"
proof -
  obtain xs vs where x: "linked (heap l) (top l) xs vs" "distinct xs" "\<And>x. x \<in> set xs \<Longrightarrow> published l x"
    "lfs_vals l = vs" "\<And>p. lfs_thread_ok l p" "\<And>p. free l p = []" "\<And>p e. cuts l p \<le> e \<Longrightarrow> heap l (Cell p e) = None"
    using inv by (rule lfs_invE) (erule that; assumption)
  have pub: "published l y \<Longrightarrow> published l' y" for y
    unfolding published_def using assms(2,6,7) by metis
  have q: "quiet l l' p" using assms(2-6) pub by (simp add: quiet_def)
  from quiet_inv [OF inv q assms(8), of xs vs] x assms(2-5) pub show ?thesis by simp
qed

lemma lfs_alloc:
  assumes inv: "lfs_inv l" and pcl: "pc l p = T_alloc"
  shows "lfs_inv (LFStackPush os dis p l) \<and> lfs_vals (LFStackPush os dis p l) = lfs_vals l"
proof -
  obtain xs vs where x: "linked (heap l) (top l) xs vs" "distinct xs" "\<And>x. x \<in> set xs \<Longrightarrow> published l x"
    "lfs_vals l = vs" "\<And>p. lfs_thread_ok l p" "\<And>p. free l p = []" "\<And>p e. cuts l p \<le> e \<Longrightarrow> heap l (Cell p e) = None"
    using inv by (rule lfs_invE) (erule that; assumption)
  obtain v where v: "opn l p = LFPush v" using x(5) [of p] pcl by (auto simp: lfs_thread_ok_def)
  let ?n = "Cell p (cuts l p)"
  define k where "k = LFStackPush os dis p l"
  have l': "heap k = (heap l)(?n \<mapsto> \<lparr>val = v, nxt = None\<rparr>)" "top k = top l" "free k = free l"
      "cuts k = (cuts l)(p := cuts l p + 1)" "pc k = (pc l)(p := T_read)" "node k = (node l)(p := ?n)"
      "opn k = opn l" "old_top k = old_top l" "new_top k = new_top l"
    unfolding k_def using pcl v x(6) by (simp_all add: alloc_def)
  have hn: "heap l ?n = None" using x(7) [of p "cuts l p"] by simp
  have pn: "node l q \<noteq> ?n" if "pushing (pc l q)" for q
    using x(5) [of q] hn that by (auto simp: lfs_thread_ok_def)
  have pub: "published l y \<Longrightarrow> published k y \<and> heap k y = heap l y" for y
    using hn unfolding published_def l' by (auto simp: pushing_def)
  have q: "quiet l k p" unfolding quiet_def using pub pn by (auto simp: l')
  have "lfs_thread_ok k p" using v pcl by (simp add: lfs_thread_ok_def l' pushing_def)
  from quiet_inv [OF inv q this, of xs vs] quiet_linked [OF q x(1,3)] x(2,3,6,7) pub x(4)
  show ?thesis unfolding k_def [symmetric] by (auto simp: l' split: if_splits)
qed

lemma lfs_set_next:
  assumes inv: "lfs_inv l" and pcl: "pc l p = T_next"
  shows "lfs_inv (LFStackPush os dis p l) \<and> lfs_vals (LFStackPush os dis p l) = lfs_vals l"
proof -
  obtain xs vs where x: "linked (heap l) (top l) xs vs" "distinct xs" "\<And>x. x \<in> set xs \<Longrightarrow> published l x"
    "lfs_vals l = vs" "\<And>p. lfs_thread_ok l p" "\<And>p. free l p = []" "\<And>p e. cuts l p \<le> e \<Longrightarrow> heap l (Cell p e) = None"
    using inv by (rule lfs_invE) (erule that; assumption)
  obtain nd e where nd: "heap l (node l p) = Some nd" "opn l p = LFPush (val nd)" "node l p = Cell p e" "e < cuts l p"
    using x(5) [of p] pcl by (auto simp: lfs_thread_ok_def pushing_def)
  define k where "k = LFStackPush os dis p l"
  have l': "heap k = (heap l)(node l p \<mapsto> nd\<lparr>nxt := old_top l p\<rparr>)" "top k = top l" "free k = free l"
      "cuts k = cuts l" "pc k = (pc l)(p := T_cas)" "node k = node l"
      "opn k = opn l" "old_top k = old_top l" "new_top k = new_top l"
    unfolding k_def using pcl nd by simp_all
  have pn: "node l q \<noteq> node l p" if "pushing (pc l q)" "q \<noteq> p" for q
    using lfs_private [OF inv that(1), of p] pcl that(2) by (simp add: pushing_def)
  have pub: "published l y \<Longrightarrow> published k y \<and> heap k y = heap l y" for y
    using pcl unfolding published_def l' by (auto simp: pushing_def)
  have q: "quiet l k p" unfolding quiet_def using pub pn by (auto simp: l')
  have "lfs_thread_ok k p" using nd pcl by (simp add: lfs_thread_ok_def l' pushing_def)
  moreover have "free k r = []" for r using x(6) by (simp add: l')
  moreover have "heap k (Cell r a) = None" if "cuts k r \<le> a" for r a
    using that x(7) [of r a] nd(3,4) by (auto simp: l')
  moreover have "published k z" if "z \<in> set xs" for z using that x(3) pub by blast
  moreover have "linked (heap k) (top k) xs vs" using quiet_linked [OF q x(1,3)] by (simp add: l')
  ultimately show ?thesis unfolding k_def [symmetric]
    using quiet_inv [OF inv q, of xs vs] x(2,4) by simp
qed

lemma lfs_push:
  assumes inv: "lfs_inv l" and pcl: "pc l p = T_cas" and t: "top l = old_top l p" and v: "opn l p = LFPush v"
  shows "lfs_inv (LFStackPush os dis p l) \<and> lfs_vals (LFStackPush os dis p l) = v # lfs_vals l"
proof -
  obtain xs vs where x: "linked (heap l) (top l) xs vs" "distinct xs" "\<And>x. x \<in> set xs \<Longrightarrow> published l x"
    "lfs_vals l = vs" "\<And>p. lfs_thread_ok l p" "\<And>p. free l p = []" "\<And>p e. cuts l p \<le> e \<Longrightarrow> heap l (Cell p e) = None"
    using inv by (rule lfs_invE) (erule that; assumption)
  obtain nd where nd: "heap l (node l p) = Some nd" "opn l p = LFPush (val nd)" "nxt nd = old_top l p"
    using x(5) [of p] pcl by (auto simp: lfs_thread_ok_def pushing_def)
  define k where "k = LFStackPush os dis p l"
  have l': "heap k = heap l" "top k = Some (node l p)" "free k = free l"
      "cuts k = cuts l" "pc k = (pc l)(p := T_ret)" "node k = node l"
      "opn k = opn l" "old_top k = old_top l" "new_top k = new_top l"
    unfolding k_def using pcl t by simp_all
  have pub: "published l y \<Longrightarrow> published k y" for y
    unfolding published_def l' by (auto simp: pushing_def)
  have q: "quiet l k p" unfolding quiet_def using pub by (auto simp: l')
  have ok: "lfs_thread_ok k p" using pcl by (simp add: lfs_thread_ok_def l' pushing_def)
  have np: "\<not> published l (node l p)" using pcl by (auto simp: published_def pushing_def)
  have pubn: "published k (node l p)"
    using nd lfs_private [OF inv, of _ p] pcl unfolding published_def l' by (auto simp: pushing_def split: if_splits)
  have "linked (heap k) (top k) (node l p # xs) (v # vs)"
    using x(1) nd t v by (simp add: l')
  moreover have "distinct (node l p # xs)" using x(2,3) np by auto
  moreover have "published k z" if "z \<in> set (node l p # xs)" for z using that x(3) pub pubn by auto
  moreover have "free k r = []" "cuts k r \<le> e \<Longrightarrow> heap k (Cell r e) = None" for r e using x(6,7) by (simp_all add: l')
  ultimately show ?thesis unfolding k_def [symmetric]
    using quiet_inv [OF inv q ok, of "node l p # xs" "v # vs"] x(4) by simp
qed

lemma lfs_pop:
  assumes inv: "lfs_inv l" and pcl: "pc l p = T_pop" and t: "top l = old_top l p"
  shows "lfs_inv (LFStackPop os dis p l) \<and>
    (\<exists>nd. heap l (the (old_top l p)) = Some nd \<and> lfs_vals l = val nd # lfs_vals (LFStackPop os dis p l))"
proof -
  obtain xs vs where x: "linked (heap l) (top l) xs vs" "distinct xs" "\<And>x. x \<in> set xs \<Longrightarrow> published l x"
    "lfs_vals l = vs" "\<And>p. lfs_thread_ok l p" "\<And>p. free l p = []" "\<And>p e. cuts l p \<le> e \<Longrightarrow> heap l (Cell p e) = None"
    using inv by (rule lfs_invE) (erule that; assumption)
  obtain y nd where y: "old_top l p = Some y" "published l y" "heap l y = Some nd" "nxt nd = new_top l p"
    using x(5) [of p] pcl by (auto simp: lfs_thread_ok_def)
  from x(1) t y obtain xs' vs' where xs': "xs = y # xs'" "vs = val nd # vs'" "linked (heap l) (new_top l p) xs' vs'"
    by (auto elim: linked_SomeE)
  define k where "k = LFStackPop os dis p l"
  have l': "heap k = heap l" "top k = new_top l p" "free k = free l"
      "cuts k = cuts l" "pc k = (pc l)(p := T_val)" "node k = node l"
      "opn k = opn l" "old_top k = old_top l" "new_top k = new_top l"
    unfolding k_def using pcl t by simp_all
  have pub: "published l z \<Longrightarrow> published k z" for z
    unfolding published_def l' by (auto simp: pushing_def)
  have q: "quiet l k p" unfolding quiet_def using pub by (auto simp: l')
  have ok: "lfs_thread_ok k p" using y pub by (simp add: lfs_thread_ok_def l' pushing_def)
  have "linked (heap k) (top k) xs' vs'" using xs' by (simp add: l')
  from quiet_inv [OF inv q ok _ _ this] x(2,3,4,6,7) xs' pub y show ?thesis unfolding k_def [symmetric] by (auto simp: l')
qed

section \<open>Refinement\<close>

lemma lfs_ok_thread: "lfs_inv l \<Longrightarrow> lfs_thread_ok l p"
  by (simp add: lfs_inv_def)

lemma lfs_status_upd:
  assumes "\<And>q. q \<noteq> p \<Longrightarrow> pc l' q = pc l q \<and> ret l' q = ret l q \<and> opn l' q = opn l q \<and> old_top l' q = old_top l q"
    and "\<And>q. q \<noteq> p \<Longrightarrow> pc l q = T_val \<Longrightarrow> heap l' (the (old_top l q)) = heap l (the (old_top l q))"
    and "lfs_status l' p = c"
  shows "lfs_status l' = (lfs_status l)(p := c)"
proof
  show "lfs_status l' q = ((lfs_status l)(p := c)) q" for q
    by (cases "q = p") (use assms(1,2) [of q] assms(3) in \<open>simp_all add: lfs_status_def\<close>)
qed

text \<open>What a step of \<open>p\<close> does to the stack and to \<open>p\<close>'s own status.\<close>

definition lfs_effect :: "lfstack \<Rightarrow> lfstack \<Rightarrow> tid \<Rightarrow> bool" where
  "lfs_effect l l' p \<longleftrightarrow> lfs_inv l' \<and>
     (lfs_status l p = Done (ret l p) \<and> pc l p = T_ret \<and> lfs_vals l' = lfs_vals l \<and> lfs_status l' p = Idle
      \<or> pc l p \<noteq> T_ret \<and> lfs_vals l' = lfs_vals l \<and> lfs_status l' p = lfs_status l p
      \<or> pc l p \<noteq> T_ret \<and> lfs_status l p = Pend (opn l p) \<and>
        (Done (fst (lfs_spec p (opn l p) (lfs_vals l))), snd (lfs_spec p (opn l p) (lfs_vals l)))
          = (lfs_status l' p, lfs_vals l'))"

lemma lfs_step_effect:
  assumes inv: "lfs_inv l" and ok: "lfs_ok l (Step p)"
  shows "lfs_effect l (lfs_exec os dis (Step p) l) p"
proof -
  note t = lfs_ok_thread [OF inv, of p, unfolded lfs_thread_ok_def]
  let ?k = "lfs_exec os dis (Step p) l"
  have loc: "lfs_inv ?k \<and> lfs_vals ?k = lfs_vals l"
    if "heap ?k = heap l" "top ?k = top l" "free ?k = free l" "cuts ?k = cuts l"
      "\<And>q. q \<noteq> p \<Longrightarrow> pc ?k q = pc l q \<and> node ?k q = node l q \<and> old_top ?k q = old_top l q
           \<and> new_top ?k q = new_top l q \<and> opn ?k q = opn l q"
      "pushing (pc ?k p) \<Longrightarrow> pushing (pc l p) \<and> node ?k p = node l p" "lfs_thread_ok ?k p"
    using that by (intro lfs_local [OF inv]) 
  obtain xs vs where x: "linked (heap l) (top l) xs vs" "\<And>x. x \<in> set xs \<Longrightarrow> published l x" "lfs_vals l = vs"
    using inv by (rule lfs_invE) (erule that; assumption)
  show ?thesis
  proof (cases "pc l p")
    case T_alloc
    then have "?k = LFStackPush os dis p l" by simp
    moreover have "lfs_status (LFStackPush os dis p l) p = lfs_status l p"
      using T_alloc by (simp add: lfs_status_def alloc_def split: list.splits)
    ultimately show ?thesis using lfs_alloc [OF inv T_alloc, of os dis] T_alloc
      unfolding lfs_effect_def by (simp del: LFStackPush.simps)
  next
    case T_next
    then have "?k = LFStackPush os dis p l" by simp
    moreover have "lfs_status (LFStackPush os dis p l) p = lfs_status l p"
      using T_next t by (auto simp: lfs_status_def pushing_def)
    ultimately show ?thesis using lfs_set_next [OF inv T_next, of os dis] T_next
      unfolding lfs_effect_def by (simp del: LFStackPush.simps)
  next
    case T_cas
    obtain v where v: "opn l p = LFPush v" using t T_cas by (auto simp: pushing_def)
    show ?thesis
    proof (cases "top l = old_top l p")
      case True
      have "?k = LFStackPush os dis p l" using T_cas by simp
      moreover have "lfs_status (LFStackPush os dis p l) p = Done None" using T_cas True by (simp add: lfs_status_def)
      moreover have "lfs_status l p = Pend (LFPush v)" using T_cas v by (simp add: lfs_status_def)
      ultimately show ?thesis using lfs_push [OF inv T_cas True v, of os dis] T_cas v
        unfolding lfs_effect_def by (simp del: LFStackPush.simps)
    next
      case False
      then have "lfs_inv ?k \<and> lfs_vals ?k = lfs_vals l"
        using T_cas t by (intro loc) (auto simp: lfs_thread_ok_def pushing_def)
      then show ?thesis using T_cas False by (auto simp: lfs_effect_def lfs_status_def)
    qed
  next
    case T_read
    then have "lfs_inv ?k \<and> lfs_vals ?k = lfs_vals l"
      using t by (intro loc) (auto simp: lfs_thread_ok_def pushing_def)
    then show ?thesis using T_read by (auto simp: lfs_effect_def lfs_status_def)
  next
    case T_top
    show ?thesis
    proof (cases "top l")
      case None
      then have "lfs_inv ?k \<and> lfs_vals ?k = lfs_vals l"
        using T_top t by (intro loc) (auto simp: lfs_thread_ok_def pushing_def)
      moreover have "lfs_vals l = []" using None x(1,3) linked_None by auto
      moreover have "opn l p = LFPop" using t T_top by simp
      ultimately show ?thesis using T_top None by (auto simp: lfs_effect_def lfs_status_def)
    next
      case (Some y)
      then have "published l y" using x(1,2) by (auto elim: linked_SomeE)
      moreover have "published ?k z" if "published l z" for z
        using T_top Some that by (auto simp: published_def pushing_def)
      ultimately have "lfs_inv ?k \<and> lfs_vals ?k = lfs_vals l"
        using T_top t Some by (intro loc) (auto simp: lfs_thread_ok_def pushing_def)
      then show ?thesis using T_top Some by (auto simp: lfs_effect_def lfs_status_def)
    qed
  next
    case T_load
    then obtain y nd where y: "old_top l p = Some y" "published l y" "heap l y = Some nd"
      using t by (auto simp: published_def)
    moreover have "published ?k z" if "published l z" for z
      using T_load y that by (auto simp: published_def pushing_def)
    ultimately have "lfs_inv ?k \<and> lfs_vals ?k = lfs_vals l"
      using T_load t by (intro loc) (auto simp: lfs_thread_ok_def pushing_def)
    then show ?thesis using T_load y by (auto simp: lfs_effect_def lfs_status_def)
  next
    case T_pop
    have op: "opn l p = LFPop" using t T_pop by simp
    show ?thesis
    proof (cases "top l = old_top l p")
      case True
      have "?k = LFStackPop os dis p l" using T_pop by simp
      moreover obtain nd where nd: "heap l (the (old_top l p)) = Some nd"
          "lfs_vals l = val nd # lfs_vals (LFStackPop os dis p l)" "lfs_inv (LFStackPop os dis p l)"
        using lfs_pop [OF inv T_pop True, of os dis] by blast
      moreover have "lfs_status (LFStackPop os dis p l) p = Done (Some (val nd))"
        using T_pop True nd(1) by (simp add: lfs_status_def)
      moreover have "lfs_status l p = Pend LFPop" using T_pop op by (simp add: lfs_status_def)
      ultimately show ?thesis using T_pop op
        unfolding lfs_effect_def by (simp del: LFStackPop.simps)
    next
      case False
      then have "lfs_inv ?k \<and> lfs_vals ?k = lfs_vals l"
        using T_pop t by (intro loc) (auto simp: lfs_thread_ok_def pushing_def)
      then show ?thesis using T_pop False by (auto simp: lfs_effect_def lfs_status_def)
    qed
  next
    case T_val
    then obtain y nd where y: "old_top l p = Some y" "heap l y = Some nd"
      using t by (auto simp: published_def)
    then have "lfs_inv ?k \<and> lfs_vals ?k = lfs_vals l"
      using T_val t by (intro loc) (auto simp: lfs_thread_ok_def pushing_def)
    then show ?thesis using T_val y by (auto simp: lfs_effect_def lfs_status_def)
  next
    case T_ret
    then have "lfs_inv ?k \<and> lfs_vals ?k = lfs_vals l"
      using t by (intro loc) (auto simp: lfs_thread_ok_def pushing_def)
    then show ?thesis using T_ret by (auto simp: lfs_effect_def lfs_status_def)
  qed (use ok t in simp_all)
qed

lemma lfs_frame:
  assumes "free l p = []" "q \<noteq> p"
  shows "pc (lfs_exec os dis (Step p) l) q = pc l q" "ret (lfs_exec os dis (Step p) l) q = ret l q"
    "opn (lfs_exec os dis (Step p) l) q = opn l q" "old_top (lfs_exec os dis (Step p) l) q = old_top l q"
  using assms by (cases "pc l p"; simp add: alloc_def split: option.splits; fail)+

lemma lfs_heap_frame:
  assumes "free l p = []" "y \<noteq> Cell p (cuts l p)" "pc l p = T_next \<Longrightarrow> y \<noteq> node l p"
  shows "heap (lfs_exec os dis (Step p) l) y = heap l y"
  using assms by (cases "pc l p"; simp add: alloc_def split: option.splits)

lemma lfs_others:
  assumes inv: "lfs_inv l" and q: "q \<noteq> p"
  shows "lfs_status (lfs_exec os dis (Step p) l) q = lfs_status l q"
proof -
  define k where "k = lfs_exec os dis (Step p) l"
  have x: "\<And>p. lfs_thread_ok l p" "\<And>p. free l p = []"
      "\<And>p e. cuts l p \<le> e \<Longrightarrow> heap l (Cell p e) = None"
    using inv by (simp_all add: lfs_inv_def)
  note same = lfs_frame [OF x(2) q, of os dis, folded k_def]
  have "heap k (the (old_top l q)) = heap l (the (old_top l q))" if v: "pc l q = T_val"
  proof -
    obtain y where y: "old_top l q = Some y" "published l y"
      using x(1) [of q] v by (auto simp: lfs_thread_ok_def)
    have "y \<noteq> Cell p (cuts l p)" using y(2) x(3) [of p "cuts l p"] by (auto simp: published_def)
    moreover have "pc l p = T_next \<Longrightarrow> y \<noteq> node l p" using y(2) by (auto simp: published_def pushing_def)
    ultimately show ?thesis using lfs_heap_frame [OF x(2), of y p os dis] y(1) by (simp add: k_def)
  qed
  then show ?thesis unfolding k_def [symmetric] using same by (simp add: lfs_status_def)
qed

lemma lfs_step_abs:
  assumes inv: "lfs_inv l" and ok: "lfs_ok l (Step p)"
  shows "lfs_inv (lfs_exec os dis (Step p) l) \<and>
    asteps lfs_spec (lfs_abs l) (lfs_obs (Step p) l) (lfs_abs (lfs_exec os dis (Step p) l))"
proof -
  define k where "k = lfs_exec os dis (Step p) l"
  have eff: "lfs_effect l k p" unfolding k_def by (rule lfs_step_effect [OF inv ok])
  have st: "lfs_status k = (lfs_status l)(p := lfs_status k p)"
    using lfs_others [OF inv, of _ p os dis] by (auto simp: fun_eq_iff k_def simp del: lfs_exec.simps)
  from eff consider
      (returns) "lfs_status l p = Done (ret l p)" "pc l p = T_ret" "lfs_vals k = lfs_vals l" "lfs_status k p = Idle"
    | (skip) "pc l p \<noteq> T_ret" "lfs_vals k = lfs_vals l" "lfs_status k p = lfs_status l p"
    | (lin) "pc l p \<noteq> T_ret" "lfs_status l p = Pend (opn l p)"
        "lfs_status k p = Done (fst (lfs_spec p (opn l p) (lfs_vals l)))"
        "lfs_vals k = snd (lfs_spec p (opn l p) (lfs_vals l))"
    unfolding lfs_effect_def prod.inject by metis
  then have "asteps lfs_spec (lfs_abs l) (lfs_obs (Step p) l) (lfs_abs k)"
  proof cases
    case returns
    then show ?thesis using st by (intro step_ret [of _ p "ret l p"]) (simp_all add: lfs_abs_def)
  next
    case skip
    then show ?thesis using st by (intro step_skip) (simp_all add: lfs_abs_def)
  next
    case lin
    then show ?thesis using st by (intro step_lin [of _ p "opn l p"]) (simp_all add: lfs_abs_def)
  qed
  with eff show ?thesis unfolding k_def lfs_effect_def by blast
qed

lemma lfs_invoke:
  assumes inv: "lfs_inv l" and ok: "pc l p = T_out"
  shows "lfs_inv (lfs_exec os dis (Invoke p x) l) \<and>
    asteps lfs_spec (lfs_abs l) [Call p x] (lfs_abs (lfs_exec os dis (Invoke p x) l))"
proof -
  define k where "k = lfs_exec os dis (Invoke p x) l"
  have l': "heap k = heap l" "top k = top l" "free k = free l" "cuts k = cuts l" "ret k = ret l" "node k = node l"
    "old_top k = old_top l" "new_top k = new_top l" "opn k = (opn l)(p := x)"
    "pc k = (pc l)(p := (case x of LFPush v \<Rightarrow> T_alloc | LFPop \<Rightarrow> T_top))"
    unfolding k_def by (cases x; simp)+
  have "lfs_thread_ok k p" by (cases x) (simp_all add: lfs_thread_ok_def l' pushing_def)
  then have k: "lfs_inv k \<and> lfs_vals k = lfs_vals l"
    by (intro lfs_local [OF inv, of k p]) (simp_all add: l' pushing_def split: lfs_op.splits)
  have "lfs_status k = (lfs_status l)(p := Pend x)"
    by (rule lfs_status_upd) (simp_all add: l' lfs_status_def split: lfs_op.splits)
  moreover have "lfs_status l p = Idle" using ok by (simp add: lfs_status_def)
  ultimately show ?thesis unfolding k_def [symmetric] using k
    by (auto intro!: step_call [of _ p _ x] simp: lfs_abs_def)
qed

interpretation lfs: linearization "LFStackInit b1 b2" lfs_ok "lfs_exec os dis" lfs_obs lfs_spec "[]" lfs_inv lfs_abs
  for b1 b2 os dis
proof
  show "lfs_inv (LFStackInit b1 b2)" by (rule lfs_inv_init)
  show "lfs_abs (LFStackInit b1 b2) = aconf0 []"
    using lfs_vals_eq [of "LFStackInit b1 b2" "[]" "[]"]
    by (simp add: lfs_abs_def aconf0_def lfs_status_def LFStackInit_def fun_eq_iff)
  fix l a
  assume "lfs_inv l" "lfs_ok l a"
  then show "lfs_inv (lfs_exec os dis a l)" "asteps lfs_spec (lfs_abs l) (lfs_obs a l) (lfs_abs (lfs_exec os dis a l))"
    using lfs_step_abs [of l] lfs_invoke [of l]
    by (cases a; simp del: LFStackPush.simps LFStackPop.simps lfs_exec.simps lfs_obs.simps(2); simp; fail)+
qed

text \<open>C13. The lock-free stack is a linearizable last-in-first-out stack: pushes and pops by any
  number of threads, interleaved in any way, take effect one at a time between their call and their
  return, a pop returns what the last push not yet undone left, or \<open>EMPTY_STACK\<close> when there is
  nothing, and no step follows a null or dangling pointer.\<close>

theorem lfstack_linearizable:
  assumes "traces (LFStackInit b1 b2) lfs_ok (lfs_exec os dis) lfs_obs l h"
  shows "linearizable lfs_spec [] h \<and> pc l p \<noteq> T_fault"
  using lfs.linearizable_traces [OF assms] lfs.invariant [OF assms]
  by (simp add: lfs_inv_def lfs_thread_ok_def)

definition lfs_demo :: "lfs_act list" where
  "lfs_demo = [Invoke 0 (LFPush 5), Invoke 1 (LFPush 7), Step 0, Step 1, Step 0, Step 1, Step 0, Step 1, Step 0,
     Step 1, Invoke 2 LFPop, Step 2, Step 2, Step 1, Step 1, Step 1, Step 2, Step 2, Step 2, Step 2, Step 2, Step 0, Step 1, Step 2]"

text \<open>Thread 1's push loses the race for the top and is repeated, and so is thread 2's pop, which
  had read the top before that push.\<close>

theorem lfstack_linearizable_witness:
  "linearizable lfs_spec [] [Call 0 (LFPush 5), Call 1 (LFPush 7), Call 2 LFPop, Ret 0 None, Ret 1 None, Ret 2 (Some 7)]"
proof -
  obtain l where "run_trace lfs_ok (lfs_exec False False) lfs_obs lfs_demo (LFStackInit 1 4) =
      Some (l, [Call 0 (LFPush 5), Call 1 (LFPush 7), Call 2 LFPop, Ret 0 None, Ret 1 None, Ret 2 (Some 7)])"
    by (simp add: lfs_demo_def LFStackInit_def alloc_def)
  from lfstack_linearizable [OF run_trace_traces [OF this]] show ?thesis by blast
qed

end
