(* ===== verification/MsQueue.thy ===== *)
theory MsQueue
  imports Nodes Linearizability Backoff
begin

text \<open>
  The lock-free queue of Michael and Scott, libconcurrent/concurrent/msqueue.c. A step is one
  access to shared memory. Nodes come from the caller's own pool and are never given back, so the
  \<^verbatim>\<open>next\<close> pointer of a node changes once, from null to its successor, and a node that has
  left the queue does not return. A dequeue that finds the queue empty takes effect when it reads
  the null \<^verbatim>\<open>next\<close> of the first node, but only if its check of \<^verbatim>\<open>head\<close> afterwards
  succeeds: the linearization point is known only later.
\<close>

section \<open>State and steps\<close>

datatype msq_op = MSEnqueue val64 | MSDequeue

datatype msq_pc =
    Q_out
  | E_alloc    \<comment> \<open>\<^verbatim>\<open>p = synchAllocObj(pool); p->val = arg; p->next = NULL\<close>\<close>
  | E_last     \<comment> \<open>\<^verbatim>\<open>last = l->tail\<close>\<close>
  | E_next     \<comment> \<open>\<^verbatim>\<open>next = last->next\<close>\<close>
  | E_check    \<comment> \<open>\<^verbatim>\<open>if (last == l->tail) if (next == NULL)\<close>\<close>
  | E_cas      \<comment> \<open>\<^verbatim>\<open>CASPTR(&last->next, next, p)\<close>\<close>
  | E_help     \<comment> \<open>\<^verbatim>\<open>CASPTR(&l->tail, last, next)\<close>\<close>
  | E_swing    \<comment> \<open>\<^verbatim>\<open>CASPTR(&l->tail, last, p)\<close>, line 38\<close>
  | D_first    \<comment> \<open>\<^verbatim>\<open>first = l->head\<close>\<close>
  | D_last     \<comment> \<open>\<^verbatim>\<open>last = l->tail\<close>\<close>
  | D_next     \<comment> \<open>\<^verbatim>\<open>next = first->next\<close>\<close>
  | D_check    \<comment> \<open>\<^verbatim>\<open>if (first == l->head) if (first == last) if (next == NULL)\<close>\<close>
  | D_help     \<comment> \<open>\<^verbatim>\<open>CASPTR(&l->tail, last, next)\<close>, line 54\<close>
  | D_val      \<comment> \<open>\<^verbatim>\<open>value = next->val\<close>\<close>
  | D_cas      \<comment> \<open>\<^verbatim>\<open>CASPTR(&l->head, first, next)\<close>\<close>
  | Q_ret
  | Q_fault

record msqueue = nodes +
  head :: addr
  tail :: addr
  node :: "tid \<Rightarrow> addr"
  first :: "tid \<Rightarrow> addr"
  lastp :: "tid \<Rightarrow> addr"
  nextp :: "tid \<Rightarrow> addr option"
  opn :: "tid \<Rightarrow> msq_op"
  ret :: "tid \<Rightarrow> val64 option"
  boff :: "tid \<Rightarrow> SynchBackoffStruct"
  pc :: "tid \<Rightarrow> msq_pc"

text \<open>The value of the first dummy node is not initialised by the code; it is the parameter \<open>g\<close>.\<close>

definition MSQueueInit :: "val64 \<Rightarrow> nat \<Rightarrow> nat \<Rightarrow> msqueue" where
  "MSQueueInit g min_back max_back = \<lparr>heap = [Guard \<mapsto> \<lparr>val = g, nxt = None\<rparr>], free = (\<lambda>_. []), cuts = (\<lambda>_. 0),
     head = Guard, tail = Guard, node = (\<lambda>_. Guard), first = (\<lambda>_. Guard), lastp = (\<lambda>_. Guard), nextp = (\<lambda>_. None),
     opn = (\<lambda>_. MSDequeue), ret = (\<lambda>_. None), boff = (\<lambda>_. synchInitBackoff min_back max_back 1), pc = (\<lambda>_. Q_out)\<rparr>"

abbreviation goto :: "tid \<Rightarrow> msq_pc \<Rightarrow> msqueue \<Rightarrow> msqueue" where
  "goto p c l \<equiv> l\<lparr>pc := (pc l)(p := c)\<rparr>"

abbreviation reset :: "tid \<Rightarrow> msqueue \<Rightarrow> msqueue" where
  "reset p l \<equiv> l\<lparr>boff := (boff l)(p := synchResetBackoff (boff l p))\<rparr>"

abbreviation delay :: "bool \<Rightarrow> bool \<Rightarrow> tid \<Rightarrow> msqueue \<Rightarrow> msqueue" where
  "delay os dis p l \<equiv> l\<lparr>boff := (boff l)(p := snd (synchBackoffDelay os dis (boff l p)))\<rparr>"

text \<open>\<open>None\<close> is the result of an enqueue.\<close>

fun MSQueueEnqueue :: "bool \<Rightarrow> bool \<Rightarrow> tid \<Rightarrow> msqueue \<Rightarrow> msqueue" where
  "MSQueueEnqueue os dis p l =
     (case pc l p of
        E_alloc \<Rightarrow>
          (let (n, l1) = alloc p l
           in goto p E_last (reset p (l1\<lparr>node := (node l1)(p := n),
                heap := (heap l1)(n \<mapsto> \<lparr>val = (case opn l p of MSEnqueue v \<Rightarrow> v | MSDequeue \<Rightarrow> 0), nxt = None\<rparr>)\<rparr>)))
      | E_last \<Rightarrow> goto p E_next (l\<lparr>lastp := (lastp l)(p := tail l)\<rparr>)
      | E_next \<Rightarrow> (case heap l (lastp l p) of
                     None \<Rightarrow> goto p Q_fault l
                   | Some nd \<Rightarrow> goto p E_check (l\<lparr>nextp := (nextp l)(p := nxt nd)\<rparr>))
      | E_check \<Rightarrow> (if lastp l p = tail l
                    then (if nextp l p = None then goto p E_cas (reset p l) else goto p E_help l)
                    else goto p E_last l)
      | E_cas \<Rightarrow> (case heap l (lastp l p) of
                    None \<Rightarrow> goto p Q_fault l
                  | Some nd \<Rightarrow> (if nxt nd = nextp l p
                                then goto p E_swing (l\<lparr>heap := (heap l)(lastp l p \<mapsto> nd\<lparr>nxt := Some (node l p)\<rparr>)\<rparr>)
                                else goto p E_last l))
      | E_help \<Rightarrow> (case nextp l p of
                     None \<Rightarrow> goto p Q_fault l
                   | Some y \<Rightarrow> goto p E_last (delay os dis p (if tail l = lastp l p then l\<lparr>tail := y\<rparr> else l)))
      | E_swing \<Rightarrow> goto p Q_ret ((if tail l = lastp l p then l\<lparr>tail := node l p\<rparr> else l)\<lparr>ret := (ret l)(p := None)\<rparr>)
      | _ \<Rightarrow> l)"

fun MSQueueDequeue :: "bool \<Rightarrow> bool \<Rightarrow> tid \<Rightarrow> msqueue \<Rightarrow> msqueue" where
  "MSQueueDequeue os dis p l =
     (case pc l p of
        D_first \<Rightarrow> goto p D_last (l\<lparr>first := (first l)(p := head l)\<rparr>)
      | D_last \<Rightarrow> goto p D_next (l\<lparr>lastp := (lastp l)(p := tail l)\<rparr>)
      | D_next \<Rightarrow> (case heap l (first l p) of
                     None \<Rightarrow> goto p Q_fault l
                   | Some nd \<Rightarrow> goto p D_check (l\<lparr>nextp := (nextp l)(p := nxt nd)\<rparr>))
      | D_check \<Rightarrow> (if first l p = head l
                    then (if first l p = lastp l p
                          then (if nextp l p = None
                                then goto p Q_ret (l\<lparr>ret := (ret l)(p := Some EMPTY_QUEUE)\<rparr>)
                                else goto p D_help l)
                          else goto p D_val l)
                    else goto p D_first l)
      | D_help \<Rightarrow> (case nextp l p of
                     None \<Rightarrow> goto p Q_fault l
                   | Some y \<Rightarrow> goto p D_first (delay os dis p (if tail l = lastp l p then l\<lparr>tail := y\<rparr> else l)))
      | D_val \<Rightarrow> (case nextp l p of
                    None \<Rightarrow> goto p Q_fault l
                  | Some y \<Rightarrow> (case heap l y of
                                 None \<Rightarrow> goto p Q_fault l
                               | Some nd \<Rightarrow> goto p D_cas (l\<lparr>ret := (ret l)(p := Some (val nd))\<rparr>)))
      | D_cas \<Rightarrow> (case nextp l p of
                    None \<Rightarrow> goto p Q_fault l
                  | Some y \<Rightarrow> (if head l = first l p then goto p Q_ret (l\<lparr>head := y\<rparr>)
                                else goto p D_first (delay os dis p l)))
      | _ \<Rightarrow> l)"

datatype msq_act = Invoke tid msq_op | Step tid

fun msq_ok :: "msqueue \<Rightarrow> msq_act \<Rightarrow> bool" where
  "msq_ok l (Invoke p x) \<longleftrightarrow> pc l p = Q_out"
| "msq_ok l (Step p) \<longleftrightarrow> pc l p \<notin> {Q_out, Q_fault}"

fun enqueuing :: "msq_pc \<Rightarrow> bool" where
  "enqueuing E_alloc = True" | "enqueuing E_last = True" | "enqueuing E_next = True" | "enqueuing E_check = True"
| "enqueuing E_cas = True" | "enqueuing E_help = True" | "enqueuing E_swing = True" | "enqueuing _ = False"

fun msq_exec :: "bool \<Rightarrow> bool \<Rightarrow> msq_act \<Rightarrow> msqueue \<Rightarrow> msqueue" where
  "msq_exec os dis (Invoke p (MSEnqueue v)) l = goto p E_alloc (l\<lparr>opn := (opn l)(p := MSEnqueue v)\<rparr>)"
| "msq_exec os dis (Invoke p MSDequeue) l = goto p D_first (reset p (l\<lparr>opn := (opn l)(p := MSDequeue)\<rparr>))"
| "msq_exec os dis (Step p) l =
     (if pc l p = Q_ret then goto p Q_out l
      else if enqueuing (pc l p) then MSQueueEnqueue os dis p l else MSQueueDequeue os dis p l)"

fun msq_obs :: "msq_act \<Rightarrow> msqueue \<Rightarrow> (msq_op, val64 option) event list" where
  "msq_obs (Invoke p x) l = [Call p x]"
| "msq_obs (Step p) l = (if pc l p = Q_ret then [Ret p (ret l p)] else [])"

section \<open>Specification and abstraction\<close>

fun msq_spec :: "tid \<Rightarrow> msq_op \<Rightarrow> val64 list \<Rightarrow> val64 option \<times> val64 list" where
  "msq_spec p (MSEnqueue v) q = (None, q @ [v])"
| "msq_spec p MSDequeue [] = (Some EMPTY_QUEUE, [])"
| "msq_spec p MSDequeue (v # q) = (Some v, q)"

text \<open>The values behind the dummy.\<close>

definition msq_vals :: "msqueue \<Rightarrow> val64 list" where
  "msq_vals l = tl (THE vs. \<exists>xs. linked (heap l) (Some (head l)) xs vs)"

text \<open>\<open>W\<close> are the threads that have read a null \<^verbatim>\<open>next\<close> and whose check will succeed.\<close>

definition msq_valid :: "tid set \<Rightarrow> msqueue \<Rightarrow> bool" where
  "msq_valid W l \<longleftrightarrow> (\<forall>p \<in> W. pc l p = D_check \<and> nextp l p = None)"

definition msq_status :: "tid set \<Rightarrow> msqueue \<Rightarrow> tid \<Rightarrow> (msq_op, val64 option) status" where
  "msq_status W l p =
     (if pc l p = Q_out then Idle
      else if pc l p = Q_ret then Done (ret l p)
      else if pc l p = E_swing then Done None
      else if p \<in> W then Done (Some EMPTY_QUEUE)
      else Pend (opn l p))"

definition msq_abs :: "tid set \<Rightarrow> msqueue \<Rightarrow> (msq_op, val64 option, val64 list) config" where
  "msq_abs W l = (msq_vals l, msq_status W l)"

section \<open>Invariant\<close>

fun priv :: "msq_pc \<Rightarrow> bool" where
  "priv E_last = True" | "priv E_next = True" | "priv E_check = True" | "priv E_cas = True"
| "priv E_help = True" | "priv _ = False"

definition published :: "msqueue \<Rightarrow> addr \<Rightarrow> bool" where
  "published l x \<longleftrightarrow> heap l x \<noteq> None \<and> (\<forall>p. priv (pc l p) \<longrightarrow> node l p \<noteq> x)"

definition succ :: "msqueue \<Rightarrow> addr \<Rightarrow> addr option" where
  "succ l x = (case heap l x of None \<Rightarrow> None | Some nd \<Rightarrow> nxt nd)"

text \<open>What a thread knows. Its private node is ready to be linked; the node it has read as the first
  is not behind the present one; and where it has seen the tail past that node it still is.\<close>

definition mine :: "msqueue \<Rightarrow> tid \<Rightarrow> bool" where
  "mine l p \<longleftrightarrow> (\<exists>v e. heap l (node l p) = Some \<lparr>val = v, nxt = None\<rparr> \<and> opn l p = MSEnqueue v
      \<and> node l p = Cell p e \<and> e < cuts l p)"

definition passed :: "addr list \<Rightarrow> msqueue \<Rightarrow> tid \<Rightarrow> bool" where
  "passed xs l p \<longleftrightarrow> opn l p = MSDequeue \<and> published l (first l p) \<and> first l p \<notin> set (tl xs)"

definition beyond :: "msqueue \<Rightarrow> tid \<Rightarrow> bool" where
  "beyond l p \<longleftrightarrow> (lastp l p \<noteq> first l p \<longrightarrow> tail l \<noteq> first l p)"

definition hint :: "msqueue \<Rightarrow> addr \<Rightarrow> addr option \<Rightarrow> bool" where
  "hint l x n \<longleftrightarrow> (\<forall>y. n = Some y \<longrightarrow> succ l x = Some y)"

definition knows :: "msq_pc \<Rightarrow> addr list \<Rightarrow> msqueue \<Rightarrow> tid \<Rightarrow> bool" where
  "knows c xs l p =
     (case c of
        Q_out \<Rightarrow> True | Q_ret \<Rightarrow> True | Q_fault \<Rightarrow> False
      | E_alloc \<Rightarrow> (\<exists>v. opn l p = MSEnqueue v)
      | E_last \<Rightarrow> mine l p
      | E_next \<Rightarrow> mine l p \<and> published l (lastp l p)
      | E_check \<Rightarrow> mine l p \<and> published l (lastp l p) \<and> hint l (lastp l p) (nextp l p)
      | E_cas \<Rightarrow> mine l p \<and> published l (lastp l p) \<and> nextp l p = None
      | E_help \<Rightarrow> mine l p \<and> published l (lastp l p) \<and> hint l (lastp l p) (nextp l p) \<and> nextp l p \<noteq> None
      | E_swing \<Rightarrow> published l (lastp l p) \<and> hint l (lastp l p) (Some (node l p))
      | D_first \<Rightarrow> opn l p = MSDequeue
      | D_last \<Rightarrow> passed xs l p
      | D_next \<Rightarrow> passed xs l p \<and> beyond l p
      | D_check \<Rightarrow> passed xs l p \<and> beyond l p \<and> hint l (first l p) (nextp l p)
                     \<and> (nextp l p = None \<longrightarrow> lastp l p = first l p)
      | D_help \<Rightarrow> passed xs l p \<and> lastp l p = first l p \<and> hint l (first l p) (nextp l p) \<and> nextp l p \<noteq> None
      | D_val \<Rightarrow> passed xs l p \<and> beyond l p \<and> lastp l p \<noteq> first l p \<and> hint l (first l p) (nextp l p) \<and> nextp l p \<noteq> None
      | D_cas \<Rightarrow> passed xs l p \<and> beyond l p \<and> lastp l p \<noteq> first l p \<and> hint l (first l p) (nextp l p)
                   \<and> (\<exists>y nd. nextp l p = Some y \<and> published l y \<and> heap l y = Some nd \<and> ret l p = Some (val nd)))"

definition msq_inv_at :: "addr list \<Rightarrow> val64 list \<Rightarrow> msqueue \<Rightarrow> bool" where
  "msq_inv_at xs vs l \<longleftrightarrow> (\<forall>p. free l p = []) \<and> (\<forall>p e. cuts l p \<le> e \<longrightarrow> heap l (Cell p e) = None)
     \<and> linked (heap l) (Some (head l)) xs vs \<and> distinct xs \<and> (\<forall>x \<in> set xs. published l x) \<and> tail l \<in> set xs
     \<and> (\<forall>x. published l x \<and> succ l x = None \<longrightarrow> x = last xs)
     \<and> (\<forall>x y. published l x \<and> succ l x = Some y \<longrightarrow> published l y)
     \<and> (\<forall>p. knows (pc l p) xs l p)"

definition msq_inv :: "msqueue \<Rightarrow> bool" where
  "msq_inv l \<longleftrightarrow> (\<exists>xs vs. msq_inv_at xs vs l)"

lemma msq_invD:
  assumes "msq_inv_at xs vs l"
  shows "free l p = []" "cuts l p \<le> e \<Longrightarrow> heap l (Cell p e) = None" "linked (heap l) (Some (head l)) xs vs"
    "distinct xs" "x \<in> set xs \<Longrightarrow> published l x" "tail l \<in> set xs"
    "published l x \<Longrightarrow> succ l x = None \<Longrightarrow> x = last xs"
    "published l x \<Longrightarrow> succ l x = Some y \<Longrightarrow> published l y" "knows (pc l p) xs l p"
  using assms unfolding msq_inv_at_def by blast+

lemma msq_invI:
  assumes "\<And>p. free l p = []" "\<And>p e. cuts l p \<le> e \<Longrightarrow> heap l (Cell p e) = None"
    "linked (heap l) (Some (head l)) xs vs" "distinct xs" "\<And>x. x \<in> set xs \<Longrightarrow> published l x" "tail l \<in> set xs"
    "\<And>x. published l x \<Longrightarrow> succ l x = None \<Longrightarrow> x = last xs"
    "\<And>x y. published l x \<Longrightarrow> succ l x = Some y \<Longrightarrow> published l y" "\<And>p. knows (pc l p) xs l p"
  shows "msq_inv_at xs vs l"
  using assms unfolding msq_inv_at_def by blast

lemma msq_vals_eq: "msq_inv_at xs vs l \<Longrightarrow> msq_vals l = tl vs"
  unfolding msq_vals_def
  by (rule arg_cong [of _ _ tl], rule the_equality) (auto dest: msq_invD(3) linked_unique)

lemma msq_inv_init: "msq_inv_at [Guard] [g] (MSQueueInit g b1 b2)"
  by (rule msq_invI) (auto simp: MSQueueInit_def published_def succ_def knows_def split: if_splits)

lemma linked_succ: "\<lbrakk>linked h a xs vs; x \<in> set xs; h x = Some nd; nxt nd = Some y\<rbrakk> \<Longrightarrow> y \<in> set (tl xs)"
proof (induction xs arbitrary: a vs)
  case (Cons z xs)
  obtain ndz vs' where z: "h z = Some ndz" "linked h (nxt ndz) xs vs'"
    using Cons.prems(1) by (rule linked_ConsE)
  show ?case
  proof (cases "x = z")
    case True
    with z Cons.prems show ?thesis by (cases xs) auto
  next
    case False
    with Cons.IH [OF z(2)] Cons.prems show ?thesis by (cases xs) auto
  qed
qed simp

lemma succ_in: "\<lbrakk>msq_inv_at xs vs l; x \<in> set xs; succ l x = Some y\<rbrakk> \<Longrightarrow> y \<in> set (tl xs)"
  by (auto simp: succ_def split: option.splits dest: msq_invD(3) linked_succ)

lemma inv_nonempty: "msq_inv_at xs vs l \<Longrightarrow> \<exists>xs' nd vs'. xs = head l # xs' \<and> heap l (head l) = Some nd
    \<and> vs = val nd # vs' \<and> linked (heap l) (nxt nd) xs' vs'"
  by (drule msq_invD(3)) (erule linked_SomeE, blast)

text \<open>A step of \<open>p\<close> that what the other threads know survives.\<close>

definition quiet :: "addr list \<Rightarrow> addr list \<Rightarrow> msqueue \<Rightarrow> msqueue \<Rightarrow> tid \<Rightarrow> bool" where
  "quiet xs xs' l l' p \<longleftrightarrow> (\<forall>x. published l x \<longrightarrow> published l' x \<and> map_option val (heap l' x) = map_option val (heap l x)
        \<and> (\<forall>y. succ l x = Some y \<longrightarrow> succ l' x = Some y)
        \<and> (x \<notin> set (tl xs) \<longrightarrow> x \<notin> set (tl xs') \<and> (tail l \<noteq> x \<longrightarrow> tail l' \<noteq> x)))
     \<and> (\<forall>q. q \<noteq> p \<longrightarrow> pc l' q = pc l q \<and> node l' q = node l q \<and> first l' q = first l q \<and> lastp l' q = lastp l q
           \<and> nextp l' q = nextp l q \<and> opn l' q = opn l q \<and> ret l' q = ret l q \<and> cuts l' q = cuts l q
           \<and> (priv (pc l q) \<longrightarrow> heap l' (node l q) = heap l (node l q)))"

lemma quiet_knows:
  assumes q: "quiet xs xs' l l' p" and "q \<noteq> p" and k: "knows (pc l q) xs l q"
  shows "knows (pc l' q) xs' l' q"
proof -
  have same: "pc l' q = pc l q" "node l' q = node l q" "first l' q = first l q" "lastp l' q = lastp l q"
    "nextp l' q = nextp l q" "opn l' q = opn l q" "ret l' q = ret l q" "cuts l' q = cuts l q"
    and own: "priv (pc l q) \<Longrightarrow> heap l' (node l q) = heap l (node l q)"
    and pub: "\<And>x. published l x \<Longrightarrow> published l' x"
    and vals: "\<And>x nd. published l x \<Longrightarrow> heap l x = Some nd \<Longrightarrow> \<exists>nd'. heap l' x = Some nd' \<and> val nd' = val nd"
    and suc: "\<And>x y. published l x \<Longrightarrow> succ l x = Some y \<Longrightarrow> succ l' x = Some y"
    and fst: "\<And>x. published l x \<Longrightarrow> x \<notin> set (tl xs) \<Longrightarrow> x \<notin> set (tl xs')"
    and tl: "\<And>x. published l x \<Longrightarrow> x \<notin> set (tl xs) \<Longrightarrow> tail l \<noteq> x \<Longrightarrow> tail l' \<noteq> x"
    using q \<open>q \<noteq> p\<close> unfolding quiet_def by (blast, blast, blast, blast, blast, blast, blast, blast, blast, blast, force, blast, blast, blast)
  have "priv (pc l q) \<Longrightarrow> mine l q \<Longrightarrow> mine l' q" using own by (simp add: mine_def same)
  moreover have "passed xs l q \<Longrightarrow> passed xs' l' q" using pub fst by (simp add: passed_def same)
  moreover have "passed xs l q \<Longrightarrow> beyond l q \<Longrightarrow> beyond l' q" using tl by (simp add: passed_def beyond_def same)
  moreover have "published l x \<Longrightarrow> hint l x n \<Longrightarrow> hint l' x n" for x n using suc by (simp add: hint_def)
  moreover have "passed xs l q \<Longrightarrow> published l (first l q)" by (simp add: passed_def)
  ultimately show ?thesis using k pub vals unfolding knows_def same
    by (cases "pc l q"; simp; fastforce?)
qed

lemma msq_quiet_inv:
  assumes inv: "msq_inv_at xs vs l" and q: "quiet xs xs' l l' p" and k: "knows (pc l' p) xs' l' p"
    and "\<And>p. free l' p = []" "\<And>p e. cuts l' p \<le> e \<Longrightarrow> heap l' (Cell p e) = None"
    "linked (heap l') (Some (head l')) xs' vs'" "distinct xs'" "\<And>x. x \<in> set xs' \<Longrightarrow> published l' x" "tail l' \<in> set xs'"
    "\<And>x. published l' x \<Longrightarrow> succ l' x = None \<Longrightarrow> x = last xs'"
    "\<And>x y. published l' x \<Longrightarrow> succ l' x = Some y \<Longrightarrow> published l' y"
  shows "msq_inv_at xs' vs' l'"
proof (rule msq_invI)
  show "knows (pc l' r) xs' l' r" for r
    using k quiet_knows [OF q _ msq_invD(9) [OF inv, of r]] by (cases "r = p") auto
qed (fact assms)+

text \<open>Steps that leave the nodes and \<^verbatim>\<open>head\<close> alone and move \<^verbatim>\<open>tail\<close> at most to the next node.\<close>

lemma msq_local:
  assumes inv: "msq_inv_at xs vs l" and l': "heap l' = heap l" "head l' = head l" "free l' = free l" "cuts l' = cuts l"
    and t: "tail l' = tail l \<or> succ l (tail l) = Some (tail l')"
    and o: "\<And>q. q \<noteq> p \<Longrightarrow> pc l' q = pc l q \<and> node l' q = node l q \<and> first l' q = first l q \<and> lastp l' q = lastp l q
           \<and> nextp l' q = nextp l q \<and> opn l' q = opn l q \<and> ret l' q = ret l q"
    and "priv (pc l' p) = priv (pc l p)" "priv (pc l p) \<Longrightarrow> node l' p = node l p"
    and k: "published l' = published l \<Longrightarrow> succ l' = succ l \<Longrightarrow> knows (pc l' p) xs l' p"
  shows "msq_inv_at xs vs l'"
proof -
  have pub: "published l' = published l"
  proof
    have "priv (pc l' q) = priv (pc l q) \<and> (priv (pc l q) \<longrightarrow> node l' q = node l q)" for q
      using o [of q] assms(8,9) by (cases "q = p") auto
    then show "published l' x = published l x" for x by (auto simp: published_def l')
  qed
  have suc: "succ l' = succ l" by (simp add: fun_eq_iff succ_def l')
  note i = msq_invD [OF inv]
  have t': "tail l' = tail l \<or> tail l' \<in> set (tl xs)" using t succ_in [OF inv i(6)] by auto
  have "tail l' \<in> set xs" using t' i(6) by (cases xs) auto
  moreover have "quiet xs xs l l' p" unfolding quiet_def pub suc l' using t' o by auto
  ultimately show ?thesis using i k [OF pub suc]
    by (intro msq_quiet_inv [OF inv, where p = p]) (simp_all add: pub suc l')
qed

lemma msq_alloc:
  assumes inv: "msq_inv_at xs vs l" and pcl: "pc l p = E_alloc"
  shows "msq_inv_at xs vs (MSQueueEnqueue os dis p l)"
proof -
  note i = msq_invD [OF inv]
  obtain v where v: "opn l p = MSEnqueue v" using i(9) [of p] pcl by (auto simp: knows_def)
  let ?n = "Cell p (cuts l p)"
  define k where "k = MSQueueEnqueue os dis p l"
  have l': "heap k = (heap l)(?n \<mapsto> \<lparr>val = v, nxt = None\<rparr>)" "tail k = tail l" "head k = head l" "free k = free l"
      "cuts k = (cuts l)(p := cuts l p + 1)" "pc k = (pc l)(p := E_last)" "node k = (node l)(p := ?n)"
      "opn k = opn l" "first k = first l" "lastp k = lastp l" "nextp k = nextp l" "ret k = ret l"
    unfolding k_def using pcl v i(1) by (simp_all add: alloc_def)
  have hn: "heap l ?n = None" using i(2) [of p "cuts l p"] by simp
  have other: "node l q \<noteq> ?n" if "priv (pc l q)" for q
    using i(9) [of q] hn that unfolding knows_def by (cases "pc l q") (auto simp: mine_def)
  have np: "\<not> published l ?n" using hn by (simp add: published_def)
  have pv: "priv (pc k q) \<and> node k q = y \<longleftrightarrow> (priv (pc l q) \<and> node l q = y) \<or> (q = p \<and> y = ?n)" for q y
    using pcl by (auto simp: l')
  have pub: "published k y = published l y" for y
  proof (cases "y = ?n")
    case True
    with np pv [of p ?n] show ?thesis by (auto simp: published_def)
  next
    case False
    with pv [of _ y] show ?thesis by (auto simp: published_def l'(1))
  qed
  have suc: "published l y \<Longrightarrow> succ k y = succ l y" for y using np by (auto simp: succ_def l')
  have hp: "published l y \<Longrightarrow> heap k y = heap l y" for y using np by (auto simp: l')
  have q: "quiet xs xs l k p" unfolding quiet_def using other pub suc hp by (auto simp: l')
  have "knows (pc k p) xs k p" using v by (simp add: knows_def l' mine_def)
  moreover have "linked (heap k) (Some (head k)) xs vs"
    using i(3,5) hp by (subst linked_cong [of _ _ "heap l"]) (auto simp: l'(3))
  moreover have "cuts k r \<le> e \<Longrightarrow> heap k (Cell r e) = None" for r e using i(2) by (auto simp: l' split: if_splits)
  ultimately have "msq_inv_at xs vs k"
    using i suc pub by (intro msq_quiet_inv [OF inv q]) (simp_all add: l'(2,3,4))
  then show ?thesis unfolding k_def .
qed

lemma priv_node: "msq_inv_at xs vs l \<Longrightarrow> priv (pc l q) \<Longrightarrow> \<exists>e. node l q = Cell q e"
  using msq_invD(9) [of xs vs l q] unfolding knows_def by (cases "pc l q") (auto simp: mine_def)

lemma priv_distinct: "\<lbrakk>msq_inv_at xs vs l; priv (pc l p); priv (pc l q); p \<noteq> q\<rbrakk> \<Longrightarrow> node l p \<noteq> node l q"
  by (metis addr.inject priv_node)

lemma msq_enq:
  assumes inv: "msq_inv_at xs vs l" and pcl: "pc l p = E_cas" and c: "succ l (lastp l p) = None"
  shows "\<exists>v. opn l p = MSEnqueue v \<and> msq_inv_at (xs @ [node l p]) (vs @ [v]) (MSQueueEnqueue os dis p l)"
proof -
  note i = msq_invD [OF inv]
  have "knows E_cas xs l p" using i(9) [of p] pcl by simp
  then have k: "mine l p" "published l (lastp l p)" "nextp l p = None" by (simp_all add: knows_def)
  from k(1) obtain v e where v: "heap l (node l p) = Some \<lparr>val = v, nxt = None\<rparr>" "opn l p = MSEnqueue v"
      "node l p = Cell p e" "e < cuts l p" by (auto simp: mine_def)
  from k(2) obtain nd where nd: "heap l (lastp l p) = Some nd" by (auto simp: published_def)
  have lst: "lastp l p = last xs" using i(7) [OF k(2) c] .
  have nn: "nxt nd = None" using c nd by (simp add: succ_def)
  define m where "m = MSQueueEnqueue os dis p l"
  let ?n = "node l p"
  have l': "heap m = (heap l)(last xs \<mapsto> nd\<lparr>nxt := Some ?n\<rparr>)" "tail m = tail l" "head m = head l" "free m = free l"
      "cuts m = cuts l" "pc m = (pc l)(p := E_swing)" "node m = node l"
      "opn m = opn l" "first m = first l" "lastp m = lastp l" "nextp m = nextp l" "ret m = ret l"
    unfolding m_def using pcl nd nn k(3) lst by simp_all
  have np: "\<not> published l ?n" using pcl unfolding published_def by (metis priv.simps(4))
  have ne: "xs \<noteq> []" using i(6) by auto
  then have nl: "?n \<noteq> last xs" "?n \<notin> set xs" using np i(5) last_in_set by metis+
  have other: "node l q \<noteq> ?n" if "priv (pc l q)" "q \<noteq> p" for q
    using priv_distinct [OF inv that(1), of p] pcl that(2) by simp
  have pv: "priv (pc l q) \<and> node l q = y \<longleftrightarrow> (priv (pc m q) \<and> node m q = y) \<or> (q = p \<and> y = ?n)" for q y
    using pcl by (auto simp: l')
  have hm: "heap m y = None \<longleftrightarrow> heap l y = None" for y using nd lst by (simp add: l')
  have pub: "published m y \<longleftrightarrow> published l y \<or> y = ?n" for y
  proof (cases "y = ?n")
    case True
    have "\<not> (priv (pc m q) \<and> node m q = ?n)" for q using other [of q] by (cases "q = p") (auto simp: l')
    with True v(1) hm [of ?n] show ?thesis by (auto simp: published_def)
  next
    case False
    with pv [of _ y] hm show ?thesis by (auto simp: published_def)
  qed
  have suc: "succ m y = (if y = last xs then Some ?n else succ l y)" for y by (simp add: succ_def l')
  have sl: "succ l (last xs) = None" using c lst by simp
  have q: "quiet xs (xs @ [?n]) l m p" unfolding quiet_def
  proof (intro conjI allI impI)
    fix x assume x: "published l x"
    show "published m x" using x pub by simp
    show "map_option val (heap m x) = map_option val (heap l x)" using nd lst by (simp add: l')
    show "succ m x = Some y" if "succ l x = Some y" for y using that sl suc by auto
    show "x \<notin> set (tl (xs @ [?n]))" if "x \<notin> set (tl xs)" using that x np ne by auto
    show "tail m \<noteq> x" if "tail l \<noteq> x" using that by (simp add: l')
  next
    fix r assume "r \<noteq> p" "priv (pc l r)"
    then have "\<not> published l (node l r)" by (auto simp: published_def)
    then have "node l r \<noteq> last xs" using k(2) lst by auto
    then show "heap m (node l r) = heap l (node l r)" by (simp add: l')
  qed (auto simp: l')
  have "msq_inv_at (xs @ [?n]) (vs @ [v]) m"
  proof (rule msq_quiet_inv [OF inv q])
    show "knows (pc m p) (xs @ [?n]) m p" using k(2) lst pub suc by (simp add: knows_def l' hint_def)
    show "free m r = []" for r using i(1) by (simp add: l')
    show "heap m (Cell r a) = None" if "cuts m r \<le> a" for r a using that i(2) [of r a] hm by (simp add: l'(5))
    show "linked (heap m) (Some (head m)) (xs @ [?n]) (vs @ [v])"
      using linked_snoc [OF i(3) ne i(4) nl(2) _ v(1)] nd lst by (simp add: l')
    show "distinct (xs @ [?n])" using i(4) nl(2) by simp
    show "published m x" if "x \<in> set (xs @ [?n])" for x using that i(5) [of x] pub by auto
    show "tail m \<in> set (xs @ [?n])" using i(6) by (simp add: l')
    show "x = last (xs @ [?n])" if "published m x" "succ m x = None" for x
      using that i(7) [of x] pub suc by (auto split: if_splits)
    show "published m y" if "published m x" "succ m x = Some y" for x y
      using that i(8) [of x y] pub suc v(1) nl(1) by (auto simp: succ_def split: if_splits)
  qed
  with v(2) show ?thesis unfolding m_def [symmetric] by blast
qed

lemma msq_deq:
  assumes inv: "msq_inv_at xs vs l" and pcl: "pc l p = D_cas" and c: "head l = first l p"
  shows "\<exists>nd :: Node. ret l p = Some (val nd) \<and> (\<exists>w vs'. vs = w # val nd # vs' \<and>
            msq_inv_at (tl xs) (val nd # vs') (MSQueueDequeue os dis p l))"
proof -
  note i = msq_invD [OF inv]
  have "knows D_cas xs l p" using i(9) [of p] pcl by simp
  then obtain y nd where k: "passed xs l p" "beyond l p" "lastp l p \<noteq> first l p" "succ l (first l p) = Some y"
      "nextp l p = Some y" "published l y" "heap l y = Some nd" "ret l p = Some (val nd)"
    by (auto simp: knows_def hint_def)
  obtain xs' w vs' where x: "xs = head l # xs'" "vs = w # vs'" "linked (heap l) (Some y) xs' vs'"
    using inv_nonempty [OF inv] k(4) c by (auto simp: succ_def)
  from x(3) k(7) obtain vs'' where x': "vs' = val nd # vs''" by (auto elim: linked_SomeE)
  have tl: "tail l \<in> set xs'" using i(6) x(1) k(2,3) c by (auto simp: beyond_def)
  define m where "m = MSQueueDequeue os dis p l"
  have l': "heap m = heap l" "tail m = tail l" "head m = y" "free m = free l"
      "cuts m = cuts l" "pc m = (pc l)(p := Q_ret)" "node m = node l"
      "opn m = opn l" "first m = first l" "lastp m = lastp l" "nextp m = nextp l" "ret m = ret l"
    unfolding m_def using pcl c k(5) by simp_all
  have "priv (pc m q) = priv (pc l q)" for q using pcl by (simp add: l')
  then have pub: "published m = published l" by (simp add: fun_eq_iff published_def l'(1,7))
  have suc: "succ m = succ l" by (simp add: fun_eq_iff succ_def l')
  have q: "quiet xs xs' l m p" unfolding quiet_def pub suc l' using x(1) by (cases xs') auto
  have "knows (pc m p) xs' m p" by (simp add: knows_def l')
  moreover have "x = last xs'" if "published l x" "succ l x = None" for x using i(7) [OF that] x(1,3) by (cases xs') auto
  ultimately have "msq_inv_at xs' vs' m"
    using i x tl by (intro msq_quiet_inv [OF inv q]) (simp_all add: pub suc l')
  then have "vs = w # val nd # vs''" "msq_inv_at (tl xs) (val nd # vs'') m" using x x' by simp_all
  with k(8) show ?thesis unfolding m_def [symmetric] by blast
qed

section \<open>Refinement\<close>

text \<open>What a step of \<open>p\<close> may do: nothing visible, the removal or insertion of a value, or the look at
  an empty queue.\<close>

definition msq_keeps :: "msqueue \<Rightarrow> msqueue \<Rightarrow> bool" where
  "msq_keeps l l' \<longleftrightarrow> (\<exists>xs vs. msq_inv_at xs vs l \<and> msq_inv_at xs vs l')"

lemma msq_keeps: "msq_keeps l l' \<Longrightarrow> msq_inv l' \<and> msq_vals l' = msq_vals l"
  by (auto simp: msq_keeps_def msq_inv_def msq_vals_eq)

lemma first_passed: "msq_inv_at xs vs l \<Longrightarrow> published l (head l) \<and> head l \<notin> set (tl xs)"
  using inv_nonempty [of xs vs l] msq_invD(4,5) [of xs vs l] by auto

text \<open>A node read as the first that has no successor is the whole queue.\<close>

lemma alone:
  assumes inv: "msq_inv_at xs vs l" and "passed xs l p" and "succ l (first l p) = None"
  shows "xs = [head l]" "first l p = head l" "tail l = head l" "msq_vals l = []"
proof -
  note i = msq_invD [OF inv]
  obtain xs' nd vs' where x: "xs = head l # xs'" "heap l (head l) = Some nd" "vs = val nd # vs'"
      "linked (heap l) (nxt nd) xs' vs'" using inv_nonempty [OF inv] by blast
  have f: "first l p = last xs" using i(7) assms(2,3) by (auto simp: passed_def)
  have "first l p \<notin> set xs'" using assms(2) x(1) by (simp add: passed_def)
  then have xs': "xs' = []" using f x(1) by (cases "xs' = []") auto
  with x(4) have "vs' = []" by simp
  with xs' x f i(6) msq_vals_eq [OF inv] show "xs = [head l]" "first l p = head l" "tail l = head l" "msq_vals l = []"
    by simp_all
qed

lemma msq_enqueue_keeps:
  assumes inv: "msq_inv_at xs vs l" and e: "enqueuing (pc l p)" and nc: "\<not> (pc l p = E_cas \<and> succ l (lastp l p) = None)"
  shows "msq_inv_at xs vs (MSQueueEnqueue os dis p l)"
proof -
  note i = msq_invD [OF inv]
  define k where "k = MSQueueEnqueue os dis p l"
  note loc = msq_local [OF inv, of k p]
  have "msq_inv_at xs vs k"
  proof (cases "pc l p")
    case E_alloc
    then show ?thesis unfolding k_def by (rule msq_alloc [OF inv])
  next
    case E_last
    then show ?thesis using i(9) [of p] i(5) [OF i(6)]
      by (intro loc) (simp_all add: k_def knows_def mine_def)
  next
    case E_next
    with i(9) [of p] obtain nd where "heap l (lastp l p) = Some nd" by (auto simp: knows_def published_def)
    then show ?thesis using E_next i(9) [of p]
      by (intro loc) (simp_all add: k_def knows_def mine_def hint_def succ_def)
  next
    case E_check
    consider "lastp l p \<noteq> tail l" | "lastp l p = tail l" "nextp l p = None" | y where "lastp l p = tail l" "nextp l p = Some y"
      by blast
    then show ?thesis using E_check i(9) [of p]
      by cases (intro loc; simp add: k_def knows_def mine_def hint_def)+
  next
    case E_cas
    with i(9) [of p] have "mine l p" "published l (lastp l p)" "nextp l p = None" by (simp_all add: knows_def)
    moreover from this obtain nd where "heap l (lastp l p) = Some nd" by (auto simp: published_def)
    moreover from this obtain y where "nxt nd = Some y" using nc E_cas by (auto simp: succ_def)
    ultimately show ?thesis using E_cas
      by (intro loc) (simp_all add: k_def knows_def mine_def)
  next
    case E_help
    with i(9) [of p] obtain y where "mine l p" "nextp l p = Some y" "succ l (lastp l p) = Some y"
      by (auto simp: knows_def hint_def)
    then show ?thesis using E_help
      by (intro loc) (simp_all add: k_def knows_def mine_def)
  next
    case E_swing
    with i(9) [of p] have "succ l (lastp l p) = Some (node l p)" by (simp add: knows_def hint_def)
    then show ?thesis using E_swing by (intro loc) (simp_all add: k_def knows_def)
  qed (use e in simp_all)
  then show ?thesis unfolding k_def .
qed

lemma msq_dequeue_keeps:
  assumes inv: "msq_inv_at xs vs l" and e: "\<not> enqueuing (pc l p)" and nc: "\<not> (pc l p = D_cas \<and> head l = first l p)"
  shows "msq_inv_at xs vs (MSQueueDequeue os dis p l)"
proof -
  note i = msq_invD [OF inv]
  define k where "k = MSQueueDequeue os dis p l"
  note loc = msq_local [OF inv, of k p]
  have "msq_inv_at xs vs k"
  proof (cases "pc l p")
    case D_first
    then show ?thesis using i(9) [of p] first_passed [OF inv]
      by (intro loc) (simp_all add: k_def knows_def passed_def)
  next
    case D_last
    then show ?thesis using i(9) [of p]
      by (intro loc) (simp_all add: k_def knows_def passed_def beyond_def)
  next
    case D_next
    with i(9) [of p] have k: "passed xs l p" "beyond l p" by (simp_all add: knows_def)
    from k(1) obtain nd where nd: "heap l (first l p) = Some nd" by (auto simp: passed_def published_def)
    have "lastp l p = first l p" if "nxt nd = None"
      using alone [OF inv k(1)] nd that k(2) by (auto simp: succ_def beyond_def)
    with k nd D_next show ?thesis
      by (intro loc) (simp_all add: k_def knows_def passed_def beyond_def hint_def succ_def)
  next
    case D_check
    with i(9) [of p] have k: "passed xs l p" "beyond l p" "hint l (first l p) (nextp l p)"
      "nextp l p = None \<longrightarrow> lastp l p = first l p" by (simp_all add: knows_def)
    consider "first l p \<noteq> head l" | "first l p = head l" "lastp l p \<noteq> head l"
      | "first l p = head l" "lastp l p = head l" "nextp l p = None"
      | y where "first l p = head l" "lastp l p = head l" "nextp l p = Some y" by blast
    then show ?thesis using D_check k
      by cases (intro loc; simp add: k_def knows_def passed_def beyond_def hint_def)+
  next
    case D_help
    with i(9) [of p] obtain y where "passed xs l p" "nextp l p = Some y" "lastp l p = first l p" "succ l (first l p) = Some y"
      by (auto simp: knows_def hint_def)
    then show ?thesis using D_help
      by (intro loc) (simp_all add: k_def knows_def passed_def)
  next
    case D_val
    with i(9) [of p] obtain y where k: "passed xs l p" "beyond l p" "lastp l p \<noteq> first l p"
        "nextp l p = Some y" "succ l (first l p) = Some y" by (auto simp: knows_def hint_def)
    from i(8) [OF _ k(5)] k(1) have y: "published l y" by (simp add: passed_def)
    then obtain nd where "heap l y = Some nd" by (auto simp: published_def)
    then show ?thesis using D_val k y
      by (intro loc) (simp_all add: k_def knows_def passed_def beyond_def hint_def)
  next
    case D_cas
    with i(9) [of p] obtain y where "passed xs l p" "nextp l p = Some y" by (auto simp: knows_def)
    then show ?thesis using D_cas nc
      by (intro loc) (simp_all add: k_def knows_def passed_def)
  qed (use inv e in \<open>simp_all add: k_def\<close>)
  then show ?thesis unfolding k_def .
qed

lemma msq_frame:
  assumes "free l p = []" "q \<noteq> p"
  shows "pc (msq_exec os dis (Step p) l) q = pc l q" "ret (msq_exec os dis (Step p) l) q = ret l q"
    "opn (msq_exec os dis (Step p) l) q = opn l q" "nextp (msq_exec os dis (Step p) l) q = nextp l q"
  using assms by (cases "pc l p"; simp add: alloc_def split: option.splits; fail)+

lemma msq_abs_upd:
  assumes "\<And>q. q \<noteq> p \<Longrightarrow> pc k q = pc l q \<and> ret k q = ret l q \<and> opn k q = opn l q"
    and "W' - {p} = W - {p}" "msq_vals k = s" "msq_status W' k p = c"
  shows "msq_abs W' k = (s, (msq_status W l)(p := c))"
proof -
  have "msq_status W' k q = ((msq_status W l)(p := c)) q" for q
  proof (cases "q = p")
    case True
    then show ?thesis using assms(4) by simp
  next
    case False
    then have "q \<in> W' \<longleftrightarrow> q \<in> W" using assms(2) by blast
    with False assms(1) [OF False] show ?thesis by (simp add: msq_status_def)
  qed
  then show ?thesis using assms(3) by (auto simp: msq_abs_def)
qed

lemma valid_less: "\<lbrakk>msq_valid W' k; \<And>q. q \<noteq> p \<Longrightarrow> pc k q = pc l q \<and> nextp k q = nextp l q; p \<notin> W'\<rbrakk> \<Longrightarrow> msq_valid W' l"
  unfolding msq_valid_def by metis

lemma msq_vals_snoc: "msq_inv_at xs vs l \<Longrightarrow> msq_inv_at ys (vs @ [v]) k \<Longrightarrow> msq_vals k = msq_vals l @ [v]"
  using inv_nonempty [of xs vs l] by (auto simp: msq_vals_eq)

lemma msq_step_keeps:
  assumes "msq_inv_at xs vs l" "pc l p \<noteq> Q_ret" "\<not> (pc l p = E_cas \<and> succ l (lastp l p) = None)"
    "\<not> (pc l p = D_cas \<and> head l = first l p)"
  shows "msq_inv_at xs vs (msq_exec os dis (Step p) l)"
  using msq_enqueue_keeps [OF assms(1) _ assms(3)] msq_dequeue_keeps [OF assms(1) _ assms(4)] assms(2)
  by (cases "enqueuing (pc l p)") (simp_all del: MSQueueEnqueue.simps MSQueueDequeue.simps)

text \<open>The status of the thread that moves, in the steps that are not linearization points.\<close>

lemma msq_skip_status:
  assumes inv: "msq_inv_at xs vs l" and ok: "msq_ok l (Step p)" and "pc l p \<noteq> Q_ret"
    "\<not> (pc l p = E_cas \<and> succ l (lastp l p) = None)" "\<not> (pc l p = D_cas \<and> head l = first l p)"
    "pc l p \<noteq> D_check" and "p \<notin> W"
  shows "msq_status W (msq_exec os dis (Step p) l) p = msq_status W l p"
proof -
  note k = msq_invD(9) [OF inv, of p]
  show ?thesis
  proof (cases "pc l p")
    case E_cas
    with k obtain nd where "heap l (lastp l p) = Some nd" "nextp l p = None" by (auto simp: knows_def published_def)
    with E_cas assms(3,4,7) show ?thesis by (auto simp: msq_status_def succ_def)
  next
    case D_val
    with k obtain y where y: "nextp l p = Some y" "succ l (first l p) = Some y" "published l (first l p)"
      by (auto simp: knows_def hint_def passed_def)
    from msq_invD(8) [OF inv y(3,2)] obtain nd where "heap l y = Some nd" by (auto simp: published_def)
    with y(1) show ?thesis using D_val assms(7) by (simp add: msq_status_def)
  qed (use k assms ok msq_invD(1) [OF inv, of p] in \<open>auto simp: msq_status_def knows_def passed_def published_def alloc_def mine_def
      split: option.splits\<close>)
qed

text \<open>The claim about one step, and its proof for each kind of step.\<close>

definition msq_simulated :: "bool \<Rightarrow> bool \<Rightarrow> msqueue \<Rightarrow> tid \<Rightarrow> tid set \<Rightarrow> bool" where
  "msq_simulated os dis l p W' \<longleftrightarrow> (\<exists>W. msq_valid W l \<and>
     asteps msq_spec (msq_abs W l) (msq_obs (Step p) l) (msq_abs W' (msq_exec os dis (Step p) l)))"

lemma msq_simulatedI:
  "\<lbrakk>k = msq_exec os dis (Step p) l; msq_valid W l; asteps msq_spec (msq_abs W l) (msq_obs (Step p) l) (msq_abs W' k)\<rbrakk>
   \<Longrightarrow> msq_simulated os dis l p W'"
  unfolding msq_simulated_def by blast

lemma msq_abs_step:
  assumes inv: "msq_inv_at xs vs l" and k: "k = msq_exec os dis (Step p) l"
    and "W' - {p} = W - {p}" "msq_vals k = s" "msq_status W' k p = c"
  shows "msq_abs W' k = (s, (msq_status W l)(p := c))"
  using msq_frame [OF msq_invD(1) [OF inv], of _ p os dis] assms(3-5) unfolding k by (intro msq_abs_upd) blast+

lemma msq_valid_before:
  assumes inv: "msq_inv_at xs vs l" and w: "msq_valid W' (msq_exec os dis (Step p) l)" and "p \<notin> W'"
  shows "msq_valid W' l"
  using w assms(3) msq_frame [OF msq_invD(1) [OF inv], of _ p os dis] by (intro valid_less [of _ _ p l]) blast+

lemma msq_valid_notin: "\<lbrakk>msq_valid W' k; pc k p \<noteq> D_check \<or> nextp k p \<noteq> None\<rbrakk> \<Longrightarrow> p \<notin> W'"
  by (auto simp: msq_valid_def)

lemma msq_sim_return:
  assumes inv: "msq_inv_at xs vs l" and pcl: "pc l p = Q_ret" and w: "msq_valid W' (msq_exec os dis (Step p) l)"
  shows "msq_inv (msq_exec os dis (Step p) l) \<and> msq_simulated os dis l p W'"
proof -
  let ?k = "goto p Q_out l"
  have k: "?k = msq_exec os dis (Step p) l" using pcl by simp
  have keeps: "msq_inv_at xs vs ?k" using pcl by (intro msq_local [OF inv, of _ p]) (simp_all add: knows_def)
  have n: "p \<notin> W'" using msq_valid_notin [OF w [folded k], of p] by simp
  have "msq_abs W' ?k = (msq_vals l, (msq_status W' l)(p := Idle))"
    using msq_vals_eq [OF inv] msq_vals_eq [OF keeps] by (intro msq_abs_step [OF inv k]) (simp_all add: msq_status_def)
  then have "asteps msq_spec (msq_abs W' l) (msq_obs (Step p) l) (msq_abs W' ?k)"
    using pcl by (intro step_ret [of _ p "ret l p"]) (simp_all add: msq_abs_def msq_status_def)
  with keeps msq_valid_before [OF inv w n] msq_simulatedI [OF k] k show ?thesis
    unfolding msq_inv_def by metis
qed

lemma msq_sim_enq:
  assumes inv: "msq_inv_at xs vs l" and pcl: "pc l p = E_cas" "succ l (lastp l p) = None"
    and w: "msq_valid W' (msq_exec os dis (Step p) l)"
  shows "msq_inv (msq_exec os dis (Step p) l) \<and> msq_simulated os dis l p W'"
proof -
  define k where "k = MSQueueEnqueue os dis p l"
  have k: "k = msq_exec os dis (Step p) l" using pcl(1) by (simp add: k_def)
  from msq_enq [OF inv pcl, of os dis, folded k_def] obtain v where
    v: "opn l p = MSEnqueue v" and i': "msq_inv_at (xs @ [node l p]) (vs @ [v]) k" by blast
  obtain nd where "heap l (lastp l p) = Some nd" "nxt nd = None" "nextp l p = None"
    using msq_invD(9) [OF inv, of p] pcl by (auto simp: knows_def published_def succ_def)
  then have kp: "pc k p = E_swing" using pcl(1) by (simp add: k_def)
  have n: "p \<notin> W'" using msq_valid_notin [OF w [folded k], of p] kp by simp
  have "msq_abs W' k = (msq_vals l @ [v], (msq_status W' l)(p := Done None))"
    using kp msq_vals_snoc [OF inv i'] by (intro msq_abs_step [OF inv k]) (simp_all add: msq_status_def)
  then have "asteps msq_spec (msq_abs W' l) (msq_obs (Step p) l) (msq_abs W' k)"
    using pcl v n by (intro step_lin [of _ p "MSEnqueue v"]) (simp_all add: msq_abs_def msq_status_def)
  with i' msq_valid_before [OF inv w n] msq_simulatedI [OF k] show ?thesis
    unfolding k [symmetric] msq_inv_def by metis
qed

lemma msq_sim_deq:
  assumes inv: "msq_inv_at xs vs l" and pcl: "pc l p = D_cas" "head l = first l p"
    and w: "msq_valid W' (msq_exec os dis (Step p) l)"
  shows "msq_inv (msq_exec os dis (Step p) l) \<and> msq_simulated os dis l p W'"
proof -
  define k where "k = MSQueueDequeue os dis p l"
  have k: "k = msq_exec os dis (Step p) l" using pcl(1) by (simp add: k_def)
  from msq_deq [OF inv pcl, of os dis, folded k_def] obtain nd :: Node and u vs' where
    v: "ret l p = Some (val nd)" "vs = u # val nd # vs'" and i': "msq_inv_at (tl xs) (val nd # vs') k" by blast
  obtain y where "nextp l p = Some y" "opn l p = MSDequeue"
    using msq_invD(9) [OF inv, of p] pcl(1) by (auto simp: knows_def passed_def)
  then have kp: "pc k p = Q_ret" "ret k p = Some (val nd)" "opn l p = MSDequeue" using pcl v(1) by (simp_all add: k_def)
  have n: "p \<notin> W'" using msq_valid_notin [OF w [folded k], of p] kp by simp
  have "msq_abs W' k = (vs', (msq_status W' l)(p := Done (Some (val nd))))"
    using kp msq_vals_eq [OF i'] by (intro msq_abs_step [OF inv k]) (simp_all add: msq_status_def)
  moreover have "msq_vals l = val nd # vs'" using msq_vals_eq [OF inv] v(2) by simp
  ultimately have "asteps msq_spec (msq_abs W' l) (msq_obs (Step p) l) (msq_abs W' k)"
    using pcl kp n by (intro step_lin [of _ p MSDequeue]) (simp_all add: msq_abs_def msq_status_def)
  with i' msq_valid_before [OF inv w n] msq_simulatedI [OF k] show ?thesis
    unfolding k [symmetric] msq_inv_def by metis
qed

lemma msq_sim_look:
  assumes inv: "msq_inv_at xs vs l" and pcl: "pc l p = D_next" "succ l (first l p) = None"
    and w: "msq_valid W' (msq_exec os dis (Step p) l)" and p: "p \<in> W'"
  shows "msq_simulated os dis l p W'"
proof -
  define k where "k = MSQueueDequeue os dis p l"
  have k: "k = msq_exec os dis (Step p) l" using pcl(1) by (simp add: k_def)
  have ps: "passed xs l p" using msq_invD(9) [OF inv, of p] pcl(1) by (simp add: knows_def)
  then obtain nd where "heap l (first l p) = Some nd" by (auto simp: passed_def published_def)
  then have kp: "pc k p = D_check" using pcl(1) by (simp add: k_def)
  have keeps: "msq_inv_at xs vs k" unfolding k_def using pcl(1) by (intro msq_dequeue_keeps [OF inv]) simp_all
  have "msq_abs W' k = (msq_vals l, (msq_status (W' - {p}) l)(p := Done (Some EMPTY_QUEUE)))"
    using kp p msq_vals_eq [OF inv] msq_vals_eq [OF keeps] by (intro msq_abs_step [OF inv k]) (auto simp: msq_status_def)
  then have "asteps msq_spec (msq_abs (W' - {p}) l) (msq_obs (Step p) l) (msq_abs W' k)"
    using pcl ps alone(4) [OF inv ps pcl(2)]
    by (intro step_lin [of _ p MSDequeue]) (simp_all add: msq_abs_def msq_status_def passed_def)
  moreover have "msq_valid (W' - {p}) l"
    using w msq_frame [OF msq_invD(1) [OF inv], of _ p os dis] unfolding msq_valid_def by (metis DiffE singletonI)
  ultimately show ?thesis by (intro msq_simulatedI [OF k])
qed

lemma msq_sim_empty:
  assumes inv: "msq_inv_at xs vs l" and pcl: "pc l p = D_check" "first l p = head l" "lastp l p = head l" "nextp l p = None"
    and w: "msq_valid W' (msq_exec os dis (Step p) l)"
  shows "msq_simulated os dis l p W'"
proof -
  define k where "k = MSQueueDequeue os dis p l"
  have k: "k = msq_exec os dis (Step p) l" using pcl(1) by (simp add: k_def)
  have kp: "pc k p = Q_ret" "ret k p = Some EMPTY_QUEUE" using pcl by (simp_all add: k_def)
  have n: "p \<notin> W'" using msq_valid_notin [OF w [folded k], of p] kp by simp
  have keeps: "msq_inv_at xs vs k" unfolding k_def using pcl(1) by (intro msq_dequeue_keeps [OF inv]) simp_all
  have "msq_abs W' k = (msq_vals l, (msq_status (insert p W') l)(p := Done (Some EMPTY_QUEUE)))"
    using kp n msq_vals_eq [OF inv] msq_vals_eq [OF keeps] by (intro msq_abs_step [OF inv k]) (auto simp: msq_status_def)
  also have "\<dots> = msq_abs (insert p W') l" using pcl by (auto simp: msq_abs_def msq_status_def fun_eq_iff)
  finally show ?thesis using msq_valid_before [OF inv w n] pcl
    by (intro msq_simulatedI [OF k, of "insert p W'"]) (auto simp: msq_valid_def intro: as_refl)
qed

lemma msq_sim_skip:
  assumes inv: "msq_inv_at xs vs l" and ok: "msq_ok l (Step p)" and other: "pc l p \<noteq> Q_ret"
    "\<not> (pc l p = E_cas \<and> succ l (lastp l p) = None)" "\<not> (pc l p = D_cas \<and> head l = first l p)"
    and w: "msq_valid W' (msq_exec os dis (Step p) l)" and n: "p \<notin> W'"
    and nc: "pc l p = D_check \<longrightarrow> first l p \<noteq> head l \<or> lastp l p \<noteq> head l \<or> nextp l p \<noteq> None"
  shows "msq_simulated os dis l p W'"
proof -
  have "msq_status W' (msq_exec os dis (Step p) l) p = msq_status W' l p"
  proof (cases "pc l p = D_check")
    case True
    consider "first l p \<noteq> head l" | "first l p = head l" "lastp l p \<noteq> head l"
      | y where "first l p = head l" "lastp l p = head l" "nextp l p = Some y" using nc True by blast
    then show ?thesis using True n by cases (simp_all add: msq_status_def)
  next
    case False
    show ?thesis by (rule msq_skip_status [OF inv ok other False n])
  qed
  then have "msq_abs W' (msq_exec os dis (Step p) l) = (msq_vals l, (msq_status W' l)(p := msq_status W' l p))"
    using msq_vals_eq [OF inv] msq_vals_eq [OF msq_step_keeps [OF inv other]] by (intro msq_abs_step [OF inv refl]) simp_all
  then have "msq_abs W' (msq_exec os dis (Step p) l) = msq_abs W' l" unfolding msq_abs_def fun_upd_triv .
  moreover have "msq_obs (Step p) l = []" using other(1) by simp
  ultimately show ?thesis using msq_valid_before [OF inv w n]
    unfolding msq_simulated_def by (metis as_refl)
qed

lemma msq_step:
  assumes inv: "msq_inv_at xs vs l" and ok: "msq_ok l (Step p)" and w: "msq_valid W' (msq_exec os dis (Step p) l)"
  shows "msq_inv (msq_exec os dis (Step p) l) \<and> msq_simulated os dis l p W'"
proof -
  consider (ret) "pc l p = Q_ret" | (enq) "pc l p = E_cas" "succ l (lastp l p) = None"
    | (deq) "pc l p = D_cas" "head l = first l p"
    | (other) "pc l p \<noteq> Q_ret" "\<not> (pc l p = E_cas \<and> succ l (lastp l p) = None)"
        "\<not> (pc l p = D_cas \<and> head l = first l p)" by metis
  then show ?thesis
  proof cases
    case other
    have i': "msq_inv (msq_exec os dis (Step p) l)" using msq_step_keeps [OF inv other] unfolding msq_inv_def by blast
    show ?thesis
    proof (cases "p \<in> W'")
      case True
      then have c: "pc (msq_exec os dis (Step p) l) p = D_check" "nextp (msq_exec os dis (Step p) l) p = None"
        using w by (auto simp: msq_valid_def simp del: msq_exec.simps)
      then have d: "pc l p = D_next"
        using ok other(1) msq_invD(1) [OF inv, of p] by (cases "pc l p") (auto simp: alloc_def split: option.splits if_splits)
      with c(2) have "succ l (first l p) = None" by (auto simp: succ_def split: option.splits)
      from msq_sim_look [OF inv d this w True] i' show ?thesis by blast
    next
      case False
      then show ?thesis using i' msq_sim_empty [OF inv _ _ _ _ w] msq_sim_skip [OF inv ok other w False] by blast
    qed
  qed (rule msq_sim_return [OF inv _ w] msq_sim_enq [OF inv _ _ w] msq_sim_deq [OF inv _ _ w]; assumption)+
qed

lemma msq_invoke:
  assumes inv: "msq_inv_at xs vs l" and ok: "pc l p = Q_out" and w: "msq_valid W' (msq_exec os dis (Invoke p x) l)"
  shows "msq_inv (msq_exec os dis (Invoke p x) l) \<and>
    (\<exists>W. msq_valid W l \<and> asteps msq_spec (msq_abs W l) [Call p x] (msq_abs W' (msq_exec os dis (Invoke p x) l)))"
proof -
  define k where "k = msq_exec os dis (Invoke p x) l"
  have l': "heap k = heap l" "head k = head l" "tail k = tail l" "free k = free l" "cuts k = cuts l" "ret k = ret l"
    "node k = node l" "first k = first l" "lastp k = lastp l" "nextp k = nextp l" "opn k = (opn l)(p := x)"
    "pc k = (pc l)(p := (case x of MSEnqueue v \<Rightarrow> E_alloc | MSDequeue \<Rightarrow> D_first))"
    unfolding k_def by (cases x; simp)+
  have keeps: "msq_inv_at xs vs k"
    by (intro msq_local [OF inv, of _ p]) (use ok in \<open>simp_all add: l' knows_def split: msq_op.splits\<close>)
  have n: "p \<notin> W'" using msq_valid_notin [OF w [folded k_def], of p] by (auto simp: l' split: msq_op.splits)
  have "msq_abs W' k = (msq_vals l, (msq_status W' l)(p := Pend x))"
    using n msq_vals_eq [OF inv] msq_vals_eq [OF keeps]
    by (intro msq_abs_upd) (simp_all add: l' msq_status_def split: msq_op.splits)
  then have "asteps msq_spec (msq_abs W' l) [Call p x] (msq_abs W' k)"
    using ok by (intro step_call [of _ p _ x]) (simp_all add: msq_abs_def msq_status_def)
  moreover have "msq_valid W' l" using w [folded k_def] n by (intro valid_less [of W' k p l]) (simp_all add: l')
  ultimately show ?thesis using keeps unfolding k_def [symmetric] msq_inv_def by blast
qed

interpretation msq: choice_linearization "MSQueueInit g b1 b2" msq_ok "msq_exec os dis" msq_obs msq_spec "[]"
    msq_inv msq_valid msq_abs
  for g b1 b2 os dis
proof
  show "msq_inv (MSQueueInit g b1 b2)" using msq_inv_init unfolding msq_inv_def by blast
  show "msq_abs W (MSQueueInit g b1 b2) = aconf0 []" for W
    using msq_vals_eq [OF msq_inv_init [of g b1 b2]]
    by (simp add: msq_abs_def aconf0_def msq_status_def fun_eq_iff) (simp add: MSQueueInit_def)
  show "\<exists>W. msq_valid W l" for l by (rule exI [of _ "{}"]) (simp add: msq_valid_def)
  fix l a
  assume i: "msq_inv l" and ok: "msq_ok l a"
  then obtain xs vs where inv: "msq_inv_at xs vs l" by (auto simp: msq_inv_def)
  have empty: "msq_valid {} l'" for l' by (simp add: msq_valid_def)
  show "msq_inv (msq_exec os dis a l)"
    using ok msq_step [OF inv _ empty, of _ os dis] msq_invoke [OF inv _ empty, of _ os dis]
    by (cases a; simp del: msq_exec.simps msq_ok.simps(2))
  show "\<exists>W. msq_valid W l \<and> asteps msq_spec (msq_abs W l) (msq_obs a l) (msq_abs W' (msq_exec os dis a l))"
    if "msq_valid W' (msq_exec os dis a l)" for W'
    using ok that msq_step [OF inv, of _ W' os dis] msq_invoke [OF inv, of _ W' os dis]
    by (cases a; simp add: msq_simulated_def del: msq_exec.simps msq_ok.simps(2) msq_obs.simps(2))
qed

text \<open>C12. The lock-free queue is a linearizable first-in-first-out queue and no thread ever follows a
  null or dangling pointer. A dequeue that reports an empty queue did see it empty at one instant of
  its execution, although by the time it returns others may have enqueued again.\<close>

theorem msqueue_linearizable:
  assumes "traces (MSQueueInit g b1 b2) msq_ok (msq_exec os dis) msq_obs l h"
  shows "linearizable msq_spec [] h \<and> pc l p \<noteq> Q_fault"
proof -
  obtain xs vs where "msq_inv_at xs vs l" using msq.invariant [OF assms] by (auto simp: msq_inv_def)
  from msq_invD(9) [OF this, of p] have "pc l p \<noteq> Q_fault" by (auto simp: knows_def)
  with msq.linearizable_traces [OF assms] show ?thesis by blast
qed

definition msq_demo :: "msq_act list" where
  "msq_demo = [Invoke 0 (MSEnqueue 5), Invoke 1 MSDequeue, Step 1, Step 1, Step 1, Step 0, Step 0, Step 0, Step 0, Step 0,
     Step 1, Step 1, Invoke 2 MSDequeue, Step 2, Step 2, Step 2, Step 2, Step 2, Step 2, Step 2, Step 2, Step 2, Step 2, Step 2,
     Step 2, Step 0, Step 0]"

text \<open>Thread 1 reads the empty queue; thread 0 links its node before thread 1 checks and returns
  empty; thread 2 helps to swing the tail and dequeues the value before thread 0 gets to it.\<close>

theorem msqueue_linearizable_witness:
  "linearizable msq_spec [] [Call 0 (MSEnqueue 5), Call 1 MSDequeue, Ret 1 (Some EMPTY_QUEUE), Call 2 MSDequeue,
     Ret 2 (Some 5), Ret 0 None]"
proof -
  obtain l where "run_trace msq_ok (msq_exec False False) msq_obs msq_demo (MSQueueInit 0 1 4) =
      Some (l, [Call 0 (MSEnqueue 5), Call 1 MSDequeue, Ret 1 (Some EMPTY_QUEUE), Call 2 MSDequeue, Ret 2 (Some 5), Ret 0 None])"
    by (simp add: msq_demo_def MSQueueInit_def alloc_def)
  from msqueue_linearizable [OF run_trace_traces [OF this]] show ?thesis by blast
qed

end
