(* ===== verification/HashTable.thy ===== *)
theory HashTable
  imports Nodes Linearizability "HOL-Library.Signed_Division"
begin

text \<open>
  The hash tables of clhhash.c and dsmhash.c: an array of buckets, each a linked list that is
  reached through its own CLH lock or DSM-Synch instance. Here is what one request does when it
  runs alone on its bucket: the announcement, \<^verbatim>\<open>hash_func\<close> and \<^verbatim>\<open>serialOperations\<close>. The
  two files have the same loops. A return value \<open>None\<close> is a memory fault; the searches through
  a list have no bound in the code and are partial functions.
\<close>

section \<open>State\<close>

type_synonym i64 = "64 word"

record HashNode =
  hnext :: "addr option"
  hkey :: i64
  hval :: i64

record HashOperations =
  okey :: i64
  ovalue :: i64
  onode :: "addr option"
  ocell :: int
  oop :: int

record hash_state =
  announce :: "tid \<Rightarrow> HashOperations"
  cells :: "addr option list"
  hsize :: nat
  hheap :: "addr \<Rightarrow> HashNode option"
  hcuts :: "tid \<Rightarrow> nat"

definition HT_INSERT :: int where "HT_INSERT = 0"
definition HT_DELETE :: int where "HT_DELETE = 1"
definition HT_SEARCH :: int where "HT_SEARCH = 2"

text \<open>\<open>a0\<close> is what the announce array holds before it is written.\<close>

definition no_request :: HashOperations where
  "no_request = \<lparr>okey = 0, ovalue = 0, onode = None, ocell = 0, oop = 0\<rparr>"

definition CLHHashStructInit :: "(tid \<Rightarrow> HashOperations) \<Rightarrow> nat \<Rightarrow> hash_state" where
  "CLHHashStructInit a0 num_cells = \<lparr>announce = a0, cells = replicate num_cells None, hsize = num_cells,
     hheap = (\<lambda>_. None), hcuts = (\<lambda>_. 0)\<rparr>"

definition DSMHashInit :: "(tid \<Rightarrow> HashOperations) \<Rightarrow> nat \<Rightarrow> hash_state" where
  "DSMHashInit a0 num_cells = \<lparr>announce = a0, cells = replicate num_cells None, hsize = num_cells,
     hheap = (\<lambda>_. None), hcuts = (\<lambda>_. 0)\<rparr>"

section \<open>Operations\<close>

text \<open>The remainder of C has the sign of the key.\<close>

definition hash_func :: "hash_state \<Rightarrow> i64 \<Rightarrow> int" where
  "hash_func hash k = sint k smod int (hsize hash)"

definition cell_at :: "hash_state \<Rightarrow> int \<Rightarrow> addr option option" where
  "cell_at h i = (if 0 \<le> i \<and> nat i < length (cells h) then Some (cells h ! nat i) else None)"

datatype walk = Bad | Absent | Found "addr option" addr

text \<open>The loops of an insertion and of a search, lines 49 to 55 and 87 to 93.\<close>

partial_function (option) find_loop :: "(addr \<Rightarrow> HashNode option) \<Rightarrow> i64 \<Rightarrow> addr option \<Rightarrow> walk option" where
  "find_loop h k cur =
     (case cur of
        None \<Rightarrow> Some Absent
      | Some x \<Rightarrow> (case h x of
                     None \<Rightarrow> Some Bad
                   | Some nd \<Rightarrow> if hkey nd = k then Some (Found None x) else find_loop h k (hnext nd)))"

text \<open>The loop of a deletion, lines 67 to 75: \<^verbatim>\<open>prev\<close> stays at the top for one step.\<close>

partial_function (option) delete_loop ::
    "(addr \<Rightarrow> HashNode option) \<Rightarrow> i64 \<Rightarrow> addr option \<Rightarrow> addr option \<Rightarrow> addr option \<Rightarrow> walk option" where
  "delete_loop h k tp prev cur =
     (case cur of
        None \<Rightarrow> Some Absent
      | Some x \<Rightarrow> (case h x of
                     None \<Rightarrow> Some Bad
                   | Some nd \<Rightarrow>
                       if hkey nd = k then Some (Found prev x)
                       else if cur \<noteq> tp then
                         (case prev of
                            None \<Rightarrow> Some Bad
                          | Some q \<Rightarrow> (case h q of
                                         None \<Rightarrow> Some Bad
                                       | Some qd \<Rightarrow> delete_loop h k tp (hnext qd) (hnext nd)))
                       else delete_loop h k tp prev (hnext nd)))"

definition clh_serialOperations :: "tid \<Rightarrow> hash_state \<Rightarrow> (bool option \<times> hash_state) option" where
  "clh_serialOperations pid hash =
     (let arg = announce hash pid; k = okey arg
      in case cell_at hash (ocell arg) of
           None \<Rightarrow> Some (None, hash)
         | Some tp \<Rightarrow>
             if oop arg = HT_INSERT then
               (case find_loop (hheap hash) k tp of
                  None \<Rightarrow> None
                | Some Bad \<Rightarrow> Some (None, hash)
                | Some (Found q x) \<Rightarrow> Some (Some True, hash)
                | Some Absent \<Rightarrow>
                    (case onode arg of
                       None \<Rightarrow> Some (None, hash)
                     | Some n \<Rightarrow> Some (Some True,
                         hash\<lparr>hheap := (hheap hash)(n \<mapsto> \<lparr>hnext = tp, hkey = k, hval = ovalue arg\<rparr>),
                              cells := (cells hash)[nat (ocell arg) := Some n]\<rparr>)))
             else if oop arg = HT_DELETE then
               (case delete_loop (hheap hash) k tp tp tp of
                  None \<Rightarrow> None
                | Some Bad \<Rightarrow> Some (None, hash)
                | Some Absent \<Rightarrow> Some (Some False, hash)
                | Some (Found prev x) \<Rightarrow>
                    (case hheap hash x of
                       None \<Rightarrow> Some (None, hash)
                     | Some nd \<Rightarrow>
                         if tp \<noteq> prev then
                           (case prev of
                              None \<Rightarrow> Some (None, hash)
                            | Some q \<Rightarrow>
                                (case hheap hash q of
                                   None \<Rightarrow> Some (None, hash)
                                 | Some qd \<Rightarrow> Some (Some True, hash\<lparr>hheap := (hheap hash)(q \<mapsto> qd\<lparr>hnext := hnext nd\<rparr>)\<rparr>)))
                         else Some (Some True, hash\<lparr>cells := (cells hash)[nat (ocell arg) := hnext nd]\<rparr>)))
             else
               (case find_loop (hheap hash) k tp of
                  None \<Rightarrow> None
                | Some Bad \<Rightarrow> Some (None, hash)
                | Some (Found q x) \<Rightarrow> Some (Some True, hash)
                | Some Absent \<Rightarrow> Some (Some False, hash)))"

definition dsm_serialOperations :: "tid \<Rightarrow> hash_state \<Rightarrow> (bool option \<times> hash_state) option" where
  "dsm_serialOperations pid hash =
     (let arg = announce hash pid; k = okey arg
      in case cell_at hash (ocell arg) of
           None \<Rightarrow> Some (None, hash)
         | Some tp \<Rightarrow>
             if oop arg = HT_INSERT then
               (case find_loop (hheap hash) k tp of
                  None \<Rightarrow> None
                | Some Bad \<Rightarrow> Some (None, hash)
                | Some (Found q x) \<Rightarrow> Some (Some True, hash)
                | Some Absent \<Rightarrow>
                    (case onode arg of
                       None \<Rightarrow> Some (None, hash)
                     | Some n \<Rightarrow> Some (Some True,
                         hash\<lparr>hheap := (hheap hash)(n \<mapsto> \<lparr>hnext = tp, hkey = k, hval = ovalue arg\<rparr>),
                              cells := (cells hash)[nat (ocell arg) := Some n]\<rparr>)))
             else if oop arg = HT_DELETE then
               (case delete_loop (hheap hash) k tp tp tp of
                  None \<Rightarrow> None
                | Some Bad \<Rightarrow> Some (None, hash)
                | Some Absent \<Rightarrow> Some (Some False, hash)
                | Some (Found prev x) \<Rightarrow>
                    (case hheap hash x of
                       None \<Rightarrow> Some (None, hash)
                     | Some nd \<Rightarrow>
                         if tp \<noteq> prev then
                           (case prev of
                              None \<Rightarrow> Some (None, hash)
                            | Some q \<Rightarrow>
                                (case hheap hash q of
                                   None \<Rightarrow> Some (None, hash)
                                 | Some qd \<Rightarrow> Some (Some True, hash\<lparr>hheap := (hheap hash)(q \<mapsto> qd\<lparr>hnext := hnext nd\<rparr>)\<rparr>)))
                         else Some (Some True, hash\<lparr>cells := (cells hash)[nat (ocell arg) := hnext nd]\<rparr>)))
             else
               (case find_loop (hheap hash) k tp of
                  None \<Rightarrow> None
                | Some Bad \<Rightarrow> Some (None, hash)
                | Some (Found q x) \<Rightarrow> Some (Some True, hash)
                | Some Absent \<Rightarrow> Some (Some False, hash)))"

text \<open>\<^verbatim>\<open>synchAllocObj\<close>; nodes are never recycled.\<close>

definition hash_alloc :: "tid \<Rightarrow> hash_state \<Rightarrow> addr \<times> hash_state" where
  "hash_alloc p h = (Cell p (hcuts h p), h\<lparr>hcuts := (hcuts h)(p := hcuts h p + 1)\<rparr>)"

definition run_serial :: "(tid \<Rightarrow> hash_state \<Rightarrow> (bool option \<times> hash_state) option) \<Rightarrow> tid \<Rightarrow> hash_state \<Rightarrow> bool option \<times> hash_state" where
  "run_serial f pid h = (case f pid h of None \<Rightarrow> (None, h) | Some r \<Rightarrow> r)"

definition request :: "int \<Rightarrow> i64 \<Rightarrow> i64 \<Rightarrow> addr option \<Rightarrow> tid \<Rightarrow> hash_state \<Rightarrow> hash_state" where
  "request opc k v n pid h =
     h\<lparr>announce := (announce h)(pid := \<lparr>okey = k, ovalue = v, onode = n, ocell = hash_func h k, oop = opc\<rparr>)\<rparr>"

definition INT_MIN_arg :: i64 where "INT_MIN_arg = word_of_int (- (2 ^ 31))"

definition CLHHashInsert :: "i64 \<Rightarrow> i64 \<Rightarrow> tid \<Rightarrow> hash_state \<Rightarrow> bool option \<times> hash_state" where
  "CLHHashInsert k v pid h =
     (let (n, h1) = hash_alloc pid h in run_serial clh_serialOperations pid (request HT_INSERT k v (Some n) pid h1))"

definition CLHHashSearch :: "i64 \<Rightarrow> tid \<Rightarrow> hash_state \<Rightarrow> bool option \<times> hash_state" where
  "CLHHashSearch k pid h =
     (let (n, h1) = hash_alloc pid h in run_serial clh_serialOperations pid (request HT_SEARCH k INT_MIN_arg (Some n) pid h1))"

definition CLHHashDelete :: "i64 \<Rightarrow> tid \<Rightarrow> hash_state \<Rightarrow> bool option \<times> hash_state" where
  "CLHHashDelete k pid h =
     (let (n, h1) = hash_alloc pid h in run_serial clh_serialOperations pid (request HT_DELETE k INT_MIN_arg (Some n) pid h1))"

definition DSMHashInsert :: "i64 \<Rightarrow> i64 \<Rightarrow> tid \<Rightarrow> hash_state \<Rightarrow> bool option \<times> hash_state" where
  "DSMHashInsert k v pid h =
     (let (n, h1) = hash_alloc pid h in run_serial dsm_serialOperations pid (request HT_INSERT k v (Some n) pid h1))"

definition DSMHashSearch :: "i64 \<Rightarrow> tid \<Rightarrow> hash_state \<Rightarrow> bool option \<times> hash_state" where
  "DSMHashSearch k pid h = run_serial dsm_serialOperations pid (request HT_SEARCH k INT_MIN_arg None pid h)"

definition DSMHashDelete :: "i64 \<Rightarrow> tid \<Rightarrow> hash_state \<Rightarrow> bool option \<times> hash_state" where
  "DSMHashDelete k pid h = run_serial dsm_serialOperations pid (request HT_DELETE k INT_MIN_arg None pid h)"

section \<open>The abstract table\<close>

datatype hash_op = HInsert i64 i64 | HDelete i64 | HSearch i64

fun op_key :: "hash_op \<Rightarrow> i64" where
  "op_key (HInsert k v) = k" | "op_key (HDelete k) = k" | "op_key (HSearch k) = k"

type_synonym bucket = "(i64 \<times> i64) list"

text \<open>What a deletion leaves of a bucket: when the key is in the second node, the first one goes
  with it.\<close>

fun remove_first :: "i64 \<Rightarrow> bucket \<Rightarrow> bucket" where
  "remove_first k [] = []"
| "remove_first k (kv # b) = (if fst kv = k then b else kv # remove_first k b)"

definition code_delete :: "i64 \<Rightarrow> bucket \<Rightarrow> bucket" where
  "code_delete k b =
     (case b of kv # kw # b' \<Rightarrow> if fst kv \<noteq> k \<and> fst kw = k then b' else remove_first k b | _ \<Rightarrow> remove_first k b)"

fun bucket_spec :: "hash_op \<Rightarrow> bucket \<Rightarrow> bool \<times> bucket" where
  "bucket_spec (HInsert k v) b = (True, if k \<in> fst ` set b then b else (k, v) # b)"
| "bucket_spec (HDelete k) b = (k \<in> fst ` set b, code_delete k b)"
| "bucket_spec (HSearch k) b = (k \<in> fst ` set b, b)"

definition hash_spec :: "tid \<Rightarrow> hash_op \<Rightarrow> bucket list \<Rightarrow> bool option \<times> bucket list" where
  "hash_spec p op bs =
     (let i = sint (op_key op) smod int (length bs)
      in if 0 \<le> i \<and> nat i < length bs
         then (let (r, b) = bucket_spec op (bs ! nat i) in (Some r, bs[nat i := b]))
         else (None, bs))"

fun clh_hash_op :: "tid \<Rightarrow> hash_op \<Rightarrow> hash_state \<Rightarrow> bool option \<times> hash_state" where
  "clh_hash_op p (HInsert k v) h = CLHHashInsert k v p h"
| "clh_hash_op p (HDelete k) h = CLHHashDelete k p h"
| "clh_hash_op p (HSearch k) h = CLHHashSearch k p h"

fun dsm_hash_op :: "tid \<Rightarrow> hash_op \<Rightarrow> hash_state \<Rightarrow> bool option \<times> hash_state" where
  "dsm_hash_op p (HInsert k v) h = DSMHashInsert k v p h"
| "dsm_hash_op p (HDelete k) h = DSMHashDelete k p h"
| "dsm_hash_op p (HSearch k) h = DSMHashSearch k p h"

section \<open>Lists in memory\<close>

fun hlinked :: "(addr \<Rightarrow> HashNode option) \<Rightarrow> addr option \<Rightarrow> addr list \<Rightarrow> bucket \<Rightarrow> bool" where
  "hlinked h a [] b \<longleftrightarrow> a = None \<and> b = []"
| "hlinked h a (x # xs) b \<longleftrightarrow> a = Some x \<and>
     (\<exists>nd b'. h x = Some nd \<and> b = (hkey nd, hval nd) # b' \<and> hlinked h (hnext nd) xs b')"

lemma hlinked_cong: "(\<And>x. x \<in> set xs \<Longrightarrow> h' x = h x) \<Longrightarrow> hlinked h' a xs b = hlinked h a xs b"
  by (induction xs arbitrary: a b) auto

lemma hlinked_upd [simp]: "x \<notin> set xs \<Longrightarrow> hlinked (h(x := nd)) a xs b = hlinked h a xs b"
  by (rule hlinked_cong) auto

lemma hlinked_unique: "\<lbrakk>hlinked h a xs b; hlinked h a ys c\<rbrakk> \<Longrightarrow> xs = ys \<and> b = c"
proof (induction xs arbitrary: a b ys c)
  case Nil
  then show ?case by (cases ys) auto
next
  case (Cons x xs)
  then show ?case by (cases ys) fastforce+
qed

lemma find_loop:
  "hlinked h a xs b \<Longrightarrow> (\<exists>x. find_loop h k a = Some (Found None x)) \<and> k \<in> fst ` set b
     \<or> find_loop h k a = Some Absent \<and> k \<notin> fst ` set b"
proof (induction xs arbitrary: a b)
  case (Cons x xs)
  then obtain nd b' where nd: "a = Some x" "h x = Some nd" "b = (hkey nd, hval nd) # b'" "hlinked h (hnext nd) xs b'"
    by auto
  show ?case
  proof (cases "hkey nd = k")
    case True
    with nd show ?thesis by (simp add: find_loop.simps)
  next
    case False
    then have "find_loop h k a = find_loop h k (hnext nd)" using nd(1,2) by (subst find_loop.simps) simp
    with Cons.IH [OF nd(4)] nd(3) False show ?thesis by auto
  qed
qed (simp add: find_loop.simps)

text \<open>The deletion loop once it is past the top: \<^verbatim>\<open>prev\<close> is the node before \<^verbatim>\<open>cur\<close>.\<close>

lemma delete_loop:
  "\<lbrakk>hlinked h (hnext qd) xs b; h q = Some qd; t \<notin> set xs\<rbrakk> \<Longrightarrow>
   delete_loop h k (Some t) (Some q) (hnext qd) = Some Absent \<and> k \<notin> fst ` set b
   \<or> (\<exists>xs1 x xs2 b1 v b2. xs = xs1 @ x # xs2 \<and> b = b1 @ (k, v) # b2 \<and> length b1 = length xs1 \<and> k \<notin> fst ` set b1
        \<and> delete_loop h k (Some t) (Some q) (hnext qd) = Some (Found (Some (last (q # xs1))) x))"
proof (induction xs arbitrary: q qd b)
  case Nil
  then show ?case by (simp add: delete_loop.simps)
next
  case (Cons x xs)
  then obtain nd b' where nd: "hnext qd = Some x" "h x = Some nd" "b = (hkey nd, hval nd) # b'" "hlinked h (hnext nd) xs b'"
    by auto
  show ?case
  proof (cases "hkey nd = k")
    case True
    then have "delete_loop h k (Some t) (Some q) (hnext qd) = Some (Found (Some (last (q # []))) x)"
      using nd by (simp add: delete_loop.simps)
    moreover have "b = [] @ (k, hval nd) # b'" using nd(3) True by simp
    ultimately show ?thesis by (intro disjI2 exI [of _ "[]"] exI [of _ x] exI [of _ xs]) fastforce
  next
    case False
    have step: "delete_loop h k (Some t) (Some q) (hnext qd) = delete_loop h k (Some t) (Some x) (hnext nd)"
      using nd False Cons.prems by (subst delete_loop.simps) auto
    have "t \<notin> set xs" using Cons.prems by simp
    from Cons.IH [OF nd(4,2) this] show ?thesis
    proof (elim disjE exE conjE)
      assume "delete_loop h k (Some t) (Some x) (hnext nd) = Some Absent" "k \<notin> fst ` set b'"
      then show ?thesis using step nd(3) False by simp
    next
      fix xs1 y xs2 b1 v b2
      assume "xs = xs1 @ y # xs2" "b' = b1 @ (k, v) # b2" "length b1 = length xs1" "k \<notin> fst ` set b1"
        "delete_loop h k (Some t) (Some x) (hnext nd) = Some (Found (Some (last (x # xs1))) y)"
      then show ?thesis using step nd(3) False
        by (intro disjI2 exI [of _ "x # xs1"] exI [of _ y] exI [of _ xs2] exI [of _ "(hkey nd, hval nd) # b1"]
            exI [of _ v] exI [of _ b2]) auto
    qed
  qed
qed

text \<open>The whole loop, started at the top.\<close>

lemma delete_loop_top:
  assumes "hlinked h a (x # xs) (kv # b)" and "x \<notin> set xs"
  shows "fst kv = k \<and> delete_loop h k a a a = Some (Found a x)
   \<or> fst kv \<noteq> k \<and> k \<notin> fst ` set b \<and> delete_loop h k a a a = Some Absent
   \<or> fst kv \<noteq> k \<and> (\<exists>xs1 y xs2 b1 v b2. xs = xs1 @ y # xs2 \<and> b = b1 @ (k, v) # b2 \<and> length b1 = length xs1
        \<and> k \<notin> fst ` set b1 \<and> delete_loop h k a a a = Some (Found (Some (last (x # xs1))) y))"
proof -
  from assms(1) obtain nd where nd: "a = Some x" "h x = Some nd" "kv = (hkey nd, hval nd)" "hlinked h (hnext nd) xs b"
    by auto
  show ?thesis
  proof (cases "hkey nd = k")
    case True
    with nd show ?thesis by (simp add: delete_loop.simps)
  next
    case False
    then have "delete_loop h k a a a = delete_loop h k (Some x) (Some x) (hnext nd)"
      using nd by (subst delete_loop.simps) simp
    with delete_loop [OF nd(4,2) assms(2), of k] have
      "k \<notin> fst ` set b \<and> delete_loop h k a a a = Some Absent
       \<or> (\<exists>xs1 y xs2 b1 v b2. xs = xs1 @ y # xs2 \<and> b = b1 @ (k, v) # b2 \<and> length b1 = length xs1
            \<and> k \<notin> fst ` set b1 \<and> delete_loop h k a a a = Some (Found (Some (last (x # xs1))) y))" by metis
    moreover have "fst kv \<noteq> k" using False nd(3) by simp
    ultimately show ?thesis by blast
  qed
qed

text \<open>Taking a node out of the middle.\<close>

lemma hlinked_unlink:
  "\<lbrakk>hlinked h a (xs @ q # y # ys) c; distinct (xs @ q # y # ys); h q = Some qd; h y = Some yd\<rbrakk>
   \<Longrightarrow> hlinked (h(q \<mapsto> qd\<lparr>hnext := hnext yd\<rparr>)) a (xs @ q # ys) (take (Suc (length xs)) c @ drop (length xs + 2) c)"
proof (induction xs arbitrary: a c)
  case Nil
  then obtain c' where "c = (hkey qd, hval qd) # (hkey yd, hval yd) # c'" "hlinked h (hnext yd) ys c'" "a = Some q" "q \<notin> set ys"
    by auto
  moreover from this have "hlinked (h(q \<mapsto> qd\<lparr>hnext := hnext yd\<rparr>)) (hnext yd) ys c'" by simp
  ultimately show ?case by (simp add: fun_upd_def del: hlinked_upd)
next
  case (Cons x xs)
  then show ?case by auto
qed

lemma hlinked_length: "hlinked h a xs b \<Longrightarrow> length b = length xs"
  by (induction xs arbitrary: a b) auto

lemma hlinked_node: "hlinked h a (xs @ y # ys) b \<Longrightarrow> \<exists>nd. h y = Some nd"
  by (induction xs arbitrary: a b) auto

lemma remove_first_middle: "k \<notin> fst ` set b1 \<Longrightarrow> remove_first k (b1 @ (k, v) # b2) = b1 @ b2"
  by (induction b1) auto

section \<open>The table in memory\<close>

text \<open>\<open>X i\<close> are the nodes and \<open>K i\<close> the entries of bucket \<open>i\<close>.\<close>

definition hash_rep :: "hash_state \<Rightarrow> (nat \<Rightarrow> addr list) \<Rightarrow> (nat \<Rightarrow> bucket) \<Rightarrow> bool" where
  "hash_rep st X K \<longleftrightarrow> length (cells st) = hsize st
     \<and> (\<forall>i < hsize st. hlinked (hheap st) (cells st ! i) (X i) (K i) \<and> distinct (X i)
          \<and> (\<forall>x \<in> set (X i). \<exists>p e. x = Cell p e \<and> e < hcuts st p))
     \<and> (\<forall>i j. i < hsize st \<and> j < hsize st \<and> i \<noteq> j \<longrightarrow> set (X i) \<inter> set (X j) = {})"

definition hash_wf :: "hash_state \<Rightarrow> bool" where
  "hash_wf st \<longleftrightarrow> (\<exists>X K. hash_rep st X K)"

definition buckets :: "hash_state \<Rightarrow> bucket list" where
  "buckets st = map (\<lambda>a. THE b. \<exists>xs. hlinked (hheap st) a xs b) (cells st)"

lemma buckets_eq: "hash_rep st X K \<Longrightarrow> buckets st = map K [0..<hsize st]"
proof (rule nth_equalityI)
  assume r: "hash_rep st X K"
  then show "length (buckets st) = length (map K [0..<hsize st])" by (simp add: buckets_def hash_rep_def)
  fix i assume "i < length (buckets st)"
  with r have i: "i < hsize st" "hlinked (hheap st) (cells st ! i) (X i) (K i)"
    by (simp_all add: buckets_def hash_rep_def)
  then have "(THE b. \<exists>xs. hlinked (hheap st) (cells st ! i) xs b) = K i"
    by (intro the_equality) (auto dest: hlinked_unique)
  with r i(1) show "buckets st ! i = map K [0..<hsize st] ! i" by (simp add: buckets_def hash_rep_def)
qed

text \<open>A change of one bucket.\<close>

lemma hash_rep_update:
  assumes r: "hash_rep st X K" and i: "i < hsize st"
    and "cells st' = (cells st)[i := a]" "hsize st' = hsize st" "\<And>p. hcuts st p \<le> hcuts st' p"
    and h: "\<And>x. (\<exists>p e. x = Cell p e \<and> e < hcuts st p) \<Longrightarrow> x \<notin> set (X i) \<Longrightarrow> hheap st' x = hheap st x"
    and l: "hlinked (hheap st') a xs b" "distinct xs"
    and new: "\<And>x. x \<in> set xs \<Longrightarrow> (x \<in> set (X i) \<or> (\<exists>p. x = Cell p (hcuts st p))) \<and> (\<exists>p e. x = Cell p e \<and> e < hcuts st' p)"
  shows "hash_rep st' (X(i := xs)) (K(i := b))"
proof -
  have len: "length (cells st) = hsize st" and
    old: "\<And>j. j < hsize st \<Longrightarrow> hlinked (hheap st) (cells st ! j) (X j) (K j) \<and> distinct (X j)"
      "\<And>j x. j < hsize st \<Longrightarrow> x \<in> set (X j) \<Longrightarrow> \<exists>p e. x = Cell p e \<and> e < hcuts st p"
    and dis: "\<And>i j x. i < hsize st \<Longrightarrow> j < hsize st \<Longrightarrow> i \<noteq> j \<Longrightarrow> x \<in> set (X i) \<Longrightarrow> x \<notin> set (X j)"
    using r unfolding hash_rep_def by blast+
  have frame: "hheap st' x = hheap st x" if "j < hsize st" "j \<noteq> i" "x \<in> set (X j)" for j x
    using h [OF old(2) [OF that(1,3)]] dis [OF that(1) i that(2,3)] by blast
  have fresh: "x \<notin> set xs" if "j < hsize st" "j \<noteq> i" "x \<in> set (X j)" for j x
  proof
    assume "x \<in> set xs"
    with new [OF this] dis [OF that(1) i that(2,3)] old(2) [OF that(1,3)] show False by auto
  qed
  show ?thesis unfolding hash_rep_def
  proof (intro conjI allI impI ballI)
    show "length (cells st') = hsize st'" using len assms(3,4) by simp
  next
    fix j assume j: "j < hsize st'"
    show "hlinked (hheap st') (cells st' ! j) ((X(i := xs)) j) ((K(i := b)) j)"
    proof (cases "j = i")
      case True
      then show ?thesis using l(1) i len assms(3) by simp
    next
      case False
      have "hlinked (hheap st') (cells st ! j) (X j) (K j) = hlinked (hheap st) (cells st ! j) (X j) (K j)"
        using frame [of j] False j assms(4) by (intro hlinked_cong) simp
      then show ?thesis using False old(1) [of j] j assms(3,4) by simp
    qed
    show "distinct ((X(i := xs)) j)" using old(1) [of j] j l(2) assms(4) by simp
    fix x assume x: "x \<in> set ((X(i := xs)) j)"
    show "\<exists>p e. x = Cell p e \<and> e < hcuts st' p"
    proof (cases "j = i")
      case True
      with new x show ?thesis by simp
    next
      case False
      with old(2) [of j x] x j assms(4,5) show ?thesis by (auto intro: less_le_trans)
    qed
  next
    fix j m assume "j < hsize st' \<and> m < hsize st' \<and> j \<noteq> m"
    then show "set ((X(i := xs)) j) \<inter> set ((X(i := xs)) m) = {}"
      using dis [of j m] fresh [of j] fresh [of m] assms(4) by (auto split: if_splits)
  qed
qed

text \<open>The same, when the bucket's cell is left alone.\<close>

lemma hash_rep_same_cells:
  assumes "hash_rep st X K" and "i < hsize st"
    and "cells st' = cells st" "hsize st' = hsize st" "\<And>p. hcuts st p \<le> hcuts st' p"
    and "\<And>x. (\<exists>p e. x = Cell p e \<and> e < hcuts st p) \<Longrightarrow> x \<notin> set (X i) \<Longrightarrow> hheap st' x = hheap st x"
    and "hlinked (hheap st') (cells st ! i) xs b" "distinct xs" "set xs \<subseteq> set (X i)"
  shows "hash_rep st' (X(i := xs)) (K(i := b))"
proof (rule hash_rep_update [OF assms(1,2)])
  show "cells st' = (cells st)[i := cells st ! i]" using assms(3) by simp
  show "(x \<in> set (X i) \<or> (\<exists>p. x = Cell p (hcuts st p))) \<and> (\<exists>p e. x = Cell p e \<and> e < hcuts st' p)" if "x \<in> set xs" for x
    using that assms(9) assms(1,2,5) unfolding hash_rep_def by (meson less_le_trans subsetD)
qed (fact assms)+

section \<open>One request\<close>

text \<open>The effect of \<^verbatim>\<open>serialOperations\<close> on an announced request.\<close>

lemma hash_repD:
  assumes "hash_rep st X K" "i < hsize st"
  shows "hlinked (hheap st) (cells st ! i) (X i) (K i)" "distinct (X i)" "length (cells st) = hsize st"
    "x \<in> set (X i) \<Longrightarrow> \<exists>p e. x = Cell p e \<and> e < hcuts st p"
  using assms unfolding hash_rep_def by blast+

lemma serial_insert:
  assumes r: "hash_rep st X K" and i: "i < hsize st"
    and st: "cells st1 = cells st" "hheap st1 = hheap st" "hsize st1 = hsize st" "hcuts st1 = (hcuts st)(p := hcuts st p + 1)"
    and a: "announce st1 p = \<lparr>okey = k, ovalue = v, onode = Some (Cell p (hcuts st p)), ocell = int i, oop = HT_INSERT\<rparr>"
  shows "\<exists>st' Y. clh_serialOperations p st1 = Some (Some True, st') \<and> hash_rep st' Y (K(i := snd (bucket_spec (HInsert k v) (K i))))
     \<and> hsize st' = hsize st"
proof -
  note d = hash_repD [OF r i]
  have cell: "cell_at st1 (int i) = Some (cells st ! i)" using d(3) i st(1) by (simp add: cell_at_def)
  from find_loop [OF d(1), of k] consider x where "find_loop (hheap st) k (cells st ! i) = Some (Found None x)" "k \<in> fst ` set (K i)"
    | "find_loop (hheap st) k (cells st ! i) = Some Absent" "k \<notin> fst ` set (K i)" by blast
  then show ?thesis
  proof cases
    case 1
    have "hash_rep st1 (X(i := X i)) (K(i := K i))"
      by (rule hash_rep_same_cells [OF r i]) (use d st in auto)
    with 1 cell a st show ?thesis by (auto simp: clh_serialOperations_def)
  next
    case 2
    let ?n = "Cell p (hcuts st p)"
    let ?st = "st1\<lparr>hheap := (hheap st1)(?n \<mapsto> \<lparr>hnext = cells st ! i, hkey = k, hval = v\<rparr>), cells := (cells st1)[i := Some ?n]\<rparr>"
    have new: "?n \<notin> set (X i)" using d(4) by auto
    have "hash_rep ?st (X(i := ?n # X i)) (K(i := (k, v) # K i))"
    proof (rule hash_rep_update [OF r i])
      show "hlinked (hheap ?st) (Some ?n) (?n # X i) ((k, v) # K i)" using d(1) new st by simp
      show "(x \<in> set (X i) \<or> (\<exists>q. x = Cell q (hcuts st q))) \<and> (\<exists>q e. x = Cell q e \<and> e < hcuts ?st q)"
        if "x \<in> set (?n # X i)" for x
      proof (cases "x = ?n")
        case True
        then show ?thesis using st(4) by auto
      next
        case False
        with that d(4) [of x] obtain q e where "x = Cell q e" "e < hcuts st q" "x \<in> set (X i)" by auto
        moreover from this have "e < hcuts ?st q" using st(4) by (cases "q = p") simp_all
        ultimately show ?thesis by blast
      qed
    qed (use new d(2) st in auto)
    moreover have "clh_serialOperations p st1 = Some (Some True, ?st)"
      using 2 cell a st by (simp add: clh_serialOperations_def Let_def)
    ultimately show ?thesis using 2 st by auto
  qed
qed

lemma serial_search:
  assumes r: "hash_rep st X K" and i: "i < hsize st"
    and st: "cells st1 = cells st" "hheap st1 = hheap st" "hsize st1 = hsize st" "\<And>q. hcuts st q \<le> hcuts st1 q"
    and a: "okey (announce st1 p) = k" "ocell (announce st1 p) = int i" "oop (announce st1 p) = HT_SEARCH"
  shows "clh_serialOperations p st1 = Some (Some (k \<in> fst ` set (K i)), st1) \<and> hash_rep st1 (X(i := X i)) (K(i := K i))"
proof -
  note d = hash_repD [OF r i]
  have cell: "cell_at st1 (int i) = Some (cells st ! i)" using d(3) i st(1) by (simp add: cell_at_def)
  have "hash_rep st1 (X(i := X i)) (K(i := K i))" by (rule hash_rep_same_cells [OF r i]) (use d st in auto)
  moreover have "clh_serialOperations p st1 = Some (Some (k \<in> fst ` set (K i)), st1)"
    using find_loop [OF d(1), of k] cell a st
    by (elim disjE conjE exE) (simp_all add: clh_serialOperations_def Let_def HT_INSERT_def HT_DELETE_def HT_SEARCH_def)
  ultimately show ?thesis by blast
qed

text \<open>Unlinking a node that is neither the first nor the second of its bucket; \<open>q\<close> in front of it.\<close>

lemma unlink_rep:
  assumes r: "hash_rep st X K" and i: "i < hsize st" and X: "X i = x # xs"
    and nd: "cells st ! i = Some x" "hheap st x = Some nd" "K i = (hkey nd, hval nd) # b"
    and k: "xs = xs1 @ y # xs2" "b = b1 @ (k, v) # b2" "length b1 = length xs1" and yd: "hheap st y = Some yd"
    and st: "cells st1 = cells st" "hheap st1 = hheap st" "hsize st1 = hsize st" "\<And>q. hcuts st q \<le> hcuts st1 q"
  shows "\<exists>qd ys. hheap st (last (x # xs1)) = Some qd \<and>
     hash_rep (st1\<lparr>hheap := (hheap st)(last (x # xs1) \<mapsto> qd\<lparr>hnext := hnext yd\<rparr>)\<rparr>) (X(i := ys))
       (K(i := (hkey nd, hval nd) # b1 @ b2))"
proof -
  note d = hash_repD [OF r i]
  let ?a = "cells st ! i" let ?q = "last (x # xs1)" let ?pre = "butlast (x # xs1)"
  have split: "x # xs = ?pre @ ?q # y # xs2"
    using k(1) append_butlast_last_id [of "x # xs1"] by (metis append.assoc append_Cons append_Nil list.distinct(1))
  have lq: "hlinked (hheap st) ?a (?pre @ ?q # y # xs2) ((hkey nd, hval nd) # b)" using d(1) split X nd(3) by simp
  from hlinked_node [OF lq] obtain qd where qd: "hheap st ?q = Some qd" by blast
  let ?h = "(hheap st)(?q \<mapsto> qd\<lparr>hnext := hnext yd\<rparr>)"
  have dist: "distinct (?pre @ ?q # y # xs2)" using d(2) X split by simp
  have len: "length ?pre = length b1" using k(3) by simp
  have cut: "take (Suc (length ?pre)) ((hkey nd, hval nd) # b) @ drop (length ?pre + 2) ((hkey nd, hval nd) # b)
      = (hkey nd, hval nd) # b1 @ b2" unfolding len k(2) by simp
  from hlinked_unlink [OF lq dist qd yd, unfolded cut] have
    lu: "hlinked ?h ?a (?pre @ ?q # xs2) ((hkey nd, hval nd) # b1 @ b2)" .
  have sub: "set (?pre @ ?q # xs2) \<subseteq> set (X i)" unfolding X split by auto
  have "hash_rep (st1\<lparr>hheap := ?h\<rparr>) (X(i := ?pre @ ?q # xs2)) (K(i := (hkey nd, hval nd) # b1 @ b2))"
    by (rule hash_rep_same_cells [OF r i]) (use lu dist sub st in auto)
  with qd show ?thesis by blast
qed

lemma serial_delete:
  assumes r: "hash_rep st X K" and i: "i < hsize st"
    and st: "cells st1 = cells st" "hheap st1 = hheap st" "hsize st1 = hsize st" "\<And>q. hcuts st q \<le> hcuts st1 q"
    and a: "okey (announce st1 p) = k" "ocell (announce st1 p) = int i" "oop (announce st1 p) = HT_DELETE"
  shows "\<exists>st' Y. clh_serialOperations p st1 = Some (Some (k \<in> fst ` set (K i)), st')
     \<and> hash_rep st' Y (K(i := code_delete k (K i))) \<and> hsize st' = hsize st"
proof -
  note d = hash_repD [OF r i]
  have cell: "cell_at st1 (int i) = Some (cells st ! i)" using d(3) i st(1) by (simp add: cell_at_def)
  note ev = clh_serialOperations_def Let_def HT_INSERT_def HT_DELETE_def cell a st
  let ?a = "cells st ! i"
  show ?thesis
  proof (cases "X i")
    case Nil
    then have e: "?a = None" "K i = []" using d(1) by simp_all
    have "hash_rep st1 (X(i := X i)) (K(i := K i))" by (rule hash_rep_same_cells [OF r i]) (use d st in auto)
    moreover have "clh_serialOperations p st1 = Some (Some False, st1)"
      using e a by (simp add: ev delete_loop.simps)
    ultimately show ?thesis using e st(3) by (auto simp: code_delete_def)
  next
    case (Cons x xs)
    with d(1) obtain nd b where nd: "?a = Some x" "hheap st x = Some nd" "K i = (hkey nd, hval nd) # b" "hlinked (hheap st) (hnext nd) xs b"
      by auto
    have l: "hlinked (hheap st) ?a (x # xs) ((hkey nd, hval nd) # b)" using d(1) Cons nd(3) by simp
    have "x \<notin> set xs" using d(2) Cons by simp
    from delete_loop_top [OF l this, of k] show ?thesis
    proof (elim disjE conjE exE)
      assume k: "fst (hkey nd, hval nd) = k" "delete_loop (hheap st) k ?a ?a ?a = Some (Found ?a x)"
      let ?st = "st1\<lparr>cells := (cells st1)[i := hnext nd]\<rparr>"
      have "hash_rep ?st (X(i := xs)) (K(i := b))"
      proof (rule hash_rep_update [OF r i])
        show "(y \<in> set (X i) \<or> (\<exists>q. y = Cell q (hcuts st q))) \<and> (\<exists>q e. y = Cell q e \<and> e < hcuts ?st q)" if "y \<in> set xs" for y
          using that d(4) [of y] Cons st(4) by (auto intro: less_le_trans)
      qed (use nd d(2) Cons st in auto)
      moreover have "clh_serialOperations p st1 = Some (Some True, ?st)" using k nd a by (simp add: ev)
      moreover have "code_delete k (K i) = b" using k(1) nd(3) by (cases b) (simp_all add: code_delete_def)
      ultimately show ?thesis using k(1) nd(3) st(3) by auto
    next
      assume k: "fst (hkey nd, hval nd) \<noteq> k" "k \<notin> fst ` set b" "delete_loop (hheap st) k ?a ?a ?a = Some Absent"
      have "hash_rep st1 (X(i := X i)) (K(i := K i))" by (rule hash_rep_same_cells [OF r i]) (use d st in auto)
      moreover have "clh_serialOperations p st1 = Some (Some False, st1)" using k a by (simp add: ev)
      moreover have "remove_first k c = c" if "k \<notin> fst ` set c" for c using that by (induction c) auto
      then have "code_delete k (K i) = K i" using k(1,2) nd(3) by (cases b) (auto simp: code_delete_def)
      ultimately show ?thesis using k(1,2) nd(3) st(3) by (intro exI [of _ st1] exI [of _ "X(i := X i)"]) simp
    next
      fix xs1 y xs2 b1 v b2
      assume k: "fst (hkey nd, hval nd) \<noteq> k" "xs = xs1 @ y # xs2" "b = b1 @ (k, v) # b2" "length b1 = length xs1"
        "k \<notin> fst ` set b1" "delete_loop (hheap st) k ?a ?a ?a = Some (Found (Some (last (x # xs1))) y)"
      from hlinked_node [of "hheap st" ?a "x # xs1" y xs2] l k(2) obtain yd where yd: "hheap st y = Some yd" by auto
      show ?thesis
      proof (cases "xs1 = []")
        case True
        let ?st = "st1\<lparr>cells := (cells st1)[i := hnext yd]\<rparr>"
        have l2: "hlinked (hheap st) (hnext yd) xs2 b2" using nd(4) k(2,3,4) True yd by auto
        have "hash_rep ?st (X(i := xs2)) (K(i := b2))"
        proof (rule hash_rep_update [OF r i])
          show "(z \<in> set (X i) \<or> (\<exists>q. z = Cell q (hcuts st q))) \<and> (\<exists>q e. z = Cell q e \<and> e < hcuts ?st q)" if "z \<in> set xs2" for z
            using that d(4) [of z] Cons k(2) st(4) by (auto intro: less_le_trans)
        qed (use l2 d(2) Cons k(2) st in auto)
        moreover have "clh_serialOperations p st1 = Some (Some True, ?st)" using k(6) nd yd a True by (simp add: ev)
        moreover have "code_delete k (K i) = b2" using k(1,3,4) nd(3) True by (simp add: code_delete_def)
        ultimately show ?thesis using k(3) nd(3) st(3) by auto
      next
        case False
        let ?q = "last (x # xs1)"
        from unlink_rep [OF r i Cons nd(1,2,3) k(2,3,4) yd st] obtain qd ys where qd: "hheap st ?q = Some qd"
          and rep: "hash_rep (st1\<lparr>hheap := (hheap st)(?q \<mapsto> qd\<lparr>hnext := hnext yd\<rparr>)\<rparr>) (X(i := ys))
              (K(i := (hkey nd, hval nd) # b1 @ b2))" by blast
        let ?st = "st1\<lparr>hheap := (hheap st)(?q \<mapsto> qd\<lparr>hnext := hnext yd\<rparr>)\<rparr>"
        note rep
        moreover have "?a \<noteq> Some ?q" using nd(1) d(2) Cons k(2) False by auto
        then have "clh_serialOperations p st1 = Some (Some True, ?st)" using k(6) yd qd a by (simp add: ev)
        moreover have "b1 \<noteq> []" using False k(4) by auto
        then have "code_delete k (K i) = (hkey nd, hval nd) # b1 @ b2"
          using k(1,3,5) nd(3) remove_first_middle [OF k(5), of v b2] by (cases b1) (auto simp: code_delete_def)
        ultimately show ?thesis using k(3) nd(3) st(3) by auto
      qed
    qed
  qed
qed

section \<open>The tables refine the abstract one\<close>

lemma hash_rep_buckets: "\<lbrakk>hash_rep st' Y (K(i := b)); hsize st' = n; i < n\<rbrakk> \<Longrightarrow> hash_wf st' \<and> buckets st' = (map K [0..<n])[i := b]"
  by (auto simp: hash_wf_def buckets_eq intro!: nth_equalityI)

text \<open>An announced request whose key leads to a bucket, and one whose key does not.\<close>

lemma serial_refines:
  assumes r: "hash_rep st X K" and i: "hash_func st (op_key op) = int i" "i < hsize st"
    and st: "cells st1 = cells st" "hheap st1 = hheap st" "hsize st1 = hsize st" "\<And>q. hcuts st q \<le> hcuts st1 q"
    and a: "okey (announce st1 p) = op_key op" "ocell (announce st1 p) = int i"
      "oop (announce st1 p) = (case op of HInsert k v \<Rightarrow> HT_INSERT | HDelete k \<Rightarrow> HT_DELETE | HSearch k \<Rightarrow> HT_SEARCH)"
      "\<And>k v. op = HInsert k v \<Longrightarrow> announce st1 p = \<lparr>okey = k, ovalue = v, onode = Some (Cell p (hcuts st p)), ocell = int i, oop = HT_INSERT\<rparr>
          \<and> hcuts st1 = (hcuts st)(p := hcuts st p + 1)"
  shows "\<exists>res. clh_serialOperations p st1 = Some res \<and> hash_wf (snd res) \<and> hash_spec p op (buckets st) = (fst res, buckets (snd res))"
proof -
  have b: "buckets st = map K [0..<hsize st]" by (rule buckets_eq [OF r])
  have spec: "hash_spec p op (buckets st) = (Some (fst (bucket_spec op (K i))), (buckets st)[i := snd (bucket_spec op (K i))])"
    using i by (simp add: hash_spec_def hash_func_def b split_beta)
  have "\<exists>st' Y. clh_serialOperations p st1 = Some (Some (fst (bucket_spec op (K i))), st')
      \<and> hash_rep st' Y (K(i := snd (bucket_spec op (K i)))) \<and> hsize st' = hsize st"
  proof (cases op)
    case (HInsert k v)
    with serial_insert [OF r i(2) st(1,2,3), of p k v] a(4) [OF HInsert] show ?thesis by simp
  next
    case (HDelete k)
    with serial_delete [OF r i(2) st, of p k] a show ?thesis by simp
  next
    case (HSearch k)
    with serial_search [OF r i(2) st, of p k] a st(3) show ?thesis by auto
  qed
  then show ?thesis using hash_rep_buckets [OF _ _ i(2)] spec b by auto
qed

lemma serial_no_cell:
  assumes r: "hash_rep st X K" and i: "\<not> (0 \<le> hash_func st (op_key op) \<and> nat (hash_func st (op_key op)) < hsize st)"
    and st: "cells st1 = cells st" "hheap st1 = hheap st" "hsize st1 = hsize st" "\<And>q. hcuts st q \<le> hcuts st1 q"
    and a: "ocell (announce st1 p) = hash_func st (op_key op)"
  shows "\<exists>res. clh_serialOperations p st1 = Some res \<and> hash_wf (snd res) \<and> hash_spec p op (buckets st) = (fst res, buckets (snd res))"
proof -
  have len: "length (cells st) = hsize st" using r by (simp add: hash_rep_def)
  have "cell_at st1 (ocell (announce st1 p)) = None" using i st(1) len by (auto simp: cell_at_def a)
  then have "clh_serialOperations p st1 = Some (None, st1)"
    by (simp add: clh_serialOperations_def Let_def)
  moreover have "hash_spec p op (buckets st) = (None, buckets st)"
    using i len by (auto simp: hash_spec_def hash_func_def buckets_def Let_def)
  moreover have "hash_rep st1 X K" using r st unfolding hash_rep_def by (metis less_le_trans)
  ultimately show ?thesis using st by (auto simp: hash_wf_def buckets_def)
qed

lemma same_serial: "dsm_serialOperations = clh_serialOperations"
  by (intro ext) (simp only: dsm_serialOperations_def clh_serialOperations_def)

lemmas hash_op_defs = CLHHashInsert_def CLHHashSearch_def CLHHashDelete_def DSMHashInsert_def DSMHashSearch_def
  DSMHashDelete_def hash_alloc_def request_def hash_func_def Let_def

text \<open>The announced request of an operation.\<close>

fun clh_announced :: "tid \<Rightarrow> hash_op \<Rightarrow> hash_state \<Rightarrow> hash_state" where
  "clh_announced p (HInsert k v) h = (let (n, h1) = hash_alloc p h in request HT_INSERT k v (Some n) p h1)"
| "clh_announced p (HDelete k) h = (let (n, h1) = hash_alloc p h in request HT_DELETE k INT_MIN_arg (Some n) p h1)"
| "clh_announced p (HSearch k) h = (let (n, h1) = hash_alloc p h in request HT_SEARCH k INT_MIN_arg (Some n) p h1)"

fun dsm_announced :: "tid \<Rightarrow> hash_op \<Rightarrow> hash_state \<Rightarrow> hash_state" where
  "dsm_announced p (HInsert k v) h = (let (n, h1) = hash_alloc p h in request HT_INSERT k v (Some n) p h1)"
| "dsm_announced p (HDelete k) h = request HT_DELETE k INT_MIN_arg None p h"
| "dsm_announced p (HSearch k) h = request HT_SEARCH k INT_MIN_arg None p h"

lemma announced:
  assumes "ann = clh_announced \<or> ann = dsm_announced"
  shows "cells (ann p op st) = cells st" "hheap (ann p op st) = hheap st" "hsize (ann p op st) = hsize st"
    "hcuts st q \<le> hcuts (ann p op st) q" "okey (announce (ann p op st) p) = op_key op"
    "ocell (announce (ann p op st) p) = hash_func st (op_key op)"
    "oop (announce (ann p op st) p) = (case op of HInsert k v \<Rightarrow> HT_INSERT | HDelete k \<Rightarrow> HT_DELETE | HSearch k \<Rightarrow> HT_SEARCH)"
    "op = HInsert k v \<Longrightarrow> announce (ann p op st) p = \<lparr>okey = k, ovalue = v, onode = Some (Cell p (hcuts st p)),
        ocell = hash_func st k, oop = HT_INSERT\<rparr> \<and> hcuts (ann p op st) = (hcuts st)(p := hcuts st p + 1)"
  using assms by (cases op; auto simp: hash_op_defs)+

lemma op_announced:
  "clh_hash_op p op st = run_serial clh_serialOperations p (clh_announced p op st)"
  "dsm_hash_op p op st = run_serial dsm_serialOperations p (dsm_announced p op st)"
  by (cases op; simp add: hash_op_defs)+

lemma announced_returns:
  assumes "hash_wf st" and "ann = clh_announced \<or> ann = dsm_announced"
  shows "\<exists>res. clh_serialOperations p (ann p op st) = Some res \<and> hash_wf (snd res) \<and> hash_spec p op (buckets st) = (fst res, buckets (snd res))"
proof -
  from assms(1) obtain X K where r: "hash_rep st X K" by (auto simp: hash_wf_def)
  note a = announced [OF assms(2)]
  show ?thesis
  proof (cases "0 \<le> hash_func st (op_key op) \<and> nat (hash_func st (op_key op)) < hsize st")
    case True
    then have i: "hash_func st (op_key op) = int (nat (hash_func st (op_key op)))" "nat (hash_func st (op_key op)) < hsize st"
      by simp_all
    show ?thesis
      by (rule serial_refines [OF r i a(1-4)]) (use a(5-8) i(1) in auto)
  next
    case False
    show ?thesis by (rule serial_no_cell [OF r False a(1-4) a(6)])
  qed
qed

lemma hash_op_returns:
  assumes "hash_wf st" and "(f, serial, ann) \<in> {(clh_hash_op, clh_serialOperations, clh_announced),
     (dsm_hash_op, dsm_serialOperations, dsm_announced)}"
  shows "serial p (ann p op st) = Some (f p op st) \<and> hash_wf (snd (f p op st))
     \<and> hash_spec p op (buckets st) = (fst (f p op st), buckets (snd (f p op st)))"
proof -
  have "ann = clh_announced \<or> ann = dsm_announced" using assms(2) by auto
  from announced_returns [OF assms(1) this, of p op] obtain res where
    res: "clh_serialOperations p (ann p op st) = Some res" "hash_wf (snd res)" "hash_spec p op (buckets st) = (fst res, buckets (snd res))"
    by blast
  then have "f p op st = res" "serial = clh_serialOperations"
    using assms(2) by (auto simp: op_announced same_serial run_serial_def simp del: clh_announced.simps dsm_announced.simps)
  with res show ?thesis by simp
qed

lemma hash_op_refines:
  assumes "hash_wf st" and f: "f \<in> {clh_hash_op, dsm_hash_op}"
  shows "hash_wf (snd (f p op st)) \<and> hash_spec p op (buckets st) = (fst (f p op st), buckets (snd (f p op st)))"
proof -
  from f obtain serial ann where "(f, serial, ann) \<in> {(clh_hash_op, clh_serialOperations, clh_announced),
     (dsm_hash_op, dsm_serialOperations, dsm_announced)}" by blast
  from hash_op_returns [OF assms(1) this] show ?thesis by blast
qed

text \<open>The only fault: a key whose remainder is negative.\<close>

lemma hash_spec_fault:
  "0 < length bs \<Longrightarrow> fst (hash_spec p op bs) = None \<longleftrightarrow> sint (op_key op) smod int (length bs) < 0"
proof -
  assume "0 < length bs"
  then have "sint (op_key op) smod int (length bs) < int (length bs)"
    using smod_int_range [of "int (length bs)" "sint (op_key op)"] by auto
  then show ?thesis by (auto simp: hash_spec_def Let_def split_beta)
qed

lemma buckets_length: "hash_wf st \<Longrightarrow> length (buckets st) = hsize st"
  by (auto simp: hash_wf_def hash_rep_def buckets_def)

lemma hash_init: "hash_wf (CLHHashStructInit a0 n) \<and> buckets (CLHHashStructInit a0 n) = replicate n []"
    "hash_wf (DSMHashInit a0 n) \<and> buckets (DSMHashInit a0 n) = replicate n []"
proof -
  have r: "hash_rep (CLHHashStructInit a0 n) (\<lambda>_. []) (\<lambda>_. [])" by (simp add: hash_rep_def CLHHashStructInit_def)
  have e: "DSMHashInit a0 n = CLHHashStructInit a0 n" by (simp add: DSMHashInit_def CLHHashStructInit_def)
  show "hash_wf (CLHHashStructInit a0 n) \<and> buckets (CLHHashStructInit a0 n) = replicate n []"
    using r buckets_eq [OF r] by (auto simp: hash_wf_def CLHHashStructInit_def map_replicate_const)
  then show "hash_wf (DSMHashInit a0 n) \<and> buckets (DSMHashInit a0 n) = replicate n []" by (simp only: e)
qed

interpretation clh_hash: object_refinement clh_hash_op hash_spec hash_wf buckets id id
  by unfold_locales (use hash_op_refines [of _ clh_hash_op] in auto)

interpretation dsm_hash: object_refinement dsm_hash_op hash_spec hash_wf buckets id id
  by unfold_locales (use hash_op_refines [of _ dsm_hash_op] in auto)

section \<open>Properties\<close>

text \<open>C20. Every request to either hash table, run alone on a well-formed table, comes to an end (the
  unbounded searches through the lists do), keeps the table well formed and does to the buckets what
  \<open>hash_spec\<close> says, which is what the code does and not always what the headers say: an insertion adds the
  pair unless its key is there, when it leaves the old value as it is, and reports success; a search
  reports whether the key is there, not its value. It faults (\<open>None\<close>, an access before the array of buckets)
  exactly when the remainder of the key is negative.\<close>

theorem hash_tables_refine:
  assumes "hash_wf st" and "(f, serial, ann) \<in> {(clh_hash_op, clh_serialOperations, clh_announced),
     (dsm_hash_op, dsm_serialOperations, dsm_announced)}"
  shows "serial p (ann p op st) = Some (f p op st) \<and> hash_wf (snd (f p op st))
     \<and> hash_spec p op (buckets st) = (fst (f p op st), buckets (snd (f p op st)))
     \<and> (0 < hsize st \<longrightarrow> (fst (f p op st) = None \<longleftrightarrow> sint (op_key op) smod int (hsize st) < 0))"
  using hash_op_returns [OF assms, of p op] hash_spec_fault [of "buckets st" p op] buckets_length [OF assms(1)] by auto

theorem hash_tables_refine_witness:
  "fst (dsm_hash_op 1 (HSearch 7) (snd (dsm_hash_op 0 (HInsert 7 70) (DSMHashInit (\<lambda>_. no_request) 4)))) = Some True
   \<and> fst (clh_hash_op 1 (HSearch (- 1)) (CLHHashStructInit (\<lambda>_. no_request) 4)) = None"
proof -
  let ?s = "snd (dsm_hash_op 0 (HInsert 7 70) (DSMHashInit (\<lambda>_. no_request) 4))"
  have 1: "hash_wf ?s \<and> buckets ?s = [[], [], [], [(7, 70)]]"
    using hash_tables_refine [of "DSMHashInit (\<lambda>_. no_request) 4" dsm_hash_op dsm_serialOperations dsm_announced 0 "HInsert 7 70"] hash_init(2) [of "\<lambda>_. no_request" 4]
    by (simp add: hash_spec_def signed_modulo_int_def replicate_num)
  show ?thesis
    using hash_tables_refine [of ?s dsm_hash_op dsm_serialOperations dsm_announced 1 "HSearch 7"] 1
      hash_tables_refine [of "CLHHashStructInit (\<lambda>_. no_request) 4" clh_hash_op clh_serialOperations clh_announced 1 "HSearch (- 1)"] hash_init(1) [of "\<lambda>_. no_request" 4]
    by (simp add: hash_spec_def signed_modulo_int_def)
qed

text \<open>C21. What a deletion leaves of the bucket of its key: without the entry of that key and otherwise
  unchanged, unless that entry is the second of the bucket. Then the first one is lost with it,
  because \<^verbatim>\<open>prev\<close> is still the top of the list and is taken for the node to remove.\<close>

theorem hash_delete_effect:
  assumes "hash_wf st" and "f \<in> {clh_hash_op, dsm_hash_op}" and "hash_func st k = int i" "i < hsize st"
    and "buckets st ! i = b1 @ (k, v) # b2" "k \<notin> fst ` set b1"
  shows "fst (f p (HDelete k) st) = Some True \<and>
    buckets (snd (f p (HDelete k) st)) = (buckets st)[i := (if length b1 = 1 then b2 else b1 @ b2)]"
proof -
  have len: "length (buckets st) = hsize st"
    using assms(1) by (auto simp: hash_wf_def hash_rep_def buckets_def)
  have "code_delete k (b1 @ (k, v) # b2) = (if length b1 = 1 then b2 else b1 @ b2)"
  proof (cases b1 rule: remdups_adj.cases)
    case (3 x y ys)
    with remove_first_middle [OF assms(6), of v b2] assms(6) show ?thesis by (auto simp: code_delete_def)
  qed (use assms(6) in \<open>cases b2; auto simp: code_delete_def\<close>)+
  with hash_op_refines [OF assms(1,2), of p "HDelete k"] assms(3-5) len show ?thesis
    by (simp add: hash_spec_def hash_func_def)
qed

text \<open>The keys 5, 1 and 9 share a bucket, in the order 9, 1, 5; deleting 1 loses 9.\<close>

theorem hash_delete_effect_witness:
  "\<exists>st. hash_wf st \<and> buckets st = [[], [(9, 90), (1, 10), (5, 50)], [], []]
     \<and> buckets (snd (clh_hash_op 0 (HDelete 1) st)) = [[], [(5, 50)], [], []]"
proof -
  define s1 where "s1 = snd (clh_hash_op 0 (HInsert 5 50) (CLHHashStructInit (\<lambda>_. undefined) 4))"
  define s2 where "s2 = snd (clh_hash_op 0 (HInsert 1 10) s1)"
  define s3 where "s3 = snd (clh_hash_op 0 (HInsert 9 90) s2)"
  note ev = hash_spec_def signed_modulo_int_def replicate_num
  have 1: "hash_wf s1 \<and> buckets s1 = [[], [(5, 50)], [], []]"
    using hash_op_refines [of "CLHHashStructInit (\<lambda>_. undefined) 4" clh_hash_op 0 "HInsert 5 50"]
      hash_init(1) [of "\<lambda>_. undefined" 4] by (simp add: s1_def ev)
  have 2: "hash_wf s2 \<and> buckets s2 = [[], [(1, 10), (5, 50)], [], []]"
    using hash_op_refines [of s1 clh_hash_op 0 "HInsert 1 10"] 1 by (simp add: s2_def ev)
  have 3: "hash_wf s3 \<and> buckets s3 = [[], [(9, 90), (1, 10), (5, 50)], [], []]"
    using hash_op_refines [of s2 clh_hash_op 0 "HInsert 9 90"] 2 by (simp add: s3_def ev)
  then have len: "hsize s3 = 4" by (auto simp: hash_wf_def hash_rep_def buckets_def dest!: arg_cong [of _ _ length])
  have "buckets (snd (clh_hash_op 0 (HDelete 1) s3)) = (buckets s3)[1 := [(5, 50)]]"
    using hash_delete_effect [of s3 clh_hash_op 1 1 "[(9, 90)]" 10 "[(5, 50)]" 0] 3 len
    by (simp add: hash_func_def signed_modulo_int_def)
  with 3 show ?thesis by (intro exI [of _ s3]) simp
qed

end
