(* ===== verification/StackObjects.thy ===== *)
theory StackObjects
  imports Nodes Linearizability
begin

text \<open>
  The stacks of ccstack.c, dsmstack.c, hstack.c, oscistack.c and fcstack.c. Each file has its own
  \<^verbatim>\<open>serialPushPop\<close>, the sequential operation its combining object applies on behalf of
  the threads; \<open>p\<close> is the thread that runs it, whose node pool is used. \<open>None\<close> as a return value
  is a memory fault. The contract is stated once, in \<open>stack_object\<close>, and discharged for the five
  of them: on a well-formed memory the operation is a push or a pop of the stack of values.
\<close>

section \<open>State\<close>

record stack_struct = nodes +
  top :: "addr option"

definition POP_OP :: val64 where "POP_OP = INT_MIN64"

section \<open>Operations\<close>

text \<open>ccstack.c: a thread-local pool.\<close>

definition CCStackInit :: stack_struct where
  "CCStackInit = \<lparr>heap = (\<lambda>_. None), free = (\<lambda>_. []), cuts = (\<lambda>_. 0), top = None\<rparr>"

definition cc_serialPushPop :: "tid \<Rightarrow> val64 \<Rightarrow> stack_struct \<Rightarrow> val64 option \<times> stack_struct" where
  "cc_serialPushPop p arg st =
     (if arg = POP_OP then
        (case top st of
           Some node \<Rightarrow>
             (case heap st node of
                None \<Rightarrow> (None, st)
              | Some nd \<Rightarrow> (Some (val nd), recycle p node (st\<lparr>top := nxt nd\<rparr>)))
         | None \<Rightarrow> (Some EMPTY_STACK, st))
      else
        (let (node, st1) = alloc p st;
             st2 = st1\<lparr>heap := (heap st1)(node \<mapsto> \<lparr>val = arg, nxt = top st1\<rparr>)\<rparr>
         in (Some PUSH_SUCCESS, st2\<lparr>top := Some node\<rparr>)))"

text \<open>dsmstack.c: a thread-local pool.\<close>

definition DSMStackInit :: stack_struct where
  "DSMStackInit = \<lparr>heap = (\<lambda>_. None), free = (\<lambda>_. []), cuts = (\<lambda>_. 0), top = None\<rparr>"

definition dsm_serialPushPop :: "tid \<Rightarrow> val64 \<Rightarrow> stack_struct \<Rightarrow> val64 option \<times> stack_struct" where
  "dsm_serialPushPop p arg st =
     (if arg = POP_OP then
        (case top st of
           Some node \<Rightarrow>
             (case heap st node of
                None \<Rightarrow> (None, st)
              | Some nd \<Rightarrow> (Some (val nd), recycle p node (st\<lparr>top := nxt nd\<rparr>)))
         | None \<Rightarrow> (Some EMPTY_STACK, st))
      else
        (let (node, st1) = alloc p st;
             st2 = st1\<lparr>heap := (heap st1)(node \<mapsto> \<lparr>val = arg, nxt = top st1\<rparr>)\<rparr>
         in (Some PUSH_SUCCESS, st2\<lparr>top := Some node\<rparr>)))"

text \<open>hstack.c: a thread-local pool; the test for the empty stack comes first.\<close>

definition HStackInit :: stack_struct where
  "HStackInit = \<lparr>heap = (\<lambda>_. None), free = (\<lambda>_. []), cuts = (\<lambda>_. 0), top = None\<rparr>"

definition h_serialPushPop :: "tid \<Rightarrow> val64 \<Rightarrow> stack_struct \<Rightarrow> val64 option \<times> stack_struct" where
  "h_serialPushPop p arg st =
     (if arg = POP_OP then
        (if top st = None then (Some EMPTY_STACK, st)
         else
           (let node = the (top st)
            in (case heap st node of
                  None \<Rightarrow> (None, st)
                | Some nd \<Rightarrow> (Some (val nd), recycle p node (st\<lparr>top := nxt nd\<rparr>)))))
      else
        (let (node, st1) = alloc p st;
             st2 = st1\<lparr>heap := (heap st1)(node \<mapsto> \<lparr>val = arg, nxt = top st1\<rparr>)\<rparr>
         in (Some PUSH_SUCCESS, st2\<lparr>top := Some node\<rparr>)))"

text \<open>oscistack.c: the pool of the POSIX thread, \<open>p\<close>, which its fibers share.\<close>

definition OsciStackInit :: stack_struct where
  "OsciStackInit = \<lparr>heap = (\<lambda>_. None), free = (\<lambda>_. []), cuts = (\<lambda>_. 0), top = None\<rparr>"

definition osci_serialPushPop :: "tid \<Rightarrow> val64 \<Rightarrow> stack_struct \<Rightarrow> val64 option \<times> stack_struct" where
  "osci_serialPushPop p arg st =
     (if arg = POP_OP then
        (case top st of
           Some node \<Rightarrow>
             (case heap st node of
                None \<Rightarrow> (None, st)
              | Some nd \<Rightarrow> (Some (val nd), recycle p node (st\<lparr>top := nxt nd\<rparr>)))
         | None \<Rightarrow> (Some EMPTY_STACK, st))
      else
        (let (node, st1) = alloc p st
         in (Some PUSH_SUCCESS,
             st1\<lparr>heap := (heap st1)(node \<mapsto> \<lparr>val = arg, nxt = top st1\<rparr>), top := Some node\<rparr>)))"

text \<open>fcstack.c: popped nodes are not recycled, and the return codes are \<^verbatim>\<open>-1\<close> and \<^verbatim>\<open>0\<close>.\<close>

definition FCStackInit :: stack_struct where
  "FCStackInit = \<lparr>heap = (\<lambda>_. None), free = (\<lambda>_. []), cuts = (\<lambda>_. 0), top = None\<rparr>"

definition fc_serialPushPop :: "tid \<Rightarrow> val64 \<Rightarrow> stack_struct \<Rightarrow> val64 option \<times> stack_struct" where
  "fc_serialPushPop p arg st =
     (if arg = POP_OP then
        (case top st of
           Some node \<Rightarrow>
             (case heap st node of
                None \<Rightarrow> (None, st)
              | Some nd \<Rightarrow> (Some (val nd), st\<lparr>top := nxt nd\<rparr>))
         | None \<Rightarrow> (Some (- 1), st))
      else
        (let (node, st1) = alloc p st;
             st2 = st1\<lparr>heap := (heap st1)(node \<mapsto> \<lparr>val = arg, nxt = top st1\<rparr>)\<rparr>
         in (Some 0, st2\<lparr>top := Some node\<rparr>)))"

section \<open>The abstract stack\<close>

datatype stack_op = Push val64 | Pop

fun stack_spec :: "val64 \<Rightarrow> tid \<Rightarrow> stack_op \<Rightarrow> val64 list \<Rightarrow> val64 option \<times> val64 list" where
  "stack_spec ec p (Push v) s = (Some PUSH_SUCCESS, v # s)"
| "stack_spec ec p Pop [] = (Some ec, [])"
| "stack_spec ec p Pop (v # s) = (Some v, s)"

text \<open>How an operation is passed to \<^verbatim>\<open>serialPushPop\<close>: the argument \<^verbatim>\<open>POP_OP\<close> is the
  pop, every other one is the value to push.\<close>

definition stack_arg :: "val64 \<Rightarrow> stack_op" where
  "stack_arg arg = (if arg = POP_OP then Pop else Push arg)"

text \<open>\<^verbatim>\<open>CCStackPush\<close> and \<^verbatim>\<open>CCStackPop\<close>, and their counterparts in the other files: the
  argument the combining algorithm is called with. A push of the value \<^verbatim>\<open>POP_OP\<close> cannot be told from
  a pop.\<close>

fun stack_request :: "stack_op \<Rightarrow> val64" where
  "stack_request (Push v) = v"
| "stack_request Pop = POP_OP"

definition pushes_pop_op :: "(stack_op, 'r) event list \<Rightarrow> bool" where
  "pushes_pop_op h \<longleftrightarrow> (\<exists>p. Call p (Push POP_OP) \<in> set h)"

lemma stack_arg_request:
  assumes "\<not> pushes_pop_op h"
  shows "map (map_event stack_arg id) (map (map_event stack_request id) h) = h"
proof -
  have "map_event stack_arg id (map_event stack_request id e) = e" if "e \<in> set h" for e
  proof (cases e)
    case (Call p x)
    with that assms show ?thesis by (cases x) (auto simp: stack_arg_def pushes_pop_op_def)
  qed simp
  then show ?thesis by (simp add: comp_def map_idI)
qed

text \<open>The nodes of the stack, distinct and in use; the values they hold.\<close>

definition stack_rep :: "stack_struct \<Rightarrow> addr list \<Rightarrow> val64 list \<Rightarrow> bool" where
  "stack_rep st xs vs \<longleftrightarrow> linked (heap st) (top st) xs vs \<and> distinct xs \<and> mem_ok (set xs) st"

definition stack_wf :: "stack_struct \<Rightarrow> bool" where
  "stack_wf st \<longleftrightarrow> (\<exists>xs vs. stack_rep st xs vs)"

definition stack_vals :: "stack_struct \<Rightarrow> val64 list" where
  "stack_vals st = (THE vs. \<exists>xs. linked (heap st) (top st) xs vs)"

lemma stack_vals_eq: "linked (heap st) (top st) xs vs \<Longrightarrow> stack_vals st = vs"
  unfolding stack_vals_def by (rule the_equality) (auto dest: linked_unique)

lemma stack_rep_wf: "stack_rep st xs vs \<Longrightarrow> stack_wf st \<and> stack_vals st = vs"
  unfolding stack_wf_def stack_rep_def by (blast intro: stack_vals_eq)

section \<open>The interface\<close>

text \<open>What the combining objects need of a \<^verbatim>\<open>serialPushPop\<close>: it keeps some invariant that
  makes the memory of the stack well formed and acts on the values.\<close>

locale stack_object =
  fixes init :: stack_struct
    and op :: "tid \<Rightarrow> val64 \<Rightarrow> stack_struct \<Rightarrow> val64 option \<times> stack_struct"
    and ec :: val64
  assumes init_rep: "stack_rep init [] []"
    and pop_empty: "stack_rep st [] [] \<Longrightarrow> op p POP_OP st = (Some ec, st)"
    and pop: "stack_rep st (x # xs) (v # vs) \<Longrightarrow>
                fst (op p POP_OP st) = Some v \<and> stack_rep (snd (op p POP_OP st)) xs vs"
    and push: "\<lbrakk>stack_rep st xs vs; arg \<noteq> POP_OP\<rbrakk> \<Longrightarrow>
                fst (op p arg st) = Some PUSH_SUCCESS \<and> (\<exists>x. stack_rep (snd (op p arg st)) (x # xs) (arg # vs))"
begin

lemma op_refines:
  assumes "stack_wf st"
  shows "stack_wf (snd (op p arg st))
     \<and> stack_spec ec p (stack_arg arg) (stack_vals st) = (fst (op p arg st), stack_vals (snd (op p arg st)))"
proof -
  from assms obtain xs vs where r: "stack_rep st xs vs" unfolding stack_wf_def by blast
  note vals = stack_rep_wf
  show ?thesis
  proof (cases "arg = POP_OP")
    case True
    show ?thesis
    proof (cases xs)
      case Nil
      with r have "vs = []" by (simp add: stack_rep_def)
      with r Nil True pop_empty vals [OF r] show ?thesis by (simp add: stack_arg_def)
    next
      case (Cons x xs')
      with r obtain v vs' where "vs = v # vs'"
        by (cases vs) (auto simp: stack_rep_def split: option.splits)
      with Cons r have "stack_rep st (x # xs') (v # vs')" by simp
      from vals [OF r] pop [OF this, of p] True \<open>vs = v # vs'\<close> show ?thesis
        by (auto simp: stack_arg_def dest: vals)
    qed
  next
    case False
    from push [OF r False, of p] vals [OF r] False show ?thesis
      by (auto simp: stack_arg_def dest: vals)
  qed
qed

sublocale refinement: object_refinement op "stack_spec ec" stack_wf stack_vals stack_arg id
  by unfold_locales (use op_refines in auto)

lemma init_vals: "stack_wf init \<and> stack_vals init = []"
  using stack_rep_wf [OF init_rep] .

lemma linearizable_stack:
  assumes "linearizable (pooled op) (init, c) h"
  shows "linearizable (stack_spec ec) [] (map (map_event stack_arg id) h)"
proof -
  have "stack_spec ec p x s = stack_spec ec q x s" for p q x s by (cases x; cases s) simp_all
  then have spec: "stack_spec ec p = stack_spec ec q" for p q by (intro ext)
  from object_refinement.linearizable_refines [OF pooled_refinement [OF refinement.object_refinement_axioms spec] assms]
  show ?thesis using init_vals by simp
qed

end

section \<open>The five stacks\<close>

lemma stack_init_rep: "stack_rep \<lparr>heap = (\<lambda>_. None), free = (\<lambda>_. []), cuts = (\<lambda>_. 0), top = None\<rparr> [] []"
  by (simp add: stack_rep_def mem_ok_def)

lemma stack_rep_ConsE:
  assumes "stack_rep st (x # xs) (v # vs)"
  obtains nd where "top st = Some x" "heap st x = Some nd" "val nd = v" "linked (heap st) (nxt nd) xs vs"
    "x \<notin> set xs" "distinct xs" "mem_ok (insert x (set xs)) st"
  using assms by (auto simp: stack_rep_def split: option.splits)

lemma pop_rep:
  assumes "stack_rep st (x # xs) (v # vs)" and "heap st x = Some nd"
  shows "stack_rep (recycle p x (st\<lparr>top := nxt nd\<rparr>)) xs vs"
proof -
  from assms(1) obtain nd' where nd: "heap st x = Some nd'" "linked (heap st) (nxt nd') xs vs"
      "x \<notin> set xs" "distinct xs" "mem_ok (insert x (set xs)) st"
    by (rule stack_rep_ConsE)
  have "mem_ok (insert x (set xs) - {x}) (recycle p x (st\<lparr>top := nxt nd\<rparr>))"
    using nd(5) by (intro recycle_ok) (simp_all add: mem_ok_def)
  with nd assms(2) show ?thesis by (simp add: stack_rep_def recycle_def)
qed

lemma push_rep:
  assumes "stack_rep st xs vs" and "alloc p st = (x, st1)"
  shows "stack_rep (st1\<lparr>heap := (heap st1)(x \<mapsto> \<lparr>val = arg, nxt = top st1\<rparr>), top := Some x\<rparr>) (x # xs) (arg # vs)"
proof -
  have m: "mem_ok (set xs) st" using assms(1) by (simp add: stack_rep_def)
  from alloc_ok [OF m, of p] assms(2) have "x \<notin> set xs" "mem_ok (insert x (set xs)) st1" by simp_all
  moreover have "heap st1 = heap st" "top st1 = top st"
    using assms(2) alloc_heap [of p st] by (auto simp: alloc_def split: list.splits)
  ultimately show ?thesis using assms(1) by (simp add: stack_rep_def mem_ok_def)
qed

interpretation cc_stack: stack_object CCStackInit cc_serialPushPop EMPTY_STACK
proof
  show "stack_rep CCStackInit [] []" by (simp add: CCStackInit_def stack_init_rep)
next
  fix st p assume "stack_rep st [] []"
  then show "cc_serialPushPop p POP_OP st = (Some EMPTY_STACK, st)"
    by (simp add: cc_serialPushPop_def stack_rep_def)
next
  fix st x xs v vs p assume r: "stack_rep st (x # xs) (v # vs)"
  then obtain nd where "top st = Some x" "heap st x = Some nd" "val nd = v" by (rule stack_rep_ConsE)
  with pop_rep [OF r] show "fst (cc_serialPushPop p POP_OP st) = Some v \<and> stack_rep (snd (cc_serialPushPop p POP_OP st)) xs vs"
    by (simp add: cc_serialPushPop_def)
next
  fix st xs vs p arg assume "stack_rep st xs vs" "arg \<noteq> POP_OP"
  with push_rep [of st xs vs p] show "fst (cc_serialPushPop p arg st) = Some PUSH_SUCCESS \<and>
      (\<exists>x. stack_rep (snd (cc_serialPushPop p arg st)) (x # xs) (arg # vs))"
    by (auto simp: cc_serialPushPop_def split: prod.splits)
qed

interpretation dsm_stack: stack_object DSMStackInit dsm_serialPushPop EMPTY_STACK
proof
  show "stack_rep DSMStackInit [] []" by (simp add: DSMStackInit_def stack_init_rep)
next
  fix st p assume "stack_rep st [] []"
  then show "dsm_serialPushPop p POP_OP st = (Some EMPTY_STACK, st)"
    by (simp add: dsm_serialPushPop_def stack_rep_def)
next
  fix st x xs v vs p assume r: "stack_rep st (x # xs) (v # vs)"
  then obtain nd where "top st = Some x" "heap st x = Some nd" "val nd = v" by (rule stack_rep_ConsE)
  with pop_rep [OF r] show "fst (dsm_serialPushPop p POP_OP st) = Some v \<and> stack_rep (snd (dsm_serialPushPop p POP_OP st)) xs vs"
    by (simp add: dsm_serialPushPop_def)
next
  fix st xs vs p arg assume "stack_rep st xs vs" "arg \<noteq> POP_OP"
  with push_rep [of st xs vs p] show "fst (dsm_serialPushPop p arg st) = Some PUSH_SUCCESS \<and>
      (\<exists>x. stack_rep (snd (dsm_serialPushPop p arg st)) (x # xs) (arg # vs))"
    by (auto simp: dsm_serialPushPop_def split: prod.splits)
qed

interpretation h_stack: stack_object HStackInit h_serialPushPop EMPTY_STACK
proof
  show "stack_rep HStackInit [] []" by (simp add: HStackInit_def stack_init_rep)
next
  fix st p assume "stack_rep st [] []"
  then show "h_serialPushPop p POP_OP st = (Some EMPTY_STACK, st)"
    by (simp add: h_serialPushPop_def stack_rep_def)
next
  fix st x xs v vs p assume r: "stack_rep st (x # xs) (v # vs)"
  then obtain nd where "top st = Some x" "heap st x = Some nd" "val nd = v" by (rule stack_rep_ConsE)
  with pop_rep [OF r] show "fst (h_serialPushPop p POP_OP st) = Some v \<and> stack_rep (snd (h_serialPushPop p POP_OP st)) xs vs"
    by (simp add: h_serialPushPop_def)
next
  fix st xs vs p arg assume "stack_rep st xs vs" "arg \<noteq> POP_OP"
  with push_rep [of st xs vs p] show "fst (h_serialPushPop p arg st) = Some PUSH_SUCCESS \<and>
      (\<exists>x. stack_rep (snd (h_serialPushPop p arg st)) (x # xs) (arg # vs))"
    by (auto simp: h_serialPushPop_def split: prod.splits)
qed

interpretation osci_stack: stack_object OsciStackInit osci_serialPushPop EMPTY_STACK
proof
  show "stack_rep OsciStackInit [] []" by (simp add: OsciStackInit_def stack_init_rep)
next
  fix st p assume "stack_rep st [] []"
  then show "osci_serialPushPop p POP_OP st = (Some EMPTY_STACK, st)"
    by (simp add: osci_serialPushPop_def stack_rep_def)
next
  fix st x xs v vs p assume r: "stack_rep st (x # xs) (v # vs)"
  then obtain nd where "top st = Some x" "heap st x = Some nd" "val nd = v" by (rule stack_rep_ConsE)
  with pop_rep [OF r] show "fst (osci_serialPushPop p POP_OP st) = Some v \<and> stack_rep (snd (osci_serialPushPop p POP_OP st)) xs vs"
    by (simp add: osci_serialPushPop_def)
next
  fix st xs vs p arg assume "stack_rep st xs vs" "arg \<noteq> POP_OP"
  with push_rep [of st xs vs p] show "fst (osci_serialPushPop p arg st) = Some PUSH_SUCCESS \<and>
      (\<exists>x. stack_rep (snd (osci_serialPushPop p arg st)) (x # xs) (arg # vs))"
    by (auto simp: osci_serialPushPop_def split: prod.splits)
qed

text \<open>Flat combining does not recycle: the popped node stays allocated, which the invariant of
  the other stacks does not forbid.\<close>

interpretation fc_stack: stack_object FCStackInit fc_serialPushPop "- 1"
proof
  show "stack_rep FCStackInit [] []" by (simp add: FCStackInit_def stack_init_rep)
next
  fix st p assume "stack_rep st [] []"
  then show "fc_serialPushPop p POP_OP st = (Some (- 1), st)"
    by (simp add: fc_serialPushPop_def stack_rep_def)
next
  fix st x xs v vs p assume r: "stack_rep st (x # xs) (v # vs)"
  then obtain nd where "top st = Some x" "heap st x = Some nd" "val nd = v" "linked (heap st) (nxt nd) xs vs"
      "distinct xs" "mem_ok (insert x (set xs)) st" by (rule stack_rep_ConsE)
  then show "fst (fc_serialPushPop p POP_OP st) = Some v \<and> stack_rep (snd (fc_serialPushPop p POP_OP st)) xs vs"
    by (auto simp: fc_serialPushPop_def stack_rep_def mem_ok_def)
next
  fix st xs vs p arg assume "stack_rep st xs vs" "arg \<noteq> POP_OP"
  with push_rep [of st xs vs p] show "fst (fc_serialPushPop p arg st) = Some PUSH_SUCCESS \<and>
      (\<exists>x. stack_rep (snd (fc_serialPushPop p arg st)) (x # xs) (arg # vs))"
    by (auto simp: fc_serialPushPop_def PUSH_SUCCESS_def split: prod.splits)
qed

section \<open>Properties\<close>

text \<open>C28. All five \<^verbatim>\<open>serialPushPop\<close> functions are a last-in-first-out stack over memory: they keep
  the linked list well formed (no null or dangling pointer, no node used twice) and return and leave
  exactly what the stack of values gives. The argument \<^verbatim>\<open>INT_MIN\<close> is taken for a pop.\<close>

theorem serial_stacks_lifo:
  assumes "stack_wf st" and "f \<in> {cc_serialPushPop, dsm_serialPushPop, h_serialPushPop, osci_serialPushPop}"
  shows "stack_wf (snd (f p arg st))
     \<and> stack_spec EMPTY_STACK p (stack_arg arg) (stack_vals st) = (fst (f p arg st), stack_vals (snd (f p arg st)))
     \<and> stack_wf (snd (fc_serialPushPop p arg st))
     \<and> stack_spec (- 1) p (stack_arg arg) (stack_vals st)
         = (fst (fc_serialPushPop p arg st), stack_vals (snd (fc_serialPushPop p arg st)))"
  using assms fc_stack.op_refines cc_stack.op_refines dsm_stack.op_refines h_stack.op_refines
    osci_stack.op_refines by auto

theorem serial_stacks_lifo_witness:
  "stack_vals (snd (cc_serialPushPop 3 POP_OP (snd (cc_serialPushPop 2 9 (snd (cc_serialPushPop 0 7 CCStackInit)))))) = [7]"
proof -
  have neq: "(7 :: val64) \<noteq> POP_OP" "(9 :: val64) \<noteq> POP_OP" by (simp_all add: POP_OP_def INT_MIN64_def)
  let ?s1 = "snd (cc_serialPushPop 0 7 CCStackInit)" and ?f = "cc_serialPushPop"
  have 1: "stack_wf ?s1 \<and> stack_vals ?s1 = [7]"
    using serial_stacks_lifo [of CCStackInit ?f 0 7] cc_stack.init_vals neq by (simp add: stack_arg_def)
  let ?s2 = "snd (?f 2 9 ?s1)"
  have 2: "stack_wf ?s2 \<and> stack_vals ?s2 = [9, 7]"
    using serial_stacks_lifo [of ?s1 ?f 2 9] 1 neq by (simp add: stack_arg_def)
  show ?thesis using serial_stacks_lifo [of ?s2 ?f 3 POP_OP] 2 by (simp add: stack_arg_def)
qed

end
