(* ===== verification/QueueObjects.thy ===== *)
theory QueueObjects
  imports Nodes Linearizability
begin

text \<open>
  The queues of ccqueue.c, dsmqueue.c, hqueue.c, osciqueue.c and fcqueue.c: a linked list with a
  dummy node in front, whose two ends are served by two combining objects. Here are the sequential
  operations \<^verbatim>\<open>serialEnqueue\<close> and \<^verbatim>\<open>serialDequeue\<close> of each file; \<open>p\<close> is the thread that
  runs them. Dequeue follows the list until it meets a value other than \<^verbatim>\<open>GUARD_VALUE\<close>; as
  in the code this is a recursion with no bound, so it is a partial function and the lemmas show
  that it returns on every well-formed queue. A return value \<open>None\<close> is a memory fault.
\<close>

section \<open>State\<close>

record queue_struct = nodes +
  first :: addr
  last_node :: addr

definition set_next :: "addr \<Rightarrow> addr option \<Rightarrow> ('a nodes_scheme) \<Rightarrow> ('a nodes_scheme) option" where
  "set_next x n st = (case heap st x of None \<Rightarrow> None | Some nd \<Rightarrow> Some (st\<lparr>heap := (heap st)(x \<mapsto> nd\<lparr>nxt := n\<rparr>)\<rparr>))"

section \<open>Operations\<close>

text \<open>The two operations a thread can ask for.\<close>

datatype queue_op = Enq val64 | Deq

text \<open>ccqueue.c.\<close>

definition CCQueueInit :: queue_struct where
  "CCQueueInit = \<lparr>heap = [Guard \<mapsto> \<lparr>val = GUARD_VALUE, nxt = None\<rparr>], free = (\<lambda>_. []), cuts = (\<lambda>_. 0),
     first = Guard, last_node = Guard\<rparr>"

definition cc_serialEnqueue :: "tid \<Rightarrow> val64 \<Rightarrow> queue_struct \<Rightarrow> val64 option \<times> queue_struct" where
  "cc_serialEnqueue p arg st =
     (let (node, st1) = alloc p st;
          st2 = st1\<lparr>heap := (heap st1)(node \<mapsto> \<lparr>val = arg, nxt = None\<rparr>)\<rparr>
      in (case set_next (last_node st2) (Some node) st2 of
            None \<Rightarrow> (None, st2)
          | Some st3 \<Rightarrow> (Some ENQUEUE_SUCCESS, st3\<lparr>last_node := node\<rparr>)))"

partial_function (option) cc_serialDequeue :: "tid \<Rightarrow> queue_struct \<Rightarrow> (val64 option \<times> queue_struct) option" where
  "cc_serialDequeue p st =
     (case heap st (first st) of
        None \<Rightarrow> Some (None, st)
      | Some f \<Rightarrow>
          (case nxt f of
             None \<Rightarrow> Some (Some EMPTY_QUEUE, st)
           | Some node \<Rightarrow>
               (let prev = first st; st1 = st\<lparr>first := node\<rparr>
                in (case heap st1 node of
                      None \<Rightarrow> Some (None, st1)
                    | Some nd \<Rightarrow>
                        if val nd = GUARD_VALUE then cc_serialDequeue p st1
                        else Some (Some (val nd), recycle p prev st1)))))"

definition cc_queue_op :: "tid \<Rightarrow> queue_op \<Rightarrow> queue_struct \<Rightarrow> val64 option \<times> queue_struct" where
  "cc_queue_op p op st =
     (case op of Enq arg \<Rightarrow> cc_serialEnqueue p arg st
      | Deq \<Rightarrow> (case cc_serialDequeue p st of None \<Rightarrow> (None, st) | Some r \<Rightarrow> r))"

text \<open>dsmqueue.c.\<close>

definition DSMQueueInit :: queue_struct where
  "DSMQueueInit = \<lparr>heap = [Guard \<mapsto> \<lparr>val = GUARD_VALUE, nxt = None\<rparr>], free = (\<lambda>_. []), cuts = (\<lambda>_. 0),
     first = Guard, last_node = Guard\<rparr>"

definition dsm_serialEnqueue :: "tid \<Rightarrow> val64 \<Rightarrow> queue_struct \<Rightarrow> val64 option \<times> queue_struct" where
  "dsm_serialEnqueue p arg st =
     (let (node, st1) = alloc p st;
          st2 = st1\<lparr>heap := (heap st1)(node \<mapsto> \<lparr>val = arg, nxt = None\<rparr>)\<rparr>
      in (case set_next (last_node st2) (Some node) st2 of
            None \<Rightarrow> (None, st2)
          | Some st3 \<Rightarrow> (Some ENQUEUE_SUCCESS, st3\<lparr>last_node := node\<rparr>)))"

partial_function (option) dsm_serialDequeue :: "tid \<Rightarrow> queue_struct \<Rightarrow> (val64 option \<times> queue_struct) option" where
  "dsm_serialDequeue p st =
     (case heap st (first st) of
        None \<Rightarrow> Some (None, st)
      | Some f \<Rightarrow>
          (case nxt f of
             None \<Rightarrow> Some (Some EMPTY_QUEUE, st)
           | Some node \<Rightarrow>
               (let prev = first st; st1 = st\<lparr>first := node\<rparr>
                in (case heap st1 node of
                      None \<Rightarrow> Some (None, st1)
                    | Some nd \<Rightarrow>
                        if val nd = GUARD_VALUE then dsm_serialDequeue p st1
                        else Some (Some (val nd), recycle p prev st1)))))"

definition dsm_queue_op :: "tid \<Rightarrow> queue_op \<Rightarrow> queue_struct \<Rightarrow> val64 option \<times> queue_struct" where
  "dsm_queue_op p op st =
     (case op of Enq arg \<Rightarrow> dsm_serialEnqueue p arg st
      | Deq \<Rightarrow> (case dsm_serialDequeue p st of None \<Rightarrow> (None, st) | Some r \<Rightarrow> r))"

text \<open>hqueue.c.\<close>

definition HQueueInit :: queue_struct where
  "HQueueInit = \<lparr>heap = [Guard \<mapsto> \<lparr>val = GUARD_VALUE, nxt = None\<rparr>], free = (\<lambda>_. []), cuts = (\<lambda>_. 0),
     first = Guard, last_node = Guard\<rparr>"

definition h_serialEnqueue :: "tid \<Rightarrow> val64 \<Rightarrow> queue_struct \<Rightarrow> val64 option \<times> queue_struct" where
  "h_serialEnqueue p arg st =
     (let (node, st1) = alloc p st;
          st2 = st1\<lparr>heap := (heap st1)(node \<mapsto> \<lparr>val = arg, nxt = None\<rparr>)\<rparr>
      in (case set_next (last_node st2) (Some node) st2 of
            None \<Rightarrow> (None, st2)
          | Some st3 \<Rightarrow> (Some ENQUEUE_SUCCESS, st3\<lparr>last_node := node\<rparr>)))"

partial_function (option) h_serialDequeue :: "tid \<Rightarrow> queue_struct \<Rightarrow> (val64 option \<times> queue_struct) option" where
  "h_serialDequeue p st =
     (case heap st (first st) of
        None \<Rightarrow> Some (None, st)
      | Some f \<Rightarrow>
          (case nxt f of
             None \<Rightarrow> Some (Some EMPTY_QUEUE, st)
           | Some node \<Rightarrow>
               (let prev = first st; st1 = st\<lparr>first := node\<rparr>
                in (case heap st1 node of
                      None \<Rightarrow> Some (None, st1)
                    | Some nd \<Rightarrow>
                        if val nd = GUARD_VALUE then h_serialDequeue p st1
                        else Some (Some (val nd), recycle p prev st1)))))"

definition h_queue_op :: "tid \<Rightarrow> queue_op \<Rightarrow> queue_struct \<Rightarrow> val64 option \<times> queue_struct" where
  "h_queue_op p op st =
     (case op of Enq arg \<Rightarrow> h_serialEnqueue p arg st
      | Deq \<Rightarrow> (case h_serialDequeue p st of None \<Rightarrow> (None, st) | Some r \<Rightarrow> r))"

text \<open>osciqueue.c.\<close>

definition OsciQueueInit :: queue_struct where
  "OsciQueueInit = \<lparr>heap = [Guard \<mapsto> \<lparr>val = GUARD_VALUE, nxt = None\<rparr>], free = (\<lambda>_. []), cuts = (\<lambda>_. 0),
     first = Guard, last_node = Guard\<rparr>"

definition osci_serialEnqueue :: "tid \<Rightarrow> val64 \<Rightarrow> queue_struct \<Rightarrow> val64 option \<times> queue_struct" where
  "osci_serialEnqueue p arg st =
     (let (node, st1) = alloc p st;
          st2 = st1\<lparr>heap := (heap st1)(node \<mapsto> \<lparr>val = arg, nxt = None\<rparr>)\<rparr>
      in (case set_next (last_node st2) (Some node) st2 of
            None \<Rightarrow> (None, st2)
          | Some st3 \<Rightarrow> (Some ENQUEUE_SUCCESS, st3\<lparr>last_node := node\<rparr>)))"

partial_function (option) osci_serialDequeue :: "tid \<Rightarrow> queue_struct \<Rightarrow> (val64 option \<times> queue_struct) option" where
  "osci_serialDequeue p st =
     (case heap st (first st) of
        None \<Rightarrow> Some (None, st)
      | Some f \<Rightarrow>
          (case nxt f of
             None \<Rightarrow> Some (Some EMPTY_QUEUE, st)
           | Some node \<Rightarrow>
               (let prev = first st; st1 = st\<lparr>first := node\<rparr>
                in (case heap st1 node of
                      None \<Rightarrow> Some (None, st1)
                    | Some nd \<Rightarrow>
                        if val nd = GUARD_VALUE then osci_serialDequeue p st1
                        else Some (Some (val nd), recycle p prev st1)))))"

definition osci_queue_op :: "tid \<Rightarrow> queue_op \<Rightarrow> queue_struct \<Rightarrow> val64 option \<times> queue_struct" where
  "osci_queue_op p op st =
     (case op of Enq arg \<Rightarrow> osci_serialEnqueue p arg st
      | Deq \<Rightarrow> (case osci_serialDequeue p st of None \<Rightarrow> (None, st) | Some r \<Rightarrow> r))"

text \<open>fcqueue.c: the dummy holds \<^verbatim>\<open>INT_MIN\<close>, nothing is recycled, both return codes are
  \<^verbatim>\<open>-1\<close>, and the dequeue returns the value of the node that was the dummy so far. The enqueue
  request passes the thread's \<^verbatim>\<open>pid\<close> on instead of the argument (line 53).\<close>

definition FCQueueInit :: queue_struct where
  "FCQueueInit = \<lparr>heap = [Guard \<mapsto> \<lparr>val = INT_MIN64, nxt = None\<rparr>], free = (\<lambda>_. []), cuts = (\<lambda>_. 0),
     first = Guard, last_node = Guard\<rparr>"

definition fc_serialEnqueue :: "tid \<Rightarrow> val64 \<Rightarrow> queue_struct \<Rightarrow> val64 option \<times> queue_struct" where
  "fc_serialEnqueue p arg st =
     (let (node, st1) = alloc p st;
          st2 = st1\<lparr>heap := (heap st1)(node \<mapsto> \<lparr>val = arg, nxt = None\<rparr>)\<rparr>
      in (case set_next (last_node st2) (Some node) st2 of
            None \<Rightarrow> (None, st2)
          | Some st3 \<Rightarrow> (Some (- 1), st3\<lparr>last_node := node\<rparr>)))"

definition fc_serialDequeue :: "tid \<Rightarrow> queue_struct \<Rightarrow> val64 option \<times> queue_struct" where
  "fc_serialDequeue p st =
     (case heap st (first st) of
        None \<Rightarrow> (None, st)
      | Some node \<Rightarrow>
          (case nxt node of
             Some n \<Rightarrow> (Some (val node), st\<lparr>first := n\<rparr>)
           | None \<Rightarrow> (Some (- 1), st)))"

definition FCQueueApplyEnqueue_arg :: "tid \<Rightarrow> val64 \<Rightarrow> val64" where
  "FCQueueApplyEnqueue_arg pid arg = of_nat pid"

definition fc_queue_op :: "tid \<Rightarrow> queue_op \<Rightarrow> queue_struct \<Rightarrow> val64 option \<times> queue_struct" where
  "fc_queue_op p op st =
     (case op of Enq arg \<Rightarrow> fc_serialEnqueue p (FCQueueApplyEnqueue_arg p arg) st
      | Deq \<Rightarrow> fc_serialDequeue p st)"

section \<open>The abstract queue\<close>

text \<open>A queue of values from which a dequeue drops the leading guard values; it returns the first
  other value, if there is one.\<close>

fun queue_spec :: "tid \<Rightarrow> queue_op \<Rightarrow> val64 list \<Rightarrow> val64 option \<times> val64 list" where
  "queue_spec p (Enq v) q = (Some ENQUEUE_SUCCESS, q @ [v])"
| "queue_spec p Deq [] = (Some EMPTY_QUEUE, [])"
| "queue_spec p Deq (v # q) = (if v = GUARD_VALUE then queue_spec p Deq q else (Some v, q))"

text \<open>The list in memory: the dummy, the nodes of the queue, and the last of them.\<close>

definition queue_rep :: "queue_struct \<Rightarrow> addr list \<Rightarrow> val64 list \<Rightarrow> bool" where
  "queue_rep st xs vs \<longleftrightarrow> xs \<noteq> [] \<and> linked (heap st) (Some (first st)) xs vs \<and> last_node st = last xs
     \<and> distinct xs \<and> mem_ok (set xs) st"

definition queue_wf :: "queue_struct \<Rightarrow> bool" where
  "queue_wf st \<longleftrightarrow> (\<exists>xs vs. queue_rep st xs vs)"

definition all_vals :: "queue_struct \<Rightarrow> val64 list" where
  "all_vals st = (THE vs. \<exists>xs. linked (heap st) (Some (first st)) xs vs)"

definition queue_vals :: "queue_struct \<Rightarrow> val64 list" where
  "queue_vals st = tl (all_vals st)"

lemma queue_rep_wf: "queue_rep st xs vs \<Longrightarrow> queue_wf st \<and> all_vals st = vs"
  unfolding queue_wf_def queue_rep_def all_vals_def
  by (auto intro!: the_equality dest: linked_unique)

lemma queue_rep_nonempty: "queue_rep st xs vs \<Longrightarrow> \<exists>x xs' v vs'. xs = x # xs' \<and> vs = v # vs' \<and> length vs' = length xs'"
  by (auto simp: queue_rep_def neq_Nil_conv dest!: linked_length length_Suc_conv [THEN iffD1] elim!: linked_SomeE)

section \<open>The interface\<close>

locale queue_object =
  fixes init :: queue_struct
    and enq :: "tid \<Rightarrow> val64 \<Rightarrow> queue_struct \<Rightarrow> val64 option \<times> queue_struct"
    and deq :: "tid \<Rightarrow> queue_struct \<Rightarrow> (val64 option \<times> queue_struct) option"
  assumes init_rep: "queue_rep init [Guard] [GUARD_VALUE]"
    and enq: "queue_rep st xs vs \<Longrightarrow>
           fst (enq p arg st) = Some ENQUEUE_SUCCESS \<and> (\<exists>x. queue_rep (snd (enq p arg st)) (xs @ [x]) (vs @ [arg]))"
    and deq_empty: "queue_rep st [x] [v] \<Longrightarrow> deq p st = Some (Some EMPTY_QUEUE, st)"
    and deq_guard: "queue_rep st (x # y # xs) (v # GUARD_VALUE # vs) \<Longrightarrow>
           \<exists>st1. deq p st = deq p st1 \<and> queue_rep st1 (y # xs) (GUARD_VALUE # vs)"
    and deq_value: "\<lbrakk>queue_rep st (x # y # xs) (v # w # vs); w \<noteq> GUARD_VALUE\<rbrakk> \<Longrightarrow>
           \<exists>st1. deq p st = Some (Some w, st1) \<and> queue_rep st1 (y # xs) (w # vs)"
begin

definition apply_op :: "tid \<Rightarrow> queue_op \<Rightarrow> queue_struct \<Rightarrow> val64 option \<times> queue_struct" where
  "apply_op p op st = (case op of Enq arg \<Rightarrow> enq p arg st | Deq \<Rightarrow> (case deq p st of None \<Rightarrow> (None, st) | Some r \<Rightarrow> r))"

lemma deq_total:
  "queue_rep st (x # xs) (v # vs) \<Longrightarrow>
   \<exists>r st' ys w ws. deq p st = Some (r, st') \<and> queue_rep st' ys (w # ws) \<and> queue_spec p Deq vs = (r, ws)"
proof (induction vs arbitrary: st x xs v)
  case Nil
  then have "xs = []" by (auto simp: queue_rep_def split: option.splits dest: linked_length)
  with Nil deq_empty [of st x v p] show ?case by auto
next
  case (Cons w vs)
  then obtain y ys where xs: "xs = y # ys" using queue_rep_nonempty by (cases xs) fastforce+
  show ?case
  proof (cases "w = GUARD_VALUE")
    case True
    with Cons.prems xs deq_guard [of st x y ys v vs p] obtain st1 where
      "deq p st = deq p st1" "queue_rep st1 (y # ys) (GUARD_VALUE # vs)" by blast
    with Cons.IH [OF this(2)] True show ?thesis by auto
  next
    case False
    with Cons.prems xs deq_value [of st x y ys v w vs p] show ?thesis by fastforce
  qed
qed

lemma op_refines:
  assumes "queue_wf st"
  shows "queue_wf (snd (apply_op p op st))
     \<and> queue_spec p op (queue_vals st) = (fst (apply_op p op st), queue_vals (snd (apply_op p op st)))"
proof -
  from assms obtain xs0 vs0 where "queue_rep st xs0 vs0" unfolding queue_wf_def by blast
  with queue_rep_nonempty obtain x xs v vs where r: "queue_rep st (x # xs) (v # vs)" by blast
  then have vals: "queue_vals st = vs" using queue_rep_wf [OF r] by (simp add: queue_vals_def)
  show ?thesis
  proof (cases op)
    case (Enq arg)
    from enq [OF r, of p arg] obtain y where
      "fst (enq p arg st) = Some ENQUEUE_SUCCESS" "queue_rep (snd (enq p arg st)) ((x # xs) @ [y]) ((v # vs) @ [arg])" by blast
    with Enq vals queue_rep_wf [OF this(2)] show ?thesis
      by (simp add: apply_op_def queue_vals_def)
  next
    case Deq
    from deq_total [OF r, of p] obtain a st' ys w ws where
      d: "deq p st = Some (a, st')" "queue_rep st' ys (w # ws)" "queue_spec p Deq vs = (a, ws)" by blast
    with Deq vals queue_rep_wf [OF d(2)] show ?thesis
      by (simp add: apply_op_def queue_vals_def)
  qed
qed

sublocale refinement: object_refinement apply_op queue_spec queue_wf queue_vals id id
  by unfold_locales (use op_refines in auto)

lemma init_vals: "queue_wf init \<and> queue_vals init = []"
  using queue_rep_wf [OF init_rep] by (simp add: queue_vals_def)

lemma linearizable_queue:
  "linearizable apply_op init h \<Longrightarrow> linearizable queue_spec [] h"
  using refinement.linearizable_refines [of init h] init_vals by (simp add: event.map_id0)

end

section \<open>The four queues\<close>

lemma queue_init_rep:
  "queue_rep \<lparr>heap = [Guard \<mapsto> \<lparr>val = g, nxt = None\<rparr>], free = (\<lambda>_. []), cuts = (\<lambda>_. 0),
     first = Guard, last_node = Guard\<rparr> [Guard] [g]"
  by (simp add: queue_rep_def mem_ok_def)

text \<open>The nodes of a queue have contents, so the store to \<^verbatim>\<open>last->next\<close> is no fault.\<close>

lemma linked_heap: "\<lbrakk>linked h a xs vs; x \<in> set xs\<rbrakk> \<Longrightarrow> h x \<noteq> None"
  by (induction xs arbitrary: a vs) (auto split: option.splits list.splits)

lemma enqueue_rep:
  assumes r: "queue_rep st xs vs" and a: "alloc p st = (x, st1)"
  shows "\<exists>st3. set_next (last_node st1) (Some x) (st1\<lparr>heap := (heap st1)(x \<mapsto> \<lparr>val = arg, nxt = None\<rparr>)\<rparr>) = Some st3
     \<and> queue_rep (st3\<lparr>last_node := x\<rparr>) (xs @ [x]) (vs @ [arg])"
proof -
  have m: "mem_ok (set xs) st" and ne: "xs \<noteq> []" and d: "distinct xs"
    and l: "linked (heap st) (Some (first st)) xs vs" "last_node st = last xs"
    using r by (simp_all add: queue_rep_def)
  from alloc_ok [OF m, of p] a have x: "x \<notin> set xs" "mem_ok (insert x (set xs)) st1" by simp_all
  have s1: "heap st1 = heap st" "first st1 = first st" "last_node st1 = last_node st"
    using a alloc_heap [of p st] by (auto simp: alloc_def split: list.splits)
  from linked_heap [OF l(1), of "last xs"] ne obtain nd where nd: "heap st (last xs) = Some nd" by auto
  have ll: "last xs \<noteq> x" using ne x(1) by auto
  let ?h = "(heap st)(x \<mapsto> \<lparr>val = arg, nxt = None\<rparr>)"
  let ?st3 = "st1\<lparr>heap := ?h(last xs \<mapsto> nd\<lparr>nxt := Some x\<rparr>)\<rparr>"
  have "set_next (last_node st1) (Some x) (st1\<lparr>heap := (heap st1)(x \<mapsto> \<lparr>val = arg, nxt = None\<rparr>)\<rparr>) = Some ?st3"
    using s1 l(2) nd ll by (simp add: set_next_def)
  moreover have "linked (?h(last xs \<mapsto> nd\<lparr>nxt := Some x\<rparr>)) (Some (first st)) (xs @ [x]) (vs @ [arg])"
    using l(1) x(1) ne d nd ll by (intro linked_snoc) simp_all
  then have "queue_rep (?st3\<lparr>last_node := x\<rparr>) (xs @ [x]) (vs @ [arg])"
    using x d s1 by (simp add: queue_rep_def mem_ok_def)
  ultimately show ?thesis by blast
qed

lemma dequeue_rep:
  assumes "queue_rep st (x # y # xs) (v # w # vs)"
  shows "\<exists>nx ny. heap st (first st) = Some nx \<and> nxt nx = Some y \<and> heap st y = Some ny \<and> val ny = w \<and> val nx = v
     \<and> first st = x
     \<and> queue_rep (st\<lparr>first := y\<rparr>) (y # xs) (w # vs) \<and> queue_rep (recycle p x (st\<lparr>first := y\<rparr>)) (y # xs) (w # vs)"
proof -
  have l: "linked (heap st) (Some (first st)) (x # y # xs) (v # w # vs)" "last_node st = last (y # xs)"
    "x \<notin> set (y # xs)" "distinct (y # xs)" and m: "mem_ok (insert x (set (y # xs))) st"
    using assms by (simp_all add: queue_rep_def)
  from l(1) obtain nx where nx: "first st = x" "heap st x = Some nx" "val nx = v" "linked (heap st) (nxt nx) (y # xs) (w # vs)"
    by (auto elim: linked_ConsE split: option.splits)
  from nx(4) obtain ny where ny: "nxt nx = Some y" "heap st y = Some ny" "val ny = w"
    by (auto split: option.splits)
  have "mem_ok (set (y # xs)) (st\<lparr>first := y\<rparr>)" using m by (simp add: mem_ok_def)
  moreover have "mem_ok (insert x (set (y # xs)) - {x}) (recycle p x (st\<lparr>first := y\<rparr>))"
    using m by (intro recycle_ok) (simp_all add: mem_ok_def)
  then have "mem_ok (set (y # xs)) (recycle p x (st\<lparr>first := y\<rparr>))" using l(3) by simp
  ultimately have "queue_rep (st\<lparr>first := y\<rparr>) (y # xs) (w # vs)" "queue_rep (recycle p x (st\<lparr>first := y\<rparr>)) (y # xs) (w # vs)"
    using l nx ny by (auto simp: queue_rep_def recycle_def)
  with nx ny show ?thesis by auto
qed

interpretation cc_queue: queue_object CCQueueInit cc_serialEnqueue cc_serialDequeue
  rewrites "queue_object.apply_op cc_serialEnqueue cc_serialDequeue = cc_queue_op"
proof -
  show i: "queue_object CCQueueInit cc_serialEnqueue cc_serialDequeue"
  proof
    show "queue_rep CCQueueInit [Guard] [GUARD_VALUE]" by (simp add: CCQueueInit_def queue_init_rep)
  next
    fix st xs vs p arg assume "queue_rep st xs vs"
    from enqueue_rep [OF this, of p "fst (alloc p st)" "snd (alloc p st)" arg]
    show "fst (cc_serialEnqueue p arg st) = Some ENQUEUE_SUCCESS
        \<and> (\<exists>x. queue_rep (snd (cc_serialEnqueue p arg st)) (xs @ [x]) (vs @ [arg]))"
      by (auto simp: cc_serialEnqueue_def split: prod.splits)
  next
    fix st x v p assume "queue_rep st [x] [v]"
    then show "cc_serialDequeue p st = Some (Some EMPTY_QUEUE, st)"
      by (subst cc_serialDequeue.simps) (auto simp: queue_rep_def split: option.splits)
  next
    fix st x y xs v vs p assume "queue_rep st (x # y # xs) (v # GUARD_VALUE # vs)"
    from dequeue_rep [OF this, of p] show "\<exists>st1. cc_serialDequeue p st = cc_serialDequeue p st1
        \<and> queue_rep st1 (y # xs) (GUARD_VALUE # vs)"
      by (intro exI [of _ "st\<lparr>first := y\<rparr>"]) (subst cc_serialDequeue.simps, auto)
  next
    fix st x y xs v w vs p assume "queue_rep st (x # y # xs) (v # w # vs)" "w \<noteq> GUARD_VALUE"
    with dequeue_rep [OF this(1), of p] show "\<exists>st1. cc_serialDequeue p st = Some (Some w, st1)
        \<and> queue_rep st1 (y # xs) (w # vs)"
      by (intro exI [of _ "recycle p x (st\<lparr>first := y\<rparr>)"]) (subst cc_serialDequeue.simps, auto)
  qed
  show "queue_object.apply_op cc_serialEnqueue cc_serialDequeue = cc_queue_op"
    by (intro ext) (simp add: queue_object.apply_op_def [OF i] cc_queue_op_def)
qed

interpretation dsm_queue: queue_object DSMQueueInit dsm_serialEnqueue dsm_serialDequeue
  rewrites "queue_object.apply_op dsm_serialEnqueue dsm_serialDequeue = dsm_queue_op"
proof -
  show i: "queue_object DSMQueueInit dsm_serialEnqueue dsm_serialDequeue"
  proof
    show "queue_rep DSMQueueInit [Guard] [GUARD_VALUE]" by (simp add: DSMQueueInit_def queue_init_rep)
  next
    fix st xs vs p arg assume "queue_rep st xs vs"
    from enqueue_rep [OF this, of p "fst (alloc p st)" "snd (alloc p st)" arg]
    show "fst (dsm_serialEnqueue p arg st) = Some ENQUEUE_SUCCESS
        \<and> (\<exists>x. queue_rep (snd (dsm_serialEnqueue p arg st)) (xs @ [x]) (vs @ [arg]))"
      by (auto simp: dsm_serialEnqueue_def split: prod.splits)
  next
    fix st x v p assume "queue_rep st [x] [v]"
    then show "dsm_serialDequeue p st = Some (Some EMPTY_QUEUE, st)"
      by (subst dsm_serialDequeue.simps) (auto simp: queue_rep_def split: option.splits)
  next
    fix st x y xs v vs p assume "queue_rep st (x # y # xs) (v # GUARD_VALUE # vs)"
    from dequeue_rep [OF this, of p] show "\<exists>st1. dsm_serialDequeue p st = dsm_serialDequeue p st1
        \<and> queue_rep st1 (y # xs) (GUARD_VALUE # vs)"
      by (intro exI [of _ "st\<lparr>first := y\<rparr>"]) (subst dsm_serialDequeue.simps, auto)
  next
    fix st x y xs v w vs p assume "queue_rep st (x # y # xs) (v # w # vs)" "w \<noteq> GUARD_VALUE"
    with dequeue_rep [OF this(1), of p] show "\<exists>st1. dsm_serialDequeue p st = Some (Some w, st1)
        \<and> queue_rep st1 (y # xs) (w # vs)"
      by (intro exI [of _ "recycle p x (st\<lparr>first := y\<rparr>)"]) (subst dsm_serialDequeue.simps, auto)
  qed
  show "queue_object.apply_op dsm_serialEnqueue dsm_serialDequeue = dsm_queue_op"
    by (intro ext) (simp add: queue_object.apply_op_def [OF i] dsm_queue_op_def)
qed

interpretation h_queue: queue_object HQueueInit h_serialEnqueue h_serialDequeue
  rewrites "queue_object.apply_op h_serialEnqueue h_serialDequeue = h_queue_op"
proof -
  show i: "queue_object HQueueInit h_serialEnqueue h_serialDequeue"
  proof
    show "queue_rep HQueueInit [Guard] [GUARD_VALUE]" by (simp add: HQueueInit_def queue_init_rep)
  next
    fix st xs vs p arg assume "queue_rep st xs vs"
    from enqueue_rep [OF this, of p "fst (alloc p st)" "snd (alloc p st)" arg]
    show "fst (h_serialEnqueue p arg st) = Some ENQUEUE_SUCCESS
        \<and> (\<exists>x. queue_rep (snd (h_serialEnqueue p arg st)) (xs @ [x]) (vs @ [arg]))"
      by (auto simp: h_serialEnqueue_def split: prod.splits)
  next
    fix st x v p assume "queue_rep st [x] [v]"
    then show "h_serialDequeue p st = Some (Some EMPTY_QUEUE, st)"
      by (subst h_serialDequeue.simps) (auto simp: queue_rep_def split: option.splits)
  next
    fix st x y xs v vs p assume "queue_rep st (x # y # xs) (v # GUARD_VALUE # vs)"
    from dequeue_rep [OF this, of p] show "\<exists>st1. h_serialDequeue p st = h_serialDequeue p st1
        \<and> queue_rep st1 (y # xs) (GUARD_VALUE # vs)"
      by (intro exI [of _ "st\<lparr>first := y\<rparr>"]) (subst h_serialDequeue.simps, auto)
  next
    fix st x y xs v w vs p assume "queue_rep st (x # y # xs) (v # w # vs)" "w \<noteq> GUARD_VALUE"
    with dequeue_rep [OF this(1), of p] show "\<exists>st1. h_serialDequeue p st = Some (Some w, st1)
        \<and> queue_rep st1 (y # xs) (w # vs)"
      by (intro exI [of _ "recycle p x (st\<lparr>first := y\<rparr>)"]) (subst h_serialDequeue.simps, auto)
  qed
  show "queue_object.apply_op h_serialEnqueue h_serialDequeue = h_queue_op"
    by (intro ext) (simp add: queue_object.apply_op_def [OF i] h_queue_op_def)
qed

interpretation osci_queue: queue_object OsciQueueInit osci_serialEnqueue osci_serialDequeue
  rewrites "queue_object.apply_op osci_serialEnqueue osci_serialDequeue = osci_queue_op"
proof -
  show i: "queue_object OsciQueueInit osci_serialEnqueue osci_serialDequeue"
  proof
    show "queue_rep OsciQueueInit [Guard] [GUARD_VALUE]" by (simp add: OsciQueueInit_def queue_init_rep)
  next
    fix st xs vs p arg assume "queue_rep st xs vs"
    from enqueue_rep [OF this, of p "fst (alloc p st)" "snd (alloc p st)" arg]
    show "fst (osci_serialEnqueue p arg st) = Some ENQUEUE_SUCCESS
        \<and> (\<exists>x. queue_rep (snd (osci_serialEnqueue p arg st)) (xs @ [x]) (vs @ [arg]))"
      by (auto simp: osci_serialEnqueue_def split: prod.splits)
  next
    fix st x v p assume "queue_rep st [x] [v]"
    then show "osci_serialDequeue p st = Some (Some EMPTY_QUEUE, st)"
      by (subst osci_serialDequeue.simps) (auto simp: queue_rep_def split: option.splits)
  next
    fix st x y xs v vs p assume "queue_rep st (x # y # xs) (v # GUARD_VALUE # vs)"
    from dequeue_rep [OF this, of p] show "\<exists>st1. osci_serialDequeue p st = osci_serialDequeue p st1
        \<and> queue_rep st1 (y # xs) (GUARD_VALUE # vs)"
      by (intro exI [of _ "st\<lparr>first := y\<rparr>"]) (subst osci_serialDequeue.simps, auto)
  next
    fix st x y xs v w vs p assume "queue_rep st (x # y # xs) (v # w # vs)" "w \<noteq> GUARD_VALUE"
    with dequeue_rep [OF this(1), of p] show "\<exists>st1. osci_serialDequeue p st = Some (Some w, st1)
        \<and> queue_rep st1 (y # xs) (w # vs)"
      by (intro exI [of _ "recycle p x (st\<lparr>first := y\<rparr>)"]) (subst osci_serialDequeue.simps, auto)
  qed
  show "queue_object.apply_op osci_serialEnqueue osci_serialDequeue = osci_queue_op"
    by (intro ext) (simp add: queue_object.apply_op_def [OF i] osci_queue_op_def)
qed

section \<open>The flat-combining queue\<close>

text \<open>What fcqueue.c implements is one position off: the state is the dummy's value and the values
  behind it, and a dequeue that finds a value behind the dummy returns the dummy's.\<close>

fun fcqueue_spec :: "tid \<Rightarrow> queue_op \<Rightarrow> val64 \<times> val64 list \<Rightarrow> val64 option \<times> (val64 \<times> val64 list)" where
  "fcqueue_spec p (Enq v) (d, q) = (Some (- 1), (d, q @ [of_nat p]))"
| "fcqueue_spec p Deq (d, []) = (Some (- 1), (d, []))"
| "fcqueue_spec p Deq (d, v # q) = (Some d, (v, q))"

definition fcqueue_vals :: "queue_struct \<Rightarrow> val64 \<times> val64 list" where
  "fcqueue_vals st = (hd (all_vals st), tl (all_vals st))"

lemma fcqueue_op_refines:
  assumes "queue_wf st"
  shows "queue_wf (snd (fc_queue_op p op st))
     \<and> fcqueue_spec p op (fcqueue_vals st) = (fst (fc_queue_op p op st), fcqueue_vals (snd (fc_queue_op p op st)))"
proof -
  from assms obtain xs0 vs0 where "queue_rep st xs0 vs0" unfolding queue_wf_def by blast
  with queue_rep_nonempty obtain x xs v vs where r: "queue_rep st (x # xs) (v # vs)" "length vs = length xs" by blast
  then have vals: "fcqueue_vals st = (v, vs)" using queue_rep_wf [OF r(1)] by (simp add: fcqueue_vals_def)
  show ?thesis
  proof (cases op)
    case (Enq arg)
    from enqueue_rep [OF r(1), of p "fst (alloc p st)" "snd (alloc p st)" "of_nat p"]
    have "fst (fc_queue_op p op st) = Some (- 1)"
      "\<exists>y. queue_rep (snd (fc_queue_op p op st)) (x # xs @ [y]) (v # vs @ [of_nat p])"
      using Enq by (auto simp: fc_queue_op_def fc_serialEnqueue_def FCQueueApplyEnqueue_arg_def split: prod.splits)
    with Enq vals show ?thesis by (auto simp: fcqueue_vals_def dest: queue_rep_wf)
  next
    case Deq
    show ?thesis
    proof (cases vs)
      case Nil
      with r have "queue_rep st [x] [v]" by simp
      then have "fc_queue_op p op st = (Some (- 1), st)" using Deq
        by (auto simp: fc_queue_op_def fc_serialDequeue_def queue_rep_def split: option.splits)
      with Nil Deq vals assms show ?thesis by simp
    next
      case (Cons w ws)
      with r obtain y ys where "xs = y # ys" by (cases xs) auto
      with Cons r have "queue_rep st (x # y # ys) (v # w # ws)" by simp
      from dequeue_rep [OF this, of p] Deq have "fst (fc_queue_op p op st) = Some v"
        "queue_rep (snd (fc_queue_op p op st)) (y # ys) (w # ws)"
        by (auto simp: fc_queue_op_def fc_serialDequeue_def)
      with Cons Deq vals queue_rep_wf [OF this(2)] show ?thesis by (simp add: fcqueue_vals_def prod_eq_iff)
    qed
  qed
qed

interpretation fc_queue: object_refinement fc_queue_op fcqueue_spec queue_wf fcqueue_vals id id
  by unfold_locales (use fcqueue_op_refines in auto)

lemma fc_init_vals: "queue_wf FCQueueInit \<and> fcqueue_vals FCQueueInit = (INT_MIN64, [])"
  using queue_rep_wf [OF queue_init_rep [of INT_MIN64]] by (simp add: FCQueueInit_def fcqueue_vals_def)

section \<open>Properties\<close>

text \<open>C27. The serial operations of the CC, DSM, H and Osci queues are a first-in-first-out queue over
  memory: the dequeue, a recursion with no bound in the code, returns on every well-formed queue, both
  keep the list well formed and return and leave what the queue of values gives. A value equal to
  \<^verbatim>\<open>GUARD_VALUE\<close> is skipped by the dequeue as if it were a dummy.\<close>

theorem serial_queues_fifo:
  assumes "queue_wf st" and "f \<in> {cc_queue_op, dsm_queue_op, h_queue_op, osci_queue_op}"
  shows "queue_wf (snd (f p op st))
     \<and> queue_spec p op (queue_vals st) = (fst (f p op st), queue_vals (snd (f p op st)))"
  using assms cc_queue.op_refines dsm_queue.op_refines h_queue.op_refines osci_queue.op_refines by auto

theorem serial_queues_fifo_witness:
  "fst (cc_queue_op 2 Deq (snd (cc_queue_op 1 (Enq 9) (snd (cc_queue_op 0 (Enq 7) CCQueueInit))))) = Some 7"
proof -
  let ?f = cc_queue_op let ?s1 = "snd (?f 0 (Enq 7) CCQueueInit)"
  have neq: "(7 :: val64) \<noteq> GUARD_VALUE" by (simp add: GUARD_VALUE_def)
  have 1: "queue_wf ?s1 \<and> queue_vals ?s1 = [7]"
    using serial_queues_fifo [of CCQueueInit ?f 0 "Enq 7"] cc_queue.init_vals by simp
  let ?s2 = "snd (?f 1 (Enq 9) ?s1)"
  have 2: "queue_wf ?s2 \<and> queue_vals ?s2 = [7, 9]"
    using serial_queues_fifo [of ?s1 ?f 1 "Enq 9"] 1 by simp
  show ?thesis using serial_queues_fifo [of ?s2 ?f 2 Deq] 2 neq by simp
qed

text \<open>C40. The flat-combining queue is not a queue of its arguments: it keeps its memory well formed,
  but an enqueue stores the caller's \<^verbatim>\<open>pid\<close>, both operations return \<open>-1\<close> for success
  and for emptiness, and a dequeue returns the value that stood before the one it removes, so the
  first one gives the dummy's \<^verbatim>\<open>INT_MIN\<close>.\<close>

theorem fcqueue_one_off:
  assumes "queue_wf st"
  shows "queue_wf (snd (fc_queue_op p op st))
     \<and> fcqueue_spec p op (fcqueue_vals st) = (fst (fc_queue_op p op st), fcqueue_vals (snd (fc_queue_op p op st)))"
  using assms by (rule fcqueue_op_refines)

theorem fcqueue_one_off_witness:
  "fst (fc_queue_op 2 Deq (snd (fc_queue_op 5 (Enq 7) FCQueueInit))) = Some INT_MIN64
   \<and> fcqueue_vals (snd (fc_queue_op 2 Deq (snd (fc_queue_op 5 (Enq 7) FCQueueInit)))) = (5, [])"
proof -
  let ?s1 = "snd (fc_queue_op 5 (Enq 7) FCQueueInit)"
  have 1: "queue_wf ?s1 \<and> fcqueue_vals ?s1 = (INT_MIN64, [5])"
    using fcqueue_one_off [of FCQueueInit 5 "Enq 7"] fc_init_vals by simp
  show ?thesis using fcqueue_one_off [of ?s1 2 Deq] 1 by simp
qed

end
