(* ===== verification/Spec2Isabelle.thy ===== *)
theory Spec2Isabelle
  imports Primitives Tvec Backoff Fastrand Pool Barrier ClhLock McsLock CcSynch DsmSynch OsciPools FlatCombining Oyama Threads HSynchStart SimPoolSize LfObject LfStack
    MsQueue HashTable StackObjects QueueObjects
begin

text \<open>
  A verification development for the Synch framework (libconcurrent): combining algorithms,
  locks, lock-free objects and the stacks, queues and hash tables built from them, with the
  primitives they rest on.

  \<^bold>\<open>How the program is put together.\<close> The directory primitives/ gives atomic instructions,
  a barrier, backoff, random numbers, an object pool and thread placement. The combining
  algorithms of concurrent/ take a sequential operation \<^verbatim>\<open>sfunc(state, arg, pid)\<close> and make it
  concurrent: a thread announces its request, one thread becomes the combiner and runs the
  announced requests. The stacks, queues and hash tables give such sequential operations on linked
  nodes, which they allocate from the pool of whichever thread combines. The lock-free objects work
  on shared words with compare-and-swap.

  \<^bold>\<open>How it is modelled.\<close> A concurrent algorithm is a machine: a record of the shared variables,
  of the local variables of every thread and of its program point; one step of a thread is one
  access to shared memory, so every interleaving of accesses is an interleaving of steps. The steps
  are total functions; following a null pointer is a program point of its own (\<open>..._fault\<close>) that
  the safety properties exclude. A machine's runs are \<open>traces\<close> (Linearizability), which collect the
  calls and returns. Memory is sequentially consistent, so the fences of the code have no effect
  here. Variables that only serve the proofs (the queue of nodes, for example) are marked as ghosts
  in the records; no step reads them. Sequential code is a function on a record of its state; a
  memory fault or a failed allocation is \<open>None\<close>.

  \<^bold>\<open>Interfaces.\<close> Linearizability states what the objects promise: the atomic object and the
  locales \<open>linearization\<close> and \<open>choice_linearization\<close> (a machine simulates the atomic object) and
  \<open>object_refinement\<close> (a sequential implementation can be replaced by its specification). Lock
  states what a lock promises and proves once that an object whose operations run inside any such
  lock is linearizable. Every locale is interpreted on the definitions of the code: ClhLock and
  McsLock for locks; CcSynch, DsmSynch, FlatCombining,
  Oyama, LfObject and LfStack for linearization; MsQueue for the
  variant with later choices; StackObjects, QueueObjects and HashTable for the sequential objects.

  \<^bold>\<open>Theories.\<close>
  \<^item> Prelude: reachability, runs of schedules, lemmas on words and lists.
  \<^item> Primitives (primitives.c and .h): atomic instructions, the emulations without compiler
    support, bit searches, aligned allocation. \<open>aligned_memory_misses_failure\<close>: a failed
    allocation that passes the test for it.
  \<^item> Tvec (tvec.h): toggle vectors as lists of 64-bit words, against the set of threads.
  \<^item> Backoff, Fastrand (backoff.c, fastrand.c): 32-bit arithmetic with its wrap-around, closed form
    and bounds; the thread-local state is passed along.
  \<^item> Pool (pool.c): blocks, free list and rollback; freshness of allocations, round trip of recycling.
  \<^item> Barrier (barrier.c): rounds of a barrier for any number of threads.
  \<^item> Lock, ClhLock, McsLock (clh.c, mcs.c): mutual exclusion, order of arrival, hand-over.
  \<^item> CcSynch, DsmSynch (ccsynch.c, dsmsynch.c): the combining algorithms; linearizable for every
    \<^verbatim>\<open>sfunc\<close>, one combiner at a time. The help bound is the code's factor times the number of
    threads; nothing depends on its value.
  \<^item> FlatCombining, Oyama (fc.c, oyama.c): the combining algorithms that keep a list of requests
    under a lock word; linearizable, one lock holder at a time. The constants of the clean-up and of
    the help bound are the code's. Flat combining runs a request under the combiner's \<^verbatim>\<open>pid\<close>, so
    its specification is an operation that ignores the \<^verbatim>\<open>pid\<close>.
  \<^item> Fibers, Threads (uthreads.c, threadtools.c): the scheduler of the fibers, fair and terminating;
    identifiers and the placement of threads on cores, the start of threads. The operating system and
    libnuma are parameters.
  \<^item> HSynch, HSynchCorrect, HSynchStart (hsynch.c): a CC-Synch queue for every NUMA node and a CLH lock among
    their combiners. HSynchCorrect reads the queue of a NUMA node off the state as a CC-Synch object, so
    that the invariant of CcSynch carries over, and the lock's interface keeps combiners of different
    nodes apart while they read and write the object. HSynchStart is about the initialisation: what it
    guarantees without libnuma and where it fails with it.
  \<^item> Osci, OsciCorrect, OsciRuns, OsciPools (osci.c): the combining algorithm for fibers, which take turns on their
    posix thread. Osci is the machine for any number of fibers per thread; OsciCorrect reads it, with one
    fiber per thread, as a DSM-Synch object; OsciRuns has its linearizability and a run in which a fiber
    joins another; OsciPools has what the initialisation makes room for, also in oscistack.c and osciqueue.c.
  \<^item> Sim, SimInvariant, SimSteps, SimCorrect, SimPoolSize (sim.c): the wait-free universal construction.
    Sim is the machine; SimInvariant states its invariant, a part for the shared variables and one for
    every thread and program point, and shows what steps of other threads keep; SimSteps goes through
    the steps; SimCorrect proves linearizability and a bound on the steps of a call; SimPoolSize shows a run
    that goes wrong with two records per thread. The sequence number is cut to its 40 bits and the index
    to its 24 bits; the theorems speak of runs before the number wraps around.
  \<^item> LfObject (lfuobject.c and the fetch-and-add and swap loops of primitives.c), LfStack
    (lfstack.c), MsQueue (msqueue.c): lock-free objects, linearizable.
  \<^item> Nodes, StackObjects, QueueObjects (the *stack.c and *queue.c files): the sequential operations
    on linked nodes against lists.
  \<^item> HashTable (clhhash.c, dsmhash.c): requests on a bucket against association lists.
  \<^item> This theory composes the combining algorithms with the stacks.

  \<^bold>\<open>Loops and fuel.\<close> Spinning loops are steps that leave the state as it is. Loops through a list
  whose end the code does not bound are partial functions and are shown to return. Loops over an
  index are structural recursion. Fuel is used in the object pool only: two turns are shown to be enough
  for an allocation, two more than the number of blocks for a rollback. Memory is never exhausted:
  the calls that end the program when the allocator fails are not modelled, except in Primitives.

  \<^bold>\<open>Not modelled.\<close> The weak memory orderings of the machine; DEBUG counters; timing, PAPI and NUMA
  system calls; the benchmark drivers and the parsing of their arguments; SimStack and
  SimQueue, the variants of Sim for stacks and queues; LCRQ. Osci is modelled for any number of
  fibers per thread, its linearizability is shown for one. The two combining instances of a combining queue, which run concurrently on its two ends,
  are not composed.
\<close>

section \<open>Composed objects\<close>

lemma ccstack_history:
  "traces (CCSynchStructInit n x0 (CCStackInit, c)) (cc_ok n) (cc_exec (pooled cc_serialPushPop)) cc_obs l h
   \<Longrightarrow> linearizable (stack_spec EMPTY_STACK) [] (map (map_event stack_arg id) h)"
  by (rule cc_stack.linearizable_stack) (rule cc.linearizable_traces)

lemma dsmstack_history:
  "traces (DSMSynchStructInit n x0 (DSMStackInit, c)) (dsm_ok n) (dsm_exec (pooled dsm_serialPushPop)) dsm_obs l h
   \<Longrightarrow> linearizable (stack_spec EMPTY_STACK) [] (map (map_event stack_arg id) h)"
  by (rule dsm_stack.linearizable_stack) (rule dsm.linearizable_traces)

text \<open>Flat combining passes the combiner's \<^verbatim>\<open>pid\<close>, and the stack's nodes come from the combiner's
  pool: \<open>pooled\<close> does not look at the \<open>pid\<close> of the request.\<close>

lemma fcstack_history:
  assumes "traces (FCInit n m x0 (FCStackInit, c)) (fc_ok n) (fc_exec (pooled fc_serialPushPop)) fc_obs l h"
  shows "linearizable (stack_spec (- 1)) [] (map (map_event stack_arg id) h)"
proof (rule fc_stack.linearizable_stack)
  have "pooled fc_serialPushPop = (\<lambda>_. pooled fc_serialPushPop 0)" by (simp add: pooled_def fun_eq_iff)
  then show "linearizable (pooled fc_serialPushPop) (FCStackInit, c) h"
    using fc.linearizable_traces [of n m x0 "(FCStackInit, c)" "pooled fc_serialPushPop 0" l h] assms by metis
qed

lemma hstack_history:
  assumes "hsynch_start m st ts ps n r x0 (HStackInit, c) = Some l0" and "distinct ps" "set ps = {..<unat n}" and "pools_suffice l0"
    and "traces l0 hs_ok (hs_exec (pooled h_serialPushPop)) hs_obs l h"
  shows "linearizable (stack_spec EMPTY_STACK) [] (map (map_event stack_arg id) h)"
  by (rule h_stack.linearizable_stack) (rule linearization.linearizable_traces [OF hsynch_linearization [OF assms(1-4)] assms(5)])

lemma oscistack_history:
  assumes "osci_init n 1 m1 x0 (OsciStackInit, c) = Some l0" and "traces l0 osci_ok (osci_exec (pooled osci_serialPushPop)) osci_obs l h"
  shows "linearizable (stack_spec EMPTY_STACK) [] (map (map_event stack_arg id) h)"
  by (rule osci_stack.linearizable_stack) (rule osci.linearizable_traces, use assms(2) osci_init_start [OF assms(1)] in simp)

text \<open>C5. The concurrent stacks that run \<^verbatim>\<open>serialPushPop\<close> under CC-Synch, DSM-Synch, H-Synch, Osci (with
  one fiber per thread) and flat combining, with linked nodes taken from and given back to the pools of
  whichever threads combine, are linearizable stacks of values in every history in which nobody pushes the
  value \<^verbatim>\<open>POP_OP\<close> (\<^verbatim>\<open>INT_MIN\<close>), which the code executes as a pop. For H-Synch the initialisation must
  stay within its arrays (\<open>hsynch_start\<close> gives a state) and no NUMA node may have more threads than its
  pool has nodes (\<open>pools_suffice\<close>). A pop of an empty stack gives \<^verbatim>\<open>EMPTY_STACK\<close>, and -1 in the
  flat-combining stack.\<close>

theorem combining_stacks_linearizable:
  assumes "\<not> pushes_pop_op h"
  shows "(traces (CCSynchStructInit n x0 (CCStackInit, c)) (cc_ok n) (cc_exec (pooled cc_serialPushPop)) cc_obs la
        (map (map_event stack_request id) h)
      \<or> traces (DSMSynchStructInit n x0 (DSMStackInit, c)) (dsm_ok n) (dsm_exec (pooled dsm_serialPushPop)) dsm_obs lb
        (map (map_event stack_request id) h)
      \<longrightarrow> linearizable (stack_spec EMPTY_STACK) [] h)
    \<and> (hsynch_start mc st ts ps k r x0 (HStackInit, c) = Some l0 \<and> distinct ps \<and> set ps = {..<unat k} \<and> pools_suffice l0
        \<and> traces l0 hs_ok (hs_exec (pooled h_serialPushPop)) hs_obs ld (map (map_event stack_request id) h)
      \<longrightarrow> linearizable (stack_spec EMPTY_STACK) [] h)
    \<and> (osci_init n 1 m1 x0 (OsciStackInit, c) = Some l1
        \<and> traces l1 osci_ok (osci_exec (pooled osci_serialPushPop)) osci_obs le (map (map_event stack_request id) h)
      \<longrightarrow> linearizable (stack_spec EMPTY_STACK) [] h)
    \<and> (traces (FCInit n m x0 (FCStackInit, c)) (fc_ok n) (fc_exec (pooled fc_serialPushPop)) fc_obs lc
        (map (map_event stack_request id) h)
      \<longrightarrow> linearizable (stack_spec (- 1)) [] h)"
  using ccstack_history [of n x0 c la "map (map_event stack_request id) h"]
    dsmstack_history [of n x0 c lb "map (map_event stack_request id) h"]
    hstack_history [of mc st ts ps k r x0 c l0 ld "map (map_event stack_request id) h"]
    oscistack_history [of n m1 x0 c l1 le "map (map_event stack_request id) h"]
    fcstack_history [of n m x0 c lc "map (map_event stack_request id) h"]
  unfolding stack_arg_request [OF assms] by blast

definition ccstack_demo :: "val64 cc_act list" where
  "ccstack_demo = cc_act.Invoke 0 7 # replicate 7 (cc_act.Step 0) @ cc_act.Invoke 1 POP_OP # replicate 7 (cc_act.Step 1)
     @ replicate 15 (cc_act.Step 0) @ replicate 3 (cc_act.Step 1)"

theorem combining_stacks_linearizable_witness:
  "linearizable (stack_spec EMPTY_STACK) []
     [Call 0 (Push 7), Call 1 Pop, Ret 0 (Some PUSH_SUCCESS), Ret 1 (Some 7)]"
proof -
  have neq: "(7 :: val64) \<noteq> POP_OP" by (simp add: POP_OP_def INT_MIN64_def)
  obtain l where run: "run_trace (cc_ok 2) (cc_exec (pooled cc_serialPushPop)) cc_obs ccstack_demo
      (CCSynchStructInit 2 0 (CCStackInit, \<lambda>_. 0)) =
      Some (l, [Call 0 7, Call 1 POP_OP, Ret 0 (Some PUSH_SUCCESS), Ret 1 (Some 7)])"
    using neq by (simp add: ccstack_demo_def CCSynchStructInit_def CCSYNCH_HELP_FACTOR_def replicate_num pooled_def
        cc_serialPushPop_def CCStackInit_def alloc_def recycle_def)
  define h :: "(stack_op, val64 option) event list" where "h = [Call 0 (Push 7), Call 1 Pop, Ret 0 (Some PUSH_SUCCESS), Ret 1 (Some 7)]"
  have h: "\<not> pushes_pop_op h" "map (map_event stack_request id) h = [Call 0 7, Call 1 POP_OP, Ret 0 (Some PUSH_SUCCESS), Ret 1 (Some 7)]"
    using neq by (auto simp: h_def pushes_pop_op_def)
  from combining_stacks_linearizable [OF h(1), THEN conjunct1, THEN mp, OF disjI1] run_trace_traces [OF run]
  show ?thesis unfolding h(2) [symmetric] h_def [symmetric] by blast
qed

section \<open>One combiner at a time\<close>

text \<open>C19. Under each of the combining algorithms at most one thread has the right to run the sequential
  operation at any time, whatever the interleaving. H-Synch: if the initialisation stays within its arrays
  and no NUMA node has more threads than its pool has nodes; Osci: with one fiber per thread.\<close>

theorem combiners_exclusive:
  shows "(reach (CCSynchStructInit n x0 s0) (act_step (cc_ok n) (cc_exec f)) la \<longrightarrow>
      CcSynch.combining (CCSynchStruct.pc la p) \<and> CcSynch.combining (CCSynchStruct.pc la q) \<longrightarrow> p = q)
    \<and> (reach (DSMSynchStructInit n x0 s0) (act_step (dsm_ok n) (dsm_exec f)) lb \<longrightarrow>
      DsmSynch.combining (DSMSynchStruct.pc lb p) \<and> DsmSynch.combining (DSMSynchStruct.pc lb q) \<longrightarrow> p = q)
    \<and> (reach (FCInit n m x0 s0) (act_step (fc_ok n) (fc_exec f)) lc \<longrightarrow>
      FlatCombining.holding (FCStruct.pc lc p) \<and> FlatCombining.holding (FCStruct.pc lc q) \<longrightarrow> p = q)
    \<and> (reach (OyamaInit n m' x0 s0) (act_step (oy_ok n) (oy_exec f)) ld \<longrightarrow>
      Oyama.holding (OyamaStruct.pc ld p) \<and> Oyama.holding (OyamaStruct.pc ld q) \<longrightarrow> p = q)
    \<and> (hsynch_start mc st ts ps k r x0 s0 = Some l0 \<and> distinct ps \<and> set ps = {..<unat k} \<and> pools_suffice l0
        \<and> reach l0 (act_step hs_ok (hs_exec f)) le \<longrightarrow>
      lock_of (h_pc le p) = Holding \<and> lock_of (h_pc le q) = Holding \<longrightarrow> p = q)
    \<and> (osci_init n 1 m1 x0 s0 = Some l1 \<and> reach l1 (act_step osci_ok (osci_exec f)) lf \<longrightarrow>
      o_combining (o_pc lf p) \<and> o_combining (o_pc lf q) \<longrightarrow> p = q)"
  using cc_exclusive [of n x0 s0 f la p q] dsm_exclusive [of n x0 s0 f lb p q] fc_exclusive [of n m x0 s0 f lc p q]
    oy_exclusive [of n m' x0 s0 f ld p q] hsynch_exclusive [of mc st ts ps k r x0 s0 l0 f le p q]
    osci_exclusive [of n m1 x0 s0 l1 f lf p q] by blast

theorem combiners_exclusive_witness: "CcSynch.combining (CCSynchStruct.pc cc_demo_state 0) \<and> \<not> CcSynch.combining (CCSynchStruct.pc cc_demo_state 1)
   \<and> FlatCombining.holding (FCStruct.pc fc_demo_state 0) \<and> \<not> FlatCombining.holding (FCStruct.pc fc_demo_state 1)"
proof -
  have "CcSynch.combining (CCSynchStruct.pc cc_demo_state 0)" "FlatCombining.holding (FCStruct.pc fc_demo_state 0)"
    using cc_demo_pcs fc_demo_pcs by simp_all
  then show ?thesis
    using combiners_exclusive [where la = cc_demo_state and lc = fc_demo_state and p = 0 and q = 1]
      run_acts_reachable [OF cc_demo_run] run_acts_reachable [OF fc_demo_run] by (metis zero_neq_one)
qed

end
